(* ===== verification/Prelude.thy ===== *)
theory Prelude
  imports Main "HOL-Library.Word" "HOL-Library.Monad_Syntax"
begin

text \<open>
  The vocabulary the components share.

  \<^item> Memory is a list of bytes. A block returned by the allocator or enlarged by
    \<open>zrealloc\<close> holds bytes the program did not write: they are the values of a
    parameter \<open>g\<close> (\<open>g i\<close> is what the allocator left at offset \<open>i\<close>), so a theorem
    about an operation holds whatever they are.
  \<^item> A read or a write outside a block is undefined behaviour in C. The accessors
    \<open>mem_read\<close> and \<open>mem_write\<close> return \<open>None\<close> there, and every operation built on
    them is in the option monad: that an operation returns \<open>Some\<close> is its memory safety.
  \<^item> Integers are little endian byte strings in the serialised formats; \<open>le_enc\<close>,
    \<open>le_dec\<close> and \<open>le_sdec\<close> are the reference encoding and its inverses.
\<close>

type_synonym byte = "8 word"
type_synonym bytes = "8 word list"
type_synonym fresh_mem = "nat \<Rightarrow> 8 word"

text \<open>Facts on reading and writing blocks of memory.\<close>

named_theorems mem_simps

section \<open>Option monad\<close>

lemma bind_eq_Some_conv': "(m \<bind> f) = Some y \<longleftrightarrow> (\<exists>x. m = Some x \<and> f x = Some y)"
  by (cases m) auto

definition ensure :: "bool \<Rightarrow> unit option" where
  "ensure b = (if b then Some () else None)"

lemma ensure_simps [simp]:
  "ensure True = Some ()" "ensure False = None"
  "(ensure b = Some u) = b" "(ensure b = None) = (\<not> b)"
  by (auto simp: ensure_def)

lemma ensure_bind [simp]: "(ensure b \<bind> f) = (if b then f () else None)"
  by (simp add: ensure_def)

section \<open>Blocks of memory\<close>

definition zmalloc :: "fresh_mem \<Rightarrow> nat \<Rightarrow> bytes" where
  "zmalloc g n = map g [0..<n]"

definition zrealloc :: "fresh_mem \<Rightarrow> bytes \<Rightarrow> nat \<Rightarrow> bytes" where
  "zrealloc g bs n = take n bs @ map g [length bs..<n]"

definition mem_read :: "bytes \<Rightarrow> nat \<Rightarrow> nat \<Rightarrow> bytes option" where
  "mem_read bs i n = (if i + n \<le> length bs then Some (take n (drop i bs)) else None)"

definition mem_write :: "bytes \<Rightarrow> nat \<Rightarrow> bytes \<Rightarrow> bytes option" where
  "mem_write bs i xs =
     (if i + length xs \<le> length bs then Some (take i bs @ xs @ drop (i + length xs) bs) else None)"

definition mem_byte :: "bytes \<Rightarrow> nat \<Rightarrow> byte option" where
  "mem_byte bs i = (if i < length bs then Some (bs ! i) else None)"

text \<open>\<open>memmove\<close>: the source is read before the destination is written, so overlap is harmless.\<close>

definition memmove :: "bytes \<Rightarrow> nat \<Rightarrow> nat \<Rightarrow> nat \<Rightarrow> bytes option" where
  "memmove bs dst src n = do { xs \<leftarrow> mem_read bs src n; mem_write bs dst xs }"

lemma length_zmalloc [simp, mem_simps]: "length (zmalloc g n) = n"
  by (simp add: zmalloc_def)

lemma length_zrealloc [simp, mem_simps]: "length (zrealloc g bs n) = n"
  by (simp add: zrealloc_def)

lemma take_zrealloc [mem_simps]: "k \<le> n \<Longrightarrow> k \<le> length bs \<Longrightarrow> take k (zrealloc g bs n) = take k bs"
  by (simp add: zrealloc_def min_def)

lemma zrealloc_grow:
  assumes "length bs \<le> n"
  obtains j where "zrealloc g bs n = bs @ j" and "length j = n - length bs"
  using assms by (simp add: zrealloc_def)

lemma zrealloc_shrink: "n \<le> length bs \<Longrightarrow> zrealloc g bs n = take n bs"
  by (simp add: zrealloc_def)

lemma mem_read_Some [mem_simps]:
  "i + n \<le> length bs \<Longrightarrow> mem_read bs i n = Some (take n (drop i bs))"
  by (simp add: mem_read_def)

lemma mem_write_Some [mem_simps]:
  "i + length xs \<le> length bs \<Longrightarrow>
     mem_write bs i xs = Some (take i bs @ xs @ drop (i + length xs) bs)"
  by (simp add: mem_write_def)

lemma mem_write_length: "mem_write bs i xs = Some bs' \<Longrightarrow> length bs' = length bs"
  by (auto simp: mem_write_def split: if_splits)

lemma mem_byte_Some [mem_simps]: "i < length bs \<Longrightarrow> mem_byte bs i = Some (bs ! i)"
  by (simp add: mem_byte_def)

lemma memmove_Some [mem_simps]:
  "src + n \<le> length bs \<Longrightarrow> dst + n \<le> length bs \<Longrightarrow>
     memmove bs dst src n = Some (take dst bs @ take n (drop src bs) @ drop (dst + n) bs)"
  by (simp add: memmove_def mem_read_def mem_write_def)

text \<open>Accesses to a block given in pieces.\<close>

lemma mem_read_mid: "i = length a \<Longrightarrow> n = length b \<Longrightarrow> mem_read (a @ b @ c) i n = Some b"
  by (simp add: mem_read_def)

lemma mem_write_mid: "i = length a \<Longrightarrow> length x = length b \<Longrightarrow> mem_write (a @ b @ c) i x = Some (a @ x @ c)"
  by (simp add: mem_write_def)

lemma mem_byte_mid: "i = length a \<Longrightarrow> mem_byte (a @ b # c) i = Some b"
  by (simp add: mem_byte_def nth_append)

section \<open>Little endian integers\<close>

fun le_enc :: "nat \<Rightarrow> nat \<Rightarrow> bytes" where
  "le_enc 0 v = []"
| "le_enc (Suc n) v = of_nat (v mod 256) # le_enc n (v div 256)"

fun le_dec :: "bytes \<Rightarrow> nat" where
  "le_dec [] = 0"
| "le_dec (b # bs) = unat b + 256 * le_dec bs"

text \<open>Two's complement: the \<open>n\<close>-byte image of an integer and the signed reading of bytes.\<close>

definition le_senc :: "nat \<Rightarrow> int \<Rightarrow> bytes" where
  "le_senc n v = le_enc n (nat (v mod 256 ^ n))"

definition le_sdec :: "bytes \<Rightarrow> int" where
  "le_sdec bs =
     (let v = int (le_dec bs) in
      if 2 * v < 256 ^ length bs then v else v - 256 ^ length bs)"

definition sfits :: "nat \<Rightarrow> int \<Rightarrow> bool" where
  "sfits n v \<longleftrightarrow> - (256 ^ n) \<le> 2 * v \<and> 2 * v < 256 ^ n"

lemma length_le_enc [simp]: "length (le_enc n v) = n"
  by (induction n arbitrary: v) auto

lemma length_le_senc [simp]: "length (le_senc n v) = n"
  by (simp add: le_senc_def)

lemma unat_byte_of_nat [simp]: "v < 256 \<Longrightarrow> unat (of_nat v :: byte) = v"
  by (simp add: unat_of_nat)

lemma unat_byte_less [simp]: "unat (b :: byte) < 256"
  using unsigned_less [of b] by simp

lemma le_dec_le_enc [simp]: "le_dec (le_enc n v) = v mod 256 ^ n"
proof (induction n arbitrary: v)
  case 0
  then show ?case by simp
next
  case (Suc n)
  have "v mod 256 ^ Suc n = v mod 256 + 256 * (v div 256 mod 256 ^ n)"
    by (metis mod_mult2_eq power_Suc add.commute)
  with Suc show ?case by simp
qed

lemma le_dec_less: "le_dec bs < 256 ^ length bs"
proof (induction bs)
  case Nil
  then show ?case by simp
next
  case (Cons b bs)
  then have "256 * le_dec bs + 256 \<le> 256 * 256 ^ length bs" by linarith
  with unat_byte_less [of b] have "unat b + 256 * le_dec bs < 256 * 256 ^ length bs" by linarith
  then show ?case by simp
qed

lemma le_enc_le_dec [simp]: "le_enc (length bs) (le_dec bs) = bs"
  by (induction bs) auto

lemma sfits_mono: "sfits n v \<Longrightarrow> n \<le> m \<Longrightarrow> sfits m v"
proof -
  assume f: "sfits n v" and "n \<le> m"
  then have "(256::int) ^ n \<le> 256 ^ m" by (simp only: power_increasing)
  with f show ?thesis unfolding sfits_def by linarith
qed

lemma le_sdec_le_senc [simp]:
  assumes "sfits n v"
  shows "le_sdec (le_senc n v) = v"
proof -
  let ?m = "256 ^ n :: int"
  have m: "0 < ?m" by simp
  have "int (nat (v mod ?m) mod 256 ^ n) = v mod ?m"
    by (simp add: zmod_int)
  then have dec: "int (le_dec (le_senc n v)) = v mod ?m"
    by (simp add: le_senc_def)
  show ?thesis
  proof (cases "0 \<le> v")
    case True
    with assms have "v mod ?m = v" by (simp add: sfits_def)
    with dec assms show ?thesis by (simp add: le_sdec_def sfits_def)
  next
    case False
    with assms have "v mod ?m = v + ?m"
      by (subst mod_add_self2 [symmetric], intro mod_pos_pos_trivial) (auto simp: sfits_def)
    with dec assms False show ?thesis by (simp add: le_sdec_def sfits_def)
  qed
qed

lemma sfits_le_sdec: "sfits (length bs) (le_sdec bs)"
proof -
  have "int (le_dec bs) < 256 ^ length bs"
    using le_dec_less [of bs] by (metis of_nat_less_iff of_nat_numeral of_nat_power)
  then have "2 * int (le_dec bs) < 3 * 256 ^ length bs" and "0 \<le> int (le_dec bs)"
    by linarith+
  then show ?thesis by (auto simp: le_sdec_def sfits_def Let_def)
qed

section \<open>Arrays of equal-sized elements\<close>

text \<open>An array whose elements are encoded in \<open>n\<close> bytes each, laid out contiguously.\<close>

named_theorems array_simps

lemma length_concat_uniform [array_simps]:
  "(\<And>x. length (f x) = n) \<Longrightarrow> length (concat (map f xs)) = n * length xs"
  by (induction xs) auto

lemma take_concat_uniform [array_simps]:
  "(\<And>x. length (f x) = n) \<Longrightarrow> take (n * i) (concat (map f xs)) = concat (map f (take i xs))"
proof (induction xs arbitrary: i)
  case (Cons x xs)
  then show ?case by (cases i) auto
qed simp

lemma drop_concat_uniform:
  "(\<And>x. length (f x) = n) \<Longrightarrow> drop (n * i) (concat (map f xs)) = concat (map f (drop i xs))"
proof (induction xs arbitrary: i)
  case (Cons x xs)
  then show ?case by (cases i) auto
qed simp

lemma nth_concat_uniform [array_simps]:
  assumes "\<And>x. length (f x) = n" and "i < length xs"
  shows "take n (drop (n * i) (concat (map f xs))) = f (xs ! i)"
proof -
  have "drop (n * i) (concat (map f xs)) = f (xs ! i) @ concat (map f (drop (Suc i) xs))"
    using assms by (simp add: drop_concat_uniform Cons_nth_drop_Suc [symmetric])
  with assms(1) show ?thesis by simp
qed

end
