(* ===== verification/Endianconv.thy ===== *)
theory Endianconv
  imports Prelude
begin

text \<open>
  The byte order helpers of \<open>endianconv.c\<close> and \<open>endianconv.h\<close>. A host is little or big
  endian; \<open>host_enc\<close> and \<open>host_dec\<close> are what an assignment through a pointer of that width
  stores and reads. The \<open>ifbe\<close> macros are expanded by the preprocessor according to
  \<open>BYTE_ORDER\<close>, which is the host argument here. The lemmas show that the macros make
  the serialised form little endian on either host.
\<close>

datatype host = Little | Big

fun host_enc :: "host \<Rightarrow> nat \<Rightarrow> nat \<Rightarrow> bytes" where
  "host_enc Little n v = le_enc n v"
| "host_enc Big n v = rev (le_enc n v)"

fun host_dec :: "host \<Rightarrow> bytes \<Rightarrow> nat" where
  "host_dec Little bs = le_dec bs"
| "host_dec Big bs = le_dec (rev bs)"

fun host_senc :: "host \<Rightarrow> nat \<Rightarrow> int \<Rightarrow> bytes" where
  "host_senc Little n v = le_senc n v"
| "host_senc Big n v = rev (le_senc n v)"

fun host_sdec :: "host \<Rightarrow> bytes \<Rightarrow> int" where
  "host_sdec Little bs = le_sdec bs"
| "host_sdec Big bs = le_sdec (rev bs)"

section \<open>Swapping in memory\<close>

definition memrev16 :: "bytes \<Rightarrow> bytes" where
  "memrev16 x =
     (let t = x ! 0; x = x[0 := x ! 1]; x = x[1 := t]
      in x)"

definition memrev32 :: "bytes \<Rightarrow> bytes" where
  "memrev32 x =
     (let t = x ! 0; x = x[0 := x ! 3]; x = x[3 := t];
          t = x ! 1; x = x[1 := x ! 2]; x = x[2 := t]
      in x)"

definition memrev64 :: "bytes \<Rightarrow> bytes" where
  "memrev64 x =
     (let t = x ! 0; x = x[0 := x ! 7]; x = x[7 := t];
          t = x ! 1; x = x[1 := x ! 6]; x = x[6 := t];
          t = x ! 2; x = x[2 := x ! 5]; x = x[5 := t];
          t = x ! 3; x = x[3 := x ! 4]; x = x[4 := t]
      in x)"

definition intrev16 :: "host \<Rightarrow> nat \<Rightarrow> nat" where
  "intrev16 e v = host_dec e (memrev16 (host_enc e 2 v))"

definition intrev32 :: "host \<Rightarrow> nat \<Rightarrow> nat" where
  "intrev32 e v = host_dec e (memrev32 (host_enc e 4 v))"

definition intrev64 :: "host \<Rightarrow> nat \<Rightarrow> nat" where
  "intrev64 e v = host_dec e (memrev64 (host_enc e 8 v))"

text \<open>The macros of \<open>endianconv.h\<close>.\<close>

fun memrev16ifbe :: "host \<Rightarrow> bytes \<Rightarrow> bytes" where
  "memrev16ifbe Little p = p"
| "memrev16ifbe Big p = memrev16 p"

fun memrev32ifbe :: "host \<Rightarrow> bytes \<Rightarrow> bytes" where
  "memrev32ifbe Little p = p"
| "memrev32ifbe Big p = memrev32 p"

fun memrev64ifbe :: "host \<Rightarrow> bytes \<Rightarrow> bytes" where
  "memrev64ifbe Little p = p"
| "memrev64ifbe Big p = memrev64 p"

fun htonu64 :: "host \<Rightarrow> nat \<Rightarrow> nat" where
  "htonu64 Big v = v"
| "htonu64 Little v = intrev64 Little v"

fun ntohu64 :: "host \<Rightarrow> nat \<Rightarrow> nat" where
  "ntohu64 Big v = v"
| "ntohu64 Little v = intrev64 Little v"

section \<open>The swaps reverse the object's bytes\<close>

lemma memrev16_rev: "length x = 2 \<Longrightarrow> memrev16 x = rev x"
  by (rule nth_equalityI)
     (auto simp: memrev16_def Let_def nth_list_update rev_nth less_Suc_eq numeral_2_eq_2)

lemma memrev32_rev: "length x = 4 \<Longrightarrow> memrev32 x = rev x"
  by (rule nth_equalityI)
     (auto simp: memrev32_def Let_def nth_list_update rev_nth less_Suc_eq numeral_eq_Suc)

lemma memrev64_rev: "length x = 8 \<Longrightarrow> memrev64 x = rev x"
  by (rule nth_equalityI)
     (auto simp: memrev64_def Let_def nth_list_update rev_nth less_Suc_eq numeral_eq_Suc)

lemmas memrev_rev = memrev16_rev memrev32_rev memrev64_rev

lemma length_host_enc [simp]: "length (host_enc e n v) = n"
  by (cases e) auto

lemma length_host_senc [simp]: "length (host_senc e n v) = n"
  by (cases e) auto

lemma store_le [simp]:
  "memrev16ifbe e (host_senc e 2 v) = le_senc 2 v"
  "memrev32ifbe e (host_senc e 4 v) = le_senc 4 v"
  "memrev64ifbe e (host_senc e 8 v) = le_senc 8 v"
  by (cases e; simp add: memrev_rev)+

lemma load_le [simp]:
  "length bs = 2 \<Longrightarrow> host_sdec e (memrev16ifbe e bs) = le_sdec bs"
  "length bs = 4 \<Longrightarrow> host_sdec e (memrev32ifbe e bs) = le_sdec bs"
  "length bs = 8 \<Longrightarrow> host_sdec e (memrev64ifbe e bs) = le_sdec bs"
  by (cases e; simp add: memrev_rev)+

lemma intrev64_involution: "v < 2 ^ 64 \<Longrightarrow> intrev64 e (intrev64 e v) = v"
proof -
  assume v: "v < 2 ^ 64"
  have inv: "host_enc e 8 (host_dec e bs) = bs" if "length bs = 8" for bs
    using that le_enc_le_dec [of bs] le_enc_le_dec [of "rev bs"] by (cases e) auto
  have "host_dec e (host_enc e 8 v) = v"
    using v by (cases e) auto
  then show ?thesis
    by (simp add: intrev64_def inv memrev64_rev)
qed

end
