(* ===== verification/Set_Spec.thy ===== *)
theory Set_Spec
  imports Prelude
begin

text \<open>
  The contract of a set container as its clients use it: operations that may fail
  (\<open>None\<close> is an access outside the memory of the container), a representation relation to
  a mathematical set, and a capacity up to which the contract holds. The clients' lemma is
  that any sequence of operations behaves as on the mathematical set.
\<close>

datatype 'a setop = Add 'a | Remove 'a | Find 'a

fun run_setops ::
  "('s \<Rightarrow> 'a \<Rightarrow> ('s \<times> bool) option) \<Rightarrow> ('s \<Rightarrow> 'a \<Rightarrow> ('s \<times> bool) option) \<Rightarrow> ('s \<Rightarrow> 'a \<Rightarrow> ('s \<times> bool) option) \<Rightarrow>
   's \<Rightarrow> 'a setop list \<Rightarrow> ('s \<times> bool list) option" where
  "run_setops add rem fnd s [] = Some (s, [])"
| "run_setops add rem fnd s (x # xs) = do {
     (s, r) \<leftarrow> (case x of Add v \<Rightarrow> add s v | Remove v \<Rightarrow> rem s v | Find v \<Rightarrow> fnd s v);
     (s, rs) \<leftarrow> run_setops add rem fnd s xs;
     Some (s, r # rs)
   }"

text \<open>The same sequence on a mathematical set: the final set and the replies.\<close>

fun abs_setops :: "'a set \<Rightarrow> 'a setop list \<Rightarrow> 'a set \<times> bool list" where
  "abs_setops A [] = (A, [])"
| "abs_setops A (Add v # xs) = (let (B, rs) = abs_setops (insert v A) xs in (B, (v \<notin> A) # rs))"
| "abs_setops A (Remove v # xs) = (let (B, rs) = abs_setops (A - {v}) xs in (B, (v \<in> A) # rs))"
| "abs_setops A (Find v # xs) = (let (B, rs) = abs_setops A xs in (B, (v \<in> A) # rs))"

fun setop_val :: "'a setop \<Rightarrow> 'a" where
  "setop_val (Add v) = v"
| "setop_val (Remove v) = v"
| "setop_val (Find v) = v"

locale set_container =
  fixes rep :: "'s \<Rightarrow> 'a set \<Rightarrow> bool"
    and add :: "'s \<Rightarrow> 'a \<Rightarrow> ('s \<times> bool) option"
    and rem :: "'s \<Rightarrow> 'a \<Rightarrow> ('s \<times> bool) option"
    and fnd :: "'s \<Rightarrow> 'a \<Rightarrow> ('s \<times> bool) option"
    and valid :: "'a \<Rightarrow> bool"
    and capacity :: nat
  assumes rep_finite: "rep s A \<Longrightarrow> finite A"
    and rep_add: "rep s A \<Longrightarrow> valid v \<Longrightarrow> card A < capacity \<Longrightarrow>
                    \<exists>s'. add s v = Some (s', v \<notin> A) \<and> rep s' (insert v A)"
    and rep_rem: "rep s A \<Longrightarrow> valid v \<Longrightarrow> card A \<le> capacity \<Longrightarrow>
                    \<exists>s'. rem s v = Some (s', v \<in> A) \<and> rep s' (A - {v})"
    and rep_find: "rep s A \<Longrightarrow> valid v \<Longrightarrow> card A \<le> capacity \<Longrightarrow>
                    \<exists>s'. fnd s v = Some (s', v \<in> A) \<and> rep s' A"
begin

lemma setop_step:
  assumes "rep s A" and "valid (setop_val x)" and "card A < capacity"
  shows "\<exists>s' B r. (case x of Add v \<Rightarrow> add s v | Remove v \<Rightarrow> rem s v | Find v \<Rightarrow> fnd s v) = Some (s', r) \<and>
           rep s' B \<and> card B \<le> Suc (card A) \<and>
           (\<forall>xs. abs_setops A (x # xs) = (let (C, rs) = abs_setops B xs in (C, r # rs)))"
proof (cases x)
  case (Add v)
  then show ?thesis using rep_add [of s A v] assms rep_finite [OF assms(1)] card_insert_le_m1 [of "Suc (card A)" A v]
    by (fastforce simp: card_insert_if)
next
  case (Remove v)
  then show ?thesis using rep_rem [of s A v] assms card_Diff1_le [of A v] by fastforce
next
  case (Find v)
  then show ?thesis using rep_find [of s A v] assms by fastforce
qed

lemma run_setops_correct:
  assumes "rep s A" and "\<forall>x \<in> set xs. valid (setop_val x)" and "card A + length xs \<le> capacity"
  shows "\<exists>s'. run_setops add rem fnd s xs = Some (s', snd (abs_setops A xs)) \<and>
           rep s' (fst (abs_setops A xs))"
  using assms
proof (induction xs arbitrary: s A)
  case Nil
  then show ?case by simp
next
  case (Cons x xs)
  have "\<exists>s' B r. (case x of Add v \<Rightarrow> add s v | Remove v \<Rightarrow> rem s v | Find v \<Rightarrow> fnd s v) = Some (s', r) \<and>
           rep s' B \<and> card B \<le> Suc (card A) \<and>
           (\<forall>xs. abs_setops A (x # xs) = (let (C, rs) = abs_setops B xs in (C, r # rs)))"
    using Cons.prems by (intro setop_step) auto
  then obtain s1 B r where step: "(case x of Add v \<Rightarrow> add s v | Remove v \<Rightarrow> rem s v | Find v \<Rightarrow> fnd s v) = Some (s1, r)"
    and B: "rep s1 B" "card B \<le> Suc (card A)"
    and abs: "abs_setops A (x # xs) = (let (C, rs) = abs_setops B xs in (C, r # rs))" by blast
  have "\<exists>s'. run_setops add rem fnd s1 xs = Some (s', snd (abs_setops B xs)) \<and> rep s' (fst (abs_setops B xs))"
    using Cons.prems B by (intro Cons.IH) auto
  with step abs show ?case by (auto simp: Let_def split_beta)
qed

end

end
