(* ===== verification/Intset.thy ===== *)
theory Intset
  imports Endianconv Set_Spec
begin

text \<open>
  \<open>intset.c\<close>: a sorted array of integers in one of three widths. The array is the block
  \<open>contents\<close>; the two header fields hold the values the code reads with
  \<open>intrev32ifbe\<close>. Names of the source that start with an underscore are written with the
  prefix \<open>us_\<close>. Every operation is in the option monad: \<open>None\<close> is an access outside
  \<open>contents\<close>. \<open>uint32_t\<close> products are reduced modulo \<open>2 ^ 32\<close> as in the code.

  The representation relation \<open>intset_rep is xs\<close> says that \<open>is\<close> stores the strictly
  increasing list \<open>xs\<close>; the lemmas show that searching, adding (with the in-place upgrade
  to a wider encoding) and removing stay inside the block and implement the operations of a
  finite set of integers.
\<close>

record intset =
  is_encoding :: nat
  is_length :: nat
  contents :: bytes

definition INTSET_ENC_INT16 :: nat where "INTSET_ENC_INT16 = 2"
definition INTSET_ENC_INT32 :: nat where "INTSET_ENC_INT32 = 4"
definition INTSET_ENC_INT64 :: nat where "INTSET_ENC_INT64 = 8"

lemmas intset_encs = INTSET_ENC_INT16_def INTSET_ENC_INT32_def INTSET_ENC_INT64_def

definition INT16_MIN :: int where "INT16_MIN = - (2 ^ 15)"
definition INT16_MAX :: int where "INT16_MAX = 2 ^ 15 - 1"
definition INT32_MIN :: int where "INT32_MIN = - (2 ^ 31)"
definition INT32_MAX :: int where "INT32_MAX = 2 ^ 31 - 1"

lemmas int_limits = INT16_MIN_def INT16_MAX_def INT32_MIN_def INT32_MAX_def

section \<open>Operations\<close>

definition us_intsetValueEncoding :: "int \<Rightarrow> nat" where
  "us_intsetValueEncoding v =
     (if v < INT32_MIN \<or> v > INT32_MAX then INTSET_ENC_INT64
      else if v < INT16_MIN \<or> v > INT16_MAX then INTSET_ENC_INT32
      else INTSET_ENC_INT16)"

definition us_intsetGetEncoded :: "host \<Rightarrow> intset \<Rightarrow> nat \<Rightarrow> nat \<Rightarrow> int option" where
  "us_intsetGetEncoded e is pos enc =
     (if enc = INTSET_ENC_INT64 then do {
        v64 \<leftarrow> mem_read (contents is) (8 * pos) 8;
        Some (host_sdec e (memrev64ifbe e v64))
      } else if enc = INTSET_ENC_INT32 then do {
        v32 \<leftarrow> mem_read (contents is) (4 * pos) 4;
        Some (host_sdec e (memrev32ifbe e v32))
      } else do {
        v16 \<leftarrow> mem_read (contents is) (2 * pos) 2;
        Some (host_sdec e (memrev16ifbe e v16))
      })"

definition us_intsetGet :: "host \<Rightarrow> intset \<Rightarrow> nat \<Rightarrow> int option" where
  "us_intsetGet e is pos = us_intsetGetEncoded e is pos (is_encoding is)"

definition us_intsetSet :: "host \<Rightarrow> intset \<Rightarrow> nat \<Rightarrow> int \<Rightarrow> intset option" where
  "us_intsetSet e is pos v =
     (let encoding = is_encoding is in
      if encoding = INTSET_ENC_INT64 then do {
        c \<leftarrow> mem_write (contents is) (8 * pos) (memrev64ifbe e (host_senc e 8 v));
        Some (is\<lparr>contents := c\<rparr>)
      } else if encoding = INTSET_ENC_INT32 then do {
        c \<leftarrow> mem_write (contents is) (4 * pos) (memrev32ifbe e (host_senc e 4 v));
        Some (is\<lparr>contents := c\<rparr>)
      } else do {
        c \<leftarrow> mem_write (contents is) (2 * pos) (memrev16ifbe e (host_senc e 2 v));
        Some (is\<lparr>contents := c\<rparr>)
      })"

definition intsetNew :: intset where
  "intsetNew = \<lparr>is_encoding = INTSET_ENC_INT16, is_length = 0, contents = []\<rparr>"

definition intsetResize :: "fresh_mem \<Rightarrow> intset \<Rightarrow> nat \<Rightarrow> intset" where
  "intsetResize g is len =
     (let size = (len * is_encoding is) mod 2 ^ 32
      in is\<lparr>contents := zrealloc g (contents is) size\<rparr>)"

text \<open>The binary search loop; it returns the final \<open>min\<close>, \<open>mid\<close> and \<open>cur\<close>.\<close>

function intsetSearch_loop ::
  "host \<Rightarrow> intset \<Rightarrow> int \<Rightarrow> int \<Rightarrow> int \<Rightarrow> int \<Rightarrow> int \<Rightarrow> (int \<times> int \<times> int) option" where
  "intsetSearch_loop e is v mn mx mid cur =
     (if mx \<ge> mn then
        (let mid = (mn + mx) div 2 in
         case us_intsetGet e is (nat mid) of
           None \<Rightarrow> None
         | Some cur \<Rightarrow>
             if v > cur then intsetSearch_loop e is v (mid + 1) mx mid cur
             else if v < cur then intsetSearch_loop e is v mn (mid - 1) mid cur
             else Some (mn, mid, cur))
      else Some (mn, mid, cur))"
  by pat_completeness auto
termination
  by (relation "measure (\<lambda>(e, is, v, mn, mx, mid, cur). nat (mx - mn + 1))") auto

declare intsetSearch_loop.simps [simp del]

definition intsetSearch :: "host \<Rightarrow> intset \<Rightarrow> int \<Rightarrow> (bool \<times> nat) option" where
  "intsetSearch e is v =
     (if is_length is = 0 then Some (False, 0)
      else do {
        last \<leftarrow> us_intsetGet e is (is_length is - 1);
        if v > last then Some (False, is_length is)
        else do {
          first \<leftarrow> us_intsetGet e is 0;
          if v < first then Some (False, 0)
          else do {
            (mn, mid, cur) \<leftarrow> intsetSearch_loop e is v 0 (int (is_length is) - 1) (-1) (-1);
            if v = cur then Some (True, nat mid) else Some (False, nat mn)
          }
        }
      })"

fun upgrade_loop :: "host \<Rightarrow> nat \<Rightarrow> nat \<Rightarrow> nat \<Rightarrow> intset \<Rightarrow> intset option" where
  "upgrade_loop e curenc prepend 0 is = Some is"
| "upgrade_loop e curenc prepend (Suc len) is = do {
     v \<leftarrow> us_intsetGetEncoded e is len curenc;
     is \<leftarrow> us_intsetSet e is (len + prepend) v;
     upgrade_loop e curenc prepend len is
   }"

definition intsetUpgradeAndAdd :: "host \<Rightarrow> fresh_mem \<Rightarrow> intset \<Rightarrow> int \<Rightarrow> intset option" where
  "intsetUpgradeAndAdd e g is v =
     (let curenc = is_encoding is;
          newenc = us_intsetValueEncoding v;
          len = is_length is;
          prepend = (if v < 0 then 1 else 0);
          is = is\<lparr>is_encoding := newenc\<rparr>;
          is = intsetResize g is (is_length is + 1)
      in do {
        is \<leftarrow> upgrade_loop e curenc prepend len is;
        is \<leftarrow> (if prepend \<noteq> 0 then us_intsetSet e is 0 v else us_intsetSet e is (is_length is) v);
        Some (is\<lparr>is_length := is_length is + 1\<rparr>)
      })"

definition intsetMoveTail :: "intset \<Rightarrow> nat \<Rightarrow> nat \<Rightarrow> intset option" where
  "intsetMoveTail is from to =
     (let bytes = is_length is - from;
          encoding = is_encoding is;
          sz = (if encoding = INTSET_ENC_INT64 then 8
                else if encoding = INTSET_ENC_INT32 then 4 else 2)
      in do {
        c \<leftarrow> memmove (contents is) (sz * to) (sz * from) ((bytes * sz) mod 2 ^ 32);
        Some (is\<lparr>contents := c\<rparr>)
      })"

definition intsetAdd :: "host \<Rightarrow> fresh_mem \<Rightarrow> intset \<Rightarrow> int \<Rightarrow> (intset \<times> bool) option" where
  "intsetAdd e g is v =
     (let valenc = us_intsetValueEncoding v in
      if valenc > is_encoding is then do {
        is \<leftarrow> intsetUpgradeAndAdd e g is v;
        Some (is, True)
      } else do {
        (found, pos) \<leftarrow> intsetSearch e is v;
        if found then Some (is, False)
        else do {
          let is = intsetResize g is (is_length is + 1);
          is \<leftarrow> (if pos < is_length is then intsetMoveTail is pos (pos + 1) else Some is);
          is \<leftarrow> us_intsetSet e is pos v;
          Some (is\<lparr>is_length := is_length is + 1\<rparr>, True)
        }
      })"

definition intsetRemove :: "host \<Rightarrow> fresh_mem \<Rightarrow> intset \<Rightarrow> int \<Rightarrow> (intset \<times> bool) option" where
  "intsetRemove e g is v =
     (let valenc = us_intsetValueEncoding v in
      if valenc \<le> is_encoding is then do {
        (found, pos) \<leftarrow> intsetSearch e is v;
        if found then do {
          let len = is_length is;
          is \<leftarrow> (if pos < len - 1 then intsetMoveTail is (pos + 1) pos else Some is);
          let is = intsetResize g is (len - 1);
          Some (is\<lparr>is_length := len - 1\<rparr>, True)
        } else Some (is, False)
      } else Some (is, False))"

definition intsetFind :: "host \<Rightarrow> intset \<Rightarrow> int \<Rightarrow> bool option" where
  "intsetFind e is v =
     (let valenc = us_intsetValueEncoding v in
      if valenc \<le> is_encoding is then map_option fst (intsetSearch e is v) else Some False)"

text \<open>\<open>r\<close> is the result of \<open>rand()\<close>; the remainder by zero of an empty set is undefined in C.\<close>

definition intsetRandom :: "host \<Rightarrow> nat \<Rightarrow> intset \<Rightarrow> int option" where
  "intsetRandom e r is =
     (if is_length is = 0 then None else us_intsetGet e is (r mod is_length is))"

text \<open>\<open>Some None\<close> is the return value 0, \<open>Some (Some v)\<close> the return value 1 with \<open>*value\<close> set.\<close>

definition intsetGet :: "host \<Rightarrow> intset \<Rightarrow> nat \<Rightarrow> int option option" where
  "intsetGet e is pos =
     (if pos < is_length is then map_option Some (us_intsetGet e is pos) else Some None)"

definition intsetLen :: "intset \<Rightarrow> nat" where
  "intsetLen is = is_length is"

definition intsetBlobLen :: "intset \<Rightarrow> nat" where
  "intsetBlobLen is = 8 + is_length is * is_encoding is"

section \<open>Representation\<close>

definition intset_rep :: "intset \<Rightarrow> int list \<Rightarrow> bool" where
  "intset_rep is xs \<longleftrightarrow>
     is_encoding is \<in> {INTSET_ENC_INT16, INTSET_ENC_INT32, INTSET_ENC_INT64} \<and>
     is_length is = length xs \<and>
     contents is = concat (map (le_senc (is_encoding is)) xs) \<and>
     (\<forall>x \<in> set xs. sfits (is_encoding is) x) \<and>
     sorted_wrt (<) xs"

lemma intset_rep_new: "intset_rep intsetNew []"
  by (simp add: intset_rep_def intsetNew_def)

lemma valueEncoding_fits: "sfits 8 v \<Longrightarrow> sfits (us_intsetValueEncoding v) v"
  by (auto simp: us_intsetValueEncoding_def intset_encs int_limits sfits_def)

lemma valueEncoding_minimal:
  "enc \<in> {INTSET_ENC_INT16, INTSET_ENC_INT32, INTSET_ENC_INT64} \<Longrightarrow> sfits enc v \<Longrightarrow>
     us_intsetValueEncoding v \<le> enc"
  by (auto simp: us_intsetValueEncoding_def intset_encs int_limits sfits_def)

lemma valueEncoding_cases:
  "us_intsetValueEncoding v \<in> {INTSET_ENC_INT16, INTSET_ENC_INT32, INTSET_ENC_INT64}"
  by (auto simp: us_intsetValueEncoding_def)

lemma getEncoded_eq:
  assumes "enc \<in> {INTSET_ENC_INT16, INTSET_ENC_INT32, INTSET_ENC_INT64}"
    and "enc * pos + enc \<le> length (contents is)"
  shows "us_intsetGetEncoded e is pos enc =
           Some (le_sdec (take enc (drop (enc * pos) (contents is))))"
  using assms by (auto simp: us_intsetGetEncoded_def intset_encs mem_simps)

lemma set_eq:
  assumes "is_encoding is \<in> {INTSET_ENC_INT16, INTSET_ENC_INT32, INTSET_ENC_INT64}"
    and "is_encoding is * pos + is_encoding is \<le> length (contents is)"
  shows "us_intsetSet e is pos v =
           Some (is\<lparr>contents := take (is_encoding is * pos) (contents is) @
                      le_senc (is_encoding is) v @
                      drop (is_encoding is * pos + is_encoding is) (contents is)\<rparr>)"
  using assms by (auto simp: us_intsetSet_def intset_encs mem_simps Let_def)

lemma get_rep:
  assumes "intset_rep is xs" and "i < length xs"
  shows "us_intsetGet e is i = Some (xs ! i)"
proof -
  let ?n = "is_encoding is"
  have "?n * Suc i \<le> ?n * length xs"
    using assms(2) by (intro mult_le_mono2) simp
  with assms show ?thesis
    by (simp add: us_intsetGet_def getEncoded_eq intset_rep_def array_simps add.commute)
qed

section \<open>Searching\<close>

text \<open>Where the value is, or where it would have to be inserted.\<close>

definition search_pos :: "int list \<Rightarrow> int \<Rightarrow> nat \<Rightarrow> bool" where
  "search_pos xs v pos \<longleftrightarrow>
     (if v \<in> set xs then pos < length xs \<and> xs ! pos = v
      else pos \<le> length xs \<and> (\<forall>x \<in> set (take pos xs). x < v) \<and> (\<forall>x \<in> set (drop pos xs). v < x))"

lemma search_posI:
  fixes xs :: "int list"
  assumes "pos \<le> length xs" and "\<And>i. i < pos \<Longrightarrow> xs ! i < v"
    and "\<And>i. pos \<le> i \<Longrightarrow> i < length xs \<Longrightarrow> v < xs ! i"
  shows "v \<notin> set xs" and "search_pos xs v pos"
proof -
  have lo: "\<forall>x \<in> set (take pos xs). x < v"
    using assms(1,2) by (auto simp: in_set_conv_nth)
  have hi: "\<forall>x \<in> set (drop pos xs). v < x"
    using assms(3) by (auto simp: in_set_conv_nth)
  have "set xs = set (take pos xs) \<union> set (drop pos xs)"
    by (metis append_take_drop_id set_append)
  with lo hi show "v \<notin> set xs" by fastforce
  with lo hi assms(1) show "search_pos xs v pos" by (simp add: search_pos_def)
qed

lemma search_loop_correct:
  assumes "intset_rep is xs" and "0 \<le> mn" and "mx < int (length xs)" and "mn \<le> mx + 1"
    and "\<And>i. i < nat mn \<Longrightarrow> xs ! i < v"
    and "\<And>i. mx < int i \<Longrightarrow> i < length xs \<Longrightarrow> v < xs ! i"
    and "mn \<le> mx \<or> cur \<noteq> v"
  shows "\<exists>mn' mid' cur'. intsetSearch_loop e is v mn mx mid cur = Some (mn', mid', cur') \<and>
           (v = cur') = (v \<in> set xs) \<and>
           search_pos xs v (nat (if v = cur' then mid' else mn'))"
  using assms
proof (induction e "is" v mn mx mid cur rule: intsetSearch_loop.induct)
  case (1 e "is" v mn mx mid cur)
  note prems = "1.prems"
  show ?case
  proof (cases "mn \<le> mx")
    case False
    with prems have "nat mn \<le> length xs" "cur \<noteq> v"
      and "\<And>i. nat mn \<le> i \<Longrightarrow> i < length xs \<Longrightarrow> v < xs ! i" by auto
    with prems(5) have "search_pos xs v (nat mn)" "v \<notin> set xs" "cur \<noteq> v"
      using search_posI [of "nat mn" xs v] by blast+
    with False show ?thesis by (simp add: intsetSearch_loop.simps)
  next
    case True
    define m where "m = (mn + mx) div 2"
    have m: "mn \<le> m" "m \<le> mx" "0 \<le> m" using True prems(2) by (auto simp: m_def)
    then have ml: "nat m < length xs" using prems(3) by linarith
    note IH = "1.IH" [OF True refl, folded m_def]
    have get: "us_intsetGet e is (nat m) = Some (xs ! nat m)"
      using prems(1) ml by (rule get_rep)
    have srt: "sorted_wrt (<) xs" using prems(1) by (simp add: intset_rep_def)
    consider "xs ! nat m < v" | "v < xs ! nat m" | "v = xs ! nat m" by fastforce
    then show ?thesis
    proof cases
      case 1
      have "nat (m + 1) = Suc (nat m)" using m(3) by linarith
      then have "xs ! i < v" if "i < nat (m + 1)" for i
        using that 1 ml sorted_wrt_nth_less [OF srt, of i "nat m"]
        by (cases "i = nat m") auto
      moreover have "xs ! nat m \<noteq> v" using 1 by simp
      ultimately
      have "\<exists>mn' mid' cur'. intsetSearch_loop e is v (m + 1) mx m (xs ! nat m) = Some (mn', mid', cur') \<and>
           (v = cur') = (v \<in> set xs) \<and> search_pos xs v (nat (if v = cur' then mid' else mn'))"
        using prems m by (intro IH(1) [OF get 1]) auto
      with 1 True get show ?thesis by (simp add: intsetSearch_loop.simps [of e "is" v mn mx] Let_def m_def)
    next
      case 2
      have "v < xs ! i" if i: "m - 1 < int i" "i < length xs" for i
      proof -
        from i(1) m(3) have "nat m \<le> i" by linarith
        with i(2) 2 sorted_wrt_nth_less [OF srt, of "nat m" i] show ?thesis
          by (cases "i = nat m") auto
      qed
      moreover have "\<not> xs ! nat m < v" "xs ! nat m \<noteq> v" using 2 by simp_all
      ultimately
      have "\<exists>mn' mid' cur'. intsetSearch_loop e is v mn (m - 1) m (xs ! nat m) = Some (mn', mid', cur') \<and>
           (v = cur') = (v \<in> set xs) \<and> search_pos xs v (nat (if v = cur' then mid' else mn'))"
        using prems m by (intro IH(2) [OF get _ 2]) auto
      with 2 True get show ?thesis by (simp add: intsetSearch_loop.simps [of e "is" v mn mx] Let_def m_def)
    next
      case 3
      with ml have "v \<in> set xs" "search_pos xs v (nat m)" by (auto simp: search_pos_def)
      moreover from True get 3 [symmetric] have "intsetSearch_loop e is v mn mx mid cur = Some (mn, m, v)"
        by (simp add: intsetSearch_loop.simps [of e "is" v mn mx] Let_def m_def)
      ultimately show ?thesis by auto
    qed
  qed
qed

lemma search_correct:
  assumes "intset_rep is xs"
  shows "\<exists>pos. intsetSearch e is v = Some (v \<in> set xs, pos) \<and> search_pos xs v pos"
proof (cases "xs = []")
  case True
  with assms show ?thesis by (simp add: intsetSearch_def intset_rep_def search_pos_def)
next
  case False
  let ?l = "length xs"
  have srt: "sorted_wrt (<) xs" and len: "is_length is = ?l"
    using assms by (auto simp: intset_rep_def)
  have last: "us_intsetGet e is (?l - 1) = Some (xs ! (?l - 1))" and
    first: "us_intsetGet e is 0 = Some (xs ! 0)"
    using False by (auto intro!: get_rep [OF assms])
  consider "v > xs ! (?l - 1)" | "\<not> v > xs ! (?l - 1)" "v < xs ! 0"
    | "\<not> v > xs ! (?l - 1)" "\<not> v < xs ! 0" by blast
  then show ?thesis
  proof cases
    case 1
    have "xs ! i < v" if "i < ?l" for i
      using that 1 sorted_wrt_nth_less [OF srt, of i "?l - 1"] by (cases "i = ?l - 1") force+
    then have "v \<notin> set xs" "search_pos xs v ?l" using search_posI [of ?l xs v] by auto
    with 1 False last len show ?thesis by (simp add: intsetSearch_def)
  next
    case 2
    have "v < xs ! i" if "i < ?l" for i
      using that 2 sorted_wrt_nth_less [OF srt, of 0 i] by (cases "i = 0") auto
    then have "v \<notin> set xs" "search_pos xs v 0" using search_posI [of 0 xs v] by auto
    with 2 False last first len show ?thesis by (simp add: intsetSearch_def)
  next
    case 3
    from False have "\<exists>mn' mid' cur'.
        intsetSearch_loop e is v 0 (int ?l - 1) (-1) (-1) = Some (mn', mid', cur') \<and>
        (v = cur') = (v \<in> set xs) \<and> search_pos xs v (nat (if v = cur' then mid' else mn'))"
      by (intro search_loop_correct [OF assms]) auto
    with 3 False last first len show ?thesis by (auto simp: intsetSearch_def)
  qed
qed

section \<open>Adding and removing\<close>

lemma sorted_wrt_insert_at:
  assumes "sorted_wrt (<) xs" and "v \<notin> set xs" and "search_pos xs v pos"
  shows "sorted_wrt (<) (take pos xs @ v # drop pos xs)"
proof -
  have "sorted_wrt (<) (take pos xs @ drop pos xs)" using assms(1) by simp
  with assms(2,3) show ?thesis
    by (simp only: search_pos_def sorted_wrt_append) auto
qed

lemma moveTail_eq:
  assumes "is_encoding is \<in> {INTSET_ENC_INT16, INTSET_ENC_INT32, INTSET_ENC_INT64}"
    and "(is_length is - from) * is_encoding is < 2 ^ 32"
    and "is_encoding is * from + is_encoding is * (is_length is - from) \<le> length (contents is)"
    and "is_encoding is * to + is_encoding is * (is_length is - from) \<le> length (contents is)"
  shows "intsetMoveTail is from to =
           Some (is\<lparr>contents := take (is_encoding is * to) (contents is) @
              take (is_encoding is * (is_length is - from)) (drop (is_encoding is * from) (contents is)) @
              drop (is_encoding is * to + is_encoding is * (is_length is - from)) (contents is)\<rparr>)"
proof -
  have sz: "(if is_encoding is = INTSET_ENC_INT64 then 8
             else if is_encoding is = INTSET_ENC_INT32 then 4 else 2) = is_encoding is"
    using assms(1) by (auto simp: intset_encs)
  show ?thesis
    using assms(2-4) by (simp add: intsetMoveTail_def Let_def sz memmove_Some mult.commute)
qed

text \<open>Opening a gap of \<open>n\<close> bytes between \<open>a\<close> and \<open>t\<close>, in a block that ends in \<open>n\<close> spare bytes.\<close>

lemma gap_open:
  fixes a t j :: "'a list"
  assumes "length j = n"
  defines "c' \<equiv> take (length a + n) (a @ t @ j) @ take (length t) (drop (length a) (a @ t @ j)) @
                 drop (length a + n + length t) (a @ t @ j)"
  shows "length c' = length a + length t + n" and "take (length a) c' = a"
    and "drop (length a + n) c' = t"
proof -
  have "take (length a + n) (a @ t @ j) = a @ take n (t @ j)" by simp
  moreover have "length (take n (t @ j)) = n" using assms(1) by simp
  moreover have "drop (length a + n + length t) (a @ t @ j) = []" using assms(1) by simp
  ultimately show "length c' = length a + length t + n" "take (length a) c' = a"
    "drop (length a + n) c' = t"
    by (simp_all add: c'_def)
qed

lemma intset_add_no_upgrade:
  fixes g :: fresh_mem
  assumes rep: "intset_rep is xs" and fits: "sfits (is_encoding is) v" and new: "v \<notin> set xs"
    and pos: "search_pos xs v pos" and room: "(length xs + 1) * 8 < 2 ^ 32"
  defines "is1 \<equiv> intsetResize g is (is_length is + 1)"
  shows "\<exists>is2 is3. (if pos < is_length is1 then intsetMoveTail is1 pos (pos + 1) else Some is1) = Some is2 \<and>
           us_intsetSet e is2 pos v = Some is3 \<and>
           intset_rep (is3\<lparr>is_length := is_length is3 + 1\<rparr>) (take pos xs @ v # drop pos xs)"
proof -
  let ?n = "is_encoding is" and ?l = "length xs"
  let ?a = "concat (map (le_senc ?n) (take pos xs))" and ?t = "concat (map (le_senc ?n) (drop pos xs))"
  have enc: "?n \<in> {INTSET_ENC_INT16, INTSET_ENC_INT32, INTSET_ENC_INT64}" and len: "is_length is = ?l" and
    cont: "contents is = ?a @ ?t" and srt: "sorted_wrt (<) xs" and all: "\<forall>x \<in> set xs. sfits ?n x"
    using rep by (auto simp: intset_rep_def simp flip: concat_append map_append)
  have n8: "?n \<le> 8" using enc by (auto simp: intset_encs)
  have pl: "pos \<le> ?l" using new pos by (simp add: search_pos_def)
  have la: "length ?a = ?n * pos" and lt: "length ?t = ?n * (?l - pos)"
    using pl by (simp_all add: length_concat_uniform min_def)
  have tot: "?n * pos + ?n * (?l - pos) = ?n * ?l"
    using pl by (simp add: add_mult_distrib2 [symmetric])
  have small: "k * ?n < 2 ^ 32" if "k \<le> ?l + 1" for k
  proof -
    have "k * ?n \<le> (?l + 1) * 8" using that n8 by (intro mult_le_mono) auto
    with room show ?thesis by linarith
  qed
  have grow: "length (?a @ ?t) \<le> ?n + ?n * ?l" using la lt tot by simp
  obtain j where j: "zrealloc g (?a @ ?t) (?n + ?n * ?l) = (?a @ ?t) @ j" "length j = ?n"
    using zrealloc_grow [OF grow, of g] la lt tot by auto
  have is1: "is1 = is\<lparr>contents := ?a @ ?t @ j\<rparr>"
    using small [of "?l + 1"] j cont by (simp add: is1_def intsetResize_def len mult.commute)
  define c' where "c' = take (length ?a + ?n) (?a @ ?t @ j) @ take (length ?t) (drop (length ?a) (?a @ ?t @ j)) @
                 drop (length ?a + ?n + length ?t) (?a @ ?t @ j)"
  note gap = gap_open [OF j(2), of ?a ?t, folded c'_def]
  have mv: "\<exists>c. (if pos < is_length is1 then intsetMoveTail is1 pos (pos + 1) else Some is1) =
      Some (is\<lparr>contents := c\<rparr>) \<and> length c = ?n * ?l + ?n \<and> take (?n * pos) c = ?a \<and> drop (?n * pos + ?n) c = ?t"
  proof (cases "pos < ?l")
    case True
    have "intsetMoveTail is1 pos (pos + 1) = Some (is\<lparr>contents := c'\<rparr>)"
      using enc small [of "?l - pos"] tot la lt j(2)
      by (subst moveTail_eq) (auto simp: is1 len c'_def algebra_simps)
    with True gap la lt tot show ?thesis by (auto simp: is1 len)
  next
    case False
    with pl have "pos = ?l" by simp
    with la j(2) show ?thesis by (auto simp: is1 len)
  qed
  then obtain c where c: "length c = ?n * ?l + ?n" "take (?n * pos) c = ?a" "drop (?n * pos + ?n) c = ?t"
    and mv: "(if pos < is_length is1 then intsetMoveTail is1 pos (pos + 1) else Some is1) =
      Some (is\<lparr>contents := c\<rparr>)"
    by blast
  have "us_intsetSet e (is\<lparr>contents := c\<rparr>) pos v = Some (is\<lparr>contents := ?a @ le_senc ?n v @ ?t\<rparr>)"
    using enc c pl by (subst set_eq) auto
  moreover have "intset_rep (is\<lparr>contents := ?a @ le_senc ?n v @ ?t, is_length := Suc ?l\<rparr>)
                   (take pos xs @ v # drop pos xs)"
    using enc fits all srt new pos pl
    by (auto simp: intset_rep_def sorted_wrt_insert_at dest: in_set_takeD in_set_dropD)
  ultimately show ?thesis using mv by (auto simp: len)
qed

subsection \<open>Upgrading to a wider encoding\<close>

text \<open>
  The loop runs back to front. When \<open>len\<close> elements are left, the first \<open>len\<close> old elements
  are still intact and everything from slot \<open>len + prepend\<close> on is already in the new width.
\<close>

lemma upgrade_loop_correct:
  assumes enc: "is_encoding is \<in> {INTSET_ENC_INT16, INTSET_ENC_INT32, INTSET_ENC_INT64}"
    and cur: "old \<in> {INTSET_ENC_INT16, INTSET_ENC_INT32, INTSET_ENC_INT64}"
    and le: "old \<le> is_encoding is"
    and fits: "\<forall>x \<in> set xs. sfits old x"
    and len: "length (contents is) = is_encoding is * (length xs + 1)"
    and p: "p \<le> 1" and k: "k \<le> length xs"
    and lo: "take (old * k) (contents is) = concat (map (le_senc old) (take k xs))"
    and hi: "drop (is_encoding is * (k + p)) (contents is) =
               concat (map (le_senc (is_encoding is)) (drop k xs)) @ rest"
  shows "\<exists>c. upgrade_loop e old p k is = Some (is\<lparr>contents := c\<rparr>) \<and> length c = length (contents is) \<and>
           drop (is_encoding is * p) c = concat (map (le_senc (is_encoding is)) xs) @ rest"
  using enc len k lo hi le
proof (induction k arbitrary: "is")
  case 0
  then show ?case by (intro exI [of _ "contents is"]) simp
next
  case (Suc k)
  let ?n = "is_encoding is" and ?c = "contents is"
  have kl: "k < length xs" using Suc.prems(3) by simp
  have n1: "?n * Suc (k + p) \<le> ?n * (length xs + 1)"
    using kl p by (intro mult_le_mono2) simp
  have old1: "old * Suc k \<le> length ?c"
    unfolding Suc.prems(2) using le Suc.prems(6) kl by (intro mult_le_mono) auto
  have "take old (drop (old * k) ?c) = drop (old * k) (take (old * Suc k) ?c)"
    by (simp add: drop_take)
  also have "\<dots> = le_senc old (xs ! k)"
    using kl by (simp only: Suc.prems(4) drop_concat_uniform [OF length_le_senc])
       (simp add: take_Suc_conv_app_nth)
  finally have rd: "us_intsetGetEncoded e is k old = Some (xs ! k)"
    using cur old1 fits kl by (simp add: getEncoded_eq add.commute)
  define c' where "c' = take (?n * (k + p)) ?c @ le_senc ?n (xs ! k) @ drop (?n * (k + p) + ?n) ?c"
  have st: "us_intsetSet e is (k + p) (xs ! k) = Some (is\<lparr>contents := c'\<rparr>)"
    using Suc.prems(1,2) n1 by (subst set_eq) (auto simp: c'_def algebra_simps)
  have lc': "length c' = length ?c"
    using Suc.prems(2) n1 by (simp add: c'_def algebra_simps)
  have pk: "?n * (k + p) \<le> length ?c" using Suc.prems(2) n1 by (simp add: algebra_simps)
  have "old * k \<le> ?n * (k + p)" using Suc.prems(6) by (intro mult_le_mono) auto
  then have "take (old * k) c' = take (old * k) (take (old * Suc k) ?c)"
    using pk by (simp add: c'_def min_def)
  also have "\<dots> = concat (map (le_senc old) (take k xs))"
    by (simp only: Suc.prems(4) take_concat_uniform [OF length_le_senc]) (simp add: min_def)
  finally have lo': "take (old * k) c' = concat (map (le_senc old) (take k xs))" .
  have "drop (?n * (k + p)) c' = le_senc ?n (xs ! k) @ drop (?n * (Suc k + p)) ?c"
    using pk by (simp add: c'_def algebra_simps)
  also have "\<dots> = concat (map (le_senc ?n) (drop k xs)) @ rest"
    unfolding Suc.prems(5) using kl by (simp add: Cons_nth_drop_Suc [symmetric])
  finally have hi': "drop (?n * (k + p)) c' = concat (map (le_senc ?n) (drop k xs)) @ rest" .
  have "\<exists>c. upgrade_loop e old p k (is\<lparr>contents := c'\<rparr>) = Some (is\<lparr>contents := c'\<rparr>\<lparr>contents := c\<rparr>) \<and>
          length c = length (contents (is\<lparr>contents := c'\<rparr>)) \<and>
          drop (is_encoding (is\<lparr>contents := c'\<rparr>) * p) c =
            concat (map (le_senc (is_encoding (is\<lparr>contents := c'\<rparr>))) xs) @ rest"
    using Suc.prems lc' lo' hi' kl by (intro Suc.IH) auto
  with rd st lc' show ?case by auto
qed

lemma intset_upgrade_and_add:
  assumes rep: "intset_rep is xs" and v8: "sfits 8 v"
    and up: "us_intsetValueEncoding v > is_encoding is" and room: "(length xs + 1) * 8 < 2 ^ 32"
  shows "\<exists>is'. intsetUpgradeAndAdd e g is v = Some is' \<and>
           intset_rep is' (if v < 0 then v # xs else xs @ [v])"
proof -
  let ?old = "is_encoding is" and ?n = "us_intsetValueEncoding v" and ?l = "length xs"
  let ?p = "if v < 0 then 1 else 0 :: nat"
  have enc: "?old \<in> {INTSET_ENC_INT16, INTSET_ENC_INT32, INTSET_ENC_INT64}" and len: "is_length is = ?l" and
    cont: "contents is = concat (map (le_senc ?old) xs)" and
    srt: "sorted_wrt (<) xs" and all: "\<forall>x \<in> set xs. sfits ?old x"
    using rep by (auto simp: intset_rep_def)
  note nenc = valueEncoding_cases [of v]
  have "(?l + 1) * ?n \<le> (?l + 1) * 8" using nenc by (intro mult_le_mono2) (auto simp: intset_encs)
  then have small: "(?l + 1) * ?n < 2 ^ 32" using room by linarith
  define is1 where "is1 = intsetResize g (is\<lparr>is_encoding := ?n\<rparr>) (Suc ?l)"
  have lc1: "length (contents is1) = ?n * (?l + 1)" and enc1: "is_encoding is1 = ?n" "is_length is1 = ?l"
    using small by (simp_all add: is1_def intsetResize_def mult.commute len)
  have lold: "length (contents is) = ?old * ?l" by (simp add: cont length_concat_uniform)
  also have "\<dots> \<le> ?n * (?l + 1)" using up by (intro mult_le_mono) auto
  finally have "take (?old * ?l) (contents is1) = take (?old * ?l) (contents is)"
    using small lold take_zrealloc [of "?old * ?l" "(?l + 1) * ?n" "contents is" g]
    by (simp add: is1_def intsetResize_def Let_def mult.commute)
  then have lo: "take (?old * ?l) (contents is1) = concat (map (le_senc ?old) (take ?l xs))"
    using lold by (simp add: cont)
  define rest where "rest = drop (?n * (?l + ?p)) (contents is1)"
  have lrest: "length rest = ?n * (1 - ?p)"
    using lc1 by (simp add: rest_def algebra_simps)
  have "\<exists>c. upgrade_loop e ?old ?p ?l is1 = Some (is1\<lparr>contents := c\<rparr>) \<and> length c = length (contents is1) \<and>
          drop (is_encoding is1 * ?p) c = concat (map (le_senc (is_encoding is1)) xs) @ rest"
    using nenc enc up all lc1 enc1 lo by (intro upgrade_loop_correct) (auto simp: rest_def)
  then obtain c where loop: "upgrade_loop e ?old ?p ?l is1 = Some (is1\<lparr>contents := c\<rparr>)"
    and lc: "length c = ?n * (?l + 1)" and dc: "drop (?n * ?p) c = concat (map (le_senc ?n) xs) @ rest"
    using lc1 enc1 by auto
  have fin: "(if ?p \<noteq> 0 then us_intsetSet e (is1\<lparr>contents := c\<rparr>) 0 v else us_intsetSet e (is1\<lparr>contents := c\<rparr>) ?l v) =
      Some (is1\<lparr>contents := concat (map (le_senc ?n) (if v < 0 then v # xs else xs @ [v]))\<rparr>)"
  proof (cases "v < 0")
    case True
    with dc lrest nenc enc1 lc show ?thesis by (subst set_eq) auto
  next
    case False
    with dc have c: "c = concat (map (le_senc ?n) xs) @ rest" by simp
    have "length (concat (map (le_senc ?n) xs)) = ?n * ?l" by (simp add: length_concat_uniform)
    with False c lrest nenc enc1 lc show ?thesis by (simp add: set_eq)
  qed
  have big: "\<not> sfits ?old v" using up valueEncoding_minimal [OF enc, of v] by auto
  have "sorted_wrt (<) (if v < 0 then v # xs else xs @ [v])"
    using srt all big by (auto simp: sorted_wrt_append sfits_def)
  moreover have "\<forall>x \<in> set (if v < 0 then v # xs else xs @ [v]). sfits ?n x"
    using all up v8 by (auto intro: valueEncoding_fits sfits_mono less_imp_le)
  ultimately have "intset_rep (is1\<lparr>contents := concat (map (le_senc ?n) (if v < 0 then v # xs else xs @ [v])),
                       is_length := Suc ?l\<rparr>) (if v < 0 then v # xs else xs @ [v])"
    using nenc enc1 by (auto simp: intset_rep_def)
  moreover have "intsetUpgradeAndAdd e g is v = Some (is1\<lparr>contents := concat (map (le_senc ?n)
      (if v < 0 then v # xs else xs @ [v])), is_length := Suc ?l\<rparr>)"
    using loop fin enc1 by (cases "v < 0") (simp_all add: intsetUpgradeAndAdd_def Let_def len flip: is1_def)
  ultimately show ?thesis by blast
qed

lemma upgrade_loop_encoding: "upgrade_loop e c p k is = Some is' \<Longrightarrow> is_encoding is' = is_encoding is"
proof (induction k arbitrary: "is")
  case (Suc k)
  then obtain v is1 where set: "us_intsetSet e is (k + p) v = Some is1"
    and rest: "upgrade_loop e c p k is1 = Some is'"
    by (auto simp: bind_eq_Some_conv')
  from set have "is_encoding is1 = is_encoding is"
    by (auto simp: us_intsetSet_def Let_def bind_eq_Some_conv' split: if_splits)
  with Suc.IH [OF rest] show ?case by simp
qed simp

lemma upgradeAndAdd_encoding:
  "intsetUpgradeAndAdd e g is v = Some is' \<Longrightarrow> is_encoding is' = us_intsetValueEncoding v"
  by (auto simp: intsetUpgradeAndAdd_def us_intsetSet_def intsetResize_def Let_def bind_eq_Some_conv'
           dest!: upgrade_loop_encoding split: if_splits)

section \<open>The set operations\<close>

lemma sorted_list_of_set_strict: "sorted_wrt (<) xs \<Longrightarrow> sorted_list_of_set (set xs) = xs"
  for xs :: "int list"
  by (simp add: strict_sorted_equal)

lemma intset_add_rep:
  assumes rep: "intset_rep is xs" and v8: "sfits 8 v" and room: "(length xs + 1) * 8 < 2 ^ 32"
  shows "\<exists>is' ys. intsetAdd e g is v = Some (is', v \<notin> set xs) \<and> intset_rep is' ys \<and> set ys = insert v (set xs)"
proof (cases "us_intsetValueEncoding v > is_encoding is")
  case True
  have "\<not> sfits (is_encoding is) v"
    using rep True valueEncoding_minimal [of "is_encoding is" v] by (auto simp: intset_rep_def)
  then have "v \<notin> set xs" using rep by (auto simp: intset_rep_def)
  with True intset_upgrade_and_add [OF rep v8 True room, of e g] show ?thesis
    by (fastforce simp: intsetAdd_def split: if_splits)
next
  case False
  then have fits: "sfits (is_encoding is) v"
    using valueEncoding_fits [OF v8] sfits_mono by (meson linorder_not_less)
  obtain pos where se: "intsetSearch e is v = Some (v \<in> set xs, pos)" and pos: "search_pos xs v pos"
    using search_correct [OF rep] by blast
  show ?thesis
  proof (cases "v \<in> set xs")
    case True
    with False se rep show ?thesis by (auto simp: intsetAdd_def)
  next
    case new: False
    have "set (take pos xs @ v # drop pos xs) = insert v (set xs)"
      by (metis append_take_drop_id insert_is_Un list.simps(15) set_append sup_left_commute)
    with intset_add_no_upgrade [OF rep fits new pos room, of g e] False se new show ?thesis
      by (fastforce simp: intsetAdd_def Let_def)
  qed
qed

lemma intset_remove_rep:
  assumes rep: "intset_rep is xs" and small: "length xs * 8 < 2 ^ 32"
  shows "\<exists>is' ys. intsetRemove e g is v = Some (is', v \<in> set xs) \<and> intset_rep is' ys \<and> set ys = set xs - {v}"
proof (cases "v \<in> set xs")
  case False
  obtain pos where "intsetSearch e is v = Some (False, pos)"
    using search_correct [OF rep, of e v] False by auto
  with False rep show ?thesis by (auto simp: intsetRemove_def)
next
  case True
  let ?n = "is_encoding is" and ?l = "length xs"
  have enc: "?n \<in> {INTSET_ENC_INT16, INTSET_ENC_INT32, INTSET_ENC_INT64}" and len: "is_length is = ?l" and
    cont: "contents is = concat (map (le_senc ?n) xs)" and
    srt: "sorted_wrt (<) xs" and all: "\<forall>x \<in> set xs. sfits ?n x"
    using rep by (auto simp: intset_rep_def)
  have venc: "us_intsetValueEncoding v \<le> ?n" using valueEncoding_minimal [OF enc] all True by auto
  obtain pos where se: "intsetSearch e is v = Some (True, pos)" and pos: "pos < ?l" "xs ! pos = v"
    using search_correct [OF rep, of e v] True by (auto simp: search_pos_def)
  let ?ys = "take pos xs @ drop (Suc pos) xs"
  have xs: "xs = take pos xs @ v # drop (Suc pos) xs" using pos by (metis id_take_nth_drop)
  have "distinct xs" using srt by (simp add: strict_sorted_iff)
  then have "v \<notin> set ?ys" by (subst (asm) xs) auto
  then have set_ys: "set ?ys = set xs - {v}" by (subst xs) auto
  have srt': "sorted_wrt (<) ?ys" using srt by (subst (asm) xs) (auto simp: sorted_wrt_append)
  have lc: "length (contents is) = ?n * ?l" by (simp add: cont length_concat_uniform)
  have small': "k * ?n < 2 ^ 32" if "k \<le> ?l" for k
  proof -
    have "k * ?n \<le> ?l * 8" using that enc by (intro mult_le_mono) (auto simp: intset_encs)
    with small show ?thesis by linarith
  qed
  have a1: "take (?n * pos) (contents is) = concat (map (le_senc ?n) (take pos xs))"
    by (simp add: cont take_concat_uniform)
  have a2: "drop (?n * Suc pos) (contents is) = concat (map (le_senc ?n) (drop (Suc pos) xs))"
    unfolding cont by (rule drop_concat_uniform) simp
  have l1: "?n * Suc pos + ?n * (?l - Suc pos) = ?n * ?l"
    using pos(1) by (metis add_mult_distrib2 le_add_diff_inverse Suc_leI)
  have l2: "?n * pos + ?n * (?l - Suc pos) = ?n * (?l - 1)"
    using pos(1) by (simp only: add_mult_distrib2 [symmetric]) simp
  have "\<exists>c. (if pos < ?l - 1 then intsetMoveTail is (pos + 1) pos else Some is) = Some (is\<lparr>contents := c\<rparr>) \<and>
      ?n * (?l - 1) \<le> length c \<and> take (?n * (?l - 1)) c = concat (map (le_senc ?n) ?ys)"
  proof (cases "pos < ?l - 1")
    case True
    have "intsetMoveTail is (pos + 1) pos = Some (is\<lparr>contents := take (?n * pos) (contents is) @
              take (?n * (?l - Suc pos)) (drop (?n * Suc pos) (contents is)) @
              drop (?n * pos + ?n * (?l - Suc pos)) (contents is)\<rparr>)"
      using enc small' [of "?l - Suc pos"] l1 l2 lc by (subst moveTail_eq) (auto simp: len)
    also have "take (?n * (?l - Suc pos)) (drop (?n * Suc pos) (contents is)) = concat (map (le_senc ?n) (drop (Suc pos) xs))"
      unfolding a2 by (simp add: length_concat_uniform)
    also have "take (?n * pos) (contents is) @ concat (map (le_senc ?n) (drop (Suc pos) xs)) @
        drop (?n * pos + ?n * (?l - Suc pos)) (contents is) =
        concat (map (le_senc ?n) ?ys) @ drop (?n * pos + ?n * (?l - Suc pos)) (contents is)"
      by (simp only: a1 map_append concat_append append_assoc)
    finally have mt: "intsetMoveTail is (pos + 1) pos =
      Some (is\<lparr>contents := concat (map (le_senc ?n) ?ys) @ drop (?n * pos + ?n * (?l - Suc pos)) (contents is)\<rparr>)" .
    have lx: "length (concat (map (le_senc ?n) ?ys)) = ?n * (?l - 1)"
      using pos(1) by (simp only: length_concat_uniform [OF length_le_senc]) simp
    have "take (?n * (?l - 1)) (concat (map (le_senc ?n) ?ys) @ zs) = concat (map (le_senc ?n) ?ys)"
      and "?n * (?l - 1) \<le> length (concat (map (le_senc ?n) ?ys) @ zs)" for zs
      by (simp_all only: lx [symmetric] take_append) simp_all
    with True mt show ?thesis by (simp only: if_True) blast
  next
    case False
    with pos(1) have "pos = ?l - 1" by simp
    with a1 lc False show ?thesis by (intro exI [of _ "contents is"]) simp
  qed
  then obtain c where mv: "(if pos < ?l - 1 then intsetMoveTail is (pos + 1) pos else Some is) = Some (is\<lparr>contents := c\<rparr>)"
    and c: "?n * (?l - 1) \<le> length c" "take (?n * (?l - 1)) c = concat (map (le_senc ?n) ?ys)" by blast
  have rm: "intsetRemove e g is v =
      Some (is\<lparr>contents := concat (map (le_senc ?n) ?ys), is_length := ?l - 1\<rparr>, v \<in> set xs)"
    using venc se mv c small' [of "?l - 1"] pos(1) True
    by (simp add: intsetRemove_def Let_def len intsetResize_def zrealloc_shrink mult.commute)
  have rp: "intset_rep (is\<lparr>contents := concat (map (le_senc ?n) ?ys), is_length := ?l - 1\<rparr>) ?ys"
  proof -
    have "\<forall>x \<in> set ?ys. sfits ?n x" unfolding set_ys using all by blast
    moreover have "length ?ys = ?l - 1" using pos(1) by simp
    ultimately show ?thesis using enc srt' by (simp only: intset_rep_def) simp
  qed
  from rm rp set_ys show ?thesis by (intro exI conjI)
qed

lemma intset_find_rep:
  assumes "intset_rep is xs"
  shows "intsetFind e is v = Some (v \<in> set xs)"
proof -
  obtain pos where "intsetSearch e is v = Some (v \<in> set xs, pos)"
    using search_correct [OF assms] by blast
  moreover have "us_intsetValueEncoding v \<le> is_encoding is" if "v \<in> set xs"
    using assms that valueEncoding_minimal by (auto simp: intset_rep_def)
  ultimately show ?thesis by (auto simp: intsetFind_def)
qed

section \<open>An intset is a set container\<close>

definition intset_set :: "intset \<Rightarrow> int set \<Rightarrow> bool" where
  "intset_set is A \<longleftrightarrow> (\<exists>xs. intset_rep is xs \<and> set xs = A)"

text \<open>\<open>UINT32_MAX\<close> bytes of 8-byte elements: up to here no \<open>uint32_t\<close> size wraps around.\<close>

definition intset_capacity :: nat where
  "intset_capacity = 2 ^ 29 - 1"

lemma intset_rep_card: "intset_rep is xs \<Longrightarrow> card (set xs) = length xs"
  by (simp add: intset_rep_def strict_sorted_iff distinct_card)

interpretation iset: set_container intset_set "\<lambda>is v. intsetAdd e g is v" "\<lambda>is v. intsetRemove e g is v"
  "\<lambda>is v. map_option (Pair is) (intsetFind e is v)" "sfits 8" intset_capacity
  for e g
proof
  fix s A v
  assume rep: "intset_set s A" then show "finite A" by (auto simp: intset_set_def)
  assume v: "sfits 8 v"
  from rep obtain xs where xs: "intset_rep s xs" and A: "A = set xs" by (auto simp: intset_set_def)
  have card: "card A = length xs" using intset_rep_card [OF xs] by (simp add: A)
  show "\<exists>s'. intsetAdd e g s v = Some (s', v \<notin> A) \<and> intset_set s' (insert v A)" if "card A < intset_capacity"
  proof -
    have "(length xs + 1) * 8 < 2 ^ 32" using that by (simp add: intset_capacity_def card)
    from intset_add_rep [OF xs v this, of e g] show ?thesis
      unfolding intset_set_def A by blast
  qed
  assume c: "card A \<le> intset_capacity"
  then have "length xs * 8 < 2 ^ 32" by (simp add: intset_capacity_def card)
  from intset_remove_rep [OF xs this, of e g v]
  show "\<exists>s'. intsetRemove e g s v = Some (s', v \<in> A) \<and> intset_set s' (A - {v})"
    unfolding intset_set_def A by blast
  show "\<exists>s'. map_option (Pair s) (intsetFind e s v) = Some (s', v \<in> A) \<and> intset_set s' A"
    using intset_find_rep [OF xs] rep A by simp
qed

section \<open>Properties\<close>

text \<open>
  C9: a sequence of \<open>intsetAdd\<close>, \<open>intsetRemove\<close> and \<open>intsetFind\<close> calls on a new intset,
  with 64-bit values, never accesses memory outside the intset, replies as the same sequence
  on a mathematical set does, and leaves the elements of that set in strictly increasing order,
  on little and on big endian hosts and whatever bytes the allocator returns.
\<close>

theorem intset_refines_set:
  assumes "\<forall>x \<in> set ops. sfits 8 (setop_val x)" and "length ops < 2 ^ 29"
  shows "\<exists>is xs. run_setops (intsetAdd e g) (intsetRemove e g)
             (\<lambda>is v. map_option (Pair is) (intsetFind e is v)) intsetNew ops =
             Some (is, snd (abs_setops {} ops)) \<and>
           intset_rep is xs \<and> set xs = fst (abs_setops {} ops)"
proof -
  have new: "intset_set intsetNew {}" using intset_rep_new by (auto simp: intset_set_def)
  have "card ({} :: int set) + length ops \<le> intset_capacity"
    using assms(2) by (simp add: intset_capacity_def)
  from iset.run_setops_correct [OF new assms(1) this, of e g] show ?thesis
    unfolding intset_set_def by blast
qed

theorem intset_refines_set_witness:
  "\<exists>is xs. run_setops (intsetAdd Big (\<lambda>i. 7)) (intsetRemove Big (\<lambda>i. 7))
       (\<lambda>is v. map_option (Pair is) (intsetFind Big is v)) intsetNew
       [Add 5, Add (-70000), Add 5, Remove 5, Find (-70000)] =
       Some (is, [True, True, False, True, True]) \<and> intset_rep is xs \<and> set xs = {-70000}"
  using intset_refines_set [of "[Add 5, Add (-70000), Add 5, Remove 5, Find (-70000)]" Big "\<lambda>i. 7"]
  by (simp add: sfits_def insert_Diff_if)

text \<open>
  Adding a value that needs a wider encoding rewrites the array in place, back to front,
  without losing or changing an element: the result holds the old elements and the value,
  which goes to the front when it is negative and to the back otherwise.
\<close>

theorem intset_upgrade_in_place:
  assumes "intset_rep is xs" and "sfits 8 v" and "us_intsetValueEncoding v > is_encoding is"
    and "(length xs + 1) * 8 < 2 ^ 32"
  shows "\<exists>is'. intsetUpgradeAndAdd e g is v = Some is' \<and> is_encoding is' = us_intsetValueEncoding v \<and>
           intset_rep is' (if v < 0 then v # xs else xs @ [v])"
proof -
  obtain is' where up: "intsetUpgradeAndAdd e g is v = Some is'"
    and rep: "intset_rep is' (if v < 0 then v # xs else xs @ [v])"
    using intset_upgrade_and_add [OF assms, of e g] by blast
  from up rep show ?thesis by (auto dest: upgradeAndAdd_encoding)
qed

theorem intset_upgrade_in_place_witness:
  "\<exists>is'. intsetUpgradeAndAdd Little (\<lambda>i. 9)
       \<lparr>is_encoding = 2, is_length = 2, contents = concat (map (le_senc 2) [-3, 4])\<rparr> 100000 = Some is' \<and>
     is_encoding is' = 4 \<and> intset_rep is' [-3, 4, 100000]"
proof -
  let ?is = "\<lparr>is_encoding = 2, is_length = 2, contents = concat (map (le_senc 2) [-3, 4])\<rparr>"
  have "intset_rep ?is [-3, 4]" by (simp add: intset_rep_def intset_encs sfits_def)
  moreover have "us_intsetValueEncoding 100000 = 4"
    by (simp add: us_intsetValueEncoding_def intset_encs int_limits)
  ultimately show ?thesis
    using intset_upgrade_in_place [of ?is "[-3, 4]" 100000 Little "\<lambda>i. 9"] by (simp add: sfits_def)
qed

end
