(* ===== verification/Map_Spec.thy ===== *)
theory Map_Spec
  imports Prelude "HOL-Library.Multiset"
begin

text \<open>
  The contract of a dictionary as its clients use it, and the lemmas that relate the multiset
  of entries of a container to the finite map it stands for. The operations may fail
  (\<open>None\<close>: undefined behaviour); a lookup may change the container (incremental rehashing)
  but not the map it stands for.
\<close>

section \<open>Entries and maps\<close>

lemma map_of_mset_eq:
  assumes "mset xs = mset ys" and "distinct (map fst xs)"
  shows "map_of xs = map_of ys" and "distinct (map fst ys)"
proof -
  have "mset (map fst xs) = mset (map fst ys)" using assms(1) by simp
  with assms(2) show d: "distinct (map fst ys)" by (metis mset_eq_imp_distinct_iff)
  have "set xs = set ys" using assms(1) by (rule mset_eq_setD)
  with d assms(2) show "map_of xs = map_of ys" by (simp add: map_of_inject_set)
qed

lemma entries_add:
  assumes "mset ys = add_mset (k, v) (mset xs)" and "distinct (map fst xs)" and "map_of xs k = None"
  shows "map_of ys = (map_of xs)(k \<mapsto> v)" and "distinct (map fst ys)"
proof -
  have "distinct (map fst ((k, v) # xs))" using assms(2,3) by (simp add: map_of_eq_None_iff)
  moreover have "mset ((k, v) # xs) = mset ys" using assms(1) by simp
  ultimately show "map_of ys = (map_of xs)(k \<mapsto> v)" "distinct (map fst ys)"
    using map_of_mset_eq [of "(k, v) # xs" ys] by auto
qed

lemma entries_del:
  assumes "mset xs = add_mset (k, v) (mset ys)" and "distinct (map fst xs)"
  shows "map_of ys = (map_of xs)(k := None)" and "distinct (map fst ys)"
proof -
  have eq: "mset xs = mset ((k, v) # ys)" using assms(1) by simp
  note m = map_of_mset_eq [OF eq assms(2)]
  then show "distinct (map fst ys)" by simp
  from m have "map_of xs = (map_of ys)(k \<mapsto> v)" and "map_of ys k = None"
    by (auto simp: map_of_eq_None_iff)
  then show "map_of ys = (map_of xs)(k := None)" by auto
qed

lemma entries_upd:
  assumes "mset xs = add_mset (k, w) (mset zs)" and "mset ys = add_mset (k, v) (mset zs)"
    and "distinct (map fst xs)"
  shows "map_of ys = (map_of xs)(k \<mapsto> v)" and "distinct (map fst ys)"
proof -
  note d = entries_del [OF assms(1,3)]
  from d have "map_of zs k = None" by simp
  from entries_add [OF assms(2) d(2) this] d(1)
  show "map_of ys = (map_of xs)(k \<mapsto> v)" "distinct (map fst ys)" by auto
qed

section \<open>Tables of chains\<close>

lemma mset_concat_update:
  "i < length t \<Longrightarrow> mset (concat (t[i := c])) + mset (t ! i) = mset (concat t) + mset c"
proof (induction t arbitrary: i)
  case (Cons x t)
  then show ?case by (cases i) (auto simp: ac_simps)
qed simp

lemma set_concat_nth: "e \<in> set (concat t) \<longleftrightarrow> (\<exists>i < length t. e \<in> set (t ! i))"
  by (auto simp: in_set_conv_nth [of _ t] intro: nth_mem)

lemma length_concat_update:
  "i < length t \<Longrightarrow> length (concat (t[i := c])) + length (t ! i) = length (concat t) + length c"
  using arg_cong [OF mset_concat_update, of i t size c] by (simp only: size_union size_mset)

section \<open>The contract\<close>

datatype ('k, 'v) mapop = MAdd 'k 'v | MReplace 'k 'v | MDelete 'k | MFetch 'k

datatype 'v mapreply = Flag bool | Val "'v option"

fun abs_mapops :: "('k \<rightharpoonup> 'v) \<Rightarrow> ('k, 'v) mapop list \<Rightarrow> ('k \<rightharpoonup> 'v) \<times> 'v mapreply list" where
  "abs_mapops m [] = (m, [])"
| "abs_mapops m (MAdd k v # xs) =
     (let (m', rs) = abs_mapops (if m k = None then m(k \<mapsto> v) else m) xs in (m', Flag (m k = None) # rs))"
| "abs_mapops m (MReplace k v # xs) =
     (let (m', rs) = abs_mapops (m(k \<mapsto> v)) xs in (m', Flag (m k = None) # rs))"
| "abs_mapops m (MDelete k # xs) =
     (let (m', rs) = abs_mapops (m(k := None)) xs in (m', Flag (m k \<noteq> None) # rs))"
| "abs_mapops m (MFetch k # xs) = (let (m', rs) = abs_mapops m xs in (m', Val (m k) # rs))"

fun run_mapop ::
  "('d \<Rightarrow> 'k \<Rightarrow> 'v \<Rightarrow> ('d \<times> bool) option) \<Rightarrow> ('d \<Rightarrow> 'k \<Rightarrow> 'v \<Rightarrow> ('d \<times> bool) option) \<Rightarrow>
   ('d \<Rightarrow> 'k \<Rightarrow> ('d \<times> bool) option) \<Rightarrow> ('d \<Rightarrow> 'k \<Rightarrow> ('d \<times> 'v option) option) \<Rightarrow>
   'd \<Rightarrow> ('k, 'v) mapop \<Rightarrow> ('d \<times> 'v mapreply) option" where
  "run_mapop add repl del fetch d (MAdd k v) = map_option (map_prod id Flag) (add d k v)"
| "run_mapop add repl del fetch d (MReplace k v) = map_option (map_prod id Flag) (repl d k v)"
| "run_mapop add repl del fetch d (MDelete k) = map_option (map_prod id Flag) (del d k)"
| "run_mapop add repl del fetch d (MFetch k) = map_option (map_prod id Val) (fetch d k)"

fun run_mapops ::
  "('d \<Rightarrow> ('k, 'v) mapop \<Rightarrow> ('d \<times> 'v mapreply) option) \<Rightarrow> 'd \<Rightarrow> ('k, 'v) mapop list \<Rightarrow>
   ('d \<times> 'v mapreply list) option" where
  "run_mapops f d [] = Some (d, [])"
| "run_mapops f d (x # xs) = do {
     (d, r) \<leftarrow> f d x;
     (d, rs) \<leftarrow> run_mapops f d xs;
     Some (d, r # rs)
   }"

text \<open>\<open>rep d m n\<close>: the container \<open>d\<close> stands for the map \<open>m\<close> and holds at most \<open>n\<close> entries.\<close>

locale map_container =
  fixes rep :: "'d \<Rightarrow> ('k \<rightharpoonup> 'v) \<Rightarrow> nat \<Rightarrow> bool"
    and add :: "'d \<Rightarrow> 'k \<Rightarrow> 'v \<Rightarrow> ('d \<times> bool) option"
    and repl :: "'d \<Rightarrow> 'k \<Rightarrow> 'v \<Rightarrow> ('d \<times> bool) option"
    and del :: "'d \<Rightarrow> 'k \<Rightarrow> ('d \<times> bool) option"
    and fetch :: "'d \<Rightarrow> 'k \<Rightarrow> ('d \<times> 'v option) option"
    and capacity :: nat
  assumes rep_add: "rep d m n \<Longrightarrow> n < capacity \<Longrightarrow>
      \<exists>d'. add d k v = Some (d', m k = None) \<and> rep d' (if m k = None then m(k \<mapsto> v) else m) (Suc n)"
    and rep_repl: "rep d m n \<Longrightarrow> n < capacity \<Longrightarrow>
      \<exists>d'. repl d k v = Some (d', m k = None) \<and> rep d' (m(k \<mapsto> v)) (Suc n)"
    and rep_del: "rep d m n \<Longrightarrow> \<exists>d'. del d k = Some (d', m k \<noteq> None) \<and> rep d' (m(k := None)) n"
    and rep_fetch: "rep d m n \<Longrightarrow> \<exists>d'. fetch d k = Some (d', m k) \<and> rep d' m n"
    and rep_mono: "rep d m n \<Longrightarrow> n \<le> n' \<Longrightarrow> rep d m n'"
begin

lemma mapop_step:
  assumes "rep d m n" and "n < capacity"
  shows "\<exists>d' m' r. run_mapop add repl del fetch d x = Some (d', r) \<and> rep d' m' (Suc n) \<and>
           (\<forall>xs. abs_mapops m (x # xs) = (let (m'', rs) = abs_mapops m' xs in (m'', r # rs)))"
proof (cases x)
  case (MAdd k v)
  obtain d' where "add d k v = Some (d', m k = None)"
    and "rep d' (if m k = None then m(k \<mapsto> v) else m) (Suc n)"
    using rep_add [OF assms] by blast
  with MAdd show ?thesis
    by (intro exI [of _ d'] exI [of _ "if m k = None then m(k \<mapsto> v) else m"] exI [of _ "Flag (m k = None)"]) simp
next
  case (MReplace k v)
  obtain d' where "repl d k v = Some (d', m k = None)" and "rep d' (m(k \<mapsto> v)) (Suc n)"
    using rep_repl [OF assms] by blast
  with MReplace show ?thesis
    by (intro exI [of _ d'] exI [of _ "m(k \<mapsto> v)"] exI [of _ "Flag (m k = None)"]) simp
next
  case (MDelete k)
  obtain d' where "del d k = Some (d', m k \<noteq> None)" and "rep d' (m(k := None)) n"
    using rep_del [OF assms(1)] by blast
  with MDelete rep_mono [of d' "m(k := None)" n "Suc n"] show ?thesis
    by (intro exI [of _ d'] exI [of _ "m(k := None)"] exI [of _ "Flag (m k \<noteq> None)"]) simp
next
  case (MFetch k)
  obtain d' where "fetch d k = Some (d', m k)" and "rep d' m n"
    using rep_fetch [OF assms(1)] by blast
  with MFetch rep_mono [of d' m n "Suc n"] show ?thesis
    by (intro exI [of _ d'] exI [of _ m] exI [of _ "Val (m k)"]) simp
qed

lemma run_mapops_correct:
  assumes "rep d m n" and "n + length xs \<le> capacity"
  shows "\<exists>d'. run_mapops (run_mapop add repl del fetch) d xs = Some (d', snd (abs_mapops m xs)) \<and>
           rep d' (fst (abs_mapops m xs)) (n + length xs)"
  using assms
proof (induction xs arbitrary: d m n)
  case Nil
  then show ?case by simp
next
  case (Cons x xs)
  then have "n < capacity" by simp
  from mapop_step [OF Cons.prems(1) this] obtain d1 m1 r
    where step: "run_mapop add repl del fetch d x = Some (d1, r)" "rep d1 m1 (Suc n)"
      and abs: "abs_mapops m (x # xs) = (let (m'', rs) = abs_mapops m1 xs in (m'', r # rs))" by blast
  have "\<exists>d'. run_mapops (run_mapop add repl del fetch) d1 xs = Some (d', snd (abs_mapops m1 xs)) \<and>
          rep d' (fst (abs_mapops m1 xs)) (Suc n + length xs)"
    using Cons.prems step(2) by (intro Cons.IH) auto
  with step(1) abs show ?case by (auto simp: Let_def split_beta)
qed

end

end
