(* ===== verification/Dict.thy ===== *)
theory Dict
  imports Map_Spec
begin

unbundle bit_operations_syntax

text \<open>
  \<open>dict.c\<close>: hash tables with chaining and incremental rehashing. A chain of \<open>dictEntry\<close>
  structures is the list of its (key, value) pairs, newest first; a table is \<open>None\<close> for the
  NULL pointer or the list of its chains. The hash function of the \<open>dictType\<close> is the argument
  \<open>hf\<close>; keys are compared by their contents (\<open>keyCompare\<close> of the types Redis uses), so key
  equality is HOL equality. The global \<open>dict_can_resize\<close> is the argument \<open>cr\<close>.
  Operations are in the option monad: \<open>None\<close> is a failed \<open>assert\<close>, an access outside a
  table or through a NULL table, or a loop that does not end. \<open>unsigned long\<close> counters are
  natural numbers; \<open>int\<close> conversions that narrow are written out with \<open>to_int32\<close>.

  The invariant \<open>dict_inv\<close> relates the two tables, the counters and the rehash index. The
  lemmas show that every operation keeps it, never fails under it, and acts on the map
  \<open>dict_map\<close> as specified by the locale \<open>map_container\<close>.
\<close>

record ('k, 'v) dictht =
  ht_table :: "('k \<times> 'v) list list option"
  ht_size :: nat
  ht_sizemask :: nat
  ht_used :: nat

record ('k, 'v) dict =
  ht_0 :: "('k, 'v) dictht"
  ht_1 :: "('k, 'v) dictht"
  rehashidx :: int
  iterators :: int

datatype dict_status = DICT_OK | DICT_ERR

definition DICT_HT_INITIAL_SIZE :: nat where "DICT_HT_INITIAL_SIZE = 4"
definition dict_force_resize_ratio :: nat where "dict_force_resize_ratio = 5"
definition LONG_MAX :: nat where "LONG_MAX = 2 ^ 63 - 1"

text \<open>Conversion of an unsigned value to \<open>int\<close>.\<close>

definition to_int32 :: "nat \<Rightarrow> int" where
  "to_int32 n = (int n + 2 ^ 31) mod 2 ^ 32 - 2 ^ 31"

text \<open>A \<open>dictEntry\<close> pointer: which table, which slot, how far down the chain.\<close>

type_synonym entry_ref = "nat \<times> nat \<times> nat"

section \<open>Helpers of the header file\<close>

definition dictIsRehashing :: "('k, 'v) dict \<Rightarrow> bool" where
  "dictIsRehashing d \<longleftrightarrow> rehashidx d \<noteq> -1"

definition dictSlots :: "('k, 'v) dict \<Rightarrow> nat" where
  "dictSlots d = ht_size (ht_0 d) + ht_size (ht_1 d)"

definition dictSize :: "('k, 'v) dict \<Rightarrow> nat" where
  "dictSize d = ht_used (ht_0 d) + ht_used (ht_1 d)"

definition bucket :: "('k, 'v) dictht \<Rightarrow> nat \<Rightarrow> ('k \<times> 'v) list option" where
  "bucket h i = (case ht_table h of None \<Rightarrow> None | Some t \<Rightarrow> if i < length t then Some (t ! i) else None)"

definition set_bucket :: "('k, 'v) dictht \<Rightarrow> nat \<Rightarrow> ('k \<times> 'v) list \<Rightarrow> ('k, 'v) dictht option" where
  "set_bucket h i c =
     (case ht_table h of None \<Rightarrow> None
      | Some t \<Rightarrow> if i < length t then Some (h\<lparr>ht_table := Some (t[i := c])\<rparr>) else None)"

definition get_ht :: "('k, 'v) dict \<Rightarrow> nat \<Rightarrow> ('k, 'v) dictht" where
  "get_ht d t = (if t = 0 then ht_0 d else ht_1 d)"

definition set_ht :: "('k, 'v) dict \<Rightarrow> nat \<Rightarrow> ('k, 'v) dictht \<Rightarrow> ('k, 'v) dict" where
  "set_ht d t h = (if t = 0 then d\<lparr>ht_0 := h\<rparr> else d\<lparr>ht_1 := h\<rparr>)"

text \<open>Walking a chain until the key is found: how far down the entry is.\<close>

fun chain_pos :: "'k \<Rightarrow> ('k \<times> 'v) list \<Rightarrow> nat option" where
  "chain_pos k [] = None"
| "chain_pos k (x # xs) = (if k = fst x then Some 0 else map_option Suc (chain_pos k xs))"

definition deref :: "('k, 'v) dict \<Rightarrow> entry_ref \<Rightarrow> ('k \<times> 'v) option" where
  "deref d r = (case r of (t, i, j) \<Rightarrow> do {
     c \<leftarrow> bucket (get_ht d t) i;
     if j < length c then Some (c ! j) else None
   })"

definition dictSetVal :: "('k, 'v) dict \<Rightarrow> entry_ref \<Rightarrow> 'v \<Rightarrow> ('k, 'v) dict option" where
  "dictSetVal d r v = (case r of (t, i, j) \<Rightarrow> do {
     c \<leftarrow> bucket (get_ht d t) i;
     ensure (j < length c);
     h \<leftarrow> set_bucket (get_ht d t) i (c[j := (fst (c ! j), v)]);
     Some (set_ht d t h)
   })"

section \<open>Creation, expansion and rehashing\<close>

definition us_dictReset :: "('k, 'v) dictht" where
  "us_dictReset = \<lparr>ht_table = None, ht_size = 0, ht_sizemask = 0, ht_used = 0\<rparr>"

definition us_dictInit :: "('k, 'v) dict" where
  "us_dictInit = \<lparr>ht_0 = us_dictReset, ht_1 = us_dictReset, rehashidx = -1, iterators = 0\<rparr>"

definition dictCreate :: "('k, 'v) dict" where
  "dictCreate = us_dictInit"

text \<open>The doubling loop on \<open>unsigned long\<close>; for a size above \<open>2 ^ 63\<close> it would not end.\<close>

partial_function (option) next_power_loop :: "nat \<Rightarrow> nat \<Rightarrow> nat option" where
  "next_power_loop i sz = (if i \<ge> sz then Some i else next_power_loop ((i * 2) mod 2 ^ 64) sz)"

definition us_dictNextPower :: "nat \<Rightarrow> nat option" where
  "us_dictNextPower sz =
     (if sz \<ge> LONG_MAX then Some LONG_MAX else next_power_loop DICT_HT_INITIAL_SIZE sz)"

definition dictExpand :: "('k, 'v) dict \<Rightarrow> nat \<Rightarrow> (('k, 'v) dict \<times> dict_status) option" where
  "dictExpand d sz = do {
     realsize \<leftarrow> us_dictNextPower sz;
     if dictIsRehashing d \<or> ht_used (ht_0 d) > sz then Some (d, DICT_ERR)
     else
       let n = \<lparr>ht_table = Some (replicate realsize []), ht_size = realsize,
                ht_sizemask = realsize - 1, ht_used = 0\<rparr>
       in if ht_table (ht_0 d) = None then Some (d\<lparr>ht_0 := n\<rparr>, DICT_OK)
          else Some (d\<lparr>ht_1 := n, rehashidx := 0\<rparr>, DICT_OK)
   }"

definition dictResize :: "bool \<Rightarrow> ('k, 'v) dict \<Rightarrow> (('k, 'v) dict \<times> dict_status) option" where
  "dictResize cr d =
     (if \<not> cr \<or> dictIsRehashing d then Some (d, DICT_ERR)
      else
        let minimal = to_int32 (ht_used (ht_0 d));
            minimal = (if minimal < int DICT_HT_INITIAL_SIZE then int DICT_HT_INITIAL_SIZE else minimal)
        in dictExpand d (nat minimal))"

text \<open>\<open>while(table[rehashidx] == NULL) rehashidx++\<close>, a read past the table being \<open>None\<close>.\<close>

function skip_empty :: "('k \<times> 'v) list list \<Rightarrow> nat \<Rightarrow> nat option" where
  "skip_empty t i =
     (if i < length t then if t ! i = [] then skip_empty t (Suc i) else Some i else None)"
  by pat_completeness auto
termination
  by (relation "measure (\<lambda>(t, i). length t - i)") auto

declare skip_empty.simps [simp del]

text \<open>Moving a chain from the old to the new table, entry by entry.\<close>

fun move_chain :: "('k \<Rightarrow> nat) \<Rightarrow> ('k \<times> 'v) list \<Rightarrow> ('k, 'v) dictht \<Rightarrow> ('k, 'v) dictht \<Rightarrow>
    (('k, 'v) dictht \<times> ('k, 'v) dictht) option" where
  "move_chain hf [] h0 h1 = Some (h0, h1)"
| "move_chain hf (de # nextde) h0 h1 = do {
     let h = hf (fst de) AND ht_sizemask h1;
     c \<leftarrow> bucket h1 h;
     h1 \<leftarrow> set_bucket h1 h (de # c);
     move_chain hf nextde (h0\<lparr>ht_used := ht_used h0 - 1\<rparr>) (h1\<lparr>ht_used := ht_used h1 + 1\<rparr>)
   }"

text \<open>The body of the \<open>while(n--)\<close> loop; \<open>False\<close> is the early \<open>return 0\<close>.\<close>

definition rehash_body :: "('k \<Rightarrow> nat) \<Rightarrow> ('k, 'v) dict \<Rightarrow> (('k, 'v) dict \<times> bool) option" where
  "rehash_body hf d =
     (if ht_used (ht_0 d) = 0 then
        Some (d\<lparr>ht_0 := ht_1 d, ht_1 := us_dictReset, rehashidx := -1\<rparr>, False)
      else do {
        ensure (int (ht_size (ht_0 d)) > rehashidx d \<and> 0 \<le> rehashidx d);
        t \<leftarrow> ht_table (ht_0 d);
        i \<leftarrow> skip_empty t (nat (rehashidx d));
        (h0, h1) \<leftarrow> move_chain hf (t ! i) (ht_0 d) (ht_1 d);
        h0 \<leftarrow> set_bucket h0 i [];
        Some (d\<lparr>ht_0 := h0, ht_1 := h1, rehashidx := int i + 1\<rparr>, True)
      })"

fun rehash_loop :: "('k \<Rightarrow> nat) \<Rightarrow> nat \<Rightarrow> ('k, 'v) dict \<Rightarrow> (('k, 'v) dict \<times> nat) option" where
  "rehash_loop hf 0 d = Some (d, 1)"
| "rehash_loop hf (Suc n) d = do {
     (d, more) \<leftarrow> rehash_body hf d;
     if more then rehash_loop hf n d else Some (d, 0)
   }"

definition dictRehash :: "('k \<Rightarrow> nat) \<Rightarrow> ('k, 'v) dict \<Rightarrow> nat \<Rightarrow> (('k, 'v) dict \<times> nat) option" where
  "dictRehash hf d n = (if \<not> dictIsRehashing d then Some (d, 0) else rehash_loop hf n d)"

text \<open>\<open>clock i\<close> is what the \<open>i\<close>-th call of \<open>timeInMilliseconds\<close> returns.\<close>

partial_function (option) rehash_ms_loop ::
  "('k \<Rightarrow> nat) \<Rightarrow> (nat \<Rightarrow> int) \<Rightarrow> int \<Rightarrow> nat \<Rightarrow> nat \<Rightarrow> ('k, 'v) dict \<Rightarrow> (('k, 'v) dict \<times> nat) option" where
  "rehash_ms_loop hf clock ms i rehashes d = do {
     (d, r) \<leftarrow> dictRehash hf d 100;
     if r = 0 then Some (d, rehashes)
     else if clock i - clock 0 > ms then Some (d, rehashes + 100)
     else rehash_ms_loop hf clock ms (Suc i) (rehashes + 100) d
   }"

definition dictRehashMilliseconds ::
  "('k \<Rightarrow> nat) \<Rightarrow> (nat \<Rightarrow> int) \<Rightarrow> ('k, 'v) dict \<Rightarrow> int \<Rightarrow> (('k, 'v) dict \<times> nat) option" where
  "dictRehashMilliseconds hf clock d ms = rehash_ms_loop hf clock ms 1 0 d"

definition us_dictRehashStep :: "('k \<Rightarrow> nat) \<Rightarrow> ('k, 'v) dict \<Rightarrow> ('k, 'v) dict option" where
  "us_dictRehashStep hf d = (if iterators d = 0 then map_option fst (dictRehash hf d 1) else Some d)"

text \<open>The step every lookup and update starts with.\<close>

definition rehash_if_needed :: "('k \<Rightarrow> nat) \<Rightarrow> ('k, 'v) dict \<Rightarrow> ('k, 'v) dict option" where
  "rehash_if_needed hf d = (if dictIsRehashing d then us_dictRehashStep hf d else Some d)"

section \<open>Adding, searching and deleting\<close>

definition us_dictExpandIfNeeded :: "bool \<Rightarrow> ('k, 'v) dict \<Rightarrow> (('k, 'v) dict \<times> dict_status) option" where
  "us_dictExpandIfNeeded cr d =
     (if dictIsRehashing d then Some (d, DICT_OK)
      else if ht_size (ht_0 d) = 0 then dictExpand d DICT_HT_INITIAL_SIZE
      else if ht_used (ht_0 d) \<ge> ht_size (ht_0 d) \<and>
              (cr \<or> ht_used (ht_0 d) div ht_size (ht_0 d) > dict_force_resize_ratio)
      then dictExpand d (ht_used (ht_0 d) * 2)
      else Some (d, DICT_OK))"

definition us_dictKeyIndex :: "('k \<Rightarrow> nat) \<Rightarrow> bool \<Rightarrow> ('k, 'v) dict \<Rightarrow> 'k \<Rightarrow> (('k, 'v) dict \<times> int) option" where
  "us_dictKeyIndex hf cr d key = do {
     (d, r) \<leftarrow> us_dictExpandIfNeeded cr d;
     if r = DICT_ERR then Some (d, -1)
     else do {
       let h = hf key;
       let idx = h AND ht_sizemask (ht_0 d);
       c \<leftarrow> bucket (ht_0 d) idx;
       if chain_pos key c \<noteq> None then Some (d, -1)
       else if \<not> dictIsRehashing d then Some (d, to_int32 idx)
       else do {
         let idx = h AND ht_sizemask (ht_1 d);
         c \<leftarrow> bucket (ht_1 d) idx;
         if chain_pos key c \<noteq> None then Some (d, -1) else Some (d, to_int32 idx)
       }
     }
   }"

text \<open>\<open>junk\<close> is what the value field of a new entry holds until the caller sets it.\<close>

definition dictAddRaw ::
  "('k \<Rightarrow> nat) \<Rightarrow> bool \<Rightarrow> 'v \<Rightarrow> ('k, 'v) dict \<Rightarrow> 'k \<Rightarrow> (('k, 'v) dict \<times> entry_ref option) option" where
  "dictAddRaw hf cr junk d key = do {
     d \<leftarrow> rehash_if_needed hf d;
     (d, index) \<leftarrow> us_dictKeyIndex hf cr d key;
     if index = -1 then Some (d, None)
     else do {
       let t = (if dictIsRehashing d then 1 else 0);
       let ht = get_ht d t;
       ensure (0 \<le> index);
       c \<leftarrow> bucket ht (nat index);
       ht \<leftarrow> set_bucket ht (nat index) ((key, junk) # c);
       Some (set_ht d t (ht\<lparr>ht_used := ht_used ht + 1\<rparr>), Some (t, nat index, 0))
     }
   }"

definition dictAdd ::
  "('k \<Rightarrow> nat) \<Rightarrow> bool \<Rightarrow> 'v \<Rightarrow> ('k, 'v) dict \<Rightarrow> 'k \<Rightarrow> 'v \<Rightarrow> (('k, 'v) dict \<times> dict_status) option" where
  "dictAdd hf cr junk d key v = do {
     (d, r) \<leftarrow> dictAddRaw hf cr junk d key;
     case r of None \<Rightarrow> Some (d, DICT_ERR)
     | Some e \<Rightarrow> do { d \<leftarrow> dictSetVal d e v; Some (d, DICT_OK) }
   }"

definition dictFind :: "('k \<Rightarrow> nat) \<Rightarrow> ('k, 'v) dict \<Rightarrow> 'k \<Rightarrow> (('k, 'v) dict \<times> entry_ref option) option" where
  "dictFind hf d key =
     (if ht_size (ht_0 d) = 0 then Some (d, None)
      else do {
        d \<leftarrow> rehash_if_needed hf d;
        let h = hf key;
        let idx = h AND ht_sizemask (ht_0 d);
        c \<leftarrow> bucket (ht_0 d) idx;
        case chain_pos key c of
          Some j \<Rightarrow> Some (d, Some (0, idx, j))
        | None \<Rightarrow>
            if \<not> dictIsRehashing d then Some (d, None)
            else do {
              let idx = h AND ht_sizemask (ht_1 d);
              c \<leftarrow> bucket (ht_1 d) idx;
              Some (d, map_option (\<lambda>j. (1, idx, j)) (chain_pos key c))
            }
      })"

definition dictFetchValue :: "('k \<Rightarrow> nat) \<Rightarrow> ('k, 'v) dict \<Rightarrow> 'k \<Rightarrow> (('k, 'v) dict \<times> 'v option) option" where
  "dictFetchValue hf d key = do {
     (d, he) \<leftarrow> dictFind hf d key;
     case he of None \<Rightarrow> Some (d, None)
     | Some r \<Rightarrow> do { e \<leftarrow> deref d r; Some (d, Some (snd e)) }
   }"

text \<open>\<open>True\<close> is the return value 1: the key was added from scratch.\<close>

definition dictReplace ::
  "('k \<Rightarrow> nat) \<Rightarrow> bool \<Rightarrow> 'v \<Rightarrow> ('k, 'v) dict \<Rightarrow> 'k \<Rightarrow> 'v \<Rightarrow> (('k, 'v) dict \<times> bool) option" where
  "dictReplace hf cr junk d key v = do {
     (d, r) \<leftarrow> dictAdd hf cr junk d key v;
     if r = DICT_OK then Some (d, True)
     else do {
       (d, entry) \<leftarrow> dictFind hf d key;
       e \<leftarrow> entry;
       d \<leftarrow> dictSetVal d e v;
       Some (d, False)
     }
   }"

definition dictReplaceRaw ::
  "('k \<Rightarrow> nat) \<Rightarrow> bool \<Rightarrow> 'v \<Rightarrow> ('k, 'v) dict \<Rightarrow> 'k \<Rightarrow> (('k, 'v) dict \<times> entry_ref option) option" where
  "dictReplaceRaw hf cr junk d key = do {
     (d, entry) \<leftarrow> dictFind hf d key;
     if entry \<noteq> None then Some (d, entry) else dictAddRaw hf cr junk d key
   }"

text \<open>Unlinking the entry \<open>j\<close> places down a chain.\<close>

definition unlink :: "nat \<Rightarrow> 'a list \<Rightarrow> 'a list" where
  "unlink j c = take j c @ drop (Suc j) c"

definition delete_from :: "('k, 'v) dict \<Rightarrow> nat \<Rightarrow> nat \<Rightarrow> nat \<Rightarrow> ('k, 'v) dict option" where
  "delete_from d t idx j = do {
     c \<leftarrow> bucket (get_ht d t) idx;
     h \<leftarrow> set_bucket (get_ht d t) idx (unlink j c);
     Some (set_ht d t (h\<lparr>ht_used := ht_used h - 1\<rparr>))
   }"

definition dictGenericDelete :: "('k \<Rightarrow> nat) \<Rightarrow> ('k, 'v) dict \<Rightarrow> 'k \<Rightarrow> (('k, 'v) dict \<times> dict_status) option" where
  "dictGenericDelete hf d key =
     (if ht_size (ht_0 d) = 0 then Some (d, DICT_ERR)
      else do {
        d \<leftarrow> rehash_if_needed hf d;
        let h = hf key;
        let idx = h AND ht_sizemask (ht_0 d);
        c \<leftarrow> bucket (ht_0 d) idx;
        case chain_pos key c of
          Some j \<Rightarrow> do { d \<leftarrow> delete_from d 0 idx j; Some (d, DICT_OK) }
        | None \<Rightarrow>
            if \<not> dictIsRehashing d then Some (d, DICT_ERR)
            else do {
              let idx = h AND ht_sizemask (ht_1 d);
              c \<leftarrow> bucket (ht_1 d) idx;
              case chain_pos key c of
                Some j \<Rightarrow> do { d \<leftarrow> delete_from d 1 idx j; Some (d, DICT_OK) }
              | None \<Rightarrow> Some (d, DICT_ERR)
            }
      })"

text \<open>\<open>dictDelete\<close> and \<open>dictDeleteNoFree\<close> differ only in what they free.\<close>

definition dictDelete :: "('k \<Rightarrow> nat) \<Rightarrow> ('k, 'v) dict \<Rightarrow> 'k \<Rightarrow> (('k, 'v) dict \<times> dict_status) option" where
  "dictDelete hf d key = dictGenericDelete hf d key"

definition dictDeleteNoFree :: "('k \<Rightarrow> nat) \<Rightarrow> ('k, 'v) dict \<Rightarrow> 'k \<Rightarrow> (('k, 'v) dict \<times> dict_status) option" where
  "dictDeleteNoFree hf d key = dictGenericDelete hf d key"

text \<open>
  Clearing a table: the entries handed to the destructors, in order, and the reset table.
  The loop stops early when no entry is left.
\<close>

fun clear_loop :: "('k \<times> 'v) list list \<Rightarrow> nat \<Rightarrow> ('k \<times> 'v) list" where
  "clear_loop [] used = []"
| "clear_loop (c # cs) used = (if used > 0 then c @ clear_loop cs (used - length c) else [])"

definition us_dictClear :: "('k, 'v) dictht \<Rightarrow> ('k \<times> 'v) list \<times> ('k, 'v) dictht" where
  "us_dictClear h =
     (clear_loop (case ht_table h of None \<Rightarrow> [] | Some t \<Rightarrow> take (ht_size h) t) (ht_used h), us_dictReset)"

text \<open>What \<open>dictRelease\<close> hands to the destructors.\<close>

definition dictRelease :: "('k, 'v) dict \<Rightarrow> ('k \<times> 'v) list" where
  "dictRelease d = fst (us_dictClear (ht_0 d)) @ fst (us_dictClear (ht_1 d))"

definition dictEmpty :: "('k, 'v) dict \<Rightarrow> ('k \<times> 'v) list \<times> ('k, 'v) dict" where
  "dictEmpty d =
     (let (f0, h0) = us_dictClear (ht_0 d);
          (f1, h1) = us_dictClear (ht_1 d)
      in (f0 @ f1, d\<lparr>ht_0 := h0, ht_1 := h1, rehashidx := -1, iterators := 0\<rparr>))"

section \<open>Random entries\<close>

text \<open>\<open>rnd i\<close> is the \<open>i\<close>-th result of \<open>random()\<close>; the retry loop may run forever.\<close>

partial_function (option) random_chain_rehashing ::
  "(nat \<Rightarrow> nat) \<Rightarrow> nat \<Rightarrow> ('k, 'v) dict \<Rightarrow> (('k \<times> 'v) list \<times> nat) option" where
  "random_chain_rehashing rnd i d = do {
     let h = rnd i mod (ht_size (ht_0 d) + ht_size (ht_1 d));
     he \<leftarrow> (if h \<ge> ht_size (ht_0 d) then bucket (ht_1 d) (h - ht_size (ht_0 d)) else bucket (ht_0 d) h);
     if he = [] then random_chain_rehashing rnd (Suc i) d else Some (he, Suc i)
   }"

partial_function (option) random_chain ::
  "(nat \<Rightarrow> nat) \<Rightarrow> nat \<Rightarrow> ('k, 'v) dict \<Rightarrow> (('k \<times> 'v) list \<times> nat) option" where
  "random_chain rnd i d = do {
     he \<leftarrow> bucket (ht_0 d) (rnd i AND ht_sizemask (ht_0 d));
     if he = [] then random_chain rnd (Suc i) d else Some (he, Suc i)
   }"

definition dictGetRandomKey ::
  "('k \<Rightarrow> nat) \<Rightarrow> (nat \<Rightarrow> nat) \<Rightarrow> ('k, 'v) dict \<Rightarrow> (('k, 'v) dict \<times> ('k \<times> 'v) option) option" where
  "dictGetRandomKey hf rnd d =
     (if dictSize d = 0 then Some (d, None)
      else do {
        d \<leftarrow> rehash_if_needed hf d;
        (he, i) \<leftarrow> (if dictIsRehashing d then random_chain_rehashing rnd 0 d else random_chain rnd 0 d);
        let listele = rnd i mod length he;
        Some (d, Some (he ! listele))
      })"

section \<open>The invariant\<close>

definition ht_entries :: "('k, 'v) dictht \<Rightarrow> ('k \<times> 'v) list" where
  "ht_entries h = (case ht_table h of None \<Rightarrow> [] | Some t \<Rightarrow> concat t)"

definition dict_entries :: "('k, 'v) dict \<Rightarrow> ('k \<times> 'v) list" where
  "dict_entries d = ht_entries (ht_0 d) @ ht_entries (ht_1 d)"

definition dict_map :: "('k, 'v) dict \<Rightarrow> ('k \<rightharpoonup> 'v)" where
  "dict_map d = map_of (dict_entries d)"

text \<open>A table in use: a power of two of chains, each entry in the chain of its hash.\<close>

definition ht_live :: "('k \<Rightarrow> nat) \<Rightarrow> ('k, 'v) dictht \<Rightarrow> ('k \<times> 'v) list list \<Rightarrow> nat \<Rightarrow> bool" where
  "ht_live hf h t n \<longleftrightarrow>
     ht_table h = Some t \<and> length t = 2 ^ n \<and> ht_size h = 2 ^ n \<and> ht_sizemask h = 2 ^ n - 1 \<and> n \<le> 31 \<and>
     ht_used h = length (concat t) \<and> (\<forall>i < length t. \<forall>e \<in> set (t ! i). hf (fst e) mod 2 ^ n = i)"

definition dict_inv :: "('k \<Rightarrow> nat) \<Rightarrow> ('k, 'v) dict \<Rightarrow> bool" where
  "dict_inv hf d \<longleftrightarrow>
     distinct (map fst (dict_entries d)) \<and>
     (if dictIsRehashing d
      then \<exists>t0 n0 t1 n1. ht_live hf (ht_0 d) t0 n0 \<and> ht_live hf (ht_1 d) t1 n1 \<and>
             0 \<le> rehashidx d \<and> rehashidx d \<le> int (length t0) \<and> (\<forall>i < nat (rehashidx d). t0 ! i = [])
      else ht_1 d = us_dictReset \<and> (ht_0 d = us_dictReset \<or> (\<exists>t n. ht_live hf (ht_0 d) t n)))"

lemma dict_inv_rehashingI:
  assumes "distinct (map fst (dict_entries d))" and "ht_live hf (ht_0 d) ta na" and "ht_live hf (ht_1 d) tb nb"
    and "0 \<le> rehashidx d" and "rehashidx d \<le> int (length ta)" and "\<forall>i < nat (rehashidx d). ta ! i = []"
  shows "dict_inv hf d"
proof -
  have "dictIsRehashing d" using assms(4) by (simp add: dictIsRehashing_def)
  then show ?thesis unfolding dict_inv_def using assms by (simp only: if_True) blast
qed

lemma dict_inv_staticI:
  assumes "distinct (map fst (dict_entries d))" and "rehashidx d = -1" and "ht_1 d = us_dictReset"
    and "ht_0 d = us_dictReset \<or> ht_live hf (ht_0 d) t n"
  shows "dict_inv hf d"
  unfolding dict_inv_def using assms by (auto simp: dictIsRehashing_def)

lemma dict_inv_rehashingE:
  assumes "dict_inv hf d" and "dictIsRehashing d"
  obtains t0 n0 t1 n1 where "ht_live hf (ht_0 d) t0 n0" and "ht_live hf (ht_1 d) t1 n1"
    and "0 \<le> rehashidx d" and "rehashidx d \<le> int (length t0)" and "\<forall>i < nat (rehashidx d). t0 ! i = []"
  using assms unfolding dict_inv_def by auto

lemma dict_inv_staticE:
  assumes "dict_inv hf d" and "\<not> dictIsRehashing d"
  obtains (empty) "ht_1 d = us_dictReset" and "ht_0 d = us_dictReset"
    | (live) t n where "ht_1 d = us_dictReset" and "ht_live hf (ht_0 d) t n"
  using assms unfolding dict_inv_def by auto

lemma dict_inv_static_live:
  "dict_inv hf d \<Longrightarrow> \<not> dictIsRehashing d \<Longrightarrow> ht_0 d \<noteq> us_dictReset \<Longrightarrow> \<exists>t n. ht_live hf (ht_0 d) t n"
  unfolding dict_inv_def by auto

lemma dict_inv_distinct: "dict_inv hf d \<Longrightarrow> distinct (map fst (dict_entries d))"
  by (simp add: dict_inv_def)

lemma and_mask: "(x :: nat) AND (2 ^ n - 1) = x mod 2 ^ n"
  by (metis mask_eq_exp_minus_1 take_bit_eq_mask take_bit_eq_mod)

lemma chain_pos_None: "chain_pos k c = None \<longleftrightarrow> map_of c k = None"
  by (induction c) auto

lemma chain_pos_Some:
  "chain_pos k c = Some j \<Longrightarrow> j < length c \<and> fst (c ! j) = k \<and> map_of c k = Some (snd (c ! j))"
  by (induction c arbitrary: j) (auto split: if_splits)

lemma ht_entries_reset [simp]: "ht_entries us_dictReset = []"
  by (simp add: ht_entries_def us_dictReset_def)

lemma reset_fields [simp]:
  "ht_table us_dictReset = None" "ht_size us_dictReset = 0" "ht_used us_dictReset = 0" "ht_sizemask us_dictReset = 0"
  by (simp_all add: us_dictReset_def)

lemma live_entries: "ht_live hf h t n \<Longrightarrow> ht_entries h = concat t"
  by (simp add: ht_live_def ht_entries_def)

lemma live_used: "ht_live hf h t n \<Longrightarrow> ht_used h = length (ht_entries h)"
  by (simp add: ht_live_def ht_entries_def)

lemma live_bucket: "ht_live hf h t n \<Longrightarrow> bucket h (x AND ht_sizemask h) = Some (t ! (x mod 2 ^ n))"
  by (simp add: ht_live_def bucket_def and_mask [simplified])

lemma live_empty: "n \<le> 31 \<Longrightarrow> ht_live hf \<lparr>ht_table = Some (replicate (2 ^ n) []), ht_size = 2 ^ n,
                ht_sizemask = 2 ^ n - 1, ht_used = 0\<rparr> (replicate (2 ^ n) []) n"
  by (simp add: ht_live_def)

text \<open>Replacing a chain: what the table update must say of the counter.\<close>

lemma live_update:
  assumes live: "ht_live hf h t n" and i: "i < 2 ^ n" and c: "\<And>e. e \<in> set c \<Longrightarrow> hf (fst e) mod 2 ^ n = i"
    and u: "u + length (t ! i) = ht_used h + length c"
  shows "ht_live hf (h\<lparr>ht_table := Some (t[i := c]), ht_used := u\<rparr>) (t[i := c]) n"
    and "mset (concat (t[i := c])) + mset (t ! i) = mset (concat t) + mset c"
proof -
  have it: "i < length t" using live i by (simp add: ht_live_def)
  have "u = length (concat (t[i := c]))"
    using length_concat_update [OF it, of c] u live by (simp add: ht_live_def)
  then show "ht_live hf (h\<lparr>ht_table := Some (t[i := c]), ht_used := u\<rparr>) (t[i := c]) n"
    using live i c by (auto simp: ht_live_def nth_list_update)
  show "mset (concat (t[i := c])) + mset (t ! i) = mset (concat t) + mset c"
    using it by (rule mset_concat_update)
qed

lemma live_lookup:
  assumes live: "ht_live hf h t n" and d: "distinct (map fst (concat t))"
  shows "map_of (t ! (hf k mod 2 ^ n)) k = map_of (concat t) k"
proof -
  let ?i = "hf k mod 2 ^ n"
  have it: "?i < length t" using live by (simp add: ht_live_def)
  have in_chain: "(k, v) \<in> set (concat t) \<longleftrightarrow> (k, v) \<in> set (t ! ?i)" for v
    using live it unfolding set_concat_nth ht_live_def by (metis fst_conv)
  have "concat t = concat (take ?i t) @ t ! ?i @ concat (drop (Suc ?i) t)"
    using it by (metis id_take_nth_drop concat.simps(2) concat_append)
  with d have "distinct (map fst (t ! ?i))" by simp
  with d in_chain show ?thesis
    by (metis map_of_eq_Some_iff not_Some_eq)
qed

subsection \<open>Sizes\<close>

lemma next_power_loop_spec:
  assumes "sz \<le> 2 ^ b" and "k \<le> b" and "b \<le> 63"
  shows "\<exists>n. next_power_loop (2 ^ k) sz = Some (2 ^ n) \<and> sz \<le> 2 ^ n \<and> k \<le> n \<and> n \<le> b"
  using assms(2)
proof (induction "b - k" arbitrary: k)
  case 0
  then have "k = b" by simp
  with assms(1) show ?case by (subst next_power_loop.simps) auto
next
  case (Suc m)
  show ?case
  proof (cases "sz \<le> 2 ^ k")
    case True
    then show ?thesis using Suc.prems by (subst next_power_loop.simps) auto
  next
    case False
    have kb: "Suc k \<le> b" using Suc.hyps(2) by simp
    have "(2 ^ k * 2) mod 2 ^ 64 = (2 ^ Suc k :: nat)"
    proof -
      have "(2 :: nat) ^ Suc k < 2 ^ 64" using kb assms(3) by (intro power_strict_increasing) auto
      then show ?thesis by (simp add: mult.commute)
    qed
    with False have "next_power_loop (2 ^ k) sz = next_power_loop (2 ^ Suc k) sz"
      by (subst next_power_loop.simps) simp
    moreover have "\<exists>n. next_power_loop (2 ^ Suc k) sz = Some (2 ^ n) \<and> sz \<le> 2 ^ n \<and> Suc k \<le> n \<and> n \<le> b"
      using Suc.hyps(2) kb by (intro Suc.hyps(1)) auto
    ultimately show ?thesis by auto
  qed
qed

lemma nextPower_spec:
  assumes "sz \<le> 2 ^ b" and "2 \<le> b" and "b \<le> 62"
  shows "\<exists>n. us_dictNextPower sz = Some (2 ^ n) \<and> sz \<le> 2 ^ n \<and> 2 \<le> n \<and> n \<le> b"
proof -
  have "(2 :: nat) ^ b \<le> 2 ^ 62" using assms(3) by (intro power_increasing) auto
  then have "sz < LONG_MAX" using assms(1) by (simp add: LONG_MAX_def)
  then show ?thesis
    using next_power_loop_spec [OF assms(1,2)] assms(3)
    by (simp add: us_dictNextPower_def DICT_HT_INITIAL_SIZE_def)
qed

section \<open>Rehashing keeps the map\<close>

lemma skip_empty_spec:
  assumes "i \<le> j" and "j < length t" and "t ! j \<noteq> []"
  shows "\<exists>k. skip_empty t i = Some k \<and> i \<le> k \<and> k < length t \<and> t ! k \<noteq> [] \<and> (\<forall>l. i \<le> l \<and> l < k \<longrightarrow> t ! l = [])"
  using assms
proof (induction t i rule: skip_empty.induct)
  case (1 t i)
  show ?case
  proof (cases "t ! i = []")
    case True
    with "1.prems" have "i < j" by (cases "i = j") auto
    then have "\<exists>k. skip_empty t (Suc i) = Some k \<and> Suc i \<le> k \<and> k < length t \<and> t ! k \<noteq> [] \<and>
                 (\<forall>l. Suc i \<le> l \<and> l < k \<longrightarrow> t ! l = [])"
      using "1.prems" True by (intro "1.IH") auto
    then obtain k where k: "skip_empty t (Suc i) = Some k" "Suc i \<le> k" "k < length t" "t ! k \<noteq> []"
      and le: "\<forall>l. Suc i \<le> l \<and> l < k \<longrightarrow> t ! l = []" by blast
    have "t ! l = []" if "i \<le> l" "l < k" for l
      using that le True by (cases "l = i") auto
    moreover have "skip_empty t i = skip_empty t (Suc i)"
      using True "1.prems" by (subst skip_empty.simps) simp
    ultimately show ?thesis using k by (intro exI [of _ k]) simp
  next
    case False
    with "1.prems" have "skip_empty t i = Some i" by (subst skip_empty.simps) simp
    with False "1.prems" show ?thesis by (intro exI [of _ i]) auto
  qed
qed

lemma move_chain_spec:
  assumes "ht_live hf h1 t1 n1"
  shows "\<exists>h1' t1'. move_chain hf c h0 h1 = Some (h0\<lparr>ht_used := ht_used h0 - length c\<rparr>, h1') \<and>
           ht_live hf h1' t1' n1 \<and> mset (concat t1') = mset (concat t1) + mset c"
  using assms
proof (induction c arbitrary: h0 h1 t1)
  case Nil
  then show ?case by auto
next
  case (Cons de c)
  let ?i = "hf (fst de) mod 2 ^ n1"
  let ?t = "t1[?i := de # t1 ! ?i]"
  let ?h = "h1\<lparr>ht_table := Some ?t, ht_used := ht_used h1 + 1\<rparr>"
  have len: "length t1 = 2 ^ n1" and tab: "ht_table h1 = Some t1" and
    mask: "ht_sizemask h1 = 2 ^ n1 - 1" using Cons.prems by (auto simp: ht_live_def)
  have in_chain: "hf (fst e) mod 2 ^ n1 = ?i" if "e \<in> set (de # t1 ! ?i)" for e
    using that Cons.prems by (auto simp: ht_live_def)
  have live: "ht_live hf ?h ?t n1"
    by (rule live_update(1) [OF Cons.prems _ in_chain]) simp_all
  have ms: "mset (concat ?t) = mset (concat t1) + {#de#}"
    using mset_concat_update [of ?i t1 "de # t1 ! ?i"] len by simp
  obtain h1' t1'
    where mv: "move_chain hf c (h0\<lparr>ht_used := ht_used h0 - 1\<rparr>) ?h =
             Some (h0\<lparr>ht_used := ht_used h0 - 1 - length c\<rparr>, h1')"
      and l: "ht_live hf h1' t1' n1" and ms': "mset (concat t1') = mset (concat ?t) + mset c"
    using Cons.IH [OF live, of "h0\<lparr>ht_used := ht_used h0 - 1\<rparr>"] by auto
  have "move_chain hf (de # c) h0 h1 = Some (h0\<lparr>ht_used := ht_used h0 - length (de # c)\<rparr>, h1')"
    using mv tab len mask by (simp add: and_mask [simplified] bucket_def set_bucket_def)
  moreover have "mset (concat t1') = mset (concat t1) + mset (de # c)" using ms ms' by simp
  ultimately show ?case using l by (intro exI conjI)
qed

text \<open>What a step of incremental rehashing may change: neither the entries nor the iterator count.\<close>

definition same_entries :: "('k, 'v) dict \<Rightarrow> ('k, 'v) dict \<Rightarrow> bool" where
  "same_entries d d' \<longleftrightarrow> mset (dict_entries d') = mset (dict_entries d) \<and> iterators d' = iterators d"

lemma same_entries_refl [simp]: "same_entries d d"
  by (simp add: same_entries_def)

lemma same_entries_trans [trans]: "same_entries a b \<Longrightarrow> same_entries b c \<Longrightarrow> same_entries a c"
  by (simp add: same_entries_def)

lemma same_entries_map:
  assumes "same_entries d d'" and "dict_inv hf d"
  shows "dict_map d' = dict_map d" and "distinct (map fst (dict_entries d'))"
  using assms map_of_mset_eq [of "dict_entries d" "dict_entries d'"]
  by (auto simp: same_entries_def dict_inv_def dict_map_def)

lemma dictSize_entries: "dict_inv hf d \<Longrightarrow> dictSize d = length (dict_entries d)"
  by (auto simp: dict_inv_def dictSize_def dict_entries_def live_used split: if_splits)

lemma same_entries_size: "same_entries d d' \<Longrightarrow> dict_inv hf d \<Longrightarrow> dict_inv hf d' \<Longrightarrow> dictSize d' = dictSize d"
  using dictSize_entries [of hf d] dictSize_entries [of hf d'] mset_eq_length [of "dict_entries d'" "dict_entries d"]
  by (simp add: same_entries_def)

lemma rehash_body_spec:
  assumes inv: "dict_inv hf d" and re: "dictIsRehashing d"
  shows "\<exists>d' more. rehash_body hf d = Some (d', more) \<and> dict_inv hf d' \<and> same_entries d d' \<and>
           (more = dictIsRehashing d') \<and> (more \<longrightarrow> rehashidx d < rehashidx d' \<and> ht_size (ht_0 d') = ht_size (ht_0 d))"
proof -
  obtain t0 n0 t1 n1 where l0: "ht_live hf (ht_0 d) t0 n0" and l1: "ht_live hf (ht_1 d) t1 n1"
    and ri: "0 \<le> rehashidx d" "rehashidx d \<le> int (length t0)" and em: "\<forall>i < nat (rehashidx d). t0 ! i = []"
    using dict_inv_rehashingE [OF inv re] .
  note dist = dict_inv_distinct [OF inv]
  show ?thesis
  proof (cases "ht_used (ht_0 d) = 0")
    case True
    then have "concat t0 = []" using l0 by (simp add: ht_live_def)
    then have "ht_entries (ht_0 d) = []" using l0 by (simp add: live_entries)
    define d' where "d' = d\<lparr>ht_0 := ht_1 d, ht_1 := us_dictReset, rehashidx := -1\<rparr>"
    have same: "same_entries d d'"
      using \<open>ht_entries (ht_0 d) = []\<close> by (simp add: same_entries_def dict_entries_def d'_def)
    have "dict_inv hf d'"
      using same_entries_map(2) [OF same inv] l1 by (intro dict_inv_staticI) (auto simp: d'_def)
    moreover have "rehash_body hf d = Some (d', False)" using True by (simp add: rehash_body_def d'_def)
    ultimately show ?thesis using same by (auto simp: d'_def dictIsRehashing_def)
  next
    case False
    then obtain e where "e \<in> set (concat t0)" using l0 by (cases "concat t0") (auto simp: ht_live_def)
    then obtain j where j: "j < length t0" "e \<in> set (t0 ! j)"
      unfolding set_concat_nth by blast
    then have ne: "t0 ! j \<noteq> []" by auto
    then have "nat (rehashidx d) \<le> j" using em by (meson linorder_not_less)
    from skip_empty_spec [OF this j(1) ne] obtain k where sk: "skip_empty t0 (nat (rehashidx d)) = Some k"
      and k: "nat (rehashidx d) \<le> k" "k < length t0" and em': "\<forall>l. nat (rehashidx d) \<le> l \<and> l < k \<longrightarrow> t0 ! l = []" by blast
    from move_chain_spec [OF l1, of "t0 ! k" "ht_0 d"] obtain h1' t1' where
      mv: "move_chain hf (t0 ! k) (ht_0 d) (ht_1 d) = Some ((ht_0 d)\<lparr>ht_used := ht_used (ht_0 d) - length (t0 ! k)\<rparr>, h1')"
      and l1': "ht_live hf h1' t1' n1" and ms1: "mset (concat t1') = mset (concat t1) + mset (t0 ! k)" by blast
    define h0' where "h0' = (ht_0 d)\<lparr>ht_table := Some (t0[k := []]), ht_used := ht_used (ht_0 d) - length (t0 ! k)\<rparr>"
    have "length (t0 ! k) \<le> ht_used (ht_0 d)"
      using l0 k(2) length_concat_update [OF k(2), of "[]"] by (simp add: ht_live_def)
    then have u: "ht_used (ht_0 d) - length (t0 ! k) + length (t0 ! k) = ht_used (ht_0 d) + length []" by simp
    have kn: "k < 2 ^ n0" using k(2) l0 by (simp add: ht_live_def)
    have l0': "ht_live hf h0' (t0[k := []]) n0"
      unfolding h0'_def by (rule live_update(1) [OF l0 kn _ u]) simp
    have ms0: "mset (concat (t0[k := []])) + mset (t0 ! k) = mset (concat t0)"
      using mset_concat_update [OF k(2), of "[]"] by simp
    define d' where "d' = d\<lparr>ht_0 := h0', ht_1 := h1', rehashidx := int k + 1\<rparr>"
    have body: "rehash_body hf d = Some (d', True)"
    proof -
      have "rehashidx d < int (length t0)" using ri(1) k by linarith
      moreover have "ht_table (ht_0 d) = Some t0" "ht_size (ht_0 d) = length t0"
        using l0 by (simp_all add: ht_live_def)
      ultimately show ?thesis
        using False sk mv ri(1) k(2) by (simp add: rehash_body_def set_bucket_def d'_def h0'_def)
    qed
    have same: "same_entries d d'"
      using ms0 ms1 by (simp add: same_entries_def dict_entries_def d'_def live_entries [OF l0] live_entries [OF l1]
          live_entries [OF l0'] live_entries [OF l1'] ac_simps)
    have "\<forall>i < nat (int k + 1). (t0[k := []]) ! i = []"
    proof (intro allI impI)
      fix i assume "i < nat (int k + 1)"
      then have "i \<le> k" by linarith
      then show "(t0[k := []]) ! i = []"
        using em em' k by (cases "i = k"; cases "i < nat (rehashidx d)") auto
    qed
    then have "dict_inv hf d'"
      using same_entries_map(2) [OF same inv] l0' l1' k
      by (intro dict_inv_rehashingI [where d = d' and ta = "t0[k := []]"]) (auto simp: d'_def)
    with body same show ?thesis
      using ri k by (auto simp: d'_def dictIsRehashing_def h0'_def)
  qed
qed

lemma rehash_loop_spec:
  assumes "dict_inv hf d" and "dictIsRehashing d"
  shows "\<exists>d' r. rehash_loop hf n d = Some (d', r) \<and> dict_inv hf d' \<and> same_entries d d' \<and>
           (r = (if dictIsRehashing d' then 1 else 0)) \<and>
           (dictIsRehashing d' \<longrightarrow> rehashidx d + int n \<le> rehashidx d' \<and> ht_size (ht_0 d') = ht_size (ht_0 d))"
  using assms
proof (induction n arbitrary: d)
  case 0
  then show ?case by simp
next
  case (Suc n)
  obtain d1 more where b: "rehash_body hf d = Some (d1, more)" "dict_inv hf d1" "same_entries d d1"
    "more = dictIsRehashing d1" "more \<longrightarrow> rehashidx d < rehashidx d1 \<and> ht_size (ht_0 d1) = ht_size (ht_0 d)"
    using rehash_body_spec [OF Suc.prems] by blast
  show ?case
  proof (cases more)
    case True
    with b(4) have "dictIsRehashing d1" by simp
    from Suc.IH [OF b(2) this] obtain d' r where "rehash_loop hf n d1 = Some (d', r)" "dict_inv hf d'"
      "same_entries d1 d'" "r = (if dictIsRehashing d' then 1 else 0)"
      "dictIsRehashing d' \<longrightarrow> rehashidx d1 + int n \<le> rehashidx d' \<and> ht_size (ht_0 d') = ht_size (ht_0 d1)" by blast
    with b True show ?thesis by (intro exI [of _ d'] exI [of _ r]) (auto intro: same_entries_trans)
  next
    case False
    with b show ?thesis by (intro exI [of _ d1] exI [of _ 0]) simp
  qed
qed

lemma dictRehash_spec:
  assumes "dict_inv hf d"
  shows "\<exists>d' r. dictRehash hf d n = Some (d', r) \<and> dict_inv hf d' \<and> same_entries d d' \<and>
           (r = (if dictIsRehashing d' then 1 else 0)) \<and>
           (dictIsRehashing d' \<longrightarrow> rehashidx d + int n \<le> rehashidx d' \<and> ht_size (ht_0 d') = ht_size (ht_0 d))"
proof (cases "dictIsRehashing d")
  case True
  then show ?thesis using rehash_loop_spec [OF assms True, of n] by (simp add: dictRehash_def)
next
  case False
  with assms show ?thesis by (simp add: dictRehash_def)
qed

lemma rehash_if_needed_spec:
  assumes "dict_inv hf d"
  shows "\<exists>d'. rehash_if_needed hf d = Some d' \<and> dict_inv hf d' \<and> same_entries d d' \<and>
           (dictIsRehashing d' \<longrightarrow> dictIsRehashing d) \<and>
           (ht_size (ht_0 d) \<noteq> 0 \<longrightarrow> ht_size (ht_0 d') \<noteq> 0)"
proof -
  obtain d' r where r: "dictRehash hf d 1 = Some (d', r)" "dict_inv hf d'" "same_entries d d'"
    using dictRehash_spec [OF assms, of 1] by blast
  have "ht_size (ht_0 d') \<noteq> 0" if re: "dictIsRehashing d"
  proof (cases "dictIsRehashing d'")
    case True
    from dict_inv_rehashingE [OF r(2) this] obtain t n where "ht_live hf (ht_0 d') t n" by blast
    then show ?thesis by (simp add: ht_live_def)
  next
    case False
    with re r(1) have "\<exists>d1. rehash_body hf d = Some (d1, False) \<and> d' = d1 \<or> rehash_body hf d = Some (d', True)"
      by (auto simp: dictRehash_def bind_eq_Some_conv' split: if_splits)
    moreover obtain d1 more where "rehash_body hf d = Some (d1, more)" "more = dictIsRehashing d1"
      using rehash_body_spec [OF assms re] by blast
    ultimately have "rehash_body hf d = Some (d', False)" using False by auto
    moreover obtain t n where "ht_live hf (ht_1 d) t n" using dict_inv_rehashingE [OF assms re] by blast
    ultimately show ?thesis by (auto simp: rehash_body_def ht_live_def bind_eq_Some_conv' split: if_splits)
  qed
  with r assms show ?thesis
    by (cases "dictIsRehashing d") (auto simp: rehash_if_needed_def us_dictRehashStep_def)
qed

section \<open>Expanding\<close>

text \<open>Up to this many entries no table size exceeds \<open>2 ^ 31\<close> and slot numbers fit an \<open>int\<close>.\<close>

definition dict_capacity :: nat where
  "dict_capacity = 2 ^ 30"

lemma dictExpand_spec:
  assumes inv: "dict_inv hf d" and nre: "\<not> dictIsRehashing d" and sz: "sz \<le> 2 ^ 31"
    and fits: "ht_used (ht_0 d) \<le> sz"
  shows "\<exists>d'. dictExpand d sz = Some (d', DICT_OK) \<and> dict_inv hf d' \<and> same_entries d d' \<and> ht_size (ht_0 d') \<noteq> 0"
proof -
  obtain n where np: "us_dictNextPower sz = Some (2 ^ n)" and n: "n \<le> 31" "2 \<le> n"
    using nextPower_spec [OF sz] by auto
  let ?h = "\<lparr>ht_table = Some (replicate (2 ^ n) []), ht_size = 2 ^ n, ht_sizemask = 2 ^ n - 1, ht_used = 0\<rparr>
    :: ('a, 'b) dictht"
  have live: "ht_live hf ?h (replicate (2 ^ n) []) n" using n(1) by (rule live_empty)
  have ent: "ht_entries ?h = []" using live_entries [OF live] by simp
  note dist = dict_inv_distinct [OF inv]
  from inv nre show ?thesis
  proof (cases rule: dict_inv_staticE)
    case empty
    let ?d = "d\<lparr>ht_0 := ?h\<rparr>"
    have same: "same_entries d ?d" using empty ent by (simp add: same_entries_def dict_entries_def)
    have "dict_inv hf ?d"
      using empty nre live same_entries_map(2) [OF same inv]
      by (intro dict_inv_staticI [where t = "replicate (2 ^ n) []" and n = n]) (auto simp: dictIsRehashing_def)
    moreover have "dictExpand d sz = Some (?d, DICT_OK)"
      using np nre fits empty by (simp add: dictExpand_def Let_def)
    ultimately show ?thesis using same by (intro exI [of _ ?d]) simp
  next
    case (live t m)
    let ?d = "d\<lparr>ht_1 := ?h, rehashidx := 0\<rparr>"
    have same: "same_entries d ?d" using live ent by (simp add: same_entries_def dict_entries_def)
    have "dict_inv hf ?d"
      using live \<open>ht_live hf ?h (replicate (2 ^ n) []) n\<close> same_entries_map(2) [OF same inv]
      by (intro dict_inv_rehashingI [where ta = t and na = m and tb = "replicate (2 ^ n) []" and nb = n]) auto
    moreover have "dictExpand d sz = Some (?d, DICT_OK)"
      using np nre fits live by (simp add: dictExpand_def Let_def ht_live_def)
    moreover have "ht_size (ht_0 ?d) \<noteq> 0" using live by (simp add: ht_live_def)
    ultimately show ?thesis using same by (intro exI [of _ ?d]) simp
  qed
qed

lemma expandIfNeeded_spec:
  assumes inv: "dict_inv hf d" and cap: "dictSize d < dict_capacity"
  shows "\<exists>d'. us_dictExpandIfNeeded cr d = Some (d', DICT_OK) \<and> dict_inv hf d' \<and> same_entries d d' \<and>
           ht_size (ht_0 d') \<noteq> 0"
proof (cases "dictIsRehashing d")
  case True
  from dict_inv_rehashingE [OF inv this] obtain t n where "ht_live hf (ht_0 d) t n" by blast
  with True inv show ?thesis by (intro exI [of _ d]) (simp add: us_dictExpandIfNeeded_def ht_live_def)
next
  case False
  have u: "ht_used (ht_0 d) \<le> ht_used (ht_0 d) * 2" "ht_used (ht_0 d) * 2 \<le> 2 ^ 31"
    using cap by (simp_all add: dictSize_def dict_capacity_def)
  show ?thesis
  proof (cases "ht_size (ht_0 d) = 0")
    case True
    with inv False have "ht_used (ht_0 d) = 0"
      by (cases rule: dict_inv_staticE) (auto simp: ht_live_def)
    with dictExpand_spec [OF inv False, of 4] True False show ?thesis
      by (simp add: us_dictExpandIfNeeded_def DICT_HT_INITIAL_SIZE_def)
  next
    case ne: False
    then show ?thesis using dictExpand_spec [OF inv False u(2,1)] inv False
      by (auto simp: us_dictExpandIfNeeded_def)
  qed
qed

section \<open>Looking up a key\<close>

lemma to_int32_small: "n < 2 ^ 31 \<Longrightarrow> to_int32 n = int n"
  by (simp add: to_int32_def)

lemma live_slot:
  assumes "ht_live hf h t n"
  shows "x AND ht_sizemask h = x mod 2 ^ n" and "to_int32 (x AND ht_sizemask h) = int (x mod 2 ^ n)"
    and "x mod 2 ^ n < length t"
proof -
  show eq: "x AND ht_sizemask h = x mod 2 ^ n" using assms by (simp add: ht_live_def and_mask [simplified])
  have "x mod 2 ^ n < 2 ^ n" by simp
  also have "(2 :: nat) ^ n \<le> 2 ^ 31" using assms by (intro power_increasing) (auto simp: ht_live_def)
  finally show "to_int32 (x AND ht_sizemask h) = int (x mod 2 ^ n)" unfolding eq by (rule to_int32_small)
  show "x mod 2 ^ n < length t" using assms by (simp add: ht_live_def)
qed

text \<open>The two probes of a lookup, and what they say of the map.\<close>

lemma static_lookup:
  assumes inv: "dict_inv hf d" and nre: "\<not> dictIsRehashing d" and live: "ht_live hf (ht_0 d) t n"
  shows "dict_map d k = map_of (t ! (hf k mod 2 ^ n)) k"
proof -
  have "ht_1 d = us_dictReset" using inv nre by (cases rule: dict_inv_staticE)
  then have ent: "dict_entries d = concat t" by (simp add: dict_entries_def live_entries [OF live])
  with dict_inv_distinct [OF inv] live_lookup [OF live, of k] show ?thesis by (simp add: dict_map_def)
qed

lemma rehashing_lookup:
  assumes inv: "dict_inv hf d" and l0: "ht_live hf (ht_0 d) t0 n0" and l1: "ht_live hf (ht_1 d) t1 n1"
  shows "dict_map d k = (case map_of (t0 ! (hf k mod 2 ^ n0)) k of
                           Some v \<Rightarrow> Some v | None \<Rightarrow> map_of (t1 ! (hf k mod 2 ^ n1)) k)"
proof -
  have ent: "dict_entries d = concat t0 @ concat t1"
    by (simp add: dict_entries_def live_entries [OF l0] live_entries [OF l1])
  have di: "distinct (map fst (concat t0 @ concat t1))"
    using dict_inv_distinct [OF inv] unfolding ent .
  then have "distinct (map fst (concat t0))" "distinct (map fst (concat t1))"
    and "set (map fst (concat t0)) \<inter> set (map fst (concat t1)) = {}"
    by (simp_all only: map_append distinct_append)
  note lk = live_lookup [OF l0 this(1), of k] live_lookup [OF l1 this(2), of k]
  show ?thesis
  proof (cases "map_of (concat t0) k")
    case None
    with lk show ?thesis by (simp add: dict_map_def ent map_add_def)
  next
    case (Some v)
    then have "k \<in> set (map fst (concat t0))" by (metis map_of_eq_None_iff option.distinct(1) list.set_map)
    then have "k \<notin> set (map fst (concat t1))" using di by auto
    then have "map_of (concat t1) k = None" by (metis map_of_eq_None_iff list.set_map)
    with Some lk show ?thesis by (simp add: dict_map_def ent map_add_def)
  qed
qed

section \<open>Adding\<close>

abbreviation target :: "('k, 'v) dict \<Rightarrow> nat" where
  "target d \<equiv> (if dictIsRehashing d then 1 else 0)"

lemma get_set_ht [simp]: "get_ht (set_ht d t h) t = h"
  by (simp add: get_ht_def set_ht_def)

lemma keyIndex_spec:
  assumes inv: "dict_inv hf d" and cap: "dictSize d < dict_capacity"
  shows "\<exists>d' idx. us_dictKeyIndex hf cr d k = Some (d', idx) \<and> dict_inv hf d' \<and> same_entries d d' \<and>
           (if dict_map d k \<noteq> None then idx = -1
            else \<exists>t n. ht_live hf (get_ht d' (target d')) t n \<and> idx = int (hf k mod 2 ^ n))"
proof -
  obtain d1 where ex: "us_dictExpandIfNeeded cr d = Some (d1, DICT_OK)" and inv1: "dict_inv hf d1"
    and same: "same_entries d d1" and ne: "ht_size (ht_0 d1) \<noteq> 0"
    using expandIfNeeded_spec [OF inv cap] by blast
  have m: "dict_map d k = dict_map d1 k" using same_entries_map(1) [OF same inv] by simp
  show ?thesis
  proof (cases "dictIsRehashing d1")
    case True
    obtain t0 n0 t1 n1 where l0: "ht_live hf (ht_0 d1) t0 n0" and l1: "ht_live hf (ht_1 d1) t1 n1"
      by (rule dict_inv_rehashingE [OF inv1 True]) (rule that)
    note bs = live_bucket [OF l0, of "hf k"] live_bucket [OF l1, of "hf k"] live_slot(2) [OF l1, of "hf k"]
    note lk = rehashing_lookup [OF inv1 l0 l1, of k]
    show ?thesis
    proof (cases "dict_map d1 k")
      case None
      then have "chain_pos k (t0 ! (hf k mod 2 ^ n0)) = None" "chain_pos k (t1 ! (hf k mod 2 ^ n1)) = None"
        using lk by (simp_all add: chain_pos_None split: option.splits)
      then have "us_dictKeyIndex hf cr d k = Some (d1, int (hf k mod 2 ^ n1))"
        using True ex by (simp add: us_dictKeyIndex_def Let_def bs)
      moreover have "\<exists>t n. ht_live hf (get_ht d1 (target d1)) t n \<and> int (hf k mod 2 ^ n1) = int (hf k mod 2 ^ n)"
        using l1 True by (intro exI [of _ t1] exI [of _ n1]) (simp add: get_ht_def)
      ultimately show ?thesis using inv1 same m None
        by (intro exI [of _ d1] exI [of _ "int (hf k mod 2 ^ n1)"]) simp
    next
      case (Some w)
      then have "chain_pos k (t0 ! (hf k mod 2 ^ n0)) \<noteq> None \<or> chain_pos k (t1 ! (hf k mod 2 ^ n1)) \<noteq> None"
        using lk by (simp add: chain_pos_None del: not_None_eq split: option.splits)
      then have "us_dictKeyIndex hf cr d k = Some (d1, -1)"
        using True ex by (auto simp: us_dictKeyIndex_def Let_def bs)
      with inv1 same m Some show ?thesis by (intro exI [of _ d1] exI [of _ "-1"]) simp
    qed
  next
    case False
    have "ht_0 d1 \<noteq> us_dictReset" using ne by auto
    then obtain t n where l0: "ht_live hf (ht_0 d1) t n"
      using dict_inv_static_live [OF inv1 False] by blast
    note bs = live_bucket [OF l0, of "hf k"] live_slot(2) [OF l0, of "hf k"]
    note lk = static_lookup [OF inv1 False l0, of k]
    show ?thesis
    proof (cases "dict_map d1 k")
      case None
      then have "chain_pos k (t ! (hf k mod 2 ^ n)) = None" using lk by (simp add: chain_pos_None)
      then have "us_dictKeyIndex hf cr d k = Some (d1, int (hf k mod 2 ^ n))"
        using False ex by (simp add: us_dictKeyIndex_def Let_def bs)
      moreover have "\<exists>t n'. ht_live hf (get_ht d1 (target d1)) t n' \<and> int (hf k mod 2 ^ n) = int (hf k mod 2 ^ n')"
        using l0 False by (intro exI [of _ t] exI [of _ n]) (simp add: get_ht_def)
      ultimately show ?thesis using inv1 same m None
        by (intro exI [of _ d1] exI [of _ "int (hf k mod 2 ^ n)"]) simp
    next
      case (Some w)
      then have "chain_pos k (t ! (hf k mod 2 ^ n)) \<noteq> None"
        using lk by (simp add: chain_pos_None del: not_None_eq)
      then have "us_dictKeyIndex hf cr d k = Some (d1, -1)"
        using False ex by (auto simp: us_dictKeyIndex_def Let_def bs)
      with inv1 same m Some show ?thesis by (intro exI [of _ d1] exI [of _ "-1"]) simp
    qed
  qed
qed

text \<open>Replacing one chain of one of the tables: all updates of entries are of this form.\<close>

definition put_chain :: "('k, 'v) dict \<Rightarrow> nat \<Rightarrow> ('k \<times> 'v) list list \<Rightarrow> nat \<Rightarrow> ('k \<times> 'v) list \<Rightarrow> nat \<Rightarrow> ('k, 'v) dict" where
  "put_chain d tt t i c u = set_ht d tt ((get_ht d tt)\<lparr>ht_table := Some (t[i := c]), ht_used := u\<rparr>)"

lemma put_chain_fields [simp]:
  "dictIsRehashing (put_chain d tt t i c u) = dictIsRehashing d"
  "rehashidx (put_chain d tt t i c u) = rehashidx d"
  "iterators (put_chain d tt t i c u) = iterators d"
  by (simp_all add: put_chain_def set_ht_def dictIsRehashing_def)

lemma put_chain_entries:
  assumes live: "ht_live hf (get_ht d tt) t n" and i: "i < 2 ^ n"
  shows "mset (dict_entries (put_chain d tt t i c u)) + mset (t ! i) = mset (dict_entries d) + mset c"
proof -
  have "i < length t" using live i by (simp add: ht_live_def)
  from mset_concat_update [OF this, of c] show ?thesis
    using live_entries [OF live]
    by (cases "tt = 0") (simp_all add: dict_entries_def put_chain_def set_ht_def get_ht_def ht_entries_def ac_simps)
qed

lemma put_chain_inv:
  assumes inv: "dict_inv hf d" and live: "ht_live hf (get_ht d tt) t n" and i: "i < 2 ^ n"
    and c: "\<And>e. e \<in> set c \<Longrightarrow> hf (fst e) mod 2 ^ n = i"
    and u: "u + length (t ! i) = ht_used (get_ht d tt) + length c"
    and dist: "distinct (map fst (dict_entries (put_chain d tt t i c u)))"
    and old: "dictIsRehashing d \<Longrightarrow> tt = 0 \<Longrightarrow> t ! i \<noteq> []"
    and tt: "\<not> dictIsRehashing d \<Longrightarrow> tt = 0"
  shows "dict_inv hf (put_chain d tt t i c u)"
proof -
  let ?d = "put_chain d tt t i c u"
  have live': "ht_live hf (get_ht ?d tt) (t[i := c]) n"
    unfolding put_chain_def get_set_ht using live_update(1) [OF live i c u] .
  show ?thesis
  proof (cases "dictIsRehashing d")
    case False
    have "ht_1 d = us_dictReset" using inv False by (cases rule: dict_inv_staticE)
    moreover have "tt = 0" using False tt by simp
    ultimately show ?thesis using dist False live'
      by (intro dict_inv_staticI [where t = "t[i := c]" and n = n])
         (simp_all add: put_chain_def set_ht_def get_ht_def dictIsRehashing_def)
  next
    case True
    obtain t0 n0 t1 n1 where l0: "ht_live hf (ht_0 d) t0 n0" and l1: "ht_live hf (ht_1 d) t1 n1"
      and r: "0 \<le> rehashidx d" "rehashidx d \<le> int (length t0)" "\<forall>j < nat (rehashidx d). t0 ! j = []"
      by (rule dict_inv_rehashingE [OF inv True]) (rule that)
    show ?thesis
    proof (cases "tt = 0")
      case tt0: True
      then have "t = t0" using live l0 by (simp add: get_ht_def ht_live_def)
      with r(3) old [OF True tt0] have "\<not> i < nat (rehashidx d)" by blast
      with r(3) have "\<forall>j < nat (rehashidx d). t0[i := c] ! j = []" by (metis nth_list_update_neq)
      with dist live' l1 r tt0 \<open>t = t0\<close> show ?thesis
        by (intro dict_inv_rehashingI [where ta = "t[i := c]" and na = n and tb = t1 and nb = n1])
           (simp_all add: put_chain_def set_ht_def get_ht_def)
    next
      case tt1: False
      with dist live' l0 r show ?thesis
        by (intro dict_inv_rehashingI [where ta = t0 and na = n0 and tb = "t[i := c]" and nb = n])
           (simp_all add: put_chain_def set_ht_def get_ht_def)
    qed
  qed
qed

lemma insert_entry:
  fixes v :: 'v
  assumes inv: "dict_inv hf d" and live: "ht_live hf (get_ht d (target d)) t n" and new: "dict_map d k = None"
  defines "i \<equiv> hf k mod 2 ^ n"
  defines "d' \<equiv> put_chain d (target d) t i ((k, v) # t ! i) (ht_used (get_ht d (target d)) + 1)"
  shows "dict_inv hf d'" and "dict_map d' = (dict_map d)(k \<mapsto> v)" and "dictSize d' = dictSize d + 1"
proof -
  have i: "i < 2 ^ n" and it: "i < length t" using live by (simp_all add: i_def ht_live_def)
  have "mset (dict_entries d') = add_mset (k, v) (mset (dict_entries d))"
    using put_chain_entries [OF live i, of "(k, v) # t ! i" "ht_used (get_ht d (target d)) + 1"]
    unfolding d'_def by simp
  note res = entries_add [OF this dict_inv_distinct [OF inv] new [unfolded dict_map_def]]
  show "dict_map d' = (dict_map d)(k \<mapsto> v)" using res(1) by (simp add: dict_map_def)
  have "hf (fst e) mod 2 ^ n = i" if "e \<in> set ((k, v) # t ! i)" for e
    using that live it by (auto simp: i_def ht_live_def)
  then show inv': "dict_inv hf d'"
    unfolding d'_def using res(2) [unfolded d'_def]
    by (intro put_chain_inv [OF inv live i]) simp_all
  show "dictSize d' = dictSize d + 1"
    unfolding d'_def by (simp add: dictSize_def put_chain_def set_ht_def get_ht_def)
qed

lemma dictAdd_spec:
  assumes inv: "dict_inv hf d" and cap: "dictSize d < dict_capacity"
  shows "\<exists>d'. dictAdd hf cr junk d k v = Some (d', if dict_map d k = None then DICT_OK else DICT_ERR) \<and>
           dict_inv hf d' \<and> iterators d' = iterators d \<and>
           dict_map d' = (if dict_map d k = None then (dict_map d)(k \<mapsto> v) else dict_map d) \<and>
           dictSize d' = dictSize d + (if dict_map d k = None then 1 else 0)"
proof -
  obtain d1 where r: "rehash_if_needed hf d = Some d1" and inv1: "dict_inv hf d1" and s1: "same_entries d d1"
    using rehash_if_needed_spec [OF inv] by blast
  note m1 = same_entries_map(1) [OF s1 inv] and z1 = same_entries_size [OF s1 inv inv1]
  have cap1: "dictSize d1 < dict_capacity" using cap z1 by simp
  obtain d2 idx where ki: "us_dictKeyIndex hf cr d1 k = Some (d2, idx)" and inv2: "dict_inv hf d2"
    and s2: "same_entries d1 d2" and idx: "if dict_map d1 k \<noteq> None then idx = -1
      else \<exists>t n. ht_live hf (get_ht d2 (target d2)) t n \<and> idx = int (hf k mod 2 ^ n)"
    using keyIndex_spec [OF inv1 cap1] by blast
  note m2 = same_entries_map(1) [OF s2 inv1] and z2 = same_entries_size [OF s2 inv1 inv2]
  have it: "iterators d2 = iterators d" using s1 s2 by (simp add: same_entries_def)
  show ?thesis
  proof (cases "dict_map d k = None")
    case False
    then obtain w where w: "dict_map d k = Some w" by blast
    with idx m1 have "idx = -1" by simp
    with r ki w inv2 m1 m2 z1 z2 it show ?thesis
      by (intro exI [of _ d2]) (simp add: dictAdd_def dictAddRaw_def)
  next
    case True
    then obtain t n where live: "ht_live hf (get_ht d2 (target d2)) t n" and ix: "idx = int (hf k mod 2 ^ n)"
      using idx m1 by auto
    have new: "dict_map d2 k = None" using True m1 m2 by simp
    let ?i = "hf k mod 2 ^ n" and ?g = "get_ht d2 (target d2)"
    let ?d = "put_chain d2 (target d2) t ?i ((k, v) # t ! ?i) (ht_used ?g + 1)"
    have tab: "ht_table ?g = Some t" and len: "?i < length t" using live by (auto simp: ht_live_def)
    have "dictAdd hf cr junk d k v = Some (?d, DICT_OK)"
      using r ki ix tab len
      by (cases "dictIsRehashing d2")
         (simp_all add: dictAdd_def dictAddRaw_def Let_def bucket_def set_bucket_def dictSetVal_def set_ht_def
            get_ht_def put_chain_def ensure_def)
    with insert_entry [OF inv2 live new, of v] True m1 m2 z1 z2 it show ?thesis
      by (intro exI [of _ ?d]) simp
  qed
qed

section \<open>Finding, replacing and deleting\<close>

text \<open>The reference \<open>(tt, hf k mod 2 ^ n, j)\<close> points to the entry of \<open>k\<close>, which holds \<open>w\<close>.\<close>

definition located ::
  "('k \<Rightarrow> nat) \<Rightarrow> ('k, 'v) dict \<Rightarrow> 'k \<Rightarrow> 'v \<Rightarrow> nat \<Rightarrow> ('k \<times> 'v) list list \<Rightarrow> nat \<Rightarrow> nat \<Rightarrow> bool" where
  "located hf d k w tt t n j \<longleftrightarrow>
     ht_live hf (get_ht d tt) t n \<and> j < length (t ! (hf k mod 2 ^ n)) \<and> t ! (hf k mod 2 ^ n) ! j = (k, w) \<and>
     (tt = 0 \<or> tt = 1 \<and> dictIsRehashing d)"

lemma chain_pos_lookup:
  "map_of c k = Some w \<Longrightarrow> \<exists>j. chain_pos k c = Some j \<and> j < length c \<and> c ! j = (k, w)"
  using chain_pos_None [of k c] chain_pos_Some [of k c] by (metis option.inject option.exhaust prod.collapse not_None_eq)

lemma dictFind_spec:
  assumes inv: "dict_inv hf d"
  shows "\<exists>d'. dict_inv hf d' \<and> same_entries d d' \<and>
           (case dict_map d k of
              None \<Rightarrow> dictFind hf d k = Some (d', None)
            | Some w \<Rightarrow> \<exists>tt t n j. located hf d' k w tt t n j \<and>
                          dictFind hf d k = Some (d', Some (tt, hf k mod 2 ^ n, j)))"
proof (cases "ht_size (ht_0 d) = 0")
  case True
  have "\<not> dictIsRehashing d"
    using inv True by (auto simp: dict_inv_def ht_live_def)
  with inv True have "dict_entries d = []"
    by (auto simp: dict_inv_def dict_entries_def ht_live_def)
  with inv True show ?thesis by (intro exI [of _ d]) (simp add: dictFind_def dict_map_def)
next
  case False
  obtain d1 where r: "rehash_if_needed hf d = Some d1" and inv1: "dict_inv hf d1" and s1: "same_entries d d1"
    and ne: "ht_size (ht_0 d1) \<noteq> 0"
    using rehash_if_needed_spec [OF inv] False by blast
  note m1 = same_entries_map(1) [OF s1 inv]
  show ?thesis
  proof (cases "dictIsRehashing d1")
    case re: True
    obtain t0 n0 t1 n1 where l0: "ht_live hf (ht_0 d1) t0 n0" and l1: "ht_live hf (ht_1 d1) t1 n1"
      by (rule dict_inv_rehashingE [OF inv1 re]) (rule that)
    note bs = live_bucket [OF l0, of "hf k"] live_bucket [OF l1, of "hf k"]
      live_slot(1) [OF l0, of "hf k"] live_slot(1) [OF l1, of "hf k"]
    note lk = rehashing_lookup [OF inv1 l0 l1, of k]
    show ?thesis
    proof (cases "map_of (t0 ! (hf k mod 2 ^ n0)) k")
      case (Some w)
      then obtain j where "chain_pos k (t0 ! (hf k mod 2 ^ n0)) = Some j"
        "j < length (t0 ! (hf k mod 2 ^ n0))" "t0 ! (hf k mod 2 ^ n0) ! j = (k, w)"
        using chain_pos_lookup by fast
      with Some l0 lk m1 inv1 s1 False r bs(1,3) show ?thesis
        by (intro exI [of _ d1] conjI, simp, simp, simp only: option.case)
           (intro exI [of _ 0] exI [of _ t0] exI [of _ n0] exI [of _ j], simp add: dictFind_def located_def get_ht_def Let_def)
    next
      case None
      then have c0: "chain_pos k (t0 ! (hf k mod 2 ^ n0)) = None" by (simp add: chain_pos_None)
      show ?thesis
      proof (cases "map_of (t1 ! (hf k mod 2 ^ n1)) k")
        case none1: None
        then have "chain_pos k (t1 ! (hf k mod 2 ^ n1)) = None" by (simp add: chain_pos_None)
        with None none1 c0 lk m1 inv1 s1 False r bs re show ?thesis
          by (intro exI [of _ d1]) (simp add: dictFind_def Let_def)
      next
        case (Some w)
        then obtain j where "chain_pos k (t1 ! (hf k mod 2 ^ n1)) = Some j"
          "j < length (t1 ! (hf k mod 2 ^ n1))" "t1 ! (hf k mod 2 ^ n1) ! j = (k, w)"
          using chain_pos_lookup by fast
        with None Some c0 l1 lk m1 inv1 s1 False r bs re show ?thesis
          by (intro exI [of _ d1] conjI, simp, simp, simp only: option.case)
             (intro exI [of _ 1] exI [of _ t1] exI [of _ n1] exI [of _ j], simp add: dictFind_def located_def get_ht_def Let_def)
      qed
    qed
  next
    case nre: False
    have "ht_0 d1 \<noteq> us_dictReset" using ne by auto
    then obtain t n where l0: "ht_live hf (ht_0 d1) t n"
      using dict_inv_static_live [OF inv1 nre] by blast
    note bs = live_bucket [OF l0, of "hf k"] live_slot(1) [OF l0, of "hf k"]
    note lk = static_lookup [OF inv1 nre l0, of k]
    show ?thesis
    proof (cases "map_of (t ! (hf k mod 2 ^ n)) k")
      case None
      then have "chain_pos k (t ! (hf k mod 2 ^ n)) = None" by (simp add: chain_pos_None)
      with None lk m1 inv1 s1 False r bs nre show ?thesis
        by (intro exI [of _ d1]) (simp add: dictFind_def Let_def)
    next
      case (Some w)
      then obtain j where "chain_pos k (t ! (hf k mod 2 ^ n)) = Some j"
        "j < length (t ! (hf k mod 2 ^ n))" "t ! (hf k mod 2 ^ n) ! j = (k, w)"
        using chain_pos_lookup by fast
      with Some l0 lk m1 inv1 s1 False r bs show ?thesis
        by (intro exI [of _ d1] conjI, simp, simp, simp only: option.case)
           (intro exI [of _ 0] exI [of _ t] exI [of _ n] exI [of _ j], simp add: dictFind_def located_def get_ht_def Let_def)
    qed
  qed
qed

lemma dictFetchValue_spec:
  assumes inv: "dict_inv hf d"
  shows "\<exists>d'. dictFetchValue hf d k = Some (d', dict_map d k) \<and> dict_inv hf d' \<and> same_entries d d'"
proof -
  obtain d' where inv': "dict_inv hf d'" and s: "same_entries d d'"
    and f: "case dict_map d k of None \<Rightarrow> dictFind hf d k = Some (d', None)
      | Some w \<Rightarrow> \<exists>tt t n j. located hf d' k w tt t n j \<and> dictFind hf d k = Some (d', Some (tt, hf k mod 2 ^ n, j))"
    using dictFind_spec [OF inv] by blast
  have "dictFetchValue hf d k = Some (d', dict_map d k)"
  proof (cases "dict_map d k")
    case None
    with f show ?thesis by (simp add: dictFetchValue_def)
  next
    case (Some w)
    with f obtain tt t n j where l: "located hf d' k w tt t n j"
      and e: "dictFind hf d k = Some (d', Some (tt, hf k mod 2 ^ n, j))" by auto
    from l have "bucket (get_ht d' tt) (hf k mod 2 ^ n) = Some (t ! (hf k mod 2 ^ n))"
      by (simp add: located_def ht_live_def bucket_def)
    with l e Some show ?thesis by (simp add: dictFetchValue_def deref_def located_def)
  qed
  with inv' s show ?thesis by blast
qed

lemma mset_update_nth: "j < length c \<Longrightarrow> \<exists>z. mset c = add_mset (c ! j) z \<and> mset (c[j := x]) = add_mset x z"
  by (metis mset_update nth_mem_mset multi_member_split add_mset_remove_trivial)

lemma located_update:
  assumes inv: "dict_inv hf d" and l: "located hf d k w tt t n j"
  defines "i \<equiv> hf k mod 2 ^ n"
  shows "\<exists>d'. dictSetVal d (tt, i, j) v = Some d' \<and> dict_inv hf d' \<and> dict_map d' = (dict_map d)(k \<mapsto> v) \<and>
           iterators d' = iterators d \<and> dictSize d' = dictSize d"
proof -
  let ?c = "(t ! i)[j := (k, v)]" and ?u = "ht_used (get_ht d tt)"
  let ?d = "put_chain d tt t i ?c ?u"
  have live: "ht_live hf (get_ht d tt) t n" and j: "j < length (t ! i)" and e: "t ! i ! j = (k, w)"
    and tt: "tt = 0 \<or> tt = 1 \<and> dictIsRehashing d" using l by (auto simp: located_def i_def)
  have i: "i < 2 ^ n" and it: "i < length t" using live by (simp_all add: i_def ht_live_def)
  obtain z where z: "mset (t ! i) = add_mset (k, w) z" "mset ?c = add_mset (k, v) z"
    using mset_update_nth [OF j] e by metis
  have me: "mset (dict_entries ?d) + mset (t ! i) = mset (dict_entries d) + mset ?c"
    by (rule put_chain_entries [OF live i])
  have "(k, w) \<in># mset (dict_entries d)"
  proof -
    have "(k, w) \<in> set (ht_entries (get_ht d tt))"
      unfolding live_entries [OF live] using it nth_mem [OF j] e by (auto simp: set_concat_nth)
    then show ?thesis by (auto simp: dict_entries_def get_ht_def split: if_splits)
  qed
  then obtain rest where rest: "mset (dict_entries d) = add_mset (k, w) (mset rest)"
    by (metis ex_mset multi_member_split)
  with me z have "mset (dict_entries ?d) = add_mset (k, v) (mset rest)" by simp
  note res = entries_upd [OF rest this dict_inv_distinct [OF inv]]
  have "hf (fst x) mod 2 ^ n = i" if "x \<in> set ?c" for x
    using that live it set_update_subset_insert [of "t ! i" j "(k, v)"] by (auto simp: i_def ht_live_def)
  then have inv': "dict_inv hf ?d"
    using tt j res(2) by (intro put_chain_inv [OF inv live i]) auto
  have "dictSetVal d (tt, i, j) v = Some ?d"
    using live it j e
    by (auto simp: dictSetVal_def bucket_def set_bucket_def ht_live_def put_chain_def set_ht_def get_ht_def ensure_def)
  moreover have "dictSize ?d = dictSize d"
    using tt by (auto simp: dictSize_def put_chain_def set_ht_def get_ht_def)
  ultimately show ?thesis using inv' res(1) by (intro exI [of _ ?d]) (simp add: dict_map_def)
qed

lemma mset_unlink: "j < length c \<Longrightarrow> mset c = add_mset (c ! j) (mset (unlink j c))"
  by (metis unlink_def id_take_nth_drop mset_append mset.simps(2) union_mset_add_mset_right)

lemma located_delete:
  assumes inv: "dict_inv hf d" and l: "located hf d k w tt t n j"
  defines "i \<equiv> hf k mod 2 ^ n"
  shows "\<exists>d'. delete_from d tt i j = Some d' \<and> dict_inv hf d' \<and> dict_map d' = (dict_map d)(k := None) \<and>
           iterators d' = iterators d \<and> Suc (dictSize d') = dictSize d"
proof -
  let ?c = "unlink j (t ! i)" and ?u = "ht_used (get_ht d tt) - 1"
  let ?d = "put_chain d tt t i ?c ?u"
  have live: "ht_live hf (get_ht d tt) t n" and j: "j < length (t ! i)" and e: "t ! i ! j = (k, w)"
    and tt: "tt = 0 \<or> tt = 1 \<and> dictIsRehashing d" using l by (auto simp: located_def i_def)
  have i: "i < 2 ^ n" and it: "i < length t" using live by (simp_all add: i_def ht_live_def)
  have z: "mset (t ! i) = add_mset (k, w) (mset ?c)" using mset_unlink [OF j] e by simp
  have me: "mset (dict_entries ?d) + mset (t ! i) = mset (dict_entries d) + mset ?c"
    by (rule put_chain_entries [OF live i])
  with z have "mset (dict_entries d) = add_mset (k, w) (mset (dict_entries ?d))" by simp
  note res = entries_del [OF this dict_inv_distinct [OF inv]]
  have len: "length (t ! i) = Suc (length ?c)" using arg_cong [OF z, of size] by simp
  have pos: "0 < ht_used (get_ht d tt)"
    using length_concat_update [OF it, of "[]"] len live by (simp add: ht_live_def del: length_greater_0_conv length_concat)
  have "set ?c \<subseteq> set (t ! i)" using z by (metis set_mset_mset mset_subset_eqD set_mset_mono subset_mset.le_add_same_cancel2
      add_mset_add_single mset_subset_eq_add_left)
  then have "hf (fst x) mod 2 ^ n = i" if "x \<in> set ?c" for x
    using that live it by (auto simp: ht_live_def)
  then have inv': "dict_inv hf ?d"
    using tt j res(2) len pos by (intro put_chain_inv [OF inv live i]) auto
  have "delete_from d tt i j = Some ?d"
    using live it
    by (auto simp: delete_from_def bucket_def set_bucket_def ht_live_def put_chain_def set_ht_def get_ht_def)
  moreover have "Suc (dictSize ?d) = dictSize d"
    using tt pos by (auto simp: dictSize_def put_chain_def set_ht_def get_ht_def)
  ultimately show ?thesis using inv' res(1) by (intro exI [of _ ?d]) (simp add: dict_map_def)
qed

text \<open>Deleting is finding and unlinking: the two functions probe in the same way.\<close>

lemma dictGenericDelete_find:
  "dictGenericDelete hf d k = do {
     (d, r) \<leftarrow> dictFind hf d k;
     case r of None \<Rightarrow> Some (d, DICT_ERR)
     | Some (tt, i, j) \<Rightarrow> do { d \<leftarrow> delete_from d tt i j; Some (d, DICT_OK) }
   }"
  by (auto simp: dictGenericDelete_def dictFind_def Let_def split: option.splits Option.bind_splits)

lemma dictGenericDelete_spec:
  assumes inv: "dict_inv hf d"
  shows "\<exists>d'. dictGenericDelete hf d k = Some (d', if dict_map d k = None then DICT_ERR else DICT_OK) \<and>
           dict_inv hf d' \<and> dict_map d' = (dict_map d)(k := None) \<and> iterators d' = iterators d \<and>
           dictSize d = dictSize d' + (if dict_map d k = None then 0 else 1)"
proof -
  obtain d1 where inv1: "dict_inv hf d1" and s: "same_entries d d1"
    and f: "case dict_map d k of None \<Rightarrow> dictFind hf d k = Some (d1, None)
      | Some w \<Rightarrow> \<exists>tt t n j. located hf d1 k w tt t n j \<and> dictFind hf d k = Some (d1, Some (tt, hf k mod 2 ^ n, j))"
    using dictFind_spec [OF inv] by blast
  note m = same_entries_map(1) [OF s inv] and z = same_entries_size [OF s inv inv1]
  have it: "iterators d1 = iterators d" using s by (simp add: same_entries_def)
  show ?thesis
  proof (cases "dict_map d k")
    case None
    with f inv1 m z it show ?thesis
      by (intro exI [of _ d1]) (auto simp: dictGenericDelete_find fun_upd_idem)
  next
    case (Some w)
    with f obtain tt t n j where l: "located hf d1 k w tt t n j"
      and e: "dictFind hf d k = Some (d1, Some (tt, hf k mod 2 ^ n, j))" by auto
    from located_delete [OF inv1 l] obtain d' where "delete_from d1 tt (hf k mod 2 ^ n) j = Some d'"
      "dict_inv hf d'" "dict_map d' = (dict_map d1)(k := None)" "iterators d' = iterators d1" "Suc (dictSize d') = dictSize d1"
      by blast
    with e Some m z it show ?thesis by (intro exI [of _ d']) (simp add: dictGenericDelete_find)
  qed
qed

lemma dictReplace_spec:
  assumes inv: "dict_inv hf d" and cap: "dictSize d < dict_capacity"
  shows "\<exists>d'. dictReplace hf cr junk d k v = Some (d', dict_map d k = None) \<and>
           dict_inv hf d' \<and> dict_map d' = (dict_map d)(k \<mapsto> v) \<and> iterators d' = iterators d \<and>
           dictSize d' = dictSize d + (if dict_map d k = None then 1 else 0)"
proof -
  obtain d1 where a: "dictAdd hf cr junk d k v = Some (d1, if dict_map d k = None then DICT_OK else DICT_ERR)"
    and inv1: "dict_inv hf d1" and it: "iterators d1 = iterators d"
    and m: "dict_map d1 = (if dict_map d k = None then (dict_map d)(k \<mapsto> v) else dict_map d)"
    and z: "dictSize d1 = dictSize d + (if dict_map d k = None then 1 else 0)"
    using dictAdd_spec [OF inv cap] by blast
  show ?thesis
  proof (cases "dict_map d k")
    case None
    with a inv1 it m z show ?thesis by (intro exI [of _ d1]) (simp add: dictReplace_def)
  next
    case (Some w)
    with m have "dict_map d1 k = Some w" by simp
    with dictFind_spec [OF inv1, of k] obtain d2 tt t n j where inv2: "dict_inv hf d2" and s: "same_entries d1 d2"
      and l: "located hf d2 k w tt t n j" and e: "dictFind hf d1 k = Some (d2, Some (tt, hf k mod 2 ^ n, j))" by auto
    from located_update [OF inv2 l, of v] obtain d' where "dictSetVal d2 (tt, hf k mod 2 ^ n, j) v = Some d'"
      "dict_inv hf d'" "dict_map d' = (dict_map d2)(k \<mapsto> v)" "iterators d' = iterators d2" "dictSize d' = dictSize d2"
      by blast
    with a e Some m z it s same_entries_map(1) [OF s inv1] same_entries_size [OF s inv1 inv2] show ?thesis
      by (intro exI [of _ d']) (simp add: dictReplace_def same_entries_def)
  qed
qed

section \<open>The dictionary implements the contract\<close>

definition dict_rep :: "('k \<Rightarrow> nat) \<Rightarrow> ('k, 'v) dict \<Rightarrow> ('k \<rightharpoonup> 'v) \<Rightarrow> nat \<Rightarrow> bool" where
  "dict_rep hf d m n \<longleftrightarrow> dict_inv hf d \<and> dict_map d = m \<and> dictSize d \<le> n"

definition dict_add :: "('k \<Rightarrow> nat) \<Rightarrow> bool \<Rightarrow> 'v \<Rightarrow> ('k, 'v) dict \<Rightarrow> 'k \<Rightarrow> 'v \<Rightarrow> (('k, 'v) dict \<times> bool) option" where
  "dict_add hf cr junk d k v = map_option (\<lambda>(d, r). (d, r = DICT_OK)) (dictAdd hf cr junk d k v)"

definition dict_del :: "('k \<Rightarrow> nat) \<Rightarrow> ('k, 'v) dict \<Rightarrow> 'k \<Rightarrow> (('k, 'v) dict \<times> bool) option" where
  "dict_del hf d k = map_option (\<lambda>(d, r). (d, r = DICT_OK)) (dictDelete hf d k)"

lemma dictCreate_rep: "dict_rep hf dictCreate Map.empty 0"
  by (simp add: dict_rep_def dictCreate_def us_dictInit_def dict_inv_def dictIsRehashing_def dict_map_def
      dict_entries_def dictSize_def)

interpretation dmap: map_container "dict_rep hf" "dict_add hf cr junk" "dictReplace hf cr junk" "dict_del hf"
  "dictFetchValue hf" dict_capacity
  for hf :: "'k \<Rightarrow> nat" and cr and junk :: 'v
proof
  fix d :: "('k, 'v) dict" and m n n' k and v :: 'v
  assume rep: "dict_rep hf d m n"
  then have inv: "dict_inv hf d" and m: "dict_map d = m" and n: "dictSize d \<le> n" by (auto simp: dict_rep_def)
  show "n \<le> n' \<Longrightarrow> dict_rep hf d m n'" using rep by (simp add: dict_rep_def)
  show "\<exists>d'. dictFetchValue hf d k = Some (d', m k) \<and> dict_rep hf d' m n"
  proof -
    from dictFetchValue_spec [OF inv, of k] obtain d' where f: "dictFetchValue hf d k = Some (d', dict_map d k)"
      and inv': "dict_inv hf d'" and s: "same_entries d d'" by blast
    with m n same_entries_map(1) [OF s inv] same_entries_size [OF s inv inv'] show ?thesis
      by (intro exI [of _ d']) (simp add: dict_rep_def)
  qed
  show "\<exists>d'. dict_del hf d k = Some (d', m k \<noteq> None) \<and> dict_rep hf d' (m(k := None)) n"
  proof -
    from dictGenericDelete_spec [OF inv, of k] obtain d' where
      "dictGenericDelete hf d k = Some (d', if dict_map d k = None then DICT_ERR else DICT_OK)"
      "dict_inv hf d'" "dict_map d' = (dict_map d)(k := None)"
      "dictSize d = dictSize d' + (if dict_map d k = None then 0 else 1)" by blast
    with m n show ?thesis by (intro exI [of _ d']) (auto simp: dict_rep_def dict_del_def dictDelete_def)
  qed
  assume cap: "n < dict_capacity"
  have c: "dictSize d < dict_capacity" using n cap by simp
  show "\<exists>d'. dict_add hf cr junk d k v = Some (d', m k = None) \<and>
      dict_rep hf d' (if m k = None then m(k \<mapsto> v) else m) (Suc n)"
  proof -
    from dictAdd_spec [OF inv c, of cr junk k v] obtain d' where
      "dictAdd hf cr junk d k v = Some (d', if dict_map d k = None then DICT_OK else DICT_ERR)" "dict_inv hf d'"
      "dict_map d' = (if dict_map d k = None then (dict_map d)(k \<mapsto> v) else dict_map d)"
      "dictSize d' = dictSize d + (if dict_map d k = None then 1 else 0)" by blast
    with m n show ?thesis by (intro exI [of _ d']) (simp add: dict_rep_def dict_add_def)
  qed
  show "\<exists>d'. dictReplace hf cr junk d k v = Some (d', m k = None) \<and> dict_rep hf d' (m(k \<mapsto> v)) (Suc n)"
  proof -
    from dictReplace_spec [OF inv c, of cr junk k v] obtain d' where
      "dictReplace hf cr junk d k v = Some (d', dict_map d k = None)" "dict_inv hf d'"
      "dict_map d' = (dict_map d)(k \<mapsto> v)" "dictSize d' = dictSize d + (if dict_map d k = None then 1 else 0)" by blast
    with m n show ?thesis by (intro exI [of _ d']) (simp add: dict_rep_def)
  qed
qed

section \<open>Releasing\<close>

lemma clear_loop_all: "used = length (concat t) \<Longrightarrow> clear_loop t used = concat t"
  by (induction t arbitrary: used) auto

lemma dictClear_live: "ht_live hf h t n \<Longrightarrow> us_dictClear h = (concat t, us_dictReset)"
  by (simp add: us_dictClear_def ht_live_def clear_loop_all)

lemma dictClear_reset: "us_dictClear us_dictReset = ([], us_dictReset)"
  by (simp add: us_dictClear_def)

lemma dictRelease_all:
  assumes inv: "dict_inv hf d"
  shows "dictRelease d = dict_entries d"
proof (cases "dictIsRehashing d")
  case True
  show ?thesis
    by (rule dict_inv_rehashingE [OF inv True])
       (simp add: dictRelease_def dict_entries_def dictClear_live live_entries)
next
  case False
  show ?thesis using inv False
    by (cases rule: dict_inv_staticE)
       (simp_all add: dictRelease_def dict_entries_def dictClear_live live_entries dictClear_reset)
qed

section \<open>Rehashing ends\<close>

lemma rehashidx_bound:
  assumes inv: "dict_inv hf d" and "dictIsRehashing d"
  shows "0 \<le> rehashidx d" and "rehashidx d \<le> int (ht_size (ht_0 d))"
  using assms by (auto elim!: dict_inv_rehashingE simp: ht_live_def)

lemma rehash_ms_loop_ends:
  assumes "dict_inv hf d"
  shows "\<exists>d' r'. rehash_ms_loop hf clock ms i r d = Some (d', r') \<and> dict_inv hf d' \<and> same_entries d d'"
  using assms
proof (induction "if dictIsRehashing d then Suc (ht_size (ht_0 d)) - nat (rehashidx d) else 0" arbitrary: d i r
    rule: less_induct)
  case less
  obtain d1 q where r1: "dictRehash hf d 100 = Some (d1, q)" and inv1: "dict_inv hf d1" and s1: "same_entries d d1"
    and q: "q = (if dictIsRehashing d1 then 1 else 0)"
    and more: "dictIsRehashing d1 \<longrightarrow> rehashidx d + int 100 \<le> rehashidx d1 \<and> ht_size (ht_0 d1) = ht_size (ht_0 d)"
    using dictRehash_spec [OF less.prems, of 100] by blast
  note unf = rehash_ms_loop.simps [of hf clock ms i r d]
  show ?case
  proof (cases "dictIsRehashing d1 \<and> \<not> clock i - clock 0 > ms")
    case False
    with r1 q have "\<exists>r'. rehash_ms_loop hf clock ms i r d = Some (d1, r')" by (auto simp: unf)
    with inv1 s1 show ?thesis by blast
  next
    case True
    have re: "dictIsRehashing d" using True r1 by (auto simp: dictRehash_def split: if_splits)
    note b = rehashidx_bound [OF less.prems re] rehashidx_bound [OF inv1 conjunct1 [OF True]]
    have "Suc (ht_size (ht_0 d1)) - nat (rehashidx d1) < Suc (ht_size (ht_0 d)) - nat (rehashidx d)"
      using True more b by linarith
    then obtain d' r' where "rehash_ms_loop hf clock ms (Suc i) (r + 100) d1 = Some (d', r')" "dict_inv hf d'" "same_entries d1 d'"
      using less.hyps [of d1 "Suc i" "r + 100"] True re inv1 by auto
    moreover have "rehash_ms_loop hf clock ms i r d = rehash_ms_loop hf clock ms (Suc i) (r + 100) d1"
      using True q r1 by (simp add: unf)
    ultimately show ?thesis using same_entries_trans [OF s1] by (intro exI [of _ d'] exI [of _ r']) simp
  qed
qed

section \<open>Properties\<close>

text \<open>
  C7: a dictionary behaves as a finite map. Any sequence of \<open>dictAdd\<close>, \<open>dictReplace\<close>,
  \<open>dictDelete\<close> and \<open>dictFetchValue\<close> calls on a new dictionary runs without a failed
  assertion or an access outside a table, whatever the hash function and however expansion
  and incremental rehashing interleave with the calls; every reply and the final contents are
  those of the map.
\<close>

theorem dict_refines_map:
  fixes hf :: "'k \<Rightarrow> nat" and junk :: 'v
  assumes "length ops \<le> dict_capacity"
  shows "\<exists>d. run_mapops (run_mapop (dict_add hf cr junk) (dictReplace hf cr junk) (dict_del hf) (dictFetchValue hf))
               dictCreate ops = Some (d, snd (abs_mapops Map.empty ops)) \<and>
             dict_map d = fst (abs_mapops Map.empty ops) \<and> dict_inv hf d"
  using dmap.run_mapops_correct [OF dictCreate_rep, of ops hf cr junk] assms
  by (auto simp: dict_rep_def)

theorem dict_refines_map_witness:
  "length [MAdd 1 ''a'', MAdd 5 ''b'', MAdd 9 ''c'', MAdd 2 ''d'', MAdd 3 ''e'', MReplace 5 ''x'', MDelete 9, MFetch (5 :: nat)]
     \<le> dict_capacity \<and>
   (\<exists>d. run_mapops (run_mapop (dict_add id True ''?'') (dictReplace id True ''?'') (dict_del id) (dictFetchValue id))
          dictCreate [MAdd 1 ''a'', MAdd 5 ''b'', MAdd 9 ''c'', MAdd 2 ''d'', MAdd 3 ''e'', MReplace 5 ''x'', MDelete 9, MFetch 5]
        = Some (d, [Flag True, Flag True, Flag True, Flag True, Flag True, Flag False, Flag True, Val (Some ''x'')]))"
  using dict_refines_map [of "[MAdd 1 ''a'', MAdd 5 ''b'', MAdd 9 ''c'', MAdd 2 ''d'', MAdd 3 ''e'', MReplace 5 ''x'',
      MDelete 9, MFetch (5 :: nat)]" id True "''?''"]
  by (auto simp: dict_capacity_def)

text \<open>
  C20: incremental rehashing finishes. Called with more steps than the old table has buckets,
  \<open>dictRehash\<close> returns 0 with all entries in one table; shorter calls keep the invariant and
  the map too, so the migration may be spread over any number of calls.
\<close>

theorem dictRehash_completes:
  assumes "dict_inv hf d" and "ht_size (ht_0 d) < n"
  shows "\<exists>d'. dictRehash hf d n = Some (d', 0) \<and> \<not> dictIsRehashing d' \<and> dict_inv hf d' \<and>
           dict_map d' = dict_map d \<and> dictSize d' = dictSize d"
proof -
  obtain d' r where r: "dictRehash hf d n = Some (d', r)" and inv': "dict_inv hf d'" and s: "same_entries d d'"
    and q: "r = (if dictIsRehashing d' then 1 else 0)"
    and more: "dictIsRehashing d' \<longrightarrow> rehashidx d + int n \<le> rehashidx d' \<and> ht_size (ht_0 d') = ht_size (ht_0 d)"
    using dictRehash_spec [OF assms(1), of n] by blast
  have "\<not> dictIsRehashing d'"
  proof
    assume re: "dictIsRehashing d'"
    then have "dictIsRehashing d" using r by (auto simp: dictRehash_def split: if_splits)
    from rehashidx_bound(1) [OF assms(1) this] rehashidx_bound(2) [OF inv' re] more re assms(2)
    show False by simp
  qed
  with r q inv' same_entries_map(1) [OF s assms(1)] same_entries_size [OF s assms(1) inv'] show ?thesis by auto
qed

definition example_rehashing :: "(nat, string) dict" where
  "example_rehashing =
     \<lparr>ht_0 = \<lparr>ht_table = Some [[], [(5, ''x''), (1, ''y'')], [], []], ht_size = 4, ht_sizemask = 3, ht_used = 2\<rparr>,
      ht_1 = \<lparr>ht_table = Some [[(8, ''z'')], [], [], [], [], [], [], []], ht_size = 8, ht_sizemask = 7, ht_used = 1\<rparr>,
      rehashidx = 1, iterators = 0\<rparr>"

lemma example_rehashing_inv: "dict_inv id example_rehashing"
  by (rule dict_inv_rehashingI [where ta = "[[], [(5, ''x''), (1, ''y'')], [], []]" and na = 2
        and tb = "[[(8, ''z'')], [], [], [], [], [], [], []]" and nb = 3])
     (simp_all add: example_rehashing_def dict_entries_def ht_entries_def ht_live_def All_less_Suc2)

theorem dictRehash_completes_witness:
  "dictIsRehashing example_rehashing \<and> dict_inv id example_rehashing \<and> ht_size (ht_0 example_rehashing) < 5 \<and>
   (\<exists>d'. dictRehash id example_rehashing 5 = Some (d', 0) \<and> \<not> dictIsRehashing d' \<and> dictSize d' = 3)"
  using dictRehash_completes [of id example_rehashing 5] example_rehashing_inv
  by (auto simp: example_rehashing_def dictIsRehashing_def dictSize_def)

text \<open>
  \<open>dictRehashMilliseconds\<close> returns, even when the clock never advances, and keeps the
  invariant and the map.
\<close>

theorem dictRehashMilliseconds_ends:
  assumes "dict_inv hf d"
  shows "\<exists>d' r. dictRehashMilliseconds hf clock d ms = Some (d', r) \<and> dict_inv hf d' \<and> dict_map d' = dict_map d"
  using rehash_ms_loop_ends [OF assms] same_entries_map(1) [OF _ assms]
  unfolding dictRehashMilliseconds_def by metis

theorem dictRehashMilliseconds_ends_witness:
  "dict_inv id example_rehashing \<and>
   (\<exists>d' r. dictRehashMilliseconds id (\<lambda>_. 0) example_rehashing 1 = Some (d', r) \<and> dict_inv id d')"
  using dictRehashMilliseconds_ends [OF example_rehashing_inv] example_rehashing_inv by blast

text \<open>
  C31: releasing a dictionary hands every entry to the destructors, each exactly once, also in
  the middle of a rehash and although the loop of \<open>_dictClear\<close> stops as soon as the counter of
  entries is used up.
\<close>

theorem dictRelease_frees_all:
  fixes d :: "('k, 'v) dict"
  assumes "dict_inv hf d"
  shows "dictRelease d = dict_entries d \<and> distinct (map fst (dictRelease d)) \<and>
         fst (dictEmpty d) = dict_entries d \<and> dict_inv hf (snd (dictEmpty d)) \<and> dict_map (snd (dictEmpty d)) = Map.empty"
proof -
  have "fst (dictEmpty d) = dictRelease d" by (simp add: dictEmpty_def dictRelease_def split_beta)
  moreover have "snd (dictEmpty d) = us_dictInit" by (simp add: dictEmpty_def us_dictClear_def us_dictInit_def split_beta)
  ultimately show ?thesis
    using dictRelease_all [OF assms] dict_inv_distinct [OF assms] dictCreate_rep [of hf, where ?'b = 'v]
    by (simp add: dict_rep_def dictCreate_def)
qed

theorem dictRelease_frees_all_witness:
  "dict_inv id example_rehashing \<and> dictRelease example_rehashing = [(5, ''x''), (1, ''y''), (8, ''z'')]"
  using dictRelease_frees_all [OF example_rehashing_inv] example_rehashing_inv
  by (simp add: example_rehashing_def dict_entries_def ht_entries_def)

end
