(* ===== verification/Dict_Scan.thy ===== *)
theory Dict_Scan
  imports Dict
begin

text \<open>
  \<open>dictScan\<close> of \<open>dict.c\<close>, the stateless iteration behind SCAN. Cursors are 64-bit words
  (\<open>unsigned long\<close>). The entries handed to the callback are returned as a list; the callback
  is assumed not to change the dictionary, as the one of SCAN does not.

  The bits of a cursor are counted from the top. Seen through \<open>word_reverse\<close>, a bucket of a
  table of \<open>2 ^ n\<close> chains is an interval of \<open>2 ^ (64 - n)\<close> reversed hashes, and a call visits the
  interval its cursor lies in and moves to the start of the next one. From this follow that an
  iteration over a dictionary that stays as it is returns every entry exactly once, and that an
  iteration over a dictionary that changes between the calls misses no key that stays, as long as
  no call during a rehash finds a smaller table than the call before. A counterexample shows that
  the last condition is needed.
\<close>

section \<open>The code\<close>

function rev_loop :: "nat \<Rightarrow> 64 word \<Rightarrow> 64 word \<Rightarrow> 64 word" where
  "rev_loop s msk v =
     (let s = s div 2
      in if s > 0 then
           let msk = msk XOR push_bit s msk
           in rev_loop s msk ((drop_bit s v AND msk) OR (push_bit s v AND NOT msk))
         else v)"
  by pat_completeness auto
termination
  by (relation "measure (\<lambda>(s, msk, v). s)") auto

declare rev_loop.simps [simp del]

definition rev_ul :: "64 word \<Rightarrow> 64 word" where
  "rev_ul v = rev_loop 64 (NOT 0) v"

text \<open>The loop over the expansions of the cursor in the larger table.\<close>

partial_function (option) scan_expansions ::
  "('k, 'v) dictht \<Rightarrow> 64 word \<Rightarrow> 64 word \<Rightarrow> 64 word \<Rightarrow> (('k \<times> 'v) list \<times> 64 word) option" where
  "scan_expansions t1 m0 m1 v = do {
     c \<leftarrow> bucket t1 (unat (v AND m1));
     let v = (((v OR m0) + 1) AND NOT m0) OR (v AND m0);
     if v AND (m0 XOR m1) \<noteq> 0
     then do { (cs, v) \<leftarrow> scan_expansions t1 m0 m1 v; Some (c @ cs, v) }
     else Some (c, v)
   }"

definition dictScan :: "('k, 'v) dict \<Rightarrow> 64 word \<Rightarrow> (('k \<times> 'v) list \<times> 64 word) option" where
  "dictScan d v =
     (if dictSize d = 0 then Some ([], 0)
      else do {
        (out, v, m0) \<leftarrow>
          (if \<not> dictIsRehashing d then do {
             let m0 = of_nat (ht_sizemask (ht_0 d));
             c \<leftarrow> bucket (ht_0 d) (unat (v AND m0));
             Some (c, v, m0)
           } else do {
             let (t0, t1) = (if ht_size (ht_0 d) > ht_size (ht_1 d) then (ht_1 d, ht_0 d) else (ht_0 d, ht_1 d));
             let m0 = of_nat (ht_sizemask t0);
             let m1 = of_nat (ht_sizemask t1);
             c \<leftarrow> bucket t0 (unat (v AND m0));
             (cs, v) \<leftarrow> scan_expansions t1 m0 m1 v;
             Some (c @ cs, v, m0)
           });
        let v = v OR NOT m0;
        let v = rev_ul v;
        let v = v + 1;
        let v = rev_ul v;
        Some (out, v)
      })"

text \<open>
  A client of \<open>dictScan\<close>: one call per dictionary of the list, each with the cursor the call
  before returned. The list is the history of the dictionary at the calls.
\<close>

fun scan_run :: "('k, 'v) dict list \<Rightarrow> 64 word \<Rightarrow> (('k \<times> 'v) list \<times> 64 word) option" where
  "scan_run [] v = Some ([], v)"
| "scan_run (d # ds) v = do {
     (out, v) \<leftarrow> dictScan d v;
     (outs, v) \<leftarrow> scan_run ds v;
     Some (out @ outs, v)
   }"

text \<open>The iteration as the documentation describes it: call until the cursor is zero again.\<close>

fun scan_until_zero :: "nat \<Rightarrow> ('k, 'v) dict \<Rightarrow> 64 word \<Rightarrow> ('k \<times> 'v) list option" where
  "scan_until_zero 0 d v = None"
| "scan_until_zero (Suc fuel) d v = do {
     (out, v) \<leftarrow> dictScan d v;
     if v = 0 then Some out else map_option ((@) out) (scan_until_zero fuel d v)
   }"

definition scan_size :: "('k, 'v) dict \<Rightarrow> nat" where
  "scan_size d = (if dictIsRehashing d then min (ht_size (ht_0 d)) (ht_size (ht_1 d)) else ht_size (ht_0 d))"

fun scan_steady :: "('k, 'v) dict list \<Rightarrow> bool" where
  "scan_steady (d # d' # ds) \<longleftrightarrow>
     (dictIsRehashing d' \<longrightarrow> scan_size d \<le> scan_size d') \<and> scan_steady (d' # ds)"
| "scan_steady _ \<longleftrightarrow> True"

section \<open>Reversing bits\<close>

definition rev_stage :: "nat \<Rightarrow> 64 word \<Rightarrow> 64 word \<Rightarrow> 64 word" where
  "rev_stage s m v = (drop_bit s v AND m) OR (push_bit s v AND NOT m)"

lemma rev_stage_bit:
  "n < 64 \<Longrightarrow> bit (rev_stage s m v) n = (if bit m n then bit v (n + s) else s \<le> n \<and> bit v (n - s))"
  by (auto simp: rev_stage_def bit_simps ac_simps)

lemma rev_loop_step:
  "msk' = msk XOR push_bit s msk \<Longrightarrow> 0 < s \<Longrightarrow> s' = 2 * s \<Longrightarrow>
   rev_loop s' msk v = rev_loop s msk' (rev_stage s msk' v)"
  by (simp add: rev_loop.simps [of "2 * s"] rev_stage_def Let_def)

lemma rev_masks:
  "(0xFFFFFFFF :: 64 word) = NOT 0 XOR push_bit 32 (NOT 0)"
  "(0x0000FFFF0000FFFF :: 64 word) = 0xFFFFFFFF XOR push_bit 16 0xFFFFFFFF"
  "(0x00FF00FF00FF00FF :: 64 word) = 0x0000FFFF0000FFFF XOR push_bit 8 0x0000FFFF0000FFFF"
  "(0x0F0F0F0F0F0F0F0F :: 64 word) = 0x00FF00FF00FF00FF XOR push_bit 4 0x00FF00FF00FF00FF"
  "(0x3333333333333333 :: 64 word) = 0x0F0F0F0F0F0F0F0F XOR push_bit 2 0x0F0F0F0F0F0F0F0F"
  "(0x5555555555555555 :: 64 word) = 0x3333333333333333 XOR push_bit 1 0x3333333333333333"
  by (simp_all add: push_bit_eq_mult)

lemma rev_ul_stages:
  "rev_ul v = rev_stage 1 0x5555555555555555 (rev_stage 2 0x3333333333333333 (rev_stage 4 0x0F0F0F0F0F0F0F0F
     (rev_stage 8 0x00FF00FF00FF00FF (rev_stage 16 0x0000FFFF0000FFFF (rev_stage 32 0xFFFFFFFF v)))))"
  unfolding rev_ul_def
  by (simp only: rev_loop_step [OF rev_masks(1), of 64] rev_loop_step [OF rev_masks(2), of 32]
      rev_loop_step [OF rev_masks(3), of 16] rev_loop_step [OF rev_masks(4), of 8]
      rev_loop_step [OF rev_masks(5), of 4] rev_loop_step [OF rev_masks(6), of 2]) (simp add: rev_loop.simps)

lemma less_8: "n < (8 :: nat) \<longleftrightarrow> n \<in> {0, 1, 2, 3, 4, 5, 6, 7}"
  by auto

lemma rev_ul_eq: "rev_ul v = word_reverse v"
proof (rule bit_word_eqI)
  fix n assume "n < LENGTH(64)"
  then obtain a b where n: "n = 8 * a + b" and "a < 8" and "b < 8"
    using that [of "n div 8" "n mod 8"] by simp
  then have "a \<in> {0, 1, 2, 3, 4, 5, 6, 7}" "b \<in> {0, 1, 2, 3, 4, 5, 6, 7}" unfolding less_8 by blast+
  then show "bit (rev_ul v) n = bit (word_reverse v) n"
    unfolding n insert_iff empty_iff
    by (elim disjE FalseE) (simp_all add: rev_ul_stages rev_stage_bit bit_word_reverse_iff)
qed
section \<open>Cursors as numbers\<close>

definition rc :: "64 word \<Rightarrow> nat" where
  "rc v = unat (word_reverse v)"

lemma of_nat_mask: "(of_nat (2 ^ n - 1) :: 64 word) = mask n"
  by (simp add: mask_eq_exp_minus_1 of_nat_diff)

lemma unat_take_bit: "unat (take_bit n (v :: 64 word)) = unat v mod 2 ^ n"
  by (simp only: unsigned_take_bit_eq) (rule take_bit_eq_mod)

lemma unat_and_mask: "unat ((v :: 64 word) AND of_nat (2 ^ n - 1)) = unat v mod 2 ^ n"
  unfolding of_nat_mask take_bit_eq_mask [symmetric] unat_take_bit ..

lemma same_block:
  assumes "n \<le> 64"
  shows "unat (a :: 64 word) mod 2 ^ n = unat b mod 2 ^ n \<longleftrightarrow> rc a div 2 ^ (64 - n) = rc b div 2 ^ (64 - n)"
proof -
  have "unat a mod 2 ^ n = unat b mod 2 ^ n \<longleftrightarrow> take_bit n a = take_bit n b"
    by (metis unat_take_bit word_eq_iff_unsigned)
  also have "\<dots> \<longleftrightarrow> (\<forall>i < n. bit a i = bit b i)"
    using assms by (auto simp: bit_eq_iff bit_take_bit_iff) (metis less_le_trans)+
  also have "\<dots> \<longleftrightarrow> (\<forall>i < n. bit (word_reverse a) (63 - i) = bit (word_reverse b) (63 - i))"
    using assms by (auto simp: bit_word_reverse_iff)
  also have "\<dots> \<longleftrightarrow> drop_bit (64 - n) (word_reverse a) = drop_bit (64 - n) (word_reverse b)"
  proof
    assume *: "\<forall>i < n. bit (word_reverse a) (63 - i) = bit (word_reverse b) (63 - i)"
    show "drop_bit (64 - n) (word_reverse a) = drop_bit (64 - n) (word_reverse b)"
    proof (rule bit_word_eqI)
      fix j assume "j < LENGTH(64)"
      show "bit (drop_bit (64 - n) (word_reverse a)) j = bit (drop_bit (64 - n) (word_reverse b)) j"
      proof (cases "j < n")
        case True
        with assms * [rule_format, of "n - Suc j"] show ?thesis by (simp add: bit_drop_bit_eq)
      next
        case False
        with assms show ?thesis by (auto simp: bit_drop_bit_eq bit_word_reverse_iff)
      qed
    qed
  next
    assume *: "drop_bit (64 - n) (word_reverse a) = drop_bit (64 - n) (word_reverse b)"
    show "\<forall>i < n. bit (word_reverse a) (63 - i) = bit (word_reverse b) (63 - i)"
    proof (intro allI impI)
      fix i assume "i < n"
      with assms arg_cong [OF *, of "\<lambda>w. bit w (n - Suc i)"]
      show "bit (word_reverse a) (63 - i) = bit (word_reverse b) (63 - i)"
        by (simp add: bit_drop_bit_eq)
    qed
  qed
  also have "\<dots> \<longleftrightarrow> rc a div 2 ^ (64 - n) = rc b div 2 ^ (64 - n)"
    unfolding rc_def drop_bit_eq_div [symmetric] unat_drop_bit_eq [symmetric] by (rule word_unat_eq_iff)
  finally show ?thesis .
qed

lemma or_mask_nat: "(x :: nat) OR mask k = x div 2 ^ k * 2 ^ k + (2 ^ k - 1)"
proof -
  have "x OR mask k = push_bit k (drop_bit k x) OR mask k"
    by (auto simp: bit_eq_iff bit_simps)
  also have "\<dots> = push_bit k (drop_bit k x) + mask k"
    by (rule disjunctive_add [symmetric]) (auto simp: bit_simps)
  finally show ?thesis by (simp add: push_bit_eq_mult drop_bit_eq_div mask_eq_exp_minus_1)
qed

definition next_cursor :: "nat \<Rightarrow> 64 word \<Rightarrow> 64 word" where
  "next_cursor n v = rev_ul (rev_ul (v OR NOT (mask n)) + 1)"

lemma word_reverse_twice: "word_reverse (word_reverse (v :: 64 word)) = v"
  by (rule bit_word_eqI) (simp add: bit_word_reverse_iff)

lemma rc_next:
  assumes "n \<le> 64"
  shows "rc (next_cursor n v) = (rc v div 2 ^ (64 - n) + 1) * 2 ^ (64 - n) mod 2 ^ 64"
proof -
  have "word_reverse (v OR NOT (mask n)) = word_reverse v OR mask (64 - n)"
    using assms by (intro bit_word_eqI) (auto simp: bit_simps bit_word_reverse_iff)
  moreover have "unat (mask (64 - n) :: 64 word) = mask (64 - n)"
    by (rule bit_eqI) (auto simp: bit_simps)
  ultimately have "unat (word_reverse (v OR NOT (mask n))) = rc v OR mask (64 - n)"
    by (simp add: rc_def unsigned_or_eq)
  then have "unat (word_reverse (v OR NOT (mask n)) + 1) = (rc v div 2 ^ (64 - n) * 2 ^ (64 - n) + (2 ^ (64 - n) - 1) + 1) mod 2 ^ 64"
    by (simp only: unat_word_ariths(1) or_mask_nat) simp
  then show ?thesis
    by (simp add: next_cursor_def rev_ul_eq rc_def word_reverse_twice algebra_simps)
qed

lemma next_cursor_low:
  assumes "n \<le> 64"
  shows "unat (next_cursor n v) < 2 ^ n"
proof -
  let ?B = "2 ^ (64 - n) :: nat"
  have "?B dvd 2 ^ 64" by (rule le_imp_power_dvd) simp
  then have dv: "?B dvd rc (next_cursor n v)"
    unfolding rc_next [OF assms] by (intro dvd_mod dvd_triv_right)
  have low: "\<not> bit (word_reverse (next_cursor n v)) i" if "i < 64 - n" for i
  proof
    assume b: "bit (word_reverse (next_cursor n v)) i"
    have "take_bit (64 - n) (rc (next_cursor n v)) = 0"
      using dv by (simp add: take_bit_eq_mod)
    moreover have "bit (rc (next_cursor n v)) i" using b by (simp add: rc_def bit_unsigned_iff)
    then have "bit (take_bit (64 - n) (rc (next_cursor n v))) i" using that by (simp only: bit_take_bit_iff simp_thms)
    ultimately show False by simp
  qed
  have "take_bit n (next_cursor n v) = next_cursor n v"
  proof (rule bit_word_eqI)
    fix i assume i: "i < LENGTH(64)"
    show "bit (take_bit n (next_cursor n v)) i = bit (next_cursor n v) i"
    proof (cases "i < n")
      case False
      with i low [of "63 - i"] show ?thesis by (simp add: bit_take_bit_iff bit_word_reverse_iff)
    qed (simp add: bit_take_bit_iff)
  qed
  with unat_take_bit [of n "next_cursor n v"] show ?thesis by (metis mod_less_divisor zero_less_numeral zero_less_power)
qed

section \<open>The expansion loop\<close>

text \<open>The bit fiddling of the loop adds \<open>2 ^ n\<close>.\<close>

lemma unat_or_mask:
  assumes "n \<le> 64"
  shows "unat ((v :: 64 word) OR mask n) = unat v div 2 ^ n * 2 ^ n + (2 ^ n - 1)"
proof -
  have "unat (mask n :: 64 word) = mask n"
    using assms by (intro bit_eqI) (auto simp: bit_simps)
  then show ?thesis by (simp only: unsigned_or_eq or_mask_nat)
qed

lemma expansion_step:
  assumes "n \<le> 64"
  shows "(((v OR mask n) + 1) AND NOT (mask n)) OR (v AND mask n) = (v :: 64 word) + 2 ^ n"
proof -
  let ?w = "(v OR mask n) + 1"
  have "unat ?w = (unat v div 2 ^ n + 1) * 2 ^ n mod 2 ^ 64"
  proof -
    have e: "x * 2 ^ n + (2 ^ n - 1) + 1 = (x + 1) * 2 ^ n" for x :: nat by simp
    have "unat ?w = (unat v div 2 ^ n * 2 ^ n + (2 ^ n - 1) + 1) mod 2 ^ 64"
      by (simp only: unat_word_ariths(1) unat_or_mask [OF assms]) simp
    then show ?thesis unfolding e .
  qed
  moreover have "(2 :: nat) ^ n dvd 2 ^ 64" using assms by (intro le_imp_power_dvd)
  ultimately have "unat (take_bit n ?w) = 0"
    unfolding unat_take_bit by (simp only: mod_mod_cancel mod_mult_self2_is_0)
  then have "take_bit n ?w = 0" by (simp only: unat_eq_zero)
  moreover have "(?w AND NOT (mask n)) + take_bit n ?w = ?w"
    by (subst disjunctive_add) (auto simp: bit_simps intro: bit_eqI)
  ultimately have b: "?w AND NOT (mask n) = ?w" by simp
  have a: "v OR mask n = (v AND NOT (mask n)) + mask n"
    by (subst disjunctive_add) (auto simp: bit_simps intro: bit_eqI)
  have c: "(v AND NOT (mask n)) + (v AND mask n) = v"
    by (subst disjunctive_add) (auto simp: bit_simps intro: bit_eqI)
  have "(?w AND NOT (mask n)) OR (v AND mask n) = (?w AND NOT (mask n)) + (v AND mask n)"
    by (rule disjunctive_add [symmetric]) (auto simp: bit_simps)
  also have "\<dots> = (v AND NOT (mask n)) + (v AND mask n) + 2 ^ n"
    unfolding b unfolding a by (simp add: mask_eq_exp_minus_1)
  finally show ?thesis unfolding c .
qed

lemma expansion_step_unat:
  assumes "n \<le> k" and "k \<le> 31"
  shows "unat ((v :: 64 word) + 2 ^ n) mod 2 ^ k = (unat v + 2 ^ n) mod 2 ^ k"
proof -
  have "(2 :: nat) ^ n < 2 ^ LENGTH(64)" using assms by (intro power_strict_increasing) simp_all
  then have "unat (of_nat (2 ^ n) :: 64 word) = 2 ^ n" unfolding unat_of_nat by (rule mod_less)
  then have "unat (2 ^ n :: 64 word) = 2 ^ n" by simp
  then have "unat (v + 2 ^ n) = (unat v + 2 ^ n) mod 2 ^ 64" by (simp add: unat_word_ariths(1))
  moreover have "(2 :: nat) ^ k dvd 2 ^ 64" using assms by (intro le_imp_power_dvd) simp
  ultimately show ?thesis by (simp add: mod_mod_cancel)
qed

lemma expansion_cond:
  assumes "n \<le> k"
  shows "(v :: 64 word) AND (mask n XOR mask k) = 0 \<longleftrightarrow> unat v mod 2 ^ k < 2 ^ n"
proof -
  have "v AND (mask n XOR mask k) = 0 \<longleftrightarrow> take_bit k v = take_bit n v"
    using assms by (auto simp: bit_eq_iff bit_simps)
  also have "\<dots> \<longleftrightarrow> unat v mod 2 ^ k = unat v mod 2 ^ n"
    by (metis unat_take_bit word_eq_iff_unsigned)
  also have "unat v mod 2 ^ n = unat v mod 2 ^ k mod 2 ^ n"
    using assms by (simp add: mod_mod_cancel le_imp_power_dvd)
  finally show ?thesis by (metis mod_less mod_less_divisor zero_less_numeral zero_less_power)
qed

lemma scan_expansions_spec:
  fixes v :: "64 word"
  assumes live: "ht_live hf h t n1" and le: "n0 \<le> n1"
  shows "\<exists>v'. scan_expansions h (mask n0) (mask n1) v =
              Some (concat (map (\<lambda>q. t ! (unat v mod 2 ^ n0 + q * 2 ^ n0))
                      [unat v mod 2 ^ n1 div 2 ^ n0 ..< 2 ^ (n1 - n0)]), v') \<and>
            unat v' mod 2 ^ n0 = unat v mod 2 ^ n0"
proof (induction "2 ^ (n1 - n0) - unat v mod 2 ^ n1 div 2 ^ n0" arbitrary: v rule: less_induct)
  case less
  define P :: nat where "P = 2 ^ n0"
  define K :: nat where "K = 2 ^ (n1 - n0)"
  define x where "x = unat v mod 2 ^ n1"
  let ?v = "v + 2 ^ n0"
  have P: "0 < P" and PK: "2 ^ n1 = K * P" using le by (simp_all add: P_def K_def flip: power_add)
  have n1: "n1 \<le> 31" using live by (simp add: ht_live_def)
  have i0: "unat v mod P = x mod P" unfolding x_def PK by (simp add: mod_mod_cancel)
  have xlt: "x < K * P" unfolding x_def PK using P by (simp add: K_def)
  then have q: "x div P < K" by (simp add: less_mult_imp_div_less)
  have x2: "unat ?v mod 2 ^ n1 = (x + P) mod (K * P)"
    using expansion_step_unat [OF le n1, of v] unfolding x_def P_def [symmetric] PK by (simp add: mod_add_left_eq)
  have i2: "unat ?v mod P = unat v mod P"
  proof -
    have "unat ?v mod 2 ^ n0 = (unat v + 2 ^ n0) mod 2 ^ n0"
      using le n1 by (intro expansion_step_unat) simp_all
    then show ?thesis unfolding P_def by simp
  qed
  have bk: "bucket h (unat (v AND mask n1)) = Some (t ! x)"
    using live xlt PK
    by (simp add: bucket_def ht_live_def x_def unat_take_bit flip: take_bit_eq_mask)
  have xq: "x = unat v mod P + x div P * P" unfolding i0 by simp
  have step: "scan_expansions h (mask n0) (mask n1) v =
      (if unat ?v mod 2 ^ n1 < P then Some (t ! x, ?v)
       else do { (cs, v) \<leftarrow> scan_expansions h (mask n0) (mask n1) ?v; Some (t ! x @ cs, v) })"
    using le n1
    by (subst scan_expansions.simps)
       (simp add: bk expansion_step expansion_cond P_def Let_def)
  have sucq: "(x + P) div P = Suc (x div P)" using P by (simp add: div_add_self2)
  show ?case
  proof (cases "Suc (x div P) < K")
    case True
    then have "x + P < K * P" using P sucq by (metis div_less_iff_less_mult)
    then have x2': "unat ?v mod 2 ^ n1 = x + P" unfolding x2 by simp
    have lt: "K - Suc (x div P) < K - x div P" using True by linarith
    from less.hyps [of ?v, unfolded x2' P_def [symmetric] K_def [symmetric] x_def [symmetric] sucq, OF lt]
    obtain v' where "scan_expansions h (mask n0) (mask n1) ?v =
        Some (concat (map (\<lambda>q. t ! (unat ?v mod P + q * P)) [Suc (x div P) ..< K]), v')"
      "unat v' mod P = unat ?v mod P" by blast
    then show ?thesis
      unfolding P_def [symmetric] K_def [symmetric] x_def [symmetric] step
      using x2' i2 q sucq xq by (simp add: upt_conv_Cons [OF q])
  next
    case False
    with q have e: "Suc (x div P) = K" by simp
    have ge: "K * P \<le> x + P" using xq e by (metis add.commute add_le_cancel_right le_add2 mult_Suc)
    have "(x + P) mod (K * P) \<le> x + P - K * P" unfolding le_mod_geq [OF ge] by (rule mod_less_eq_dividend)
    also have "\<dots> < P" using xlt P by linarith
    finally have "unat ?v mod 2 ^ n1 < P" unfolding x2 .
    then show ?thesis
      unfolding P_def [symmetric] K_def [symmetric] x_def [symmetric] step
      using i2 xq e by (intro exI [of _ ?v]) (simp add: upt_conv_Cons [OF q])
  qed
qed

section \<open>What a call visits\<close>

lemma filter_chain:
  assumes "\<And>j e. j < length t \<Longrightarrow> e \<in> set (t ! j) \<Longrightarrow> f e = k + j"
  shows "filter (\<lambda>e. f e = k + i) (concat t) = (if i < length t then t ! i else [])"
  using assms
proof (induction t arbitrary: k i)
  case (Cons c t)
  have c: "f e = k" if "e \<in> set c" for e using Cons.prems [of 0 e] that by simp
  have t: "f e = Suc k + j" if "j < length t" "e \<in> set (t ! j)" for j e
    using Cons.prems [of "Suc j" e] that by simp
  show ?case
  proof (cases i)
    case 0
    have "filter (\<lambda>e. f e = k) c = c" using c by (auto simp: filter_id_conv)
    moreover have "filter (\<lambda>e. f e = k) (concat t) = []"
    proof -
      have "f e \<noteq> k" if "e \<in> set (concat t)" for e
        using that t [of _ e] unfolding set_concat_nth by fastforce
      then show ?thesis by (simp only: filter_empty_conv) blast
    qed
    ultimately show ?thesis using 0 by simp
  next
    case (Suc i')
    have "filter (\<lambda>e. f e = k + i) c = []" using c Suc by (auto simp: filter_empty_conv)
    with Cons.IH [OF t, of i'] Suc show ?thesis by simp
  qed
qed simp

lemma chains_mset:
  fixes t :: "('k \<times> 'v) list list"
  assumes live: "ht_live hf h t n" and "distinct is" and "set is \<subseteq> {..< 2 ^ n}"
  shows "mset (concat (map ((!) t) is)) = filter_mset (\<lambda>e. hf (fst e) mod 2 ^ n \<in> set is) (mset (concat t))"
  using assms(2,3)
proof (induction "is")
  case (Cons i "is")
  have "filter (\<lambda>e. hf (fst e) mod 2 ^ n = 0 + i) (concat t) = (if i < length t then t ! i else [])"
    by (rule filter_chain) (use live in \<open>auto simp: ht_live_def\<close>)
  moreover have "i < length t" using Cons.prems live by (simp add: ht_live_def)
  ultimately have "mset (t ! i) = filter_mset (\<lambda>e. hf (fst e) mod 2 ^ n = i) (mset (concat t))"
    by (simp flip: mset_filter)
  moreover have "filter_mset (\<lambda>e. hf (fst e) mod 2 ^ n \<in> set (i # is)) M =
      filter_mset (\<lambda>e. hf (fst e) mod 2 ^ n = i) M + filter_mset (\<lambda>e. hf (fst e) mod 2 ^ n \<in> set is) M" for M :: "('k \<times> 'v) multiset"
    using Cons.prems by (induction M) auto
  ultimately show ?case using Cons by simp
qed simp

text \<open>The place of a key in the order of the iteration.\<close>

definition rh :: "('k \<Rightarrow> nat) \<Rightarrow> 'k \<Rightarrow> nat" where
  "rh hf k = rc (of_nat (hf k))"

definition block :: "nat \<Rightarrow> nat \<Rightarrow> nat" where
  "block n x = x div 2 ^ (64 - n)"

lemma hash_block:
  assumes "n \<le> 31"
  shows "hf k mod 2 ^ n = unat v mod 2 ^ n \<longleftrightarrow> block n (rh hf k) = block n (rc v)"
proof -
  have "(2 :: nat) ^ n dvd 2 ^ LENGTH(64)" using assms by (intro le_imp_power_dvd) simp
  then have "unat (of_nat (hf k) :: 64 word) mod 2 ^ n = hf k mod 2 ^ n"
    unfolding unat_of_nat by (rule mod_mod_cancel)
  with same_block [of n "of_nat (hf k)" v] assms show ?thesis by (simp add: rh_def block_def)
qed

lemma next_cursor_cong:
  assumes "unat v' mod 2 ^ n = unat v mod 2 ^ n"
  shows "next_cursor n v' = next_cursor n v"
proof -
  have "take_bit n v' = take_bit n v" using assms by (simp only: word_unat_eq_iff unat_take_bit)
  moreover have "w OR NOT (mask n) = take_bit n w OR NOT (mask n)" for w :: "64 word"
    by (auto simp: bit_eq_iff bit_simps)
  ultimately show ?thesis unfolding next_cursor_def by metis
qed

lemma scan_static:
  assumes live: "ht_live hf h t n"
  shows "bucket h (unat (v AND of_nat (ht_sizemask h))) = Some (t ! (unat v mod 2 ^ n))"
    and "mset (t ! (unat v mod 2 ^ n)) = filter_mset (\<lambda>e. block n (rh hf (fst e)) = block n (rc v)) (mset (concat t))"
proof -
  have n: "n \<le> 31" and m: "ht_sizemask h = 2 ^ n - 1" and len: "length t = 2 ^ n" and tab: "ht_table h = Some t"
    using live by (auto simp: ht_live_def)
  show "bucket h (unat (v AND of_nat (ht_sizemask h))) = Some (t ! (unat v mod 2 ^ n))"
    unfolding m unat_and_mask by (simp add: bucket_def tab len)
  have "mset (concat (map ((!) t) [unat v mod 2 ^ n])) =
      filter_mset (\<lambda>e. hf (fst e) mod 2 ^ n \<in> set [unat v mod 2 ^ n]) (mset (concat t))"
    by (rule chains_mset [OF live]) simp_all
  then show "mset (t ! (unat v mod 2 ^ n)) = filter_mset (\<lambda>e. block n (rh hf (fst e)) = block n (rc v)) (mset (concat t))"
    by (simp add: hash_block [OF n])
qed

lemma scan_expanded:
  assumes live: "ht_live hf h t k" and le: "n \<le> k"
  shows "mset (concat (map (\<lambda>q. t ! (unat v mod 2 ^ n + q * 2 ^ n)) [0 ..< 2 ^ (k - n)])) =
         filter_mset (\<lambda>e. block n (rh hf (fst e)) = block n (rc v)) (mset (concat t))"
proof -
  define P :: nat where "P = 2 ^ n"
  define K :: nat where "K = 2 ^ (k - n)"
  let ?i = "unat v mod P"
  let ?is = "map (\<lambda>q. ?i + q * P) [0 ..< K]"
  have P: "0 < P" and PK: "2 ^ k = K * P" using le by (simp_all add: P_def K_def flip: power_add)
  have n31: "n \<le> 31" using live le by (simp add: ht_live_def)
  have ilt: "?i < P" using P by simp
  have "distinct ?is" using P by (simp add: distinct_map inj_on_def)
  moreover have lt: "?i + q * P < K * P" if "q < K" for q
  proof -
    have "?i + q * P < Suc q * P" using ilt by simp
    also have "\<dots> \<le> K * P" using that by (intro mult_le_mono1) simp
    finally show ?thesis .
  qed
  then have "set ?is \<subseteq> {..< 2 ^ k}" unfolding PK by auto
  ultimately have "mset (concat (map ((!) t) ?is)) =
      filter_mset (\<lambda>e. hf (fst e) mod 2 ^ k \<in> set ?is) (mset (concat t))"
    by (intro chains_mset [OF live])
  moreover have "x mod 2 ^ k \<in> set ?is \<longleftrightarrow> x mod P = ?i" for x
  proof
    assume "x mod 2 ^ k \<in> set ?is"
    then obtain q where "x mod (K * P) = ?i + q * P" unfolding PK by auto
    then have "x mod (K * P) mod P = ?i" by simp
    then show "x mod P = ?i" by (simp add: mod_mod_cancel)
  next
    assume x: "x mod P = ?i"
    have "x mod (K * P) < K * P" using P by (simp add: K_def)
    then have "x mod (K * P) div P < K" by (rule less_mult_imp_div_less)
    moreover have "x mod (K * P) = x mod (K * P) mod P + x mod (K * P) div P * P" by simp
    moreover have "x mod (K * P) mod P = ?i" using x by (simp add: mod_mod_cancel)
    ultimately show "x mod 2 ^ k \<in> set ?is" unfolding PK by force
  qed
  ultimately show ?thesis
    by (simp add: comp_def P_def K_def hash_block [OF n31])
qed

lemma scan_rehashing:
  assumes l0: "ht_live hf h0 t0 n" and l1: "ht_live hf h1 t1 k" and le: "n \<le> k" and v: "unat v < 2 ^ n"
  shows "\<exists>v' cs. scan_expansions h1 (of_nat (ht_sizemask h0)) (of_nat (ht_sizemask h1)) v = Some (cs, v') \<and>
           next_cursor n v' = next_cursor n v \<and>
           mset (t0 ! (unat v mod 2 ^ n) @ cs) =
             filter_mset (\<lambda>e. block n (rh hf (fst e)) = block n (rc v)) (mset (concat t0 @ concat t1))"
proof -
  have m: "ht_sizemask h0 = 2 ^ n - 1" "ht_sizemask h1 = 2 ^ k - 1"
    using l0 l1 by (simp_all add: ht_live_def)
  have "unat v < 2 ^ k" using v le by (metis less_le_trans one_le_numeral power_increasing)
  then have q0: "unat v mod 2 ^ k div 2 ^ n = 0" using v by simp
  obtain v' where
    e: "scan_expansions h1 (mask n) (mask k) v =
          Some (concat (map (\<lambda>q. t1 ! (unat v mod 2 ^ n + q * 2 ^ n)) [0 ..< 2 ^ (k - n)]), v')"
    and v': "unat v' mod 2 ^ n = unat v mod 2 ^ n"
    using scan_expansions_spec [OF l1 le, of v] unfolding q0 by blast
  show ?thesis
    unfolding m of_nat_mask e
    using next_cursor_cong [OF v'] scan_static(2) [OF l0, of v] scan_expanded [OF l1 le, of v]
    by (intro exI [of _ v'] exI [of _ "concat (map (\<lambda>q. t1 ! (unat v mod 2 ^ n + q * 2 ^ n)) [0 ..< 2 ^ (k - n)])"]) simp
qed

text \<open>
  One call: it returns the entries of the block of its cursor, each as often as it occurs, and
  moves to the next block.
\<close>

lemma dictScan_step:
  assumes inv: "dict_inv hf d" and ne: "dictSize d \<noteq> 0"
    and safe: "dictIsRehashing d \<Longrightarrow> unat v < scan_size d"
  obtains n out where "n \<le> 31" and "scan_size d = 2 ^ n" and "dictScan d v = Some (out, next_cursor n v)"
    and "mset out = filter_mset (\<lambda>e. block n (rh hf (fst e)) = block n (rc v)) (mset (dict_entries d))"
proof (cases "dictIsRehashing d")
  case False
  have "ht_0 d \<noteq> us_dictReset" using ne inv False by (auto simp: dictSize_def dict_inv_def)
  then obtain t n where l: "ht_live hf (ht_0 d) t n" using dict_inv_static_live [OF inv False] by blast
  have r: "ht_1 d = us_dictReset" using inv False by (auto simp: dict_inv_def)
  have m: "of_nat (ht_sizemask (ht_0 d)) = (mask n :: 64 word)"
    using l of_nat_mask [of n] by (simp add: ht_live_def)
  have "dictScan d v = Some (t ! (unat v mod 2 ^ n), next_cursor n v)"
    using ne False scan_static(1) [OF l, of v] by (simp add: dictScan_def next_cursor_def m Let_def)
  moreover have "dict_entries d = concat t" by (simp add: dict_entries_def r live_entries [OF l])
  ultimately show ?thesis
    using l False scan_static(2) [OF l, of v] by (intro that [of n]) (auto simp: ht_live_def scan_size_def)
next
  case True
  obtain t0 n0 t1 n1 where l0: "ht_live hf (ht_0 d) t0 n0" and l1: "ht_live hf (ht_1 d) t1 n1"
    by (rule dict_inv_rehashingE [OF inv True]) (rule that)
  have e: "dict_entries d = concat t0 @ concat t1"
    by (simp add: dict_entries_def live_entries [OF l0] live_entries [OF l1])
  have z: "ht_size (ht_0 d) = 2 ^ n0" "ht_size (ht_1 d) = 2 ^ n1" and b: "n0 \<le> 31" "n1 \<le> 31"
    and m: "of_nat (ht_sizemask (ht_0 d)) = (mask n0 :: 64 word)" "of_nat (ht_sizemask (ht_1 d)) = (mask n1 :: 64 word)"
    using l0 l1 of_nat_mask [of n0] of_nat_mask [of n1] by (auto simp: ht_live_def)
  show ?thesis
  proof (cases "n1 < n0")
    case lt: True
    then have zz: "ht_size (ht_1 d) < ht_size (ht_0 d)" by (simp add: z)
    then have sz: "scan_size d = 2 ^ n1" using True z by (simp add: scan_size_def)
    obtain v' cs where "scan_expansions (ht_0 d) (mask n1) (mask n0) v = Some (cs, v')"
      "next_cursor n1 v' = next_cursor n1 v"
      and ms: "mset (t1 ! (unat v mod 2 ^ n1) @ cs) =
             filter_mset (\<lambda>e. block n1 (rh hf (fst e)) = block n1 (rc v)) (mset (concat t1 @ concat t0))"
      using scan_rehashing [OF l1 l0] safe [OF True] lt unfolding sz m by fastforce
    with ne True zz scan_static(1) [OF l1, of v]
    have sc: "dictScan d v = Some (t1 ! (unat v mod 2 ^ n1) @ cs, next_cursor n1 v)"
      by (simp add: dictScan_def next_cursor_def m Let_def)
    have sw: "mset (concat t1 @ concat t0) = mset (dict_entries d)" by (simp add: e)
    show ?thesis using that [OF b(2) sz sc ms [unfolded sw]] .
  next
    case ge: False
    then have zz: "\<not> ht_size (ht_1 d) < ht_size (ht_0 d)" by (simp add: z)
    then have sz: "scan_size d = 2 ^ n0" using True z by (simp add: scan_size_def)
    obtain v' cs where "scan_expansions (ht_1 d) (mask n0) (mask n1) v = Some (cs, v')"
      "next_cursor n0 v' = next_cursor n0 v"
      and ms: "mset (t0 ! (unat v mod 2 ^ n0) @ cs) =
             filter_mset (\<lambda>e. block n0 (rh hf (fst e)) = block n0 (rc v)) (mset (concat t0 @ concat t1))"
      using scan_rehashing [OF l0 l1] safe [OF True] ge unfolding sz m by fastforce
    with ne True zz scan_static(1) [OF l0, of v]
    have sc: "dictScan d v = Some (t0 ! (unat v mod 2 ^ n0) @ cs, next_cursor n0 v)"
      by (simp add: dictScan_def next_cursor_def m Let_def)
    show ?thesis using that [OF b(1) sz sc ms [folded e]] .
  qed
qed

section \<open>Iterations\<close>

lemma rc_0 [simp]: "rc 0 = 0"
proof -
  have "word_reverse 0 = (0 :: 64 word)" by (rule bit_word_eqI) (simp add: bit_word_reverse_iff)
  then show ?thesis by (simp add: rc_def)
qed

lemma rc_eq_0: "rc v = 0 \<longleftrightarrow> v = 0"
  using word_reverse_twice [of v] rc_0 by (auto simp: rc_def unat_eq_zero) (metis rc_0 rc_def unat_eq_zero word_reverse_twice)

lemma rh_bound: "rh hf k < 2 ^ 64"
  using unsigned_less [of "word_reverse (of_nat (hf k)) :: 64 word"] by (simp add: rh_def rc_def)

text \<open>A key that the call does not return lies beyond the next cursor.\<close>

lemma block_next:
  assumes "n \<le> 31" and "rc v \<le> x" and "x < 2 ^ 64" and "block n x \<noteq> block n (rc v)"
  shows "rc (next_cursor n v) \<le> x" and "0 < rc (next_cursor n v)"
proof -
  define B :: nat where "B = 2 ^ (64 - n)"
  have B: "0 < B" by (simp add: B_def)
  have "rc v div B \<le> x div B" using assms(2) by (rule div_le_mono)
  then have "rc v div B + 1 \<le> x div B" using assms(4) by (simp add: block_def B_def)
  then have "(rc v div B + 1) * B \<le> x div B * B" by (rule mult_le_mono1)
  also have "\<dots> \<le> x" by simp
  finally have le: "(rc v div B + 1) * B \<le> x" .
  then have "rc (next_cursor n v) = (rc v div B + 1) * B"
    unfolding B_def using assms(1,3) by (simp only: rc_next) simp
  with le B show "rc (next_cursor n v) \<le> x" "0 < rc (next_cursor n v)" by simp_all
qed

lemma scan_run_covers:
  assumes "scan_steady ds" and "\<And>d. d \<in> set ds \<Longrightarrow> dict_inv hf d"
    and "ds \<noteq> [] \<Longrightarrow> dictIsRehashing (hd ds) \<Longrightarrow> unat v < scan_size (hd ds)"
  shows "\<exists>out v'. scan_run ds v = Some (out, v') \<and>
           (\<forall>k. (\<forall>d \<in> set ds. dict_map d k \<noteq> None) \<longrightarrow> rc v \<le> rh hf k \<longrightarrow> k \<notin> fst ` set out \<longrightarrow> ds \<noteq> [] \<longrightarrow>
              0 < rc v' \<and> rc v' \<le> rh hf k)"
  using assms
proof (induction ds arbitrary: v)
  case Nil
  then show ?case by simp
next
  case (Cons d ds)
  have inv: "dict_inv hf d" using Cons.prems(2) by simp
  show ?case
  proof (cases "dictSize d = 0")
    case True
    then have "dict_entries d = []" using dictSize_entries [OF inv] by simp
    then have none: "dict_map d k = None" for k by (simp add: dict_map_def)
    have "unat (0 :: 64 word) < scan_size (hd ds)" if "ds \<noteq> []" "dictIsRehashing (hd ds)"
    proof -
      have "dict_inv hf (hd ds)" using Cons.prems(2) that(1) by simp
      with that(2) show ?thesis
        by (auto elim!: dict_inv_rehashingE simp: scan_size_def ht_live_def)
    qed
    moreover have "scan_steady ds" using Cons.prems(1) by (cases ds) simp_all
    ultimately obtain out v' where "scan_run ds 0 = Some (out, v')"
      using Cons.IH [of 0] Cons.prems(2) by auto
    with True none show ?thesis by (simp add: dictScan_def)
  next
    case False
    obtain n out where n: "n \<le> 31" and sz: "scan_size d = 2 ^ n" and sc: "dictScan d v = Some (out, next_cursor n v)"
      and ms: "mset out = filter_mset (\<lambda>e. block n (rh hf (fst e)) = block n (rc v)) (mset (dict_entries d))"
      using dictScan_step [OF inv False, of v] Cons.prems(3) by auto
    let ?v = "next_cursor n v"
    have "unat ?v < scan_size (hd ds)" if "ds \<noteq> []" "dictIsRehashing (hd ds)"
    proof -
      have "scan_size d \<le> scan_size (hd ds)" using Cons.prems(1) that by (cases ds) simp_all
      with next_cursor_low [of n v] n sz show ?thesis by simp
    qed
    moreover have "scan_steady ds" using Cons.prems(1) by (cases ds) simp_all
    ultimately obtain outs v' where r: "scan_run ds ?v = Some (outs, v')"
      and ih: "\<forall>k. (\<forall>d \<in> set ds. dict_map d k \<noteq> None) \<longrightarrow> rc ?v \<le> rh hf k \<longrightarrow> k \<notin> fst ` set outs \<longrightarrow> ds \<noteq> [] \<longrightarrow>
              0 < rc v' \<and> rc v' \<le> rh hf k"
      using Cons.IH [of ?v] Cons.prems(2) by auto
    have "0 < rc v' \<and> rc v' \<le> rh hf k"
      if k: "\<forall>d \<in> set (d # ds). dict_map d k \<noteq> None" "rc v \<le> rh hf k" "k \<notin> fst ` set (out @ outs)" for k
    proof -
      from k(1) obtain w where "map_of (dict_entries d) k = Some w" by (auto simp: dict_map_def)
      then have "(k, w) \<in># mset (dict_entries d)" by (simp add: map_of_SomeD)
      moreover have "(k, w) \<notin># mset out" using k(3) by force
      ultimately have "block n (rh hf k) \<noteq> block n (rc v)" unfolding ms by simp
      from block_next [OF n k(2) rh_bound this] have b: "rc ?v \<le> rh hf k" "0 < rc ?v" .
      show ?thesis
      proof (cases "ds = []")
        case True
        with r b show ?thesis by simp
      next
        case ds: False
        have "\<forall>d \<in> set ds. dict_map d k \<noteq> None" "k \<notin> fst ` set outs" using k by auto
        with ih b(1) ds show ?thesis by blast
      qed
    qed
    with sc r show ?thesis by (intro exI [of _ "out @ outs"] exI [of _ v']) auto
  qed
qed

lemma scan_from:
  assumes inv: "dict_inv hf d" and ne: "dictSize d \<noteq> 0" and n: "scan_size d = 2 ^ n" "n \<le> 31"
  shows "rc v = i * 2 ^ (64 - n) \<Longrightarrow> unat v < 2 ^ n \<Longrightarrow> i < 2 ^ n \<Longrightarrow>
         \<exists>out. scan_until_zero (2 ^ n - i) d v = Some out \<and>
               mset out = filter_mset (\<lambda>e. i \<le> block n (rh hf (fst e))) (mset (dict_entries d))"
proof (induction "2 ^ n - i" arbitrary: i v)
  case 0
  then show ?case by simp
next
  case (Suc m)
  define B :: nat where "B = 2 ^ (64 - n)"
  have B: "0 < B" and BN: "2 ^ 64 = 2 ^ n * B" using n(2) by (simp_all add: B_def flip: power_add)
  obtain n' out where n': "n' \<le> 31" "scan_size d = 2 ^ n'" and sc: "dictScan d v = Some (out, next_cursor n' v)"
    and ms: "mset out = filter_mset (\<lambda>e. block n' (rh hf (fst e)) = block n' (rc v)) (mset (dict_entries d))"
    using dictScan_step [OF inv ne, of v] Suc.prems(2) n(1) by metis
  have nn: "n' = n" using n'(2) n(1) by simp
  have bi: "block n (rc v) = i" using Suc.prems(1) B by (simp add: block_def B_def)
  have rc': "rc (next_cursor n v) = (i + 1) * B mod 2 ^ 64"
    using n(2) rc_next [of n v] bi by (simp add: block_def B_def)
  have split: "filter_mset (\<lambda>e. i \<le> block n (rh hf (fst e))) M =
      filter_mset (\<lambda>e. block n (rh hf (fst e)) = i) M + filter_mset (\<lambda>e. Suc i \<le> block n (rh hf (fst e))) M"
    for M :: "('a \<times> 'b) multiset"
    by (induction M) auto
  have unfold: "2 ^ n - i = Suc (2 ^ n - Suc i)" using Suc.prems(3) by simp
  show ?case
  proof (cases "Suc i = 2 ^ n")
    case True
    then have "(i + 1) * B = 2 ^ 64" using BN by simp
    then have "next_cursor n v = 0" using rc' by (simp flip: rc_eq_0)
    moreover have lt: "block n x < Suc i" if "x < 2 ^ 64" for x
      using that unfolding True block_def B_def [symmetric] BN by (rule less_mult_imp_div_less)
    have "\<not> Suc i \<le> block n (rh hf k)" for k using lt [OF rh_bound, of hf k] by simp
    then have "filter_mset (\<lambda>e. Suc i \<le> block n (rh hf (fst e))) (mset (dict_entries d)) = {#}"
      by simp
    ultimately show ?thesis
      using sc ms bi nn unfolding split unfold by simp
  next
    case False
    then have i: "Suc i < 2 ^ n" using Suc.prems(3) by simp
    then have "Suc i * B < 2 ^ 64" unfolding BN using B by (intro mult_strict_right_mono)
    then have rc'': "rc (next_cursor n v) = Suc i * B" using rc' by simp
    then have nz: "next_cursor n v \<noteq> 0" using B by (metis Suc_neq_Zero mult_is_0 not_gr_zero rc_0)
    have "m = 2 ^ n - Suc i" using Suc.hyps(2) by simp
    from Suc.hyps(1) [OF this rc'' [unfolded B_def] _ i] next_cursor_low [of n v] n(2)
    obtain outs where "scan_until_zero (2 ^ n - Suc i) d (next_cursor n v) = Some outs"
      "mset outs = filter_mset (\<lambda>e. Suc i \<le> block n (rh hf (fst e))) (mset (dict_entries d))" by auto
    with sc ms bi nn nz show ?thesis unfolding split unfold by simp
  qed
qed

section \<open>Properties\<close>

text \<open>
  C32: an iteration over a dictionary that does not change, also one in the middle of a
  rehash, ends after exactly as many calls as the smaller table has buckets and returns every
  entry exactly once.
\<close>

theorem dictScan_exactly_once:
  assumes "dict_inv hf d" and "dictSize d \<noteq> 0"
  shows "\<exists>out. scan_until_zero (scan_size d) d 0 = Some out \<and> mset out = mset (dict_entries d)"
proof -
  have pos: "unat (0 :: 64 word) < scan_size d" if "dictIsRehashing d"
    using assms(1) that by (auto elim!: dict_inv_rehashingE simp: scan_size_def ht_live_def)
  obtain n where n: "n \<le> 31" "scan_size d = 2 ^ n"
    by (rule dictScan_step [OF assms pos])
  from scan_from [OF assms n(2,1), of 0 0] n(2) show ?thesis by simp
qed

theorem dictScan_exactly_once_witness:
  "dict_inv id example_rehashing \<and> dictSize example_rehashing \<noteq> 0 \<and>
   (\<exists>out. scan_until_zero 4 example_rehashing 0 = Some out \<and> mset out = mset [(5, ''x''), (1, ''y''), (8, ''z'')])"
  using dictScan_exactly_once [OF example_rehashing_inv] example_rehashing_inv
  by (simp add: example_rehashing_def dictSize_def scan_size_def dictIsRehashing_def dict_entries_def ht_entries_def)

text \<open>
  C14: an iteration misses no key that stays. The dictionary may change in any way between the
  calls (the list holds its state at each call): if the cursor has come back to zero, every key
  that was present at all calls has been returned. The condition \<open>scan_steady\<close> excludes only
  calls in the middle of a rehash whose smaller table is smaller than that of the call before.
\<close>

theorem dictScan_complete:
  assumes "\<forall>d \<in> set ds. dict_inv hf d" and "scan_steady ds" and "ds \<noteq> []"
  shows "\<exists>out v. scan_run ds 0 = Some (out, v) \<and>
           (v = 0 \<longrightarrow> (\<forall>k. (\<forall>d \<in> set ds. dict_map d k \<noteq> None) \<longrightarrow> k \<in> fst ` set out))"
proof -
  have "unat (0 :: 64 word) < scan_size (hd ds)" if "dictIsRehashing (hd ds)"
  proof -
    have "dict_inv hf (hd ds)" using assms by simp
    with that show ?thesis by (auto elim!: dict_inv_rehashingE simp: scan_size_def ht_live_def)
  qed
  with scan_run_covers [OF assms(2), of hf 0] assms(1,3) obtain out v where "scan_run ds 0 = Some (out, v)"
    "\<forall>k. (\<forall>d \<in> set ds. dict_map d k \<noteq> None) \<longrightarrow> k \<notin> fst ` set out \<longrightarrow> 0 < rc v" by auto
  then show ?thesis by (intro exI [of _ out] exI [of _ v]) auto
qed

theorem dictScan_complete_witness:
  "dict_inv id example_rehashing \<and> scan_steady [example_rehashing, example_rehashing] \<and>
   (\<exists>out v. scan_run [example_rehashing, example_rehashing] 0 = Some (out, v))"
  using dictScan_complete [of "[example_rehashing, example_rehashing]" id] example_rehashing_inv by auto

text \<open>A dictionary of 16 buckets with the single key 4, and what \<open>dictResize\<close> makes of it.\<close>

definition example_large :: "(nat, string) dict" where
  "example_large =
     \<lparr>ht_0 = \<lparr>ht_table = Some [[], [], [], [], [(4, ''x'')], [], [], [], [], [], [], [], [], [], [], []], ht_size = 16, ht_sizemask = 15, ht_used = 1\<rparr>,
      ht_1 = us_dictReset, rehashidx = -1, iterators = 0\<rparr>"

definition example_shrinking :: "(nat, string) dict" where
  "example_shrinking =
     example_large\<lparr>ht_1 := \<lparr>ht_table = Some [[], [], [], []], ht_size = 4, ht_sizemask = 3, ht_used = 0\<rparr>, rehashidx := 0\<rparr>"

lemma example_cursors:
  "rev_ul (- 16) = 0x0FFFFFFFFFFFFFFF" "rev_ul 0x1000000000000000 = 8"
  "rev_ul (- 4) = 0x3FFFFFFFFFFFFFFF" "rev_ul 0x4000000000000000 = 2"
  "rev_ul (- 2) = 0x7FFFFFFFFFFFFFFF" "rev_ul 0x8000000000000000 = 1"
  "rev_ul (- 3) = 0xBFFFFFFFFFFFFFFF" "rev_ul 0xC000000000000000 = 3"
  by (simp_all add: rev_ul_stages rev_stage_def push_bit_eq_mult)

lemma example_cursors_all: "rev_ul (- 1) = - 1" "rev_ul 0 = 0"
  by (auto simp: rev_ul_eq bit_word_reverse_iff intro!: bit_word_eqI)

lemmas example_scan_defs = dictScan_def example_large_def example_shrinking_def dictSize_def dictIsRehashing_def
  bucket_def scan_expansions.simps example_cursors example_cursors_all

lemma example_scans:
  "dictScan example_large 0 = Some ([], 8)" "dictScan example_shrinking 8 = Some ([], 2)"
  "dictScan example_shrinking 2 = Some ([], 1)" "dictScan example_shrinking 1 = Some ([], 3)"
  "dictScan example_shrinking 3 = Some ([], 0)"
  by (simp_all add: example_scan_defs)

text \<open>
  C33: the condition of the previous property is needed. The first call of an iteration sees a
  table of 16 buckets; then \<open>dictResize\<close> starts to shrink it to 4 buckets. The cursor has a bit
  outside the smaller mask, the expansion loop counts upwards from it, and the iteration ends
  without returning the only key, which was present at every call.
\<close>

theorem dictScan_misses_key:
  "dict_inv id example_large \<and> dictResize True example_large = Some (example_shrinking, DICT_OK) \<and>
   dict_map example_large 4 = Some ''x'' \<and> dict_map example_shrinking 4 = Some ''x'' \<and>
   scan_run [example_large, example_shrinking, example_shrinking, example_shrinking, example_shrinking] 0 = Some ([], 0)"
proof (intro conjI)
  show "dict_inv id example_large"
    by (rule dict_inv_staticI [where n = 4 and t = "[[], [], [], [], [(4, ''x'')], [], [], [], [], [], [], [], [], [], [], []]"])
       (simp_all add: example_large_def dict_entries_def ht_entries_def ht_live_def All_less_Suc2)
  have "us_dictNextPower 4 = Some 4"
    by (simp add: us_dictNextPower_def LONG_MAX_def DICT_HT_INITIAL_SIZE_def next_power_loop.simps)
  moreover have "replicate 4 ([] :: (nat \<times> string) list) = [[], [], [], []]"
    by (simp add: numeral_eq_Suc)
  ultimately show "dictResize True example_large = Some (example_shrinking, DICT_OK)"
    by (simp add: dictResize_def dictExpand_def to_int32_def DICT_HT_INITIAL_SIZE_def dictIsRehashing_def
        example_large_def example_shrinking_def)
qed (simp_all add: example_scans, simp_all add: example_large_def example_shrinking_def dict_map_def dict_entries_def ht_entries_def)

end
