(* ===== verification/Dict_Iter.thy ===== *)
theory Dict_Iter
  imports Dict
begin

text \<open>
  The iterators of \<open>dict.c\<close>. A pointer to an entry is the rest of its chain from that entry on
  (the empty list is NULL). The fingerprint reads the addresses of the two tables, which are the
  argument \<open>adr\<close>; \<open>long long\<close> sums wrap around and \<open>>>\<close> on them is the arithmetic shift. The
  lemmas show that iterating visits the chains of the first and then of the second table in
  order, entry by entry, and that releasing the iterator restores the dictionary.
\<close>

section \<open>The code\<close>

record ('k, 'v) dictIterator =
  it_table :: nat
  it_index :: int
  it_safe :: bool
  it_entry :: "('k \<times> 'v) list"
  it_nextEntry :: "('k \<times> 'v) list"
  it_fingerprint :: "64 word"

definition fingerprint_mix :: "64 word \<Rightarrow> 64 word \<Rightarrow> 64 word" where
  "fingerprint_mix hash n =
     (let hash = hash + n;
          hash = not hash + push_bit 21 hash;
          hash = xor hash (signed_drop_bit 24 hash);
          hash = (hash + push_bit 3 hash) + push_bit 8 hash;
          hash = xor hash (signed_drop_bit 14 hash);
          hash = (hash + push_bit 2 hash) + push_bit 4 hash;
          hash = xor hash (signed_drop_bit 28 hash)
      in hash + push_bit 31 hash)"

definition dictFingerprint :: "64 word \<times> 64 word \<Rightarrow> ('k, 'v) dict \<Rightarrow> 64 word" where
  "dictFingerprint adr d =
     foldl fingerprint_mix 0
       [fst adr, of_nat (ht_size (ht_0 d)), of_nat (ht_used (ht_0 d)),
        snd adr, of_nat (ht_size (ht_1 d)), of_nat (ht_used (ht_1 d))]"

text \<open>\<open>junk\<close> is what the fingerprint field of the fresh allocation holds.\<close>

definition dictGetIterator :: "64 word \<Rightarrow> ('k, 'v) dictIterator" where
  "dictGetIterator junk =
     \<lparr>it_table = 0, it_index = -1, it_safe = False, it_entry = [], it_nextEntry = [], it_fingerprint = junk\<rparr>"

definition dictGetSafeIterator :: "64 word \<Rightarrow> ('k, 'v) dictIterator" where
  "dictGetSafeIterator junk = (dictGetIterator junk)\<lparr>it_safe := True\<rparr>"

text \<open>What the first call does before it looks at a bucket.\<close>

definition iter_start ::
  "64 word \<times> 64 word \<Rightarrow> ('k, 'v) dictIterator \<Rightarrow> ('k, 'v) dict \<Rightarrow> ('k, 'v) dictIterator \<times> ('k, 'v) dict" where
  "iter_start adr it d =
     (if it_index it = -1 \<and> it_table it = 0
      then if it_safe it then (it, d\<lparr>iterators := iterators d + 1\<rparr>)
           else (it\<lparr>it_fingerprint := dictFingerprint adr d\<rparr>, d)
      else (it, d))"

text \<open>Moving to the next bucket; \<open>Inl\<close> is the \<open>break\<close> at the end of the last table.\<close>

definition iter_advance ::
  "('k, 'v) dictIterator \<Rightarrow> ('k, 'v) dict \<Rightarrow> (('k, 'v) dictIterator + ('k, 'v) dictIterator) option" where
  "iter_advance it d = do {
     let ht = get_ht d (it_table it);
     let it = it\<lparr>it_index := it_index it + 1\<rparr>;
     if it_index it \<ge> to_int32 (ht_size ht) then
       if dictIsRehashing d \<and> it_table it = 0 then do {
         c \<leftarrow> bucket (ht_1 d) 0;
         Some (Inr (it\<lparr>it_table := 1, it_index := 0, it_entry := c\<rparr>))
       } else Some (Inl it)
     else do {
       ensure (0 \<le> it_index it);
       c \<leftarrow> bucket ht (nat (it_index it));
       Some (Inr (it\<lparr>it_entry := c\<rparr>))
     }
   }"

partial_function (option) dictNext ::
  "64 word \<times> 64 word \<Rightarrow> ('k, 'v) dictIterator \<Rightarrow> ('k, 'v) dict \<Rightarrow>
   ((('k, 'v) dictIterator \<times> ('k, 'v) dict) \<times> ('k \<times> 'v) option) option" where
  "dictNext adr it d = do {
     (r, d) \<leftarrow> (if it_entry it = []
                then do { let (it, d) = iter_start adr it d; r \<leftarrow> iter_advance it d; Some (r, d) }
                else Some (Inr (it\<lparr>it_entry := it_nextEntry it\<rparr>), d));
     case r of
       Inl it \<Rightarrow> Some ((it, d), None)
     | Inr it \<Rightarrow>
         (case it_entry it of
            e # nextde \<Rightarrow> Some ((it\<lparr>it_nextEntry := nextde\<rparr>, d), Some e)
          | [] \<Rightarrow> dictNext adr it d)
   }"

definition dictReleaseIterator ::
  "64 word \<times> 64 word \<Rightarrow> ('k, 'v) dictIterator \<Rightarrow> ('k, 'v) dict \<Rightarrow> ('k, 'v) dict option" where
  "dictReleaseIterator adr it d =
     (if \<not> (it_index it = -1 \<and> it_table it = 0)
      then if it_safe it then Some (d\<lparr>iterators := iterators d - 1\<rparr>)
           else do { ensure (it_fingerprint it = dictFingerprint adr d); Some d }
      else Some d)"

text \<open>The client's loop: \<open>while((de = dictNext(iter)) != NULL)\<close>.\<close>

partial_function (option) iterate ::
  "64 word \<times> 64 word \<Rightarrow> ('k, 'v) dictIterator \<Rightarrow> ('k, 'v) dict \<Rightarrow>
   (('k \<times> 'v) list \<times> ('k, 'v) dictIterator \<times> ('k, 'v) dict) option" where
  "iterate adr it d = do {
     ((it, d), r) \<leftarrow> dictNext adr it d;
     case r of None \<Rightarrow> Some ([], it, d)
     | Some e \<Rightarrow> do { (es, it, d) \<leftarrow> iterate adr it d; Some (e # es, it, d) }
   }"

section \<open>What is left to visit\<close>

definition buckets :: "('k, 'v) dictht \<Rightarrow> ('k \<times> 'v) list list" where
  "buckets h = (case ht_table h of None \<Rightarrow> [] | Some t \<Rightarrow> t)"

definition rest_entries :: "('k, 'v) dictIterator \<Rightarrow> ('k, 'v) dict \<Rightarrow> ('k \<times> 'v) list" where
  "rest_entries it d =
     (if it_entry it = [] then [] else it_nextEntry it) @
     concat (drop (nat (it_index it + 1)) (buckets (get_ht d (it_table it)))) @
     (if dictIsRehashing d \<and> it_table it = 0 then ht_entries (ht_1 d) else [])"

definition iterable :: "('k, 'v) dict \<Rightarrow> bool" where
  "iterable d \<longleftrightarrow>
     ht_size (ht_0 d) = length (buckets (ht_0 d)) \<and> ht_size (ht_1 d) = length (buckets (ht_1 d)) \<and>
     ht_size (ht_0 d) < 2 ^ 31 \<and> ht_size (ht_1 d) < 2 ^ 31 \<and> (dictIsRehashing d \<longrightarrow> buckets (ht_1 d) \<noteq> [])"

lemma iterable_inv:
  assumes "dict_inv hf d" and "ht_size (ht_0 d) < 2 ^ 31" and "ht_size (ht_1 d) < 2 ^ 31"
  shows "iterable d"
  using assms unfolding dict_inv_def iterable_def
  by (auto simp: buckets_def ht_live_def split: if_splits)

lemma iterable_size:
  "iterable d \<Longrightarrow> to_int32 (ht_size (get_ht d t)) = int (length (buckets (get_ht d t)))"
  by (auto simp: iterable_def get_ht_def to_int32_small)

lemma bucket_nth: "i < length (buckets h) \<Longrightarrow> bucket h i = Some (buckets h ! i)"
  by (auto simp: bucket_def buckets_def split: option.splits)

lemma ht_entries_buckets: "ht_entries h = concat (buckets h)"
  by (simp add: ht_entries_def buckets_def split: option.split)

lemma iter_start_fields [simp]:
  "it_entry (fst (iter_start adr it d)) = it_entry it" "it_index (fst (iter_start adr it d)) = it_index it"
  "it_table (fst (iter_start adr it d)) = it_table it" "it_safe (fst (iter_start adr it d)) = it_safe it"
  "it_nextEntry (fst (iter_start adr it d)) = it_nextEntry it"
  "ht_0 (snd (iter_start adr it d)) = ht_0 d" "ht_1 (snd (iter_start adr it d)) = ht_1 d"
  "rehashidx (snd (iter_start adr it d)) = rehashidx d"
  by (simp_all add: iter_start_def)

lemma iter_start_dict [simp]:
  "get_ht (snd (iter_start adr it d)) t = get_ht d t"
  "dictIsRehashing (snd (iter_start adr it d)) = dictIsRehashing d"
  by (simp_all add: get_ht_def dictIsRehashing_def)

text \<open>Advancing consumes the next bucket, or reports that there is none.\<close>

lemma iter_advance_spec:
  assumes ok: "iterable d" and i: "-1 \<le> it_index it" and t: "it_table it \<le> 1"
  shows "iter_advance it d = Some (Inl (it\<lparr>it_index := it_index it + 1\<rparr>)) \<and>
           concat (drop (nat (it_index it + 1)) (buckets (get_ht d (it_table it)))) = [] \<and>
           \<not> (dictIsRehashing d \<and> it_table it = 0)
       \<or> (\<exists>c. iter_advance it d = Some (Inr (it\<lparr>it_index := it_index it + 1, it_entry := c\<rparr>)) \<and>
              nat (it_index it + 1) < length (buckets (get_ht d (it_table it))) \<and>
              drop (nat (it_index it + 1)) (buckets (get_ht d (it_table it))) =
                c # drop (nat (it_index it + 2)) (buckets (get_ht d (it_table it))))
       \<or> (\<exists>c cs. iter_advance it d = Some (Inr (it\<lparr>it_table := 1, it_index := 0, it_entry := c\<rparr>)) \<and>
              concat (drop (nat (it_index it + 1)) (buckets (get_ht d (it_table it)))) = [] \<and>
              dictIsRehashing d \<and> it_table it = 0 \<and> buckets (ht_1 d) = c # cs)"
proof (cases "nat (it_index it + 1) < length (buckets (get_ht d (it_table it)))")
  case True
  let ?b = "buckets (get_ht d (it_table it))" and ?i = "nat (it_index it + 1)"
  have "\<not> int (length ?b) \<le> it_index it + 1" "0 \<le> it_index it + 1" using True i by linarith+
  then have "iter_advance it d = Some (Inr (it\<lparr>it_index := it_index it + 1, it_entry := ?b ! ?i\<rparr>))"
    using True iterable_size [OF ok, of "it_table it"] by (simp add: iter_advance_def bucket_nth ensure_def Let_def)
  moreover have "drop ?i ?b = ?b ! ?i # drop (nat (it_index it + 2)) ?b"
    using Cons_nth_drop_Suc [OF True] i by (simp add: Suc_nat_eq_nat_zadd1 algebra_simps)
  ultimately show ?thesis using True by blast
next
  case False
  let ?b = "buckets (get_ht d (it_table it))" and ?i = "nat (it_index it + 1)"
  have em: "concat (drop ?i ?b) = []" using False by simp
  have ge: "to_int32 (ht_size (get_ht d (it_table it))) \<le> it_index it + 1"
    using False i iterable_size [OF ok, of "it_table it"] by simp
  show ?thesis
  proof (cases "dictIsRehashing d \<and> it_table it = 0")
    case True
    then obtain c cs where b: "buckets (ht_1 d) = c # cs"
      using ok by (auto simp: iterable_def neq_Nil_conv)
    have "bucket (ht_1 d) 0 = Some c" using bucket_nth [of 0 "ht_1 d"] b by simp
    then have "iter_advance it d = Some (Inr (it\<lparr>it_table := 1, it_index := 0, it_entry := c\<rparr>))"
      using ge True by (simp add: iter_advance_def Let_def)
    with em True b show ?thesis by blast
  next
    case False
    then have "iter_advance it d = Some (Inl (it\<lparr>it_index := it_index it + 1\<rparr>))"
      using ge by (auto simp: iter_advance_def Let_def)
    with em False show ?thesis by blast
  qed
qed

text \<open>The iterator between two calls: its saved pointer is the rest of the current chain.\<close>

definition iter_ok :: "('k, 'v) dictIterator \<Rightarrow> bool" where
  "iter_ok it \<longleftrightarrow> -1 \<le> it_index it \<and> it_table it \<le> 1"

definition iter_measure :: "('k, 'v) dictIterator \<Rightarrow> ('k, 'v) dict \<Rightarrow> nat" where
  "iter_measure it d =
     2 * (length (buckets (get_ht d (it_table it))) - nat (it_index it + 1) +
          (if it_table it = 0 then Suc (length (buckets (ht_1 d))) else 0)) +
     (if it_entry it = [] then 0 else 1)"

definition next_result ::
  "64 word \<times> 64 word \<Rightarrow> ('k, 'v) dictIterator \<Rightarrow> ('k, 'v) dict \<Rightarrow> 64 word \<Rightarrow> ('k, 'v) dict \<Rightarrow> bool" where
  "next_result adr it d fp d' \<longleftrightarrow>
     (\<exists>it'. it_safe it' = it_safe it \<and> it_fingerprint it' = fp \<and> iter_ok it' \<and> 0 \<le> it_index it' \<and>
        (case rest_entries it d of
           [] \<Rightarrow> dictNext adr it d = Some ((it', d'), None)
         | e # es \<Rightarrow> dictNext adr it d = Some ((it', d'), Some e) \<and> it_entry it' \<noteq> [] \<and> rest_entries it' d = es))"

lemma next_result_entry:
  assumes "it_entry it \<noteq> []" and "it_nextEntry it = e # es" and "iter_ok it" and "0 \<le> it_index it"
  shows "next_result adr it d (it_fingerprint it) d"
  unfolding next_result_def using assms
  by (intro exI [of _ "it\<lparr>it_entry := e # es, it_nextEntry := es\<rparr>"])
     (simp add: dictNext.simps [of adr it d] rest_entries_def iter_ok_def)

lemma next_result_skip:
  assumes "dictNext adr it d = dictNext adr it1 d1" and "rest_entries it1 d1 = rest_entries it d"
    and "next_result adr it1 d1 fp d1" and "it_safe it1 = it_safe it"
    and "\<And>it. rest_entries it d1 = rest_entries it d"
  shows "next_result adr it d fp d1"
proof -
  note eqs = assms(1,4) assms(2) [unfolded assms(5)] assms(5)
  from assms(3) show ?thesis unfolding next_result_def by (simp only: eqs)
qed

lemma rest_entries_cong:
  "ht_0 d1 = ht_0 d \<Longrightarrow> ht_1 d1 = ht_1 d \<Longrightarrow> rehashidx d1 = rehashidx d \<Longrightarrow> rest_entries it d1 = rest_entries it d"
  by (simp add: rest_entries_def get_ht_def dictIsRehashing_def)

lemma dictNext_started:
  assumes "iterable d" and "iter_ok it" and "0 \<le> it_index it"
  shows "next_result adr it d (it_fingerprint it) d"
  using assms
proof (induction "iter_measure it d" arbitrary: it rule: less_induct)
  case less
  note ok = less.prems
  show ?case
  proof (cases "it_entry it = []")
    case False
    show ?thesis
    proof (cases "it_nextEntry it")
      case (Cons e es)
      with False ok show ?thesis by (intro next_result_entry)
    next
      case Nil
      let ?it = "it\<lparr>it_entry := []\<rparr>"
      have ih: "next_result adr ?it d (it_fingerprint it) d"
        using False ok by (intro less.hyps [of ?it, simplified]) (simp_all add: iter_measure_def iter_ok_def)
      show ?thesis
        by (rule next_result_skip [OF _ _ ih]) (use False Nil in \<open>simp_all add: dictNext.simps [of adr it d] rest_entries_def\<close>)
    qed
  next
    case True
    have st: "iter_start adr it d = (it, d)" using ok(3) by (simp add: iter_start_def)
    have ge: "-1 \<le> it_index it" and t: "it_table it \<le> 1" using ok(2) by (simp_all add: iter_ok_def)
    consider (stop) "iter_advance it d = Some (Inl (it\<lparr>it_index := it_index it + 1\<rparr>))"
        "concat (drop (nat (it_index it + 1)) (buckets (get_ht d (it_table it)))) = []"
        "\<not> (dictIsRehashing d \<and> it_table it = 0)"
      | (same) c where "iter_advance it d = Some (Inr (it\<lparr>it_index := it_index it + 1, it_entry := c\<rparr>))"
        "nat (it_index it + 1) < length (buckets (get_ht d (it_table it)))"
        "drop (nat (it_index it + 1)) (buckets (get_ht d (it_table it))) =
           c # drop (nat (it_index it + 2)) (buckets (get_ht d (it_table it)))"
      | (switch) c cs where "iter_advance it d = Some (Inr (it\<lparr>it_table := 1, it_index := 0, it_entry := c\<rparr>))"
        "concat (drop (nat (it_index it + 1)) (buckets (get_ht d (it_table it)))) = []"
        "dictIsRehashing d" "it_table it = 0" "buckets (ht_1 d) = c # cs"
      using iter_advance_spec [OF ok(1) ge t] by blast
    then show ?thesis
    proof cases
      case stop
      then have "rest_entries it d = []" using True by (auto simp: rest_entries_def)
      moreover have "dictNext adr it d = Some ((it\<lparr>it_index := it_index it + 1\<rparr>, d), None)"
        using True st stop(1) by (simp add: dictNext.simps [of adr it d])
      ultimately show ?thesis
        unfolding next_result_def using ok
        by (intro exI [of _ "it\<lparr>it_index := it_index it + 1\<rparr>"]) (simp add: iter_ok_def)
    next
      case same
      let ?it = "it\<lparr>it_index := it_index it + 1, it_entry := c\<rparr>"
      have rest: "rest_entries it d = c @ rest_entries (?it\<lparr>it_entry := []\<rparr>) d"
        using True same(3) by (simp add: rest_entries_def add.commute)
      show ?thesis
      proof (cases c)
        case Nil
        have ih: "next_result adr ?it d (it_fingerprint it) d"
          using True ok same(2) Nil by (intro less.hyps [of ?it, simplified]) (simp_all add: iter_measure_def iter_ok_def)
        show ?thesis
          by (rule next_result_skip [OF _ _ ih]) (use True st same(1) Nil rest in \<open>simp_all add: dictNext.simps [of adr it d]\<close>)
      next
        case (Cons e es)
        with True st same(1) rest ok show ?thesis
          unfolding next_result_def
          by (intro exI [of _ "?it\<lparr>it_nextEntry := es\<rparr>"])
             (simp add: dictNext.simps [of adr it d] rest_entries_def iter_ok_def)
      qed
    next
      case switch
      let ?it = "it\<lparr>it_table := 1, it_index := 0, it_entry := c\<rparr>"
      have rest: "rest_entries it d = c @ rest_entries (?it\<lparr>it_entry := []\<rparr>) d"
        using True switch(2-5) by (simp add: rest_entries_def get_ht_def ht_entries_buckets)
      show ?thesis
      proof (cases c)
        case Nil
        have ih: "next_result adr ?it d (it_fingerprint it) d"
          using less.hyps [of ?it] True ok switch Nil by (simp add: iter_measure_def iter_ok_def get_ht_def)
        show ?thesis
          by (rule next_result_skip [OF _ _ ih]) (use True st switch(1) Nil rest in \<open>simp_all add: dictNext.simps [of adr it d]\<close>)
      next
        case (Cons e es)
        with True st switch(1) rest ok show ?thesis
          unfolding next_result_def
          by (intro exI [of _ "?it\<lparr>it_nextEntry := es\<rparr>"])
             (simp add: dictNext.simps [of adr it d] rest_entries_def iter_ok_def)
      qed
    qed
  qed
qed

text \<open>The first call, which also registers a safe iterator or takes the fingerprint.\<close>

lemma dictNext_first:
  fixes it :: "('k, 'v) dictIterator" and adr :: "64 word \<times> 64 word"
  assumes ok: "iterable d" and fresh: "it_index it = -1" "it_table it = 0" "it_entry it = []"
  defines "s \<equiv> iter_start adr it d"
  shows "next_result adr it d (it_fingerprint (fst s)) (snd s)"
proof -
  let ?it = "fst s" and ?d = "snd s"
  have ok': "iterable ?d" using ok by (simp add: s_def iterable_def)
  have rest: "rest_entries x ?d = rest_entries x d" for x :: "('k, 'v) dictIterator"
    by (rule rest_entries_cong) (simp_all add: s_def)
  have st: "iter_start adr it d = (?it, ?d)" by (simp add: s_def)
  have fields: "it_index ?it = -1" "it_table ?it = 0" "it_entry ?it = []" "it_safe ?it = it_safe it"
    using fresh by (simp_all add: s_def)
  have "get_ht ?d 0 = get_ht d 0" "dictIsRehashing ?d = dictIsRehashing d" "ht_1 ?d = ht_1 d" by (simp_all add: s_def)
  note dfields = this
  consider (stop) "iter_advance ?it ?d = Some (Inl (?it\<lparr>it_index := 0\<rparr>))"
      "concat (buckets (get_ht d 0)) = []" "\<not> dictIsRehashing d"
    | (same) c cs where "iter_advance ?it ?d = Some (Inr (?it\<lparr>it_index := 0, it_entry := c\<rparr>))"
      "buckets (get_ht d 0) = c # cs"
    | (switch) c cs where "iter_advance ?it ?d = Some (Inr (?it\<lparr>it_table := 1, it_index := 0, it_entry := c\<rparr>))"
      "concat (buckets (get_ht d 0)) = []" "dictIsRehashing d" "buckets (ht_1 d) = c # cs"
    using iter_advance_spec [OF ok', of ?it] fields dfields by auto
  then show ?thesis
  proof cases
    case stop
    then have "rest_entries it d = []" using fresh by (auto simp: rest_entries_def)
    moreover have "dictNext adr it d = Some ((?it\<lparr>it_index := 0\<rparr>, ?d), None)"
      using fresh st stop(1) by (simp add: dictNext.simps [of adr it d] case_prod_beta)
    ultimately show ?thesis
      unfolding next_result_def using fields by (intro exI [of _ "?it\<lparr>it_index := 0\<rparr>"]) (simp add: iter_ok_def)
  next
    case same
    let ?i = "?it\<lparr>it_index := 0, it_entry := c\<rparr>"
    have step: "next_result adr it d (it_fingerprint ?it) ?d"
      if "dictNext adr it d = dictNext adr ?i ?d" "c = []"
    proof (rule next_result_skip [OF that(1)])
      show "next_result adr ?i ?d (it_fingerprint ?it) ?d"
        using dictNext_started [OF ok', of ?i adr] fields by (simp add: iter_ok_def)
      show "rest_entries ?i ?d = rest_entries it d"
        unfolding rest using that(2) same(2) fresh fields by (simp add: rest_entries_def)
    qed (simp_all add: fields rest)
    show ?thesis
    proof (cases c)
      case Nil
      with step fresh st same(1) show ?thesis by (simp add: dictNext.simps [of adr it d] case_prod_beta)
    next
      case (Cons e es)
      with fresh st same fields show ?thesis
        unfolding next_result_def
        by (intro exI [of _ "?i\<lparr>it_nextEntry := es\<rparr>"])
           (simp add: dictNext.simps [of adr it d] case_prod_beta rest_entries_def iter_ok_def)
    qed
  next
    case switch
    let ?i = "?it\<lparr>it_table := 1, it_index := 0, it_entry := c\<rparr>"
    have step: "next_result adr it d (it_fingerprint ?it) ?d"
      if "dictNext adr it d = dictNext adr ?i ?d" "c = []"
    proof (rule next_result_skip [OF that(1)])
      show "next_result adr ?i ?d (it_fingerprint ?it) ?d"
        using dictNext_started [OF ok', of ?i adr] fields by (simp add: iter_ok_def)
      show "rest_entries ?i ?d = rest_entries it d"
        unfolding rest using that(2) switch fresh fields by (simp add: rest_entries_def get_ht_def ht_entries_buckets)
    qed (simp_all add: fields rest)
    show ?thesis
    proof (cases c)
      case Nil
      with step fresh st switch(1) show ?thesis by (simp add: dictNext.simps [of adr it d] case_prod_beta)
    next
      case (Cons e es)
      have "rest_entries it d = e # es @ concat cs"
        using fresh switch Cons by (simp add: rest_entries_def ht_entries_buckets)
      moreover have "rest_entries (?i\<lparr>it_nextEntry := es\<rparr>) d = es @ concat cs"
        using switch Cons by (simp add: rest_entries_def get_ht_def)
      moreover have "dictNext adr it d = Some ((?i\<lparr>it_nextEntry := es\<rparr>, ?d), Some e)"
        using Cons fresh st switch(1) by (simp add: dictNext.simps [of adr it d] case_prod_beta)
      ultimately show ?thesis
        unfolding next_result_def using Cons fields
        by (intro exI [of _ "?i\<lparr>it_nextEntry := es\<rparr>"]) (simp add: iter_ok_def)
    qed
  qed
qed

lemma iterate_started:
  assumes "iterable d" and "iter_ok it" and "0 \<le> it_index it"
  shows "\<exists>it'. iterate adr it d = Some (rest_entries it d, it', d) \<and> it_safe it' = it_safe it \<and>
           it_fingerprint it' = it_fingerprint it \<and> 0 \<le> it_index it'"
  using assms
proof (induction "rest_entries it d" arbitrary: it)
  case Nil
  then show ?case using dictNext_started [of d it adr]
    by (auto simp: next_result_def iterate.simps [of adr it d])
next
  case (Cons e es)
  obtain it1 where it1: "it_safe it1 = it_safe it" "it_fingerprint it1 = it_fingerprint it" "iter_ok it1" "0 \<le> it_index it1"
    and nx: "dictNext adr it d = Some ((it1, d), Some e)" and rest: "rest_entries it1 d = es"
    using dictNext_started [of d it adr] Cons.prems Cons.hyps(2) [symmetric] by (auto simp: next_result_def)
  from Cons.hyps(1) [OF rest [symmetric] Cons.prems(1) it1(3,4)] rest it1 nx Cons.hyps(2) [symmetric] show ?case
    by (auto simp: iterate.simps [of adr it d])
qed

lemma iterate_all:
  assumes ok: "iterable d" and fresh: "it_index it = -1" "it_table it = 0" "it_entry it = []"
    and d: "\<not> dictIsRehashing d \<Longrightarrow> ht_entries (ht_1 d) = []"
  shows "\<exists>it'. iterate adr it d = Some (dict_entries d, it', snd (iter_start adr it d)) \<and> it_safe it' = it_safe it \<and>
           it_fingerprint it' = it_fingerprint (fst (iter_start adr it d)) \<and> 0 \<le> it_index it'"
proof -
  let ?d = "snd (iter_start adr it d)"
  have all: "rest_entries it d = dict_entries d"
    using fresh d by (auto simp: rest_entries_def dict_entries_def get_ht_def ht_entries_buckets)
  have ok': "iterable ?d" using ok by (simp add: iterable_def)
  have rest: "rest_entries x ?d = rest_entries x d" for x :: "('a, 'b) dictIterator"
    by (rule rest_entries_cong) simp_all
  show ?thesis
  proof (cases "dict_entries d")
    case Nil
    with dictNext_first [OF ok fresh, of adr] all show ?thesis
      by (auto simp: next_result_def iterate.simps [of adr it d])
  next
    case (Cons e es)
    with dictNext_first [OF ok fresh, of adr] all obtain it1 where
      it1: "it_safe it1 = it_safe it" "it_fingerprint it1 = it_fingerprint (fst (iter_start adr it d))" "iter_ok it1" "0 \<le> it_index it1"
      and nx: "dictNext adr it d = Some ((it1, ?d), Some e)" and r: "rest_entries it1 d = es"
      by (auto simp: next_result_def)
    from iterate_started [OF ok' it1(3,4), of adr] it1 nx r Cons show ?thesis
      by (auto simp: iterate.simps [of adr it d] rest)
  qed
qed

section \<open>Properties\<close>

text \<open>
  C34: iterating over a dictionary, with a safe or an unsafe iterator and also in the middle of
  a rehash, ends and returns exactly the entries of both tables in order; releasing the
  iterator then succeeds (the fingerprint of an unsafe one matches) and leaves the dictionary as
  it was, so the count of running safe iterators is balanced.
\<close>

theorem dictIterator_visits_all:
  assumes "dict_inv hf d" and "ht_size (ht_0 d) < 2 ^ 31" and "ht_size (ht_1 d) < 2 ^ 31"
    and "it = (if safe then dictGetSafeIterator junk else dictGetIterator junk)"
  shows "\<exists>it' d'. iterate adr it d = Some (dict_entries d, it', d') \<and> dictReleaseIterator adr it' d' = Some d"
proof -
  have "ht_entries (ht_1 d) = []" if "\<not> dictIsRehashing d"
    using assms(1) that by (auto simp: dict_inv_def)
  moreover have "it_index it = -1" "it_table it = 0" "it_entry it = []" "it_safe it = safe"
    using assms(4) by (simp_all add: dictGetSafeIterator_def dictGetIterator_def)
  ultimately obtain it' where it: "iterate adr it d = Some (dict_entries d, it', snd (iter_start adr it d))"
    "it_safe it' = safe" "it_fingerprint it' = it_fingerprint (fst (iter_start adr it d))" "0 \<le> it_index it'"
    and st: "iter_start adr it d = (if safe then (it, d\<lparr>iterators := iterators d + 1\<rparr>)
                                else (it\<lparr>it_fingerprint := dictFingerprint adr d\<rparr>, d))"
    using iterate_all [OF iterable_inv [OF assms(1-3)], of it adr] by (auto simp: iter_start_def)
  have "dictReleaseIterator adr it' (snd (iter_start adr it d)) = Some d"
    using it st by (simp add: dictReleaseIterator_def ensure_def)
  with it(1) show ?thesis by blast
qed

theorem dictIterator_visits_all_witness:
  "dict_inv id example_rehashing \<and>
   (\<exists>it' d'. iterate (4096, 8192) (dictGetSafeIterator 0) example_rehashing =
       Some ([(5, ''x''), (1, ''y''), (8, ''z'')], it', d') \<and>
     dictReleaseIterator (4096, 8192) it' d' = Some example_rehashing)"
  using dictIterator_visits_all [OF example_rehashing_inv, of "dictGetSafeIterator 0" True 0 "(4096, 8192)"] example_rehashing_inv
  by (simp add: example_rehashing_def dict_entries_def ht_entries_def)

end
