(* ===== verification/Ctype.thy ===== *)
theory Ctype
  imports Prelude
begin

text \<open>
  The functions of \<open>ctype.h\<close> that the sources call, in the C locale Redis runs in, on bytes, and
  byte strings written as HOL strings. Values above 127 are in none of the classes. A C string is
  the list of the bytes before its terminator: \<open>cget\<close> reads it, the terminator included. Where the
  memory around a string matters it is a block of bytes, and \<open>c_strlen\<close> looks for the terminator.
\<close>

definition bstr :: "string \<Rightarrow> bytes" where
  "bstr s = map of_char s"

lemma bstr_simps [simp]: "bstr [] = []" "bstr (c # s) = of_char c # bstr s"
  by (simp_all add: bstr_def)

definition cget :: "bytes \<Rightarrow> nat \<Rightarrow> byte option" where
  "cget s i = (if i < length s then Some (s ! i) else if i = length s then Some 0 else None)"

definition c_strlen :: "bytes \<Rightarrow> nat option" where
  "c_strlen m = (if 0 \<in> set m then Some (length (takeWhile (\<lambda>c. c \<noteq> 0) m)) else None)"

lemma c_strlen_terminated [simp]: "0 \<notin> set s \<Longrightarrow> c_strlen (s @ 0 # m) = Some (length s)"
proof -
  assume "0 \<notin> set s"
  then have "takeWhile (\<lambda>c. c \<noteq> 0) s = s" by (auto simp: takeWhile_eq_all_conv)
  with \<open>0 \<notin> set s\<close> show ?thesis by (simp add: c_strlen_def takeWhile_tail)
qed

definition isupper :: "byte \<Rightarrow> bool" where "isupper c \<longleftrightarrow> 65 \<le> c \<and> c \<le> 90"
definition islower :: "byte \<Rightarrow> bool" where "islower c \<longleftrightarrow> 97 \<le> c \<and> c \<le> 122"
definition isdigit :: "byte \<Rightarrow> bool" where "isdigit c \<longleftrightarrow> 48 \<le> c \<and> c \<le> 57"
definition isspace :: "byte \<Rightarrow> bool" where "isspace c \<longleftrightarrow> c = 32 \<or> 9 \<le> c \<and> c \<le> 13"
definition isprint :: "byte \<Rightarrow> bool" where "isprint c \<longleftrightarrow> 32 \<le> c \<and> c \<le> 126"

definition tolower :: "byte \<Rightarrow> byte" where "tolower c = (if isupper c then c + 32 else c)"
definition toupper :: "byte \<Rightarrow> byte" where "toupper c = (if islower c then c - 32 else c)"

lemma tolower_tolower [simp]: "tolower (tolower c) = tolower c"
proof (cases "isupper c")
  case True
  then have "65 \<le> unat c" "unat c \<le> 90" by (auto simp: isupper_def word_le_nat_alt)
  then have "unat (c + 32) = unat c + 32" by (simp add: unat_word_ariths(1))
  with \<open>65 \<le> unat c\<close> have "\<not> isupper (c + 32)" by (simp add: isupper_def word_le_nat_alt)
  with True show ?thesis by (simp add: tolower_def)
qed (simp add: tolower_def)

end
