(* ===== verification/Dict_Hash.thy ===== *)
theory Dict_Hash
  imports Endianconv Ctype
begin

text \<open>
  The hash functions of \<open>dict.c\<close>. The seed \<open>dict_hash_function_seed\<close> is an argument. MurmurHash2
  reads its input four bytes at a time through an \<open>uint32_t\<close> pointer, so its value depends on the
  byte order of the host; a read outside the buffer is \<open>None\<close>. The lemmas show that the integer
  mix loses no information, that MurmurHash2 reads only the \<open>len\<close> bytes it is given, and that the
  case-insensitive hash does not distinguish upper and lower case.
\<close>

unbundle bit_operations_syntax

section \<open>The code\<close>

definition dictIntHashFunction :: "32 word \<Rightarrow> 32 word" where
  "dictIntHashFunction key =
     (let key = key + NOT (push_bit 15 key);
          key = key XOR drop_bit 10 key;
          key = key + push_bit 3 key;
          key = key XOR drop_bit 6 key;
          key = key + NOT (push_bit 11 key);
          key = key XOR drop_bit 16 key
      in key)"

definition dictIdentityHashFunction :: "32 word \<Rightarrow> 32 word" where
  "dictIdentityHashFunction key = key"

definition murmur_m :: "32 word" where "murmur_m = 0x5bd1e995"

function murmur_loop :: "host \<Rightarrow> bytes \<Rightarrow> nat \<Rightarrow> nat \<Rightarrow> 32 word \<Rightarrow> (nat \<times> nat \<times> 32 word) option" where
  "murmur_loop e buf data len h =
     (if len \<ge> 4 then do {
        bs \<leftarrow> mem_read buf data 4;
        let k = of_nat (host_dec e bs);
        let k = k * murmur_m;
        let k = k XOR drop_bit 24 k;
        let k = k * murmur_m;
        let h = h * murmur_m;
        let h = h XOR k;
        murmur_loop e buf (data + 4) (len - 4) h
      } else Some (data, len, h))"
  by pat_completeness auto
termination
  by (relation "measure (\<lambda>(e, buf, data, len, h). len)") auto

declare murmur_loop.simps [simp del]

text \<open>The \<open>switch\<close> on the last bytes, with its fall-throughs.\<close>

definition murmur_tail :: "bytes \<Rightarrow> nat \<Rightarrow> nat \<Rightarrow> 32 word \<Rightarrow> 32 word option" where
  "murmur_tail buf data len h = do {
     h \<leftarrow> (if len = 3 then do { b \<leftarrow> mem_byte buf (data + 2); Some (h XOR push_bit 16 (ucast b)) } else Some h);
     h \<leftarrow> (if len = 3 \<or> len = 2 then do { b \<leftarrow> mem_byte buf (data + 1); Some (h XOR push_bit 8 (ucast b)) } else Some h);
     if len = 3 \<or> len = 2 \<or> len = 1
     then do { b \<leftarrow> mem_byte buf data; Some ((h XOR ucast b) * murmur_m) }
     else Some h
   }"

definition dictGenHashFunction :: "host \<Rightarrow> 32 word \<Rightarrow> bytes \<Rightarrow> nat \<Rightarrow> 32 word option" where
  "dictGenHashFunction e seed key len = do {
     let h = seed XOR of_nat len;
     (data, len, h) \<leftarrow> murmur_loop e key 0 len h;
     h \<leftarrow> murmur_tail key data len h;
     let h = h XOR drop_bit 13 h;
     let h = h * murmur_m;
     let h = h XOR drop_bit 15 h;
     Some h
   }"

fun case_hash_loop :: "bytes \<Rightarrow> nat \<Rightarrow> nat \<Rightarrow> 32 word \<Rightarrow> 32 word option" where
  "case_hash_loop buf i 0 hash = Some hash"
| "case_hash_loop buf i (Suc len) hash = do {
     c \<leftarrow> mem_byte buf i;
     case_hash_loop buf (Suc i) len (push_bit 5 hash + hash + ucast (tolower c))
   }"

definition dictGenCaseHashFunction :: "32 word \<Rightarrow> bytes \<Rightarrow> nat \<Rightarrow> 32 word option" where
  "dictGenCaseHashFunction seed buf len = case_hash_loop buf 0 len seed"

section \<open>The integer mix is invertible\<close>

lemma inj_xor_shift:
  assumes "0 < k"
  shows "inj (\<lambda>x :: 32 word. x XOR drop_bit k x)"
proof (rule injI)
  fix x y :: "32 word"
  assume eq: "x XOR drop_bit k x = y XOR drop_bit k y"
  have "bit x (31 - i) = bit y (31 - i)" if "i < 32" for i
    using that
  proof (induction i rule: less_induct)
    case (less i)
    let ?n = "31 - i"
    have "bit (x XOR drop_bit k x) ?n = bit (y XOR drop_bit k y) ?n" using eq by simp
    then have "(bit x ?n \<noteq> bit x (?n + k)) = (bit y ?n \<noteq> bit y (?n + k))"
      by (simp add: bit_xor_iff bit_drop_bit_eq add.commute)
    moreover have "bit x (?n + k) = bit y (?n + k)"
    proof (cases "?n + k < 32")
      case True
      then have e: "?n + k = 31 - (i - k)" and lt: "i - k < i" "i - k < 32" using assms less.prems by auto
      show ?thesis unfolding e by (rule less.IH [OF lt])
    next
      case False
      then show ?thesis using bit_imp_le_length [of x] bit_imp_le_length [of y] by auto
    qed
    ultimately show ?case by blast
  qed
  note bits = this
  show "x = y"
  proof (rule bit_word_eqI)
    fix n assume "n < LENGTH(32)"
    then show "bit x n = bit y n" using bits [of "31 - n"] by simp
  qed
qed

lemma inj_affine:
  assumes "c * c' = (1 :: 32 word)"
  shows "inj (\<lambda>x. x * c + d)"
proof (rule injI)
  fix x y assume "x * c + d = y * c + d"
  then have "x * c * c' = y * c * c'" by simp
  with assms show "x = y" by (simp add: mult.assoc)
qed

lemma word32_modulus: "(4294967296 :: 32 word) = 0"
  by simp

lemma mix_steps:
  "x + NOT (push_bit 15 x) = x * 0xFFFF8001 + 0xFFFFFFFF"
  "x + push_bit 3 x = x * 9 + (0 :: 32 word)"
  "x + NOT (push_bit 11 x) = x * 0xFFFFF801 + 0xFFFFFFFF"
  by (simp_all add: push_bit_eq_mult not_eq_complement algebra_simps word32_modulus)

lemma inj_mix:
  "inj (\<lambda>x :: 32 word. x + NOT (push_bit 15 x))"
  "inj (\<lambda>x :: 32 word. x + push_bit 3 x)"
  "inj (\<lambda>x :: 32 word. x + NOT (push_bit 11 x))"
  unfolding mix_steps
  by (rule inj_affine [where c' = "0x40008001"], simp)
     (rule inj_affine [where c' = "0x38E38E39"], simp, rule inj_affine [where c' = "0x00400801"], simp)

section \<open>Reads\<close>

lemma murmur_loop_spec:
  assumes "data + len \<le> length buf"
  shows "\<exists>h'. (\<forall>sfx. murmur_loop e (buf @ sfx) data len h = Some (data + len div 4 * 4, len mod 4, h'))"
  using assms
proof (induction e buf data len h rule: murmur_loop.induct)
  case (1 e buf data len h)
  show ?case
  proof (cases "4 \<le> len")
    case False
    then show ?thesis by (simp add: murmur_loop.simps)
  next
    case True
    let ?bs = "take 4 (drop data buf)"
    let ?k = "of_nat (host_dec e ?bs) * murmur_m"
    let ?h = "h * murmur_m XOR (?k XOR drop_bit 24 ?k) * murmur_m"
    have rd: "mem_read (buf @ sfx) data 4 = Some ?bs" for sfx
      using True 1(2) by (simp add: mem_read_def)
    have "mem_read buf data 4 = Some ?bs" using rd [of "[]"] by simp
    from 1(1) [OF True this refl refl refl refl refl refl] 1(2) True obtain h' where
      h': "\<forall>sfx. murmur_loop e (buf @ sfx) (data + 4) (len - 4) ?h = Some (data + 4 + (len - 4) div 4 * 4, (len - 4) mod 4, h')"
      by auto
    have "4 + (len - 4) div 4 * 4 = len div 4 * 4" "(len - 4) mod 4 = len mod 4"
      using True by (simp_all add: le_div_geq le_mod_geq)
    with h' have "\<forall>sfx. murmur_loop e (buf @ sfx) data len h = Some (data + len div 4 * 4, len mod 4, h')"
      using True rd by (simp add: murmur_loop.simps [of e _ data len h] Let_def add.assoc)
    then show ?thesis ..
  qed
qed

lemma murmur_tail_spec:
  assumes "data + len \<le> length buf" and "len < 4"
  shows "\<exists>h'. \<forall>sfx. murmur_tail (buf @ sfx) data len h = Some h'"
proof -
  have "mem_byte (buf @ sfx) (data + i) = Some (buf ! (data + i))" if "i < len" for i sfx
    using assms that by (simp add: mem_byte_def nth_append)
  note rd = this [of 0, simplified] this [of 1] this [of 2]
  have "len = 0 \<or> len = 1 \<or> len = 2 \<or> len = 3" using assms(2) by auto
  then show ?thesis using rd by (elim disjE) (simp_all add: murmur_tail_def)
qed

lemma case_hash_loop_lower:
  "i + n \<le> length a \<Longrightarrow> length a = length b \<Longrightarrow> map tolower a = map tolower b \<Longrightarrow>
   case_hash_loop a i n h = case_hash_loop b i n h"
proof (induction n arbitrary: i h)
  case (Suc n)
  have "map tolower a ! i = map tolower b ! i" using Suc.prems(3) by simp
  then have "tolower (a ! i) = tolower (b ! i)" using Suc.prems(1,2) by simp
  with Suc show ?case by (simp add: mem_byte_def)
qed simp

lemma case_hash_loop_Some: "i + n \<le> length a \<Longrightarrow> \<exists>h'. case_hash_loop a i n h = Some h'"
  by (induction n arbitrary: i h) (auto simp: mem_byte_def)

section \<open>Properties\<close>

text \<open>The integer hash is a bijection on 32-bit keys: distinct keys never get the same hash value.\<close>

theorem dictIntHashFunction_bij: "bij dictIntHashFunction"
proof -
  have eq: "dictIntHashFunction = (\<lambda>x. x XOR drop_bit 16 x) \<circ> (\<lambda>x. x + NOT (push_bit 11 x)) \<circ> (\<lambda>x. x XOR drop_bit 6 x) \<circ>
      (\<lambda>x. x + push_bit 3 x) \<circ> (\<lambda>x. x XOR drop_bit 10 x) \<circ> (\<lambda>x. x + NOT (push_bit 15 x))"
    by (rule ext) (simp add: dictIntHashFunction_def Let_def)
  have "inj dictIntHashFunction"
    unfolding eq by (intro inj_compose inj_mix inj_xor_shift) simp_all
  then show ?thesis by (simp add: bij_def finite_UNIV_inj_surj)
qed

text \<open>
  MurmurHash2 reads only the bytes it is given. For every buffer, also one whose length is
  no multiple of four, the hash of its first \<open>Len\<close> bytes is defined and does not depend on what
  follows them in memory.
\<close>

theorem dictGenHashFunction_reads_key:
  assumes "len = length key"
  shows "\<exists>h. \<forall>sfx. dictGenHashFunction e seed (key @ sfx) len = Some h"
proof -
  obtain h1 where h1: "\<forall>sfx. murmur_loop e (key @ sfx) 0 len (seed XOR of_nat len) = Some (0 + len div 4 * 4, len mod 4, h1)"
    using murmur_loop_spec [of 0 len key e "seed XOR of_nat len"] assms by auto
  obtain h2 where h2: "\<forall>sfx. murmur_tail (key @ sfx) (len div 4 * 4) (len mod 4) h1 = Some h2"
    using murmur_tail_spec [of "len div 4 * 4" "len mod 4" key h1] assms by auto
  show ?thesis using h1 h2 by (simp add: dictGenHashFunction_def Let_def)
qed

theorem dictGenHashFunction_reads_key_witness:
  "5 = length (bstr ''hello'') \<and> (\<exists>h. \<forall>sfx. dictGenHashFunction Little 5381 (bstr ''hello'' @ sfx) 5 = Some h)"
  using dictGenHashFunction_reads_key [of 5 "bstr ''hello''"] by simp

text \<open>Keys that differ only in case have the same case-insensitive hash, and it is always defined.\<close>

theorem dictGenCaseHashFunction_nocase:
  assumes "map tolower a = map tolower b"
  shows "\<exists>h. dictGenCaseHashFunction seed a (length a) = Some h \<and> dictGenCaseHashFunction seed b (length b) = Some h"
proof -
  have "length a = length b" using assms by (rule map_eq_imp_length_eq)
  with case_hash_loop_lower [of 0 "length a" a b seed] case_hash_loop_Some [of 0 "length a" a seed] assms show ?thesis
    by (auto simp: dictGenCaseHashFunction_def)
qed

theorem dictGenCaseHashFunction_nocase_witness:
  "map tolower (bstr ''GeT'') = map tolower (bstr ''gEt'') \<and>
   dictGenCaseHashFunction 5381 (bstr ''GeT'') (Suc (Suc (Suc 0))) = dictGenCaseHashFunction 5381 (bstr ''gEt'') (Suc (Suc (Suc 0)))"
  using dictGenCaseHashFunction_nocase [of "bstr ''GeT''" "bstr ''gEt''" 5381]
  by (auto simp: tolower_def isupper_def)

end
