(* ===== verification/Numconv.thy ===== *)
theory Numconv
  imports Ctype
begin

text \<open>
  The conversions between integers and decimal strings of \<open>util.c\<close>. A string argument is the
  buffer it points to; a read or write outside a buffer is \<open>None\<close>. \<open>unsigned long long\<close> values
  are natural numbers below \<open>2 ^ 64\<close>, with the source's overflow checks; the negation of the
  smallest \<open>long long\<close> wraps around. The reference is \<open>int_dec\<close>, the canonical decimal notation.
  The lemmas show that \<open>ll2string\<close> prints it, that \<open>string2ll\<close> accepts exactly the canonical
  notations of 64-bit integers, and that the two are inverse to each other.
\<close>

section \<open>The code\<close>

definition ULLONG_MAX :: nat where "ULLONG_MAX = 2 ^ 64 - 1"
definition LLONG_MAX :: int where "LLONG_MAX = 2 ^ 63 - 1"
definition LLONG_MIN :: int where "LLONG_MIN = - (2 ^ 63)"

text \<open>Conversion of an \<open>unsigned long long\<close> to \<open>long long\<close>.\<close>

definition to_int64 :: "nat \<Rightarrow> int" where
  "to_int64 n = (int n + 2 ^ 63) mod 2 ^ 64 - 2 ^ 63"

text \<open>The digit loop writes backwards from index \<open>p\<close>; it returns the buffer and the next index.\<close>

function ll2string_loop :: "bytes \<Rightarrow> nat \<Rightarrow> nat \<Rightarrow> (bytes \<times> nat) option" where
  "ll2string_loop buf p v = do {
     buf \<leftarrow> mem_write buf p [of_nat (48 + v mod 10)];
     ensure (0 < p);
     if v div 10 \<noteq> 0 then ll2string_loop buf (p - 1) (v div 10) else Some (buf, p - 1)
   }"
  by pat_completeness auto
termination
  by (relation "measure (\<lambda>(buf, p, v). v)") auto

declare ll2string_loop.simps [simp del]

text \<open>\<open>g\<close> is what the 32 bytes of the local buffer hold at the start.\<close>

definition ll2string :: "fresh_mem \<Rightarrow> bytes \<Rightarrow> nat \<Rightarrow> int \<Rightarrow> (bytes \<times> nat) option" where
  "ll2string g s len val =
     (if len = 0 then Some (s, 0)
      else do {
        let v = nat ((if val < 0 then - val else val) mod 2 ^ 64);
        (buf, p) \<leftarrow> ll2string_loop (zmalloc g 32) 31 v;
        (buf, p) \<leftarrow> (if val < 0 then do { buf \<leftarrow> mem_write buf p [45]; ensure (0 < p); Some (buf, p - 1) }
                    else Some (buf, p));
        let p = p + 1;
        let l = 32 - p;
        let l = (if l + 1 > len then len - 1 else l);
        xs \<leftarrow> mem_read buf p l;
        s \<leftarrow> mem_write s 0 xs;
        s \<leftarrow> mem_write s l [0];
        Some (s, l)
      })"

text \<open>
  The loop over the digits after the first one. \<open>Some None\<close> is the return on overflow, otherwise
  the value and the number of bytes used.
\<close>

function string2ll_loop :: "bytes \<Rightarrow> nat \<Rightarrow> nat \<Rightarrow> nat \<Rightarrow> (nat \<times> nat) option option" where
  "string2ll_loop s slen plen v =
     (if plen < slen then
        (case mem_byte s plen of
           None \<Rightarrow> None
         | Some c \<Rightarrow>
             if isdigit c then
               let d = unat c - 48 in
               if v > ULLONG_MAX div 10 then Some None
               else if v * 10 > ULLONG_MAX - d then Some None
               else string2ll_loop s slen (plen + 1) (v * 10 + d)
             else Some (Some (v, plen)))
      else Some (Some (v, plen)))"
  by pat_completeness auto
termination
  by (relation "measure (\<lambda>(s, slen, plen, v). slen - plen)") auto

declare string2ll_loop.simps [simp del]

text \<open>The checks after the loop.\<close>

definition string2ll_finish :: "bool \<Rightarrow> nat \<Rightarrow> (nat \<times> nat) option \<Rightarrow> int option" where
  "string2ll_finish negative slen r =
     (case r of
        None \<Rightarrow> None
      | Some (v, plen) \<Rightarrow>
          if plen < slen then None
          else if negative then
            if int v > - (LLONG_MIN + 1) + 1 then None else Some (to_int64 (2 ^ 64 - v))
          else if int v > LLONG_MAX then None else Some (to_int64 v))"

text \<open>\<open>Some None\<close> is the return value 0, \<open>Some (Some x)\<close> the return value 1 with \<open>*value = x\<close>.\<close>

definition string2ll :: "bytes \<Rightarrow> nat \<Rightarrow> int option option" where
  "string2ll s slen =
     (if slen = 0 then Some None
      else do {
        c \<leftarrow> mem_byte s 0;
        if slen = 1 \<and> c = 48 then Some (Some 0)
        else do {
          let negative = (c = 45);
          let plen = (if negative then 1 else 0);
          if plen = slen then Some None
          else do {
            c \<leftarrow> mem_byte s plen;
            if 49 \<le> c \<and> c \<le> 57 then do {
              r \<leftarrow> string2ll_loop s slen (plen + 1) (unat c - 48);
              Some (string2ll_finish negative slen r)
            }
            else if c = 48 \<and> slen = 1 then Some (Some 0)
            else Some None
          }
        }
      })"

text \<open>On the platform of the model \<open>long\<close> has 64 bits.\<close>

definition string2l :: "bytes \<Rightarrow> nat \<Rightarrow> int option option" where
  "string2l s slen = do {
     r \<leftarrow> string2ll s slen;
     case r of None \<Rightarrow> Some None
     | Some llval \<Rightarrow> if llval < LLONG_MIN \<or> llval > LLONG_MAX then Some None else Some (Some llval)
   }"

text \<open>
  \<open>memtoll\<close>, on the bytes of a C string before its NUL. \<open>strtoll\<close> sees only an optional minus sign
  and digits here; it clamps to the range of \<open>long long\<close>. The final product wraps around.
\<close>

definition strcasecmp_eq :: "bytes \<Rightarrow> bytes \<Rightarrow> bool" where
  "strcasecmp_eq a b \<longleftrightarrow> map tolower a = map tolower b"

definition strtoll_dec :: "bytes \<Rightarrow> int" where
  "strtoll_dec s =
     (let (neg, ds) = (case s of [] \<Rightarrow> (False, []) | c # ds \<Rightarrow> if c = 45 then (True, ds) else (False, c # ds));
          v = int (foldl (\<lambda>v c. v * 10 + (unat c - 48)) 0 ds)
      in max LLONG_MIN (min LLONG_MAX (if neg then - v else v)))"

definition memtoll_unit :: "bytes \<Rightarrow> int option" where
  "memtoll_unit u =
     (if u = [] \<or> strcasecmp_eq u (bstr ''b'') then Some 1
      else if strcasecmp_eq u (bstr ''k'') then Some 1000
      else if strcasecmp_eq u (bstr ''kb'') then Some 1024
      else if strcasecmp_eq u (bstr ''m'') then Some (1000 * 1000)
      else if strcasecmp_eq u (bstr ''mb'') then Some (1024 * 1024)
      else if strcasecmp_eq u (bstr ''g'') then Some (1000 * 1000 * 1000)
      else if strcasecmp_eq u (bstr ''gb'') then Some (1024 * 1024 * 1024)
      else None)"

text \<open>The result and the value of \<open>*err\<close>.\<close>

definition memtoll :: "bytes \<Rightarrow> int \<times> bool" where
  "memtoll p =
     (let sign = (if p \<noteq> [] \<and> hd p = 45 then 1 else 0);
          digits = sign + length (takeWhile isdigit (drop sign p));
          u = drop digits p;
          (mul, err) = (case memtoll_unit u of Some m \<Rightarrow> (m, False) | None \<Rightarrow> (1, True))
      in if digits \<ge> 128 then (LLONG_MAX, True)
         else (to_int64 (nat ((strtoll_dec (take digits p) * mul) mod 2 ^ 64)), err))"

section \<open>Decimal notation\<close>

fun nat_dec :: "nat \<Rightarrow> bytes" where
  "nat_dec n = (if n < 10 then [of_nat (48 + n)] else nat_dec (n div 10) @ [of_nat (48 + n mod 10)])"

declare nat_dec.simps [simp del]

definition int_dec :: "int \<Rightarrow> bytes" where
  "int_dec x = (if x < 0 then 45 # nat_dec (nat (- x)) else nat_dec (nat x))"

definition dec_val :: "nat \<Rightarrow> bytes \<Rightarrow> nat" where
  "dec_val v ds = foldl (\<lambda>v c. v * 10 + (unat c - 48)) v ds"

lemma dec_val_simps [simp]:
  "dec_val v [] = v" "dec_val v (c # ds) = dec_val (v * 10 + (unat c - 48)) ds"
  "dec_val v (ds @ [c]) = dec_val v ds * 10 + (unat c - 48)"
  by (simp_all add: dec_val_def)

lemma dec_val_mono: "v \<le> dec_val v ds"
proof (induction ds arbitrary: v)
  case (Cons c ds)
  have "v \<le> v * 10 + (unat c - 48)" by simp
  also have "\<dots> \<le> dec_val (v * 10 + (unat c - 48)) ds" by (rule Cons.IH)
  finally show ?case by simp
qed simp

lemma isdigit_unat: "isdigit c \<longleftrightarrow> 48 \<le> unat c \<and> unat c \<le> 57"
  by (simp add: isdigit_def word_le_nat_alt)

lemma digit_nat [simp]: "n < 10 \<Longrightarrow> isdigit (of_nat (48 + n))" "n < 10 \<Longrightarrow> unat (of_nat (48 + n) :: byte) = 48 + n"
  by (simp_all add: isdigit_unat unat_byte_of_nat del: of_nat_add)

lemma digit_byte: "isdigit c \<Longrightarrow> of_nat (48 + (unat c - 48)) = c"
  by (simp add: isdigit_unat del: of_nat_add)

lemma nat_dec_digits: "\<forall>c \<in> set (nat_dec n). isdigit c"
  by (induction n rule: nat_dec.induct) (subst nat_dec.simps, simp del: of_nat_add)

lemma nat_dec_nonempty [simp]: "nat_dec n \<noteq> []"
  by (subst nat_dec.simps) simp

text \<open>Printing then reading, and reading then printing.\<close>

lemma nat_dec_Cons:
  "0 < n \<Longrightarrow> \<exists>c ds. nat_dec n = c # ds \<and> isdigit c \<and> c \<noteq> 48 \<and> (\<forall>d \<in> set ds. isdigit d) \<and> dec_val (unat c - 48) ds = n"
proof (induction n rule: nat_dec.induct)
  case (1 n)
  show ?case
  proof (cases "n < 10")
    case True
    have "(of_nat (48 + n) :: byte) \<noteq> 48"
    proof
      assume "(of_nat (48 + n) :: byte) = 48"
      then have "unat (of_nat (48 + n) :: byte) = unat (48 :: byte)" by simp
      with True 1(2) show False by (simp del: of_nat_add)
    qed
    with True show ?thesis by (subst nat_dec.simps) (simp del: of_nat_add)
  next
    case False
    then have "0 < n div 10" by (simp add: div_greater_zero_iff)
    with 1(1) False obtain c ds where "nat_dec (n div 10) = c # ds" "isdigit c" "c \<noteq> 48" "\<forall>d \<in> set ds. isdigit d"
      "dec_val (unat c - 48) ds = n div 10" by blast
    with False show ?thesis by (subst nat_dec.simps) (simp del: of_nat_add)
  qed
qed

lemma nat_dec_dec_val:
  assumes "isdigit c" and "c \<noteq> 48" and "\<forall>d \<in> set ds. isdigit d"
  shows "nat_dec (dec_val (unat c - 48) ds) = c # ds"
  using assms(3)
proof (induction ds rule: rev_induct)
  case Nil
  have "unat c - 48 < 10" using assms(1) unfolding isdigit_unat by linarith
  then show ?case using digit_byte [OF assms(1)] by (subst nat_dec.simps) (simp del: of_nat_add)
next
  case (snoc d ds)
  have pos: "0 < unat c - 48"
    using assms(1,2) by (auto simp: isdigit_unat word_unat_eq_iff)
  have d: "isdigit d" "unat d - 48 < 10" using snoc.prems unfolding isdigit_unat by (simp_all, linarith)
  let ?v = "dec_val (unat c - 48) ds"
  have "0 < ?v" using pos dec_val_mono [of "unat c - 48" ds] by linarith
  then have ge: "\<not> ?v * 10 + (unat d - 48) < 10" by simp
  have "nat_dec (?v * 10 + (unat d - 48)) = nat_dec ?v @ [of_nat (48 + (unat d - 48))]"
    using ge d(2) by (subst nat_dec.simps) (simp del: of_nat_add)
  with snoc digit_byte [OF d(1)] show ?case by simp
qed

lemma nat_dec_length: "n < 10 ^ k \<Longrightarrow> 0 < k \<Longrightarrow> length (nat_dec n) \<le> k"
proof (induction n arbitrary: k rule: nat_dec.induct)
  case (1 n)
  show ?case
  proof (cases "n < 10")
    case True
    with 1 show ?thesis by (subst nat_dec.simps) simp
  next
    case False
    then have "k \<noteq> 1" using 1(2) by auto
    with 1(3) obtain k' where k: "k = Suc k'" "0 < k'" by (cases k) auto
    have "n div 10 < 10 ^ k'" using 1(2) k by (simp add: less_mult_imp_div_less mult.commute)
    with 1(1) [OF False _ k(2)] have "length (nat_dec (n div 10)) \<le> k'" by simp
    with False k show ?thesis by (subst nat_dec.simps) simp
  qed
qed

section \<open>Printing\<close>

lemma ll2string_loop_spec:
  assumes "length (nat_dec v) \<le> p" and "p < length buf"
  shows "ll2string_loop buf p v =
           Some (take (p + 1 - length (nat_dec v)) buf @ nat_dec v @ drop (p + 1) buf, p - length (nat_dec v))"
  using assms
proof (induction buf p v rule: ll2string_loop.induct)
  case (1 buf p v)
  let ?d = "of_nat (48 + v mod 10) :: byte"
  let ?b = "take p buf @ [?d] @ drop (p + 1) buf"
  have w: "mem_write buf p [?d] = Some ?b" using 1(3) by (simp add: mem_write_def)
  show ?case
  proof (cases "v < 10")
    case True
    then have nd: "nat_dec v = [?d]" by (subst nat_dec.simps) simp
    from 1(2) nd have "0 < p" by simp
    with True w nd show ?thesis by (simp add: ll2string_loop.simps [of buf p v])
  next
    case False
    then have nd: "nat_dec v = nat_dec (v div 10) @ [?d]" by (subst nat_dec.simps) simp
    let ?n = "length (nat_dec (v div 10))"
    have p: "0 < p" "?n \<le> p - 1" "p - 1 < length ?b" using 1(2,3) nd by auto
    have "ll2string_loop ?b (p - 1) (v div 10) =
        Some (take (p - ?n) ?b @ nat_dec (v div 10) @ drop p ?b, p - 1 - ?n)"
      using 1(1) [OF w _ _ p(2,3)] False p(1) by simp
    moreover have "take (p - ?n) ?b = take (p - ?n) buf" using 1(3) by simp
    ultimately show ?thesis
      using False w nd p(1) 1(3) by (simp add: ll2string_loop.simps [of buf p v] div_greater_zero_iff)
  qed
qed

lemma int_dec_length:
  assumes "LLONG_MIN \<le> x" and "x \<le> LLONG_MAX"
  shows "length (int_dec x) \<le> 20"
proof (cases "x < 0")
  case True
  then have "nat (- x) < 10 ^ 19" using assms by (simp add: LLONG_MIN_def)
  then show ?thesis using nat_dec_length [of "nat (- x)" 19] True by (simp add: int_dec_def)
next
  case False
  then have "nat x < 10 ^ 19" using assms by (simp add: LLONG_MAX_def)
  then show ?thesis using nat_dec_length [of "nat x" 19] False by (simp add: int_dec_def)
qed

lemma ll2string_buffer:
  assumes r: "LLONG_MIN \<le> x" "x \<le> LLONG_MAX"
  defines "v \<equiv> nat ((if x < 0 then - x else x) mod 2 ^ 64)"
  shows "\<exists>pre. do {
      (buf, p) \<leftarrow> ll2string_loop (zmalloc g 32) 31 v;
      if x < 0 then do { buf \<leftarrow> mem_write buf p [45]; ensure (0 < p); Some (buf, p - 1) } else Some (buf, p)
    } = Some (pre @ int_dec x, 31 - length (int_dec x)) \<and> length pre = 32 - length (int_dec x)"
proof -
  have v: "v = nat \<bar>x\<bar>" using r by (simp add: v_def LLONG_MIN_def LLONG_MAX_def)
  let ?n = "length (nat_dec v)"
  have idec: "int_dec x = (if x < 0 then [45] else []) @ nat_dec v" by (simp add: int_dec_def v)
  have n: "?n \<le> 19" if "x < 0"
    using int_dec_length [OF r] that by (simp add: idec)
  have n': "?n \<le> 20" using int_dec_length [OF r] by (simp add: idec)
  define pre where "pre = take (32 - ?n) (zmalloc g 32)"
  have lp: "length pre = 32 - ?n" by (simp add: pre_def)
  have l: "ll2string_loop (zmalloc g 32) 31 v = Some (pre @ nat_dec v, 31 - ?n)"
    using ll2string_loop_spec [of v 31 "zmalloc g 32"] n' by (simp add: pre_def)
  show ?thesis
  proof (cases "x < 0")
    case False
    with l lp show ?thesis by (intro exI [of _ pre]) (simp add: idec)
  next
    case True
    have w: "mem_write (pre @ nat_dec v) (31 - ?n) [45] = Some (take (31 - ?n) pre @ int_dec x)"
      using lp n [OF True] True by (simp add: mem_write_def idec)
    have "0 < 31 - ?n" using n' by simp
    with l w True lp show ?thesis
      by (intro exI [of _ "take (31 - ?n) pre"]) (simp add: idec)
  qed
qed

lemma ll2string_spec:
  assumes "LLONG_MIN \<le> x" and "x \<le> LLONG_MAX" and "0 < len" and "len \<le> length s"
  defines "l \<equiv> min (length (int_dec x)) (len - 1)"
  shows "ll2string g s len x = Some (take l (int_dec x) @ [0] @ drop (l + 1) s, l)"
proof -
  let ?n = "length (int_dec x)"
  obtain pre where e: "do {
      (buf, p) \<leftarrow> ll2string_loop (zmalloc g 32) 31 (nat ((if x < 0 then - x else x) mod 2 ^ 64));
      if x < 0 then do { buf \<leftarrow> mem_write buf p [45]; ensure (0 < p); Some (buf, p - 1) } else Some (buf, p)
    } = Some (pre @ int_dec x, 31 - ?n)" and lp: "length pre = 32 - ?n"
    using ll2string_buffer [OF assms(1,2)] by blast
  have n: "?n \<le> 20" by (rule int_dec_length [OF assms(1,2)])
  have l: "(if ?n + 1 > len then len - 1 else ?n) = l" using assms(3) by (auto simp: l_def)
  have ln: "l \<le> ?n" "l + 1 \<le> len" using assms(3) by (simp_all add: l_def)
  have rd: "mem_read (pre @ int_dec x) (32 - ?n) l = Some (take l (int_dec x))"
    using lp n ln(1) by (simp add: mem_read_def)
  have w1: "mem_write s 0 (take l (int_dec x)) = Some (take l (int_dec x) @ drop l s)"
    using ln assms(4) by (simp add: mem_write_def min_def)
  have w2: "mem_write (take l (int_dec x) @ drop l s) l [0] = Some (take l (int_dec x) @ [0] @ drop (l + 1) s)"
    using ln assms(4) by (simp add: mem_write_def min_def)
  have "ll2string g s len x = do {
      (buf, p) \<leftarrow> Some (pre @ int_dec x, 31 - ?n);
      let p = p + 1;
      let l = 32 - p;
      let l = (if l + 1 > len then len - 1 else l);
      xs \<leftarrow> mem_read buf p l;
      s \<leftarrow> mem_write s 0 xs;
      s \<leftarrow> mem_write s l [0];
      Some (s, l)
    }"
    unfolding ll2string_def e [symmetric] using assms(3) by (simp add: Let_def split: Option.bind_split)
  also have "\<dots> = Some (take l (int_dec x) @ [0] @ drop (l + 1) s, l)"
  proof -
    have p: "31 - ?n + 1 = 32 - ?n" "32 - (32 - ?n) = ?n" using n by simp_all
    show ?thesis by (simp only: bind.bind_lunit prod.case Let_def p l rd w1 w2)
  qed
  finally show ?thesis .
qed

section \<open>Reading\<close>

lemma string2ll_loop_spec:
  assumes "slen \<le> length s" and "plen \<le> slen" and "v \<le> ULLONG_MAX"
  shows "string2ll_loop s slen plen v =
           (let ds = takeWhile isdigit (take (slen - plen) (drop plen s))
            in Some (if dec_val v ds \<le> ULLONG_MAX then Some (dec_val v ds, plen + length ds) else None))"
  using assms
proof (induction s slen plen v rule: string2ll_loop.induct)
  case (1 s slen plen v)
  show ?case
  proof (cases "plen < slen")
    case False
    with 1 show ?thesis by (subst string2ll_loop.simps) simp
  next
    case True
    then have lt: "plen < length s" using 1(2) by simp
    let ?c = "s ! plen"
    let ?ds = "\<lambda>plen. takeWhile isdigit (take (slen - plen) (drop plen s))"
    have rest: "take (slen - plen) (drop plen s) = ?c # take (slen - (plen + 1)) (drop (plen + 1) s)"
      using True lt by (metis Cons_nth_drop_Suc Suc_diff_Suc Suc_eq_plus1 take_Suc_Cons)
    have rd: "mem_byte s plen = Some ?c" using lt by (simp add: mem_byte_def)
    show ?thesis
    proof (cases "isdigit ?c")
      case False
      then show ?thesis using 1 True rd by (simp add: string2ll_loop.simps [of s slen plen v] rest Let_def)
    next
      case dig: True
      let ?d = "unat ?c - 48"
      have d9: "?d \<le> 9" using dig unfolding isdigit_unat by linarith
      have ds: "?ds plen = ?c # ?ds (plen + 1)" using dig by (simp add: rest)
      have mono: "v * 10 + ?d \<le> dec_val v (?ds plen)" unfolding ds by (simp add: dec_val_mono)
      have m: "ULLONG_MAX = 18446744073709551615" by (simp add: ULLONG_MAX_def)
      show ?thesis
      proof (cases "v > ULLONG_MAX div 10 \<or> v * 10 > ULLONG_MAX - ?d")
        case True
        then have "ULLONG_MAX < v * 10 + ?d" using d9 unfolding m by linarith
        with mono have "\<not> dec_val v (?ds plen) \<le> ULLONG_MAX" by linarith
        with True dig rd \<open>plen < slen\<close> show ?thesis
          by (auto simp: string2ll_loop.simps [of s slen plen v] Let_def)
      next
        case False
        then have le: "v * 10 + ?d \<le> ULLONG_MAX" using d9 unfolding m by linarith
        have "string2ll_loop s slen (plen + 1) (v * 10 + ?d) =
            Some (if dec_val (v * 10 + ?d) (?ds (plen + 1)) \<le> ULLONG_MAX
                  then Some (dec_val (v * 10 + ?d) (?ds (plen + 1)), plen + 1 + length (?ds (plen + 1))) else None)"
          using 1(1) [OF True rd dig refl] False 1(2) True le by (auto simp: Let_def)
        with False dig rd True show ?thesis
          by (simp add: string2ll_loop.simps [of s slen plen v] Let_def ds)
      qed
    qed
  qed
qed

lemma nat_dec_0: "nat_dec 0 = [48]"
  by (subst nat_dec.simps) simp

lemma first_digit_pos: "isdigit c \<Longrightarrow> c \<noteq> 48 \<Longrightarrow> 0 < unat c - 48"
  by (auto simp: isdigit_unat word_unat_eq_iff)

text \<open>The canonical notations, by cases on the string.\<close>

lemma int_dec_iff:
  "bs = int_dec x \<longleftrightarrow>
     bs = [48] \<and> x = 0 \<or>
     (\<exists>c ds. isdigit c \<and> c \<noteq> 48 \<and> (\<forall>d \<in> set ds. isdigit d) \<and>
        (bs = c # ds \<and> x = int (dec_val (unat c - 48) ds) \<or> bs = 45 # c # ds \<and> x = - int (dec_val (unat c - 48) ds)))"
  (is "_ \<longleftrightarrow> ?rhs")
proof
  assume bs: "bs = int_dec x"
  consider "x = 0" | "0 < x" | "x < 0" by linarith
  then show ?rhs
  proof cases
    case 1
    with bs show ?thesis by (simp add: int_dec_def nat_dec_0)
  next
    case 2
    then obtain c ds where "nat_dec (nat x) = c # ds" "isdigit c" "c \<noteq> 48" "\<forall>d \<in> set ds. isdigit d"
      "dec_val (unat c - 48) ds = nat x" using nat_dec_Cons [of "nat x"] by auto
    with bs 2 show ?thesis by (intro disjI2 exI [of _ c] exI [of _ ds]) (simp add: int_dec_def)
  next
    case 3
    then obtain c ds where "nat_dec (nat (- x)) = c # ds" "isdigit c" "c \<noteq> 48" "\<forall>d \<in> set ds. isdigit d"
      "dec_val (unat c - 48) ds = nat (- x)" using nat_dec_Cons [of "nat (- x)"] by auto
    with bs 3 show ?thesis by (intro disjI2 exI [of _ c] exI [of _ ds]) (simp add: int_dec_def)
  qed
next
  assume ?rhs
  then show "bs = int_dec x"
  proof (elim disjE exE conjE)
    assume "bs = [48]" "x = 0"
    then show ?thesis by (simp add: int_dec_def nat_dec_0)
  next
    fix c ds
    assume c: "isdigit c" "c \<noteq> 48" "\<forall>d \<in> set ds. isdigit d"
    have pos: "0 < dec_val (unat c - 48) ds"
      using first_digit_pos [OF c(1,2)] dec_val_mono [of "unat c - 48" ds] by linarith
    note nd = nat_dec_dec_val [OF c]
    show ?thesis if "bs = c # ds" "x = int (dec_val (unat c - 48) ds)"
      using that nd by (simp add: int_dec_def)
    show ?thesis if "bs = 45 # c # ds" "x = - int (dec_val (unat c - 48) ds)"
      using that nd pos by (simp add: int_dec_def)
  qed
qed

lemma digit_range: "49 \<le> c \<and> c \<le> (57 :: byte) \<longleftrightarrow> isdigit c \<and> c \<noteq> 48"
  by (auto simp: isdigit_def word_le_nat_alt word_unat_eq_iff)

lemma to_int64_small: "int n \<le> LLONG_MAX \<Longrightarrow> to_int64 n = int n"
  by (simp add: to_int64_def LLONG_MAX_def)

lemma to_int64_neg: "0 < n \<Longrightarrow> int n \<le> 2 ^ 63 \<Longrightarrow> to_int64 (2 ^ 64 - n) = - int n"
proof -
  assume n: "0 < n" "int n \<le> 2 ^ 63"
  then have "int (2 ^ 64 - n) = 2 ^ 64 - int n" by (simp add: of_nat_diff)
  then have "to_int64 (2 ^ 64 - n) = (2 ^ 63 - int n + 2 ^ 64) mod 2 ^ 64 - 2 ^ 63"
    by (simp add: to_int64_def algebra_simps)
  also have "\<dots> = (2 ^ 63 - int n) mod 2 ^ 64 - 2 ^ 63" by (simp only: mod_add_self2)
  also have "(2 ^ 63 - int n) mod 2 ^ 64 = 2 ^ 63 - int n" using n by simp
  finally show ?thesis by simp
qed

text \<open>After the sign: the digits from the first one on.\<close>

definition digits_result :: "bool \<Rightarrow> byte \<Rightarrow> bytes \<Rightarrow> int option" where
  "digits_result neg c ds =
     (if isdigit c \<and> c \<noteq> 48 \<and> (\<forall>d \<in> set ds. isdigit d) then
        let v = int (dec_val (unat c - 48) ds); x = (if neg then - v else v)
        in if LLONG_MIN \<le> x \<and> x \<le> LLONG_MAX then Some x else None
      else None)"

lemma string2ll_digits:
  fixes pre ds sfx :: bytes
  assumes c: "49 \<le> c \<and> c \<le> 57"
  defines "s \<equiv> pre @ c # ds @ sfx" and "slen \<equiv> length pre + 1 + length ds"
  shows "map_option (string2ll_finish neg slen) (string2ll_loop s slen (length pre + 1) (unat c - 48)) =
         Some (digits_result neg c ds)"
proof -
  let ?v = "unat c - 48"
  let ?ds = "takeWhile isdigit ds"
  have cd: "isdigit c" "c \<noteq> 48" using c by (auto simp: digit_range)
  have "?v < 256" using unat_byte_less [of c] by linarith
  then have "?v \<le> ULLONG_MAX" by (simp add: ULLONG_MAX_def)
  moreover have "take (slen - (length pre + 1)) (drop (length pre + 1) s) = ds" by (simp add: s_def slen_def)
  ultimately have l: "string2ll_loop s slen (length pre + 1) ?v =
      Some (if dec_val ?v ?ds \<le> ULLONG_MAX then Some (dec_val ?v ?ds, length pre + 1 + length ?ds) else None)"
    by (subst string2ll_loop_spec) (simp_all add: s_def slen_def Let_def)
  have pos: "0 < dec_val ?v ds" using first_digit_pos [OF cd] dec_val_mono [of ?v ds] by linarith
  have limits: "ULLONG_MAX = 18446744073709551615" "LLONG_MAX = 9223372036854775807" "LLONG_MIN = -9223372036854775808"
    by (simp_all add: ULLONG_MAX_def LLONG_MAX_def LLONG_MIN_def)
  show ?thesis
  proof (cases "\<forall>d \<in> set ds. isdigit d")
    case False
    have "?ds \<noteq> ds" using False by (metis takeWhile_eq_all_conv)
    then have "length ?ds \<noteq> length ds" by (metis length_takeWhile_le takeWhile_eq_take take_all order_refl)
    then have "length ?ds < length ds" using length_takeWhile_le [of isdigit ds] by linarith
    with False show ?thesis unfolding l by (auto simp: digits_result_def slen_def string2ll_finish_def)
  next
    case True
    then have ds: "?ds = ds" by (simp add: takeWhile_eq_all_conv)
    have "digits_result neg c ds =
        (let v = int (dec_val ?v ds); x = (if neg then - v else v) in if LLONG_MIN \<le> x \<and> x \<le> LLONG_MAX then Some x else None)"
      using True cd by (simp add: digits_result_def)
    then show ?thesis
      unfolding l ds
      using pos to_int64_small [of "dec_val ?v ds"] to_int64_neg [of "dec_val ?v ds"]
      by (cases neg) (simp_all add: string2ll_finish_def slen_def Let_def limits)
  qed
qed

lemma string2ll_cases:
  fixes sfx :: bytes
  shows "string2ll (bs @ sfx) (length bs) =
     Some (case bs of [] \<Rightarrow> None
           | c # ds \<Rightarrow> if bs = [48] then Some 0
                       else if c = 45 then case ds of [] \<Rightarrow> None | c # ds \<Rightarrow> digits_result True c ds
                       else digits_result False c ds)"
proof (cases bs)
  case Nil
  then show ?thesis by (simp add: string2ll_def)
next
  case (Cons c ds)
  have none: "digits_result neg c ds = None" if "\<not> (49 \<le> c \<and> c \<le> 57)" for neg c ds
    using that by (auto simp: digits_result_def digit_range)
  show ?thesis
  proof (cases "c = 45")
    case False
    then show ?thesis
      using Cons string2ll_digits [where c = c and pre = "[]" and neg = False and ds = ds and sfx = sfx] none [of c False ds]
      by (cases "49 \<le> c \<and> c \<le> 57") (auto simp: string2ll_def mem_byte_def Let_def)
  next
    case True
    show ?thesis
    proof (cases ds)
      case Nil
      with Cons True show ?thesis by (simp add: string2ll_def mem_byte_def)
    next
      case ds: (Cons c' ds')
      then show ?thesis
        using Cons True string2ll_digits [where c = c' and pre = "[45]" and neg = True and ds = ds' and sfx = sfx] none [of c' True ds']
        by (cases "49 \<le> c' \<and> c' \<le> 57") (auto simp: string2ll_def mem_byte_def Let_def)
    qed
  qed
qed

lemma string2ll_iff:
  fixes bs sfx :: bytes
  shows "string2ll (bs @ sfx) (length bs) = Some (Some x) \<longleftrightarrow> LLONG_MIN \<le> x \<and> x \<le> LLONG_MAX \<and> bs = int_dec x"
proof -
  have dr: "digits_result neg c ds = Some x \<longleftrightarrow>
      LLONG_MIN \<le> x \<and> x \<le> LLONG_MAX \<and> isdigit c \<and> c \<noteq> 48 \<and> (\<forall>d \<in> set ds. isdigit d) \<and>
      x = (if neg then - int (dec_val (unat c - 48) ds) else int (dec_val (unat c - 48) ds))" for neg c ds
    by (auto simp: digits_result_def Let_def)
  have nd: "\<not> isdigit 45" "isdigit 48" by (simp_all add: isdigit_def)
  have z: "LLONG_MIN \<le> 0" "0 \<le> LLONG_MAX" by (simp_all add: LLONG_MIN_def LLONG_MAX_def)
  show ?thesis
  proof (cases bs)
    case Nil
    then show ?thesis by (simp add: string2ll_def int_dec_iff)
  next
    case (Cons c ds)
    show ?thesis
    proof (cases "c = 45")
      case True
      with Cons nd show ?thesis
        unfolding string2ll_cases int_dec_iff by (cases ds) (auto simp: dr)
    next
      case False
      with Cons nd z show ?thesis
        unfolding string2ll_cases int_dec_iff by (auto simp: dr)
    qed
  qed
qed

section \<open>Properties\<close>

text \<open>
  C16: \<open>string2ll\<close> accepts exactly the canonical decimal notations of the 64-bit integers (no
  leading zero, no plus sign, no space, no overflow) and returns the number they denote; it never
  reads past the \<open>slen\<close> bytes it is given.
\<close>

theorem string2ll_correct:
  fixes bs sfx :: bytes
  shows "\<exists>r. string2ll (bs @ sfx) (length bs) = Some r \<and>
           (\<forall>x. r = Some x \<longleftrightarrow> LLONG_MIN \<le> x \<and> x \<le> LLONG_MAX \<and> bs = int_dec x)"
  unfolding string2ll_iff [of bs sfx, symmetric] string2ll_cases by blast



text \<open>
  An amount of memory written as a canonical 64-bit number and one of the units of the code
  (in any case) is converted to the product, without an error, as long as the product fits.
\<close>

theorem memtoll_units:
  assumes "LLONG_MIN \<le> x" and "x \<le> LLONG_MAX" and "memtoll_unit u = Some m" and "u = [] \<or> \<not> isdigit (hd u)"
    and "LLONG_MIN \<le> x * m" and "x * m \<le> LLONG_MAX"
  shows "memtoll (int_dec x @ u) = (x * m, False)"
proof -
  let ?n = "length (int_dec x)"
  let ?sign = "if x < 0 then 1 else 0 :: nat"
  have nd: "\<not> isdigit 45" by (simp add: isdigit_def)
  have hd: "hd (int_dec x) = 45 \<longleftrightarrow> x < 0" "int_dec x \<noteq> []"
    using nat_dec_digits [of "nat x"] nd by (auto simp: int_dec_def) (metis hd_in_set nat_dec_nonempty)
  have tw: "takeWhile isdigit (ds @ u) = ds" if "\<forall>d \<in> set ds. isdigit d" for ds
    using that assms(4) by (cases u) (auto simp: takeWhile_append2 takeWhile_tail)
  have dig: "?sign + length (takeWhile isdigit (drop ?sign (int_dec x @ u))) = ?n"
    using tw [OF nat_dec_digits] by (simp add: int_dec_def)
  have val: "strtoll_dec (int_dec x) = x"
  proof -
    have dv: "foldl (\<lambda>v c. v * 10 + (unat c - 48)) 0 (nat_dec n) = n" for n
    proof (cases "n = 0")
      case False
      then obtain c ds where "nat_dec n = c # ds" "dec_val (unat c - 48) ds = n" using nat_dec_Cons [of n] by auto
      then show ?thesis by (simp add: dec_val_def)
    qed (simp add: nat_dec_0)
    show ?thesis
    proof (cases "x < 0")
      case True
      with assms(1) show ?thesis
        by (simp add: strtoll_dec_def int_dec_def dv LLONG_MAX_def LLONG_MIN_def)
    next
      case False
      obtain c ds where nd: "nat_dec (nat x) = c # ds" by (cases "nat_dec (nat x)") auto
      then have "c \<noteq> 45" using hd(1) False by (simp add: int_dec_def)
      with False nd dv [of "nat x"] assms(2) show ?thesis
        by (simp add: strtoll_dec_def int_dec_def LLONG_MAX_def LLONG_MIN_def)
    qed
  qed
  have wrap: "to_int64 (nat (y mod 2 ^ 64)) = y" if "LLONG_MIN \<le> y" "y \<le> LLONG_MAX" for y
  proof -
    have "int (nat (y mod 2 ^ 64)) = y mod 2 ^ 64" by simp
    then have "to_int64 (nat (y mod 2 ^ 64)) = (y + 2 ^ 63) mod 2 ^ 64 - 2 ^ 63"
      unfolding to_int64_def by (simp only: mod_add_left_eq)
    also have "\<dots> = y" using that by (simp add: LLONG_MIN_def LLONG_MAX_def)
    finally show ?thesis .
  qed
  have sg: "(if int_dec x @ u \<noteq> [] \<and> hd (int_dec x @ u) = 45 then 1 else 0) = ?sign" using hd by simp
  have "?n < 128" using int_dec_length [OF assms(1,2)] by simp
  then show ?thesis
    unfolding memtoll_def sg Let_def dig using assms(3) wrap [OF assms(5,6)] by (simp add: val)
qed

theorem memtoll_units_witness:
  "memtoll_unit (bstr ''Gb'') = Some 1073741824 \<and> memtoll (int_dec 3 @ bstr ''Gb'') = (3221225472, False)"
  using memtoll_units [of 3 "bstr ''Gb''" 1073741824]
  by (auto simp: memtoll_unit_def strcasecmp_eq_def tolower_def isupper_def LLONG_MIN_def LLONG_MAX_def isdigit_def)

text \<open>
  The documentation's example is not what the code does. The comment of \<open>memtoll\<close> says that
  \<open>1Gi\<close> is \<open>1073741824\<close>; the code knows no such unit, reports an error and returns 1.
\<close>

theorem memtoll_documented_example: "memtoll (bstr ''1Gi'') = (1, True)"
  by (simp add: memtoll_def memtoll_unit_def strcasecmp_eq_def tolower_def isupper_def isdigit_def strtoll_dec_def
      LLONG_MIN_def LLONG_MAX_def to_int64_def)

end
