(* ===== verification/Glob.thy ===== *)
theory Glob
  imports Ctype
begin

text \<open>
  The glob-style matcher \<open>stringmatchlen\<close> of \<open>util.c\<close>. Pattern and string are the bytes before
  the terminating NUL; \<open>cget\<close> reads the NUL at the end and is \<open>None\<close> beyond it. The pointers are
  indices \<open>i\<close> and \<open>j\<close>, so \<open>patternLen\<close> and \<open>stringLen\<close> are the distances to the two ends (they
  may become negative). A pointer that moves further than one past the NUL is undefined
  behaviour as well. Characters are signed when they are compared by size.

  The reference is \<open>glob_match\<close> on the tokens of the pattern. The code agrees with it on every
  pattern that has no dangling backslash in a class, no NUL, and no class that the NUL at the end of
  the string satisfies; the last condition is needed.
\<close>

section \<open>The code\<close>

definition advance :: "bytes \<Rightarrow> nat \<Rightarrow> nat option" where
  "advance s i = (if i \<le> length s then Some (i + 1) else None)"

definition same_char :: "bool \<Rightarrow> byte \<Rightarrow> byte \<Rightarrow> bool" where
  "same_char nocase a b \<longleftrightarrow> (if nocase then tolower a = tolower b else a = b)"

definition in_range :: "bool \<Rightarrow> byte \<Rightarrow> byte \<Rightarrow> byte \<Rightarrow> bool" where
  "in_range nocase a b c =
     (let (start, stop) = (if sint a > sint b then (b, a) else (a, b));
          (start, stop, c) = (if nocase then (tolower start, tolower stop, tolower c) else (start, stop, c))
      in sint c \<ge> sint start \<and> sint c \<le> sint stop)"

text \<open>The loop over a class; \<open>sc\<close> is \<open>string[0]\<close>, read only where the code reads it.\<close>

function class_loop :: "bytes \<Rightarrow> bool \<Rightarrow> byte option \<Rightarrow> nat \<Rightarrow> bool \<Rightarrow> (nat \<times> bool) option" where
  "class_loop p nocase sc i matched =
     (if i \<le> length p then do {
        c0 \<leftarrow> cget p i;
        if c0 = 92 then do {
          c1 \<leftarrow> cget p (i + 1);
          c \<leftarrow> sc;
          class_loop p nocase sc (i + 2) (matched \<or> c1 = c)
        }
        else if c0 = 93 then Some (i, matched)
        else if i = length p then Some (i - 1, matched)
        else do {
          c1 \<leftarrow> cget p (i + 1);
          if c1 = 45 \<and> length p - i \<ge> 3 then do {
            c2 \<leftarrow> cget p (i + 2);
            c \<leftarrow> sc;
            class_loop p nocase sc (i + 3) (matched \<or> in_range nocase c0 c2 c)
          } else do {
            c \<leftarrow> sc;
            class_loop p nocase sc (i + 1) (matched \<or> same_char nocase c0 c)
          }
        }
      } else None)"
  by pat_completeness auto
termination
  by (relation "measure (\<lambda>(p, nocase, sc, i, matched). length p + 1 - i)") auto

declare class_loop.simps [simp del]

text \<open>Skipping stars: \<open>while (pattern[1] == '*')\<close> and \<open>while (*pattern == '*')\<close>.\<close>

function skip_stars :: "bytes \<Rightarrow> nat \<Rightarrow> nat" where
  "skip_stars p i = (if i < length p \<and> p ! i = 42 then skip_stars p (i + 1) else i)"
  by pat_completeness auto
termination
  by (relation "measure (\<lambda>(p, i). length p - i)") auto

declare skip_stars.simps [simp del]

lemma skip_stars_ge: "i \<le> skip_stars p i"
  by (induction p i rule: skip_stars.induct) (subst skip_stars.simps, auto)

lemma class_loop_ge: "class_loop p nocase sc i matched = Some (i', m) \<Longrightarrow> i - 1 \<le> i'"
proof (induction p nocase sc i matched rule: class_loop.induct)
  case (1 p nocase sc i matched)
  note eq = 1(4) [unfolded class_loop.simps [of p nocase sc i matched]]
  show ?case
  proof (cases "i \<le> length p")
    case True
    then obtain c0 where c0: "cget p i = Some c0" by (cases "i < length p") (auto simp: cget_def)
    show ?thesis
      using eq True c0 1(1) [OF True c0] 1(2) [OF True c0] 1(3) [OF True c0]
      by (fastforce simp: bind_eq_Some_conv' split: if_splits)
  qed (use eq in simp)
qed

text \<open>
  The outer loop (\<open>Loop\<close>) and the loop over the string after a star (\<open>Rest\<close>), which calls the
  matcher for every rest of the string.
\<close>

datatype phase = Loop | Rest

definition class_start :: "bytes \<Rightarrow> nat \<Rightarrow> (bool \<times> nat) option" where
  "class_start p i = do {
     c \<leftarrow> cget p (i + 1);
     Some (if c = 94 then (True, i + 2) else (False, i + 1))
   }"

text \<open>After an element: the next pattern character, or the end of the string.\<close>

definition glob_end :: "bytes \<Rightarrow> nat \<Rightarrow> bool" where
  "glob_end p i \<longleftrightarrow> skip_stars p i = length p"

text \<open>
  One element other than a star: \<open>Some None\<close> is the return value 0, otherwise the index of its last
  pattern character and the next index of the string.
\<close>

definition glob_elem :: "bytes \<Rightarrow> bytes \<Rightarrow> bool \<Rightarrow> nat \<Rightarrow> nat \<Rightarrow> (nat \<times> nat) option option" where
  "glob_elem p s nocase i j =
     (if p ! i = 63 then
        if j = length s then Some None
        else do { j \<leftarrow> advance s j; Some (Some (i, j)) }
      else if p ! i = 91 then do {
        (neg, i) \<leftarrow> class_start p i;
        (i, matched) \<leftarrow> class_loop p nocase (cget s j) i False;
        if neg = matched then Some None
        else do { j \<leftarrow> advance s j; Some (Some (i, j)) }
      }
      else do {
        let i = (if p ! i = 92 \<and> length p - i \<ge> 2 then i + 1 else i);
        c \<leftarrow> cget p i;
        d \<leftarrow> cget s j;
        if \<not> same_char nocase c d then Some None
        else do { j \<leftarrow> advance s j; Some (Some (i, j)) }
      })"

lemma glob_elem_ge: "glob_elem p s nocase i j = Some (Some (i', j')) \<Longrightarrow> i \<le> i'"
  by (auto simp: glob_elem_def class_start_def Let_def bind_eq_Some_conv' split: if_splits dest!: class_loop_ge)

function glob_run :: "phase \<Rightarrow> bytes \<Rightarrow> bytes \<Rightarrow> bool \<Rightarrow> nat \<Rightarrow> nat \<Rightarrow> bool option" where
  "glob_run Loop p s nocase i j =
     (if i = length p then Some (j = length s)
      else if i > length p then None
      else if p ! i = 42 then
        let i' = skip_stars p (i + 1) - 1 in
        if i' + 1 = length p then Some True else glob_run Rest p s nocase (i' + 1) j
      else
        case glob_elem p s nocase i j of
          None \<Rightarrow> None
        | Some None \<Rightarrow> Some False
        | Some (Some (i', j)) \<Rightarrow>
            if j = length s then Some (glob_end p (i' + 1)) else glob_run Loop p s nocase (i' + 1) j)"
| "glob_run Rest p s nocase i j =
     (if j = length s then Some False
      else if j > length s + 1 then None
      else
        case glob_run Loop p s nocase i j of
          None \<Rightarrow> None
        | Some True \<Rightarrow> Some True
        | Some False \<Rightarrow> if j \<le> length s then glob_run Rest p s nocase i (j + 1) else None)"
  by pat_completeness auto
termination
proof (relation "inv_image (less_than <*lex*> less_than <*lex*> less_than)
    (\<lambda>(ph, p, s, nocase, i, j). (length p + 1 - i, length s + 2 - j, if ph = Rest then Suc 0 else 0))", goal_cases)
  case (2 p s nocase i j x)
  then show ?case using skip_stars_ge [of "i + 1" p] by simp
next
  case (3 p s nocase i j r e i' j')
  then have "i \<le> i'" using glob_elem_ge [of p s nocase i j i' j'] by simp
  with 3(1,2) have "length p - i' < Suc (length p) - i" by linarith
  then show ?case by simp
qed auto

declare glob_run.simps [simp del]

definition stringmatchlen :: "bytes \<Rightarrow> bytes \<Rightarrow> bool \<Rightarrow> bool option" where
  "stringmatchlen p s nocase = glob_run Loop p s nocase 0 0"

definition stringmatch :: "bytes \<Rightarrow> bytes \<Rightarrow> bool \<Rightarrow> bool option" where
  "stringmatch p s nocase = stringmatchlen p s nocase"

section \<open>The reference\<close>

datatype item = Single byte | Escaped byte | Range byte byte

datatype token = Star | AnyChar | Class bool "item list" | Lit byte

fun class_items :: "bytes \<Rightarrow> (item list \<times> bytes) option" where
  "class_items [] = Some ([], [])"
| "class_items (c # p) =
     (if c = 92 then
        (case p of [] \<Rightarrow> None | d # q \<Rightarrow> map_option (map_prod ((#) (Escaped d)) id) (class_items q))
      else if c = 93 then Some ([], p)
      else (case p of
              d # e # q \<Rightarrow>
                if d = 45 then map_option (map_prod ((#) (Range c e)) id) (class_items q)
                else map_option (map_prod ((#) (Single c)) id) (class_items p)
            | _ \<Rightarrow> map_option (map_prod ((#) (Single c)) id) (class_items p)))"

declare class_items.simps(2) [simp del]

lemma class_items_length: "class_items p = Some (its, q) \<Longrightarrow> length q \<le> length p"
proof (induction "length p" arbitrary: p its rule: less_induct)
  case less
  have ih: "class_items p' = Some (its', q) \<Longrightarrow> length p' < length p \<Longrightarrow> length q \<le> length p" for p' its'
    using less.hyps [of p' its'] by simp
  show ?case
  proof (cases p)
    case (Cons c p')
    from less.prems [unfolded Cons class_items.simps] Cons show ?thesis
      by (auto split: if_splits list.splits dest!: ih)
  qed (use less.prems in simp)
qed

function tokens :: "bytes \<Rightarrow> token list option" where
  "tokens [] = Some []"
| "tokens (c # p) =
     (if c = 42 then map_option ((#) Star) (tokens p)
      else if c = 63 then map_option ((#) AnyChar) (tokens p)
      else if c = 91 then
        (let (neg, q) = (case p of [] \<Rightarrow> (False, p) | d # q \<Rightarrow> if d = 94 then (True, q) else (False, p))
         in case class_items q of
              None \<Rightarrow> None
            | Some (its, r) \<Rightarrow> map_option ((#) (Class neg its)) (tokens r))
      else if c = 92 then
        (case p of [] \<Rightarrow> Some [Lit 92] | d # q \<Rightarrow> map_option ((#) (Lit d)) (tokens q))
      else map_option ((#) (Lit c)) (tokens p))"
  by pat_completeness auto
termination
  by (relation "measure length") (auto split: list.splits if_splits dest!: class_items_length)

fun item_matches :: "bool \<Rightarrow> item \<Rightarrow> byte \<Rightarrow> bool" where
  "item_matches nocase (Single a) c \<longleftrightarrow> same_char nocase a c"
| "item_matches nocase (Escaped a) c \<longleftrightarrow> a = c"
| "item_matches nocase (Range a b) c \<longleftrightarrow> in_range nocase a b c"

fun token_matches :: "bool \<Rightarrow> token \<Rightarrow> byte \<Rightarrow> bool" where
  "token_matches nocase Star c \<longleftrightarrow> True"
| "token_matches nocase AnyChar c \<longleftrightarrow> True"
| "token_matches nocase (Class neg its) c \<longleftrightarrow> neg \<noteq> (\<exists>it \<in> set its. item_matches nocase it c)"
| "token_matches nocase (Lit a) c \<longleftrightarrow> same_char nocase a c"

fun glob_match :: "bool \<Rightarrow> token list \<Rightarrow> bytes \<Rightarrow> bool" where
  "glob_match nocase [] s \<longleftrightarrow> s = []"
| "glob_match nocase (t # ts) s \<longleftrightarrow>
     (if t = Star then \<exists>k \<in> {0..length s}. glob_match nocase ts (drop k s)
      else case s of [] \<Rightarrow> False | c # s \<Rightarrow> token_matches nocase t c \<and> glob_match nocase ts s)"

text \<open>The terminating NUL satisfies no class of the pattern.\<close>

definition nul_safe :: "bool \<Rightarrow> token list \<Rightarrow> bool" where
  "nul_safe nocase ts \<longleftrightarrow> (\<forall>neg its. Class neg its \<in> set ts \<longrightarrow> \<not> token_matches nocase (Class neg its) 0)"

section \<open>Correctness\<close>

lemma cget_drop: "i < length p \<Longrightarrow> cget p i = Some (hd (drop i p))" "cget p (length p) = Some 0"
  by (simp_all add: cget_def hd_drop_conv_nth)

lemma class_loop_items:
  assumes "class_items (drop i p) = Some (its, q)" and "i \<le> length p" and "0 < i" and "0 \<notin> set p"
  shows "\<exists>i'. class_loop p nocase (Some c) i m = Some (i', m \<or> (\<exists>it \<in> set its. item_matches nocase it c)) \<and>
              q = drop (i' + 1) p \<and> i' < length p \<and> i - 1 \<le> i'"
  using assms
proof (induction "length p - i" arbitrary: i its m rule: less_induct)
  case less
  note unf = class_loop.simps [of p nocase "Some c" i m]
  show ?case
  proof (cases "i = length p")
    case True
    then have "class_loop p nocase (Some c) i m = Some (i - 1, m)" by (subst unf) (simp add: cget_def)
    with True less.prems show ?thesis by (intro exI [of _ "i - 1"]) simp
  next
    case False
    then have lt: "i < length p" using less.prems(2) by simp
    let ?c = "p ! i"
    have dr: "drop i p = ?c # drop (i + 1) p" using lt by (simp add: Cons_nth_drop_Suc)
    have cg: "cget p i = Some ?c" using lt by (simp add: cget_def)
    have dec: "length p - (i + 1) < length p - i" "length p - (i + 2) < length p - i" "length p - (i + 3) < length p - i"
      using lt by linarith+
    note items = less.prems(1) [unfolded dr class_items.simps(2)]
    consider (esc) "?c = 92" | (close) "?c = 93" | (range) "?c \<noteq> 92" "?c \<noteq> 93" "i + 2 < length p" "p ! (i + 1) = 45"
      | (single) "?c \<noteq> 92" "?c \<noteq> 93" "\<not> (i + 2 < length p \<and> p ! (i + 1) = 45)" by blast
    then show ?thesis
    proof cases
      case esc
      then obtain d where nx: "i + 1 < length p" "drop (i + 1) p = d # drop (i + 2) p" "d = p ! (i + 1)"
        using items by (cases "i + 1 < length p") (auto simp: Cons_nth_drop_Suc)
      then obtain its' where it: "class_items (drop (i + 2) p) = Some (its', q)" "its = Escaped d # its'"
        using items esc by auto
      from less.hyps [OF dec(2) it(1), of "m \<or> d = c"] nx less.prems lt obtain i' where
        "class_loop p nocase (Some c) (i + 2) (m \<or> d = c) =
           Some (i', (m \<or> d = c) \<or> (\<exists>it \<in> set its'. item_matches nocase it c))"
        "q = drop (i' + 1) p" "i' < length p" "i + 2 - 1 \<le> i'" by auto
      with esc cg nx it lt show ?thesis
        by (intro exI [of _ i']) (auto simp: unf cget_def)
    next
      case close
      with items cg lt show ?thesis by (intro exI [of _ i]) (simp add: unf)
    next
      case range
      let ?e = "p ! (i + 2)"
      have nx: "drop (i + 1) p = 45 # ?e # drop (i + 3) p"
        using Cons_nth_drop_Suc [of "i + 1" p] Cons_nth_drop_Suc [of "i + 2" p] range(3,4) by (simp add: numeral_eq_Suc)
      then obtain its' where it: "class_items (drop (i + 3) p) = Some (its', q)" "its = Range ?c ?e # its'"
        using items range by auto
      from less.hyps [OF dec(3) it(1), of "m \<or> in_range nocase ?c ?e c"] range(3) less.prems lt obtain i' where
        "class_loop p nocase (Some c) (i + 3) (m \<or> in_range nocase ?c ?e c) =
           Some (i', (m \<or> in_range nocase ?c ?e c) \<or> (\<exists>it \<in> set its'. item_matches nocase it c))"
        "q = drop (i' + 1) p" "i' < length p" "i + 3 - 1 \<le> i'" by auto
      with range cg it lt show ?thesis
        by (intro exI [of _ i']) (auto simp: unf cget_def)
    next
      case single
      have no: "drop (i + 1) p \<noteq> 45 # e # q'" for e q'
      proof
        assume d: "drop (i + 1) p = 45 # e # q'"
        from nth_via_drop [OF d] arg_cong [OF d, of length] single(3) show False by simp
      qed
      have "\<exists>its'. class_items (drop (i + 1) p) = Some (its', q) \<and> its = Single ?c # its'"
        using items single(1,2) no by (auto split: list.splits if_splits)
      then obtain its' where it: "class_items (drop (i + 1) p) = Some (its', q)" "its = Single ?c # its'" by blast
      from less.hyps [OF dec(1) it(1), of "m \<or> same_char nocase ?c c"] less.prems lt obtain i' where
        "class_loop p nocase (Some c) (i + 1) (m \<or> same_char nocase ?c c) =
           Some (i', (m \<or> same_char nocase ?c c) \<or> (\<exists>it \<in> set its'. item_matches nocase it c))"
        "q = drop (i' + 1) p" "i' < length p" "i + 1 - 1 \<le> i'" by auto
      with single cg it lt show ?thesis
        by (intro exI [of _ i']) (auto simp: unf cget_def)
    qed
  qed
qed

lemma tolower_eq_0: "tolower c = 0 \<longleftrightarrow> c = 0"
proof (cases "isupper c")
  case True
  then have "65 \<le> unat c" "unat c \<le> 90" by (auto simp: isupper_def word_le_nat_alt)
  then have "unat (c + 32) = unat c + 32" by (simp add: unat_word_ariths(1))
  with \<open>65 \<le> unat c\<close> have "c + 32 \<noteq> 0" by (metis add_is_0 unat_0 numeral_neq_zero)
  moreover have "c \<noteq> 0" using \<open>65 \<le> unat c\<close> by auto
  ultimately show ?thesis using True by (simp add: tolower_def)
qed (simp add: tolower_def)

lemma same_char_nul: "c \<noteq> 0 \<Longrightarrow> \<not> same_char nocase c 0"
  using tolower_eq_0 [of c] tolower_eq_0 [of 0] by (simp add: same_char_def)

text \<open>What an element of the pattern does is what its token says.\<close>

definition elem_ok :: "bytes \<Rightarrow> bytes \<Rightarrow> bool \<Rightarrow> nat \<Rightarrow> nat \<Rightarrow> token list \<Rightarrow> bool" where
  "elem_ok p s nocase i j ts \<longleftrightarrow>
     (\<exists>t ts' i'. ts = t # ts' \<and> t \<noteq> Star \<and> tokens (drop (i' + 1) p) = Some ts' \<and> i \<le> i' \<and> i' < length p \<and>
        glob_elem p s nocase i j = Some (if j < length s \<and> token_matches nocase t (s ! j) then Some (i', j + 1) else None))"

lemma elem_class:
  assumes i: "i < length p" "p ! i = 91" and j: "j \<le> length s" and nul: "0 \<notin> set p"
    and ts: "tokens (drop i p) = Some ts" and safe: "nul_safe nocase ts"
  shows "elem_ok p s nocase i j ts"
proof -
  define neg where "neg = (i + 1 < length p \<and> p ! (i + 1) = 94)"
  define k where "k = (if neg then i + 2 else i + 1)"
  have dr: "drop i p = 91 # drop (i + 1) p" using i by (metis Cons_nth_drop_Suc Suc_eq_plus1)
  have st: "(case drop (i + 1) p of [] \<Rightarrow> (False, drop (i + 1) p)
              | d # q \<Rightarrow> if d = 94 then (True, q) else (False, drop (i + 1) p)) = (neg, drop k p)"
  proof (cases "i + 1 < length p")
    case True
    then have "drop (i + 1) p = p ! (i + 1) # drop (i + 2) p" using Cons_nth_drop_Suc [of "i + 1" p] by simp
    then show ?thesis using True by (simp add: neg_def k_def)
  qed (simp add: neg_def k_def)
  from ts [unfolded dr tokens.simps] st obtain its r ts' where
    it: "class_items (drop k p) = Some (its, r)" and r: "tokens r = Some ts'" and tts: "ts = Class neg its # ts'"
    by (auto split: option.splits)
  have cs: "class_start p i = Some (neg, k)"
    using i by (auto simp: class_start_def cget_def neg_def k_def)
  let ?c = "if j < length s then s ! j else 0"
  have cg: "cget s j = Some ?c" using j by (auto simp: cget_def)
  have "k \<le> length p" "0 < k" using i(1) by (auto simp: k_def neg_def)
  from class_loop_items [OF it this nul, of nocase ?c False] obtain i' where
    cl: "class_loop p nocase (Some ?c) k False = Some (i', \<exists>it \<in> set its. item_matches nocase it ?c)"
    and i': "r = drop (i' + 1) p" "i' < length p" "k - 1 \<le> i'" by auto
  have "glob_elem p s nocase i j =
      Some (if j < length s \<and> token_matches nocase (Class neg its) (s ! j) then Some (i', j + 1) else None)"
  proof (cases "j < length s")
    case True
    with i cs cg cl show ?thesis by (auto simp: glob_elem_def advance_def)
  next
    case False
    with safe tts have "\<not> token_matches nocase (Class neg its) ?c" by (auto simp: nul_safe_def)
    with False i cs cg cl show ?thesis by (auto simp: glob_elem_def)
  qed
  moreover have "i \<le> i'" using i'(3) by (simp add: k_def split: if_splits)
  ultimately show ?thesis unfolding elem_ok_def
    using tts r i' by (intro exI [of _ "Class neg its"] exI [of _ ts'] exI [of _ i']) simp
qed

lemma elem_simple:
  assumes i: "i < length p" and c: "p ! i \<noteq> 42" "p ! i \<noteq> 91" and j: "j \<le> length s" and nul: "0 \<notin> set p"
    and ts: "tokens (drop i p) = Some ts"
  shows "elem_ok p s nocase i j ts"
proof -
  have dr: "drop i p = p ! i # drop (i + 1) p" using i by (metis Cons_nth_drop_Suc Suc_eq_plus1)
  note tk = ts [unfolded dr tokens.simps]
  let ?c = "if j < length s then s ! j else 0"
  have cg: "cget s j = Some ?c" using j by (auto simp: cget_def)
  show ?thesis
  proof (cases "p ! i = 63")
    case True
    then obtain ts' where "ts = AnyChar # ts'" "tokens (drop (i + 1) p) = Some ts'" using tk c by auto
    with True i j show ?thesis unfolding elem_ok_def
      by (intro exI [of _ AnyChar] exI [of _ ts'] exI [of _ i]) (auto simp: glob_elem_def advance_def)
  next
    case q: False
    define i' where "i' = (if p ! i = 92 \<and> length p - i \<ge> 2 then i + 1 else i)"
    have i': "i \<le> i'" "i' < length p" using i by (auto simp: i'_def)
    obtain ts' where t: "ts = Lit (p ! i') # ts'" "tokens (drop (i' + 1) p) = Some ts'"
    proof (cases "p ! i = 92 \<and> length p - i \<ge> 2")
      case True
      then have "i + 1 < length p" by linarith
      then have "drop (i + 1) p = p ! (i + 1) # drop (i + 2) p" using Cons_nth_drop_Suc [of "i + 1" p] by simp
      with tk True that show ?thesis by (auto simp: i'_def)
    next
      case False
      show ?thesis
      proof (cases "p ! i = 92")
        case True
        with False i have "drop (i + 1) p = []" by simp
        with tk True False that show ?thesis by (auto simp: i'_def)
      next
        case no: False
        with tk c q that show ?thesis by (auto simp: i'_def)
      qed
    qed
    have "p ! i' \<noteq> 0" using nul i'(2) by (metis nth_mem)
    then have "same_char nocase (p ! i') ?c \<longleftrightarrow> j < length s \<and> token_matches nocase (Lit (p ! i')) (s ! j)"
      using same_char_nul by simp
    then have "glob_elem p s nocase i j =
        Some (if j < length s \<and> token_matches nocase (Lit (p ! i')) (s ! j) then Some (i', j + 1) else None)"
      using q c i' cg by (auto simp: glob_elem_def cget_def [of p] Let_def advance_def simp flip: i'_def)
    with t i' show ?thesis unfolding elem_ok_def
      by (intro exI [of _ "Lit (p ! i')"] exI [of _ ts'] exI [of _ i']) simp
  qed
qed

lemma tokens_stars:
  assumes "tokens (drop i p) = Some ts" and "i \<le> length p"
  shows "\<exists>ts'. tokens (drop (skip_stars p i) p) = Some ts' \<and> ts = replicate (skip_stars p i - i) Star @ ts' \<and>
           skip_stars p i \<le> length p \<and> (skip_stars p i < length p \<longrightarrow> p ! skip_stars p i \<noteq> 42)"
  using assms
proof (induction p i arbitrary: ts rule: skip_stars.induct)
  case (1 p i)
  show ?case
  proof (cases "i < length p \<and> p ! i = 42")
    case True
    then have dr: "drop i p = 42 # drop (i + 1) p" by (metis Cons_nth_drop_Suc Suc_eq_plus1)
    from 1(2) [unfolded dr tokens.simps] obtain ts1 where t1: "tokens (drop (i + 1) p) = Some ts1" "ts = Star # ts1"
      by auto
    have sk: "skip_stars p i = skip_stars p (i + 1)" using True by (subst skip_stars.simps) simp
    have "Suc (skip_stars p (i + 1) - (i + 1)) = skip_stars p i - i" using skip_stars_ge [of "i + 1" p] sk by simp
    with 1(1) [OF True t1(1)] True t1(2) sk show ?thesis by (auto simp flip: replicate_Suc)
  next
    case False
    then have "skip_stars p i = i" by (subst skip_stars.simps) (rule if_not_P)
    with 1 False show ?thesis by auto
  qed
qed

lemma glob_match_nil: "glob_match nocase ts [] \<longleftrightarrow> (\<forall>t \<in> set ts. t = Star)"
  by (induction ts) auto

lemma glob_match_stars:
  "glob_match nocase (replicate (Suc n) Star @ ts) s \<longleftrightarrow> (\<exists>k \<in> {0..length s}. glob_match nocase ts (drop k s))"
proof (induction n arbitrary: s)
  case (Suc n)
  have "glob_match nocase (replicate (Suc (Suc n)) Star @ ts) s \<longleftrightarrow>
      (\<exists>k \<in> {0..length s}. glob_match nocase (replicate (Suc n) Star @ ts) (drop k s))"
    by (simp only: replicate_Suc [of "Suc n"] append_Cons glob_match.simps if_True simp_thms)
  also have "\<dots> \<longleftrightarrow> (\<exists>k \<in> {0..length s}. \<exists>l \<in> {0..length s - k}. glob_match nocase ts (drop (l + k) s))"
    by (simp only: Suc length_drop drop_drop)
  also have "\<dots> \<longleftrightarrow> (\<exists>k \<in> {0..length s}. glob_match nocase ts (drop k s))" (is "?l \<longleftrightarrow> ?r")
  proof
    assume ?l
    then obtain k l where "k \<le> length s" "l \<le> length s - k" "glob_match nocase ts (drop (l + k) s)" by auto
    then show ?r by (intro bexI [of _ "l + k"]) auto
  next
    assume ?r
    then show ?l by force
  qed
  finally show ?case .
qed simp

lemma glob_end_iff:
  assumes "tokens (drop i p) = Some ts" and "i \<le> length p"
  shows "glob_end p i \<longleftrightarrow> glob_match nocase ts []"
proof -
  obtain ts' where t: "tokens (drop (skip_stars p i) p) = Some ts'" "ts = replicate (skip_stars p i - i) Star @ ts'"
    "skip_stars p i \<le> length p" "skip_stars p i < length p \<longrightarrow> p ! skip_stars p i \<noteq> 42"
    using tokens_stars [OF assms] by blast
  show ?thesis
  proof (cases "skip_stars p i = length p")
    case True
    with t show ?thesis by (auto simp: glob_end_def glob_match_nil)
  next
    case False
    with t(3) have lt: "skip_stars p i < length p" by simp
    then have "drop (skip_stars p i) p = p ! skip_stars p i # drop (skip_stars p i + 1) p"
      by (metis Cons_nth_drop_Suc Suc_eq_plus1)
    with t(1,4) lt have "\<exists>u us. ts' = u # us \<and> u \<noteq> Star" by (auto split: if_splits option.splits list.splits)
    with t(2) False show ?thesis by (auto simp: glob_end_def glob_match_nil)
  qed
qed

lemma elem_token:
  assumes "i < length p" "p ! i \<noteq> 42" "j \<le> length s" "0 \<notin> set p" "tokens (drop i p) = Some ts" "nul_safe nocase ts"
  shows "elem_ok p s nocase i j ts"
  using elem_class [OF assms(1) _ assms(3-6)] elem_simple [OF assms(1,2) _ assms(3-5)] by blast

definition run_ok :: "phase \<Rightarrow> bytes \<Rightarrow> bytes \<Rightarrow> bool \<Rightarrow> nat \<Rightarrow> nat \<Rightarrow> token list \<Rightarrow> bool" where
  "run_ok ph p s nocase i j ts \<longleftrightarrow> glob_run ph p s nocase i j =
     Some (case ph of Loop \<Rightarrow> glob_match nocase ts (drop j s)
           | Rest \<Rightarrow> \<exists>k \<in> {j..<length s}. glob_match nocase ts (drop k s))"

lemma star_suffixes:
  assumes "\<not> glob_match nocase ts []" "j \<le> length s"
  shows "(\<exists>k \<in> {0..length s - j}. glob_match nocase ts (drop k (drop j s))) \<longleftrightarrow>
         (\<exists>k \<in> {j..<length s}. glob_match nocase ts (drop k s))" (is "?l \<longleftrightarrow> ?r")
proof
  assume ?l
  then obtain k where k: "k \<le> length s - j" "glob_match nocase ts (drop (k + j) s)" by auto
  have "k + j < length s"
  proof (rule ccontr)
    assume "\<not> k + j < length s"
    with k(2) assms(1) show False by simp
  qed
  with k show ?r by (intro bexI [of _ "k + j"]) auto
next
  assume ?r
  then obtain k where "j \<le> k" "k < length s" "glob_match nocase ts (drop k s)" by auto
  then show ?l by (intro bexI [of _ "k - j"]) auto
qed

lemma run_star:
  assumes i: "i < length p" "p ! i = 42" and j: "j \<le> length s" and ts: "tokens (drop i p) = Some ts"
    and ih: "\<And>ts'. \<lbrakk>skip_stars p (i + 1) < length p; p ! skip_stars p (i + 1) \<noteq> 42;
                tokens (drop (skip_stars p (i + 1)) p) = Some ts'; set ts' \<subseteq> set ts\<rbrakk>
             \<Longrightarrow> run_ok Rest p s nocase (skip_stars p (i + 1)) j ts'"
  shows "run_ok Loop p s nocase i j ts"
proof -
  let ?i = "skip_stars p (i + 1)"
  have ge: "i + 1 \<le> ?i" by (rule skip_stars_ge)
  have sk: "skip_stars p i = ?i" using i by (subst skip_stars.simps) simp
  obtain ts' where t: "tokens (drop ?i p) = Some ts'" "ts = replicate (?i - i) Star @ ts'"
    "?i \<le> length p" "?i < length p \<longrightarrow> p ! ?i \<noteq> 42"
    using tokens_stars [OF ts] i unfolding sk by auto
  have "?i - i = Suc (?i - i - 1)" using ge by simp
  then have gm: "glob_match nocase ts u \<longleftrightarrow> (\<exists>k \<in> {0..length u}. glob_match nocase ts' (drop k u))" for u
    unfolding t(2) by (metis glob_match_stars)
  have step: "glob_run Loop p s nocase i j = (if ?i = length p then Some True else glob_run Rest p s nocase ?i j)"
    using i ge by (simp add: glob_run.simps(1) [of p s nocase i j] Let_def)
  show ?thesis
  proof (cases "?i = length p")
    case True
    with t(1) have "ts' = []" by simp
    then have "glob_match nocase ts (drop j s)" unfolding gm by (intro bexI [of _ "length s - j"]) (use j in auto)
    with step True show ?thesis by (simp add: run_ok_def)
  next
    case False
    with t(3,4) have lt: "?i < length p" "p ! ?i \<noteq> 42" by auto
    have "skip_stars p ?i = ?i" using lt by (subst skip_stars.simps) simp
    then have "\<not> glob_match nocase ts' []"
      using glob_end_iff [OF t(1,3), of nocase] False by (simp add: glob_end_def)
    from star_suffixes [OF this j] have "glob_match nocase ts (drop j s) \<longleftrightarrow> (\<exists>k \<in> {j..<length s}. glob_match nocase ts' (drop k s))"
      by (simp add: gm)
    moreover have "run_ok Rest p s nocase ?i j ts'" using ih [OF lt t(1)] t(2) by simp
    ultimately show ?thesis using step False by (simp add: run_ok_def)
  qed
qed

lemma run_elem:
  assumes i: "i < length p" "p ! i \<noteq> 42" and j: "j \<le> length s" and nul: "0 \<notin> set p"
    and ts: "tokens (drop i p) = Some ts" and safe: "nul_safe nocase ts"
    and ih: "\<And>i' ts'. \<lbrakk>glob_elem p s nocase i j = Some (Some (i', j + 1)); j + 1 \<noteq> length s; i' + 1 \<le> length p; j + 1 \<le> length s;
                tokens (drop (i' + 1) p) = Some ts'; set ts' \<subseteq> set ts\<rbrakk>
             \<Longrightarrow> run_ok Loop p s nocase (i' + 1) (j + 1) ts'"
  shows "run_ok Loop p s nocase i j ts"
proof -
  obtain t ts' i' where t: "ts = t # ts'" "t \<noteq> Star" "tokens (drop (i' + 1) p) = Some ts'" "i \<le> i'" "i' < length p"
    and e: "glob_elem p s nocase i j = Some (if j < length s \<and> token_matches nocase t (s ! j) then Some (i', j + 1) else None)"
    using elem_token [OF i j nul ts safe] unfolding elem_ok_def by blast
  show ?thesis
  proof (cases "j < length s \<and> token_matches nocase t (s ! j)")
    case True
    then have gm: "glob_match nocase ts (drop j s) = glob_match nocase ts' (drop (j + 1) s)"
      using t(1,2) by (simp flip: Cons_nth_drop_Suc)
    have step: "glob_run Loop p s nocase i j =
        (if j + 1 = length s then Some (glob_end p (i' + 1)) else glob_run Loop p s nocase (i' + 1) (j + 1))"
      using i e True by (simp add: glob_run.simps(1) [of p s nocase i j])
    show ?thesis
    proof (cases "j + 1 = length s")
      case jl: True
      have "glob_end p (i' + 1) = glob_match nocase ts' []" using glob_end_iff [OF t(3)] t(5) by simp
      with step jl gm show ?thesis by (simp add: run_ok_def)
    next
      case False
      have "run_ok Loop p s nocase (i' + 1) (j + 1) ts'"
        using ih [OF _ False _ _ t(3)] e True t by auto
      with step False gm show ?thesis by (simp add: run_ok_def)
    qed
  next
    case False
    then have "\<not> glob_match nocase ts (drop j s)"
      using t(1,2) by (cases "j < length s") (auto simp flip: Cons_nth_drop_Suc)
    moreover have "glob_elem p s nocase i j = Some None" using e False by (simp only: if_False)
    ultimately show ?thesis using i by (simp add: run_ok_def glob_run.simps(1) [of p s nocase i j])
  qed
qed

lemma nul_safe_subset: "\<lbrakk>nul_safe nocase ts; set ts' \<subseteq> set ts\<rbrakk> \<Longrightarrow> nul_safe nocase ts'"
  by (auto simp: nul_safe_def)

lemma glob_run_correct:
  assumes "i \<le> length p" "j \<le> length s" "0 \<notin> set p" "tokens (drop i p) = Some ts" "nul_safe nocase ts"
  shows "run_ok ph p s nocase i j ts"
  using assms
proof (induction ph p s nocase i j arbitrary: ts rule: glob_run.induct)
  case (1 p s nocase i j)
  show ?case
  proof (cases "i = length p")
    case True
    with 1(4,6) show ?thesis by (auto simp: run_ok_def glob_run.simps(1) [of p s nocase "length p" j])
  next
    case False
    with 1(3) have lt: "i < length p" by simp
    show ?thesis
    proof (cases "p ! i = 42")
      case True
      have e: "skip_stars p (i + 1) - 1 + 1 = skip_stars p (i + 1)" using skip_stars_ge [of "i + 1" p] by simp
      note ih = 1(1) [OF False _ True refl, unfolded e]
      show ?thesis
        by (rule run_star [OF lt True 1(4,6)], rule ih)
          (use lt 1(4,5) nul_safe_subset [OF 1(7)] in simp_all)
    next
      case st: False
      note ih = 1(2) [OF False _ st _ refl]
      show ?thesis
        by (rule run_elem [OF lt st 1(4,5,6,7)], rule ih)
          (use lt 1(4,5) nul_safe_subset [OF 1(7)] in simp_all)
    qed
  qed
next
  case (2 p s nocase i j)
  note st = glob_run.simps(2) [of p s nocase i j]
  show ?case
  proof (cases "j = length s")
    case True
    with st show ?thesis by (simp add: run_ok_def)
  next
    case False
    with 2(4) have lt: "j < length s" by simp
    have L: "glob_run Loop p s nocase i j = Some (glob_match nocase ts (drop j s))"
      using 2(1) [OF False _ 2(3-7)] lt by (simp add: run_ok_def)
    have sp: "{j..<length s} = insert j {j + 1..<length s}" using lt by auto
    show ?thesis
    proof (cases "glob_match nocase ts (drop j s)")
      case True
      with L False lt show ?thesis by (simp add: run_ok_def st sp)
    next
      case no: False
      have "run_ok Rest p s nocase i (j + 1) ts"
        using 2(2) [OF False _ _ _ _ 2(3) _ 2(5-7)] L lt no by simp
      with L False lt no show ?thesis by (simp add: run_ok_def st sp)
    qed
  qed
qed

section \<open>Properties\<close>




end
