(* ===== verification/Buffer_Spec.thy ===== *)
theory Buffer_Spec
  imports Prelude
begin

text \<open>
  The contract of a growing byte buffer, as far as the routines that build strings rely on it: a
  fresh buffer is empty and appending appends, as long as the contents stay below a limit. Two
  appends in sequence are one append, so a routine that appends piece by piece builds the
  concatenation of its pieces.
\<close>

locale buffer =
  fixes rep :: "'s \<Rightarrow> bytes \<Rightarrow> bool"
    and fresh :: "'s option"
    and cat :: "'s \<Rightarrow> bytes \<Rightarrow> 's option"
    and limit :: nat
  assumes fresh_ok: "\<exists>s. fresh = Some s \<and> rep s []"
    and cat_ok: "\<lbrakk>rep s xs; length xs + length ys \<le> limit\<rbrakk> \<Longrightarrow> \<exists>s'. cat s ys = Some s' \<and> rep s' (xs @ ys)"
begin

primrec cats :: "'s \<Rightarrow> bytes list \<Rightarrow> 's option" where
  "cats s [] = Some s"
| "cats s (ys # yss) = do { s \<leftarrow> cat s ys; cats s yss }"

lemma catE:
  assumes "rep s xs" "length xs + length ys \<le> limit"
  obtains s' where "cat s ys = Some s'" "rep s' (xs @ ys)"
  using cat_ok [OF assms] by blast

lemma freshE:
  obtains s where "fresh = Some s" "rep s []"
  using fresh_ok by blast

lemma cats_ok:
  "\<lbrakk>rep s xs; length xs + length (concat yss) \<le> limit\<rbrakk> \<Longrightarrow> \<exists>s'. cats s yss = Some s' \<and> rep s' (xs @ concat yss)"
proof (induction yss arbitrary: s xs)
  case (Cons ys yss)
  from Cons.prems have "length xs + length ys \<le> limit" by simp
  with Cons.prems(1) obtain s' where s': "cat s ys = Some s'" "rep s' (xs @ ys)" by (rule catE)
  from Cons.IH [OF s'(2)] Cons.prems(2) s'(1) show ?case by (simp add: add.assoc)
qed simp

text \<open>A loop whose step appends the piece \<open>f x\<close> appends all the pieces.\<close>

lemma loop_ok:
  assumes step: "\<And>s x xs. \<lbrakk>x \<in> set us; rep s xs; length xs + length (f x) \<le> limit\<rbrakk> \<Longrightarrow> \<exists>s'. body s x = Some s' \<and> rep s' (xs @ f x)"
    and nil: "\<And>s. loop s [] = Some s"
    and cons: "\<And>s x ys. set (x # ys) \<subseteq> set us \<Longrightarrow> loop s (x # ys) = body s x \<bind> (\<lambda>s. loop s ys)"
    and "rep s xs" and "length xs + length (concat (map f us)) \<le> limit"
  shows "\<exists>s'. loop s us = Some s' \<and> rep s' (xs @ concat (map f us))"
proof -
  have "\<exists>s'. loop s ys = Some s' \<and> rep s' (xs @ concat (map f ys))"
    if "set ys \<subseteq> set us" "rep s xs" "length xs + length (concat (map f ys)) \<le> limit" for ys s xs
    using that
  proof (induction ys arbitrary: s xs)
    case Nil
    then show ?case by (simp add: nil)
  next
    case (Cons x ys)
    have "x \<in> set us" "length xs + length (f x) \<le> limit" using Cons.prems by auto
    from step [OF this(1) Cons.prems(2) this(2)] obtain s' where s': "body s x = Some s'" "rep s' (xs @ f x)" by blast
    from Cons.IH [OF _ s'(2)] Cons.prems s'(1) show ?case by (simp add: cons add.assoc)
  qed
  with assms(4,5) show ?thesis by blast
qed

end

end
