(* ===== verification/Sds.thy ===== *)
theory Sds
  imports Numconv Buffer_Spec "HOL-Library.Sublist"
begin

text \<open>
  Dynamic strings, \<open>sds.c\<close> and \<open>sds.h\<close>. A string is its header and the bytes of the block after
  it (\<open>sds_buf\<close>); the pointer that the C functions pass around is the record, and a function that
  may move the block returns the new one. The header fields are 32-bit integers: a \<open>size_t\<close>
  stored into them is narrowed by \<open>narrow32\<close>, and they are widened back by \<open>to_size\<close>. The
  allocator does not return NULL (\<open>zmalloc\<close> aborts). \<open>g\<close> gives the bytes of fresh memory.

  The lemmas show that every operation stays inside its block, keeps the invariant \<open>sds_inv\<close> and
  has the intended effect on the string; that splitting into arguments undoes the quoting of
  \<open>sdscatrepr\<close>; and that splitting on a separator undoes joining.
\<close>

section \<open>The code\<close>

definition narrow32 :: "int \<Rightarrow> int" where
  "narrow32 v = (v + 2 ^ 31) mod 2 ^ 32 - 2 ^ 31"

definition to_size :: "int \<Rightarrow> nat" where
  "to_size v = nat (v mod 2 ^ 64)"

definition SDS_MAX_PREALLOC :: nat where "SDS_MAX_PREALLOC = 1024 * 1024"

record sdshdr =
  sds_len :: int
  sds_free :: int
  sds_buf :: bytes

definition sdslen :: "sdshdr \<Rightarrow> nat" where
  "sdslen s = to_size (sds_len s)"

definition sdsavail :: "sdshdr \<Rightarrow> nat" where
  "sdsavail s = to_size (sds_free s)"

text \<open>\<open>init\<close> is the memory the first argument points to, \<open>None\<close> for NULL.\<close>

definition sdsnewlen :: "fresh_mem \<Rightarrow> bytes option \<Rightarrow> nat \<Rightarrow> sdshdr option" where
  "sdsnewlen g init initlen = do {
     let buf = (case init of Some t \<Rightarrow> zmalloc g (initlen + 1) | None \<Rightarrow> replicate (initlen + 1) 0);
     buf \<leftarrow> (case init of
               Some t \<Rightarrow> if initlen \<noteq> 0 then do { xs \<leftarrow> mem_read t 0 initlen; mem_write buf 0 xs } else Some buf
             | None \<Rightarrow> Some buf);
     buf \<leftarrow> mem_write buf initlen [0];
     Some \<lparr>sds_len = narrow32 (int initlen), sds_free = 0, sds_buf = buf\<rparr>
   }"

definition sdsempty :: "fresh_mem \<Rightarrow> sdshdr option" where
  "sdsempty g = sdsnewlen g (Some [0]) 0"

definition sdsnew :: "fresh_mem \<Rightarrow> bytes option \<Rightarrow> sdshdr option" where
  "sdsnew g init = do {
     initlen \<leftarrow> (case init of None \<Rightarrow> Some 0 | Some t \<Rightarrow> c_strlen t);
     sdsnewlen g init initlen
   }"

definition sdsdup :: "fresh_mem \<Rightarrow> sdshdr \<Rightarrow> sdshdr option" where
  "sdsdup g s = sdsnewlen g (Some (sds_buf s)) (sdslen s)"

definition sdsupdatelen :: "sdshdr \<Rightarrow> sdshdr option" where
  "sdsupdatelen s = do {
     n \<leftarrow> c_strlen (sds_buf s);
     let reallen = narrow32 (int n);
     Some (s\<lparr>sds_free := narrow32 (sds_free s + narrow32 (sds_len s - reallen)), sds_len := reallen\<rparr>)
   }"

definition sdsclear :: "sdshdr \<Rightarrow> sdshdr option" where
  "sdsclear s = do {
     buf \<leftarrow> mem_write (sds_buf s) 0 [0];
     Some (s\<lparr>sds_free := narrow32 (sds_free s + sds_len s), sds_len := 0, sds_buf := buf\<rparr>)
   }"

definition sdsMakeRoomFor :: "fresh_mem \<Rightarrow> sdshdr \<Rightarrow> nat \<Rightarrow> sdshdr" where
  "sdsMakeRoomFor g s addlen =
     (if sdsavail s \<ge> addlen then s
      else
        let len = sdslen s;
            newlen = (len + addlen) mod 2 ^ 64;
            newlen = (if newlen < SDS_MAX_PREALLOC then newlen * 2 else newlen + SDS_MAX_PREALLOC) mod 2 ^ 64
        in s\<lparr>sds_buf := zrealloc g (sds_buf s) (newlen + 1), sds_free := narrow32 (int newlen - int len)\<rparr>)"

definition sdsRemoveFreeSpace :: "fresh_mem \<Rightarrow> sdshdr \<Rightarrow> sdshdr" where
  "sdsRemoveFreeSpace g s = s\<lparr>sds_buf := zrealloc g (sds_buf s) (to_size (sds_len s + 1)), sds_free := 0\<rparr>"

text \<open>The header has 8 bytes.\<close>

definition sdsAllocSize :: "sdshdr \<Rightarrow> nat" where
  "sdsAllocSize s = to_size (8 + sds_len s + sds_free s + 1)"

definition sdsIncrLen :: "sdshdr \<Rightarrow> int \<Rightarrow> sdshdr option" where
  "sdsIncrLen s incr = do {
     ensure (sds_free s \<ge> incr);
     let s = s\<lparr>sds_len := narrow32 (sds_len s + incr), sds_free := narrow32 (sds_free s - incr)\<rparr>;
     ensure (sds_free s \<ge> 0);
     ensure (0 \<le> sds_len s);
     buf \<leftarrow> mem_write (sds_buf s) (nat (sds_len s)) [0];
     Some (s\<lparr>sds_buf := buf\<rparr>)
   }"

definition sdsgrowzero :: "fresh_mem \<Rightarrow> sdshdr \<Rightarrow> nat \<Rightarrow> sdshdr option" where
  "sdsgrowzero g s len = do {
     let curlen = sdslen s;
     if len \<le> curlen then Some s
     else do {
       let s = sdsMakeRoomFor g s (len - curlen);
       buf \<leftarrow> mem_write (sds_buf s) curlen (replicate (len - curlen + 1) 0);
       let totlen = sds_len s + sds_free s;
       Some (s\<lparr>sds_buf := buf, sds_len := narrow32 (int len), sds_free := narrow32 (totlen - narrow32 (int len))\<rparr>)
     }
   }"

definition sdscatlen :: "fresh_mem \<Rightarrow> sdshdr \<Rightarrow> bytes \<Rightarrow> nat \<Rightarrow> sdshdr option" where
  "sdscatlen g s t len = do {
     let curlen = sdslen s;
     let s = sdsMakeRoomFor g s len;
     xs \<leftarrow> mem_read t 0 len;
     buf \<leftarrow> mem_write (sds_buf s) curlen xs;
     let s = s\<lparr>sds_len := narrow32 (int (curlen + len)), sds_free := narrow32 (sds_free s - int len)\<rparr>;
     buf \<leftarrow> mem_write buf (curlen + len) [0];
     Some (s\<lparr>sds_buf := buf\<rparr>)
   }"

definition sdscat :: "fresh_mem \<Rightarrow> sdshdr \<Rightarrow> bytes \<Rightarrow> sdshdr option" where
  "sdscat g s t = do { n \<leftarrow> c_strlen t; sdscatlen g s t n }"

definition sdscatsds :: "fresh_mem \<Rightarrow> sdshdr \<Rightarrow> sdshdr \<Rightarrow> sdshdr option" where
  "sdscatsds g s t = sdscatlen g s (sds_buf t) (sdslen t)"

definition sdscpylen :: "fresh_mem \<Rightarrow> sdshdr \<Rightarrow> bytes \<Rightarrow> nat \<Rightarrow> sdshdr option" where
  "sdscpylen g s t len = do {
     let s = (if to_size (sds_free s + sds_len s) < len then sdsMakeRoomFor g s (to_size (int len - sds_len s)) else s);
     let totlen = sds_free s + sds_len s;
     xs \<leftarrow> mem_read t 0 len;
     buf \<leftarrow> mem_write (sds_buf s) 0 xs;
     buf \<leftarrow> mem_write buf len [0];
     Some (s\<lparr>sds_buf := buf, sds_len := narrow32 (int len), sds_free := narrow32 (totlen - int len)\<rparr>)
   }"

definition sdscpy :: "fresh_mem \<Rightarrow> sdshdr \<Rightarrow> bytes \<Rightarrow> sdshdr option" where
  "sdscpy g s t = do { n \<leftarrow> c_strlen t; sdscpylen g s t n }"

text \<open>
  The retry loop of \<open>sdscatvprintf\<close>; \<open>out\<close> is what the format produces. \<open>vsnprintf\<close> writes as much
  of it as fits and a terminator.
\<close>

definition vsnprintf :: "bytes \<Rightarrow> nat \<Rightarrow> bytes \<Rightarrow> bytes option" where
  "vsnprintf buf n out = (if n = 0 then Some buf else mem_write buf 0 (take (n - 1) out @ [0]))"

partial_function (option) vprintf_loop :: "fresh_mem \<Rightarrow> bytes \<Rightarrow> nat \<Rightarrow> bytes option" where
  "vprintf_loop g out buflen = do {
     buf \<leftarrow> mem_write (zmalloc g buflen) (buflen - 2) [0];
     buf \<leftarrow> vsnprintf buf buflen out;
     c \<leftarrow> mem_byte buf (buflen - 2);
     if c \<noteq> 0 then vprintf_loop g out (buflen * 2) else Some buf
   }"

definition sdscatvprintf :: "fresh_mem \<Rightarrow> sdshdr \<Rightarrow> bytes \<Rightarrow> sdshdr option" where
  "sdscatvprintf g s out = do { buf \<leftarrow> vprintf_loop g out 16; sdscat g s buf }"

definition sdscatprintf :: "fresh_mem \<Rightarrow> sdshdr \<Rightarrow> bytes \<Rightarrow> sdshdr option" where
  "sdscatprintf g s out = sdscatvprintf g s out"

text \<open>\<open>strchr\<close> finds the terminator as well. The trimming loops run over indices.\<close>

definition strchr :: "bytes \<Rightarrow> byte \<Rightarrow> bool" where
  "strchr cset c \<longleftrightarrow> c = 0 \<or> c \<in> set cset"

function trim_left :: "bytes \<Rightarrow> bytes \<Rightarrow> int \<Rightarrow> int \<Rightarrow> int option" where
  "trim_left buf cset sp en =
     (if sp \<le> en then do {
        ensure (0 \<le> sp);
        c \<leftarrow> mem_byte buf (nat sp);
        if strchr cset c then trim_left buf cset (sp + 1) en else Some sp
      } else Some sp)"
  by pat_completeness auto
termination
  by (relation "measure (\<lambda>(buf, cset, sp, en). nat (en + 1 - sp))") auto

function trim_right :: "bytes \<Rightarrow> bytes \<Rightarrow> int \<Rightarrow> int option" where
  "trim_right buf cset ep =
     (if ep > 0 then do {
        c \<leftarrow> mem_byte buf (nat ep);
        if strchr cset c then trim_right buf cset (ep - 1) else Some ep
      } else Some ep)"
  by pat_completeness auto
termination
  by (relation "measure (\<lambda>(buf, cset, ep). nat ep)") auto

declare trim_left.simps [simp del] trim_right.simps [simp del]

definition sdstrim :: "sdshdr \<Rightarrow> bytes \<Rightarrow> sdshdr option" where
  "sdstrim s cset = do {
     let en = int (sdslen s) - 1;
     sp \<leftarrow> trim_left (sds_buf s) cset 0 en;
     ep \<leftarrow> trim_right (sds_buf s) cset en;
     let len = (if sp > ep then 0 else nat (ep - sp + 1));
     buf \<leftarrow> (if sp \<noteq> 0 then memmove (sds_buf s) 0 (nat sp) len else Some (sds_buf s));
     buf \<leftarrow> mem_write buf len [0];
     Some (s\<lparr>sds_buf := buf, sds_free := narrow32 (sds_free s + (sds_len s - int len)), sds_len := narrow32 (int len)\<rparr>)
   }"

definition sdsrange :: "sdshdr \<Rightarrow> int \<Rightarrow> int \<Rightarrow> sdshdr option" where
  "sdsrange s start en = do {
     let len = sdslen s;
     if len = 0 then Some s
     else do {
       let start = (if start < 0 then max 0 (narrow32 (int len + start)) else start);
       let en = (if en < 0 then max 0 (narrow32 (int len + en)) else en);
       let newlen = (if start > en then 0 else to_size (narrow32 (en - start + 1)));
       let (start, newlen) =
         (if newlen \<noteq> 0 then
            if start \<ge> narrow32 (int len) then (start, 0)
            else if en \<ge> narrow32 (int len) then
              let en = narrow32 (int len - 1) in (start, if start > en then 0 else to_size (en - start + 1))
            else (start, newlen)
          else (0, newlen));
       buf \<leftarrow> (if start \<noteq> 0 \<and> newlen \<noteq> 0 then memmove (sds_buf s) 0 (nat start) newlen else Some (sds_buf s));
       buf \<leftarrow> mem_write buf newlen [0];
       Some (s\<lparr>sds_buf := buf, sds_free := narrow32 (sds_free s + (sds_len s - int newlen)), sds_len := narrow32 (int newlen)\<rparr>)
     }
   }"

text \<open>A loop \<open>for (j = 0; j < n; j++) s[j] = f(s[j])\<close>.\<close>

fun update_loop :: "(byte \<Rightarrow> byte option) \<Rightarrow> bytes \<Rightarrow> nat \<Rightarrow> nat \<Rightarrow> bytes option" where
  "update_loop f buf j 0 = Some buf"
| "update_loop f buf j (Suc n) = do {
     c \<leftarrow> mem_byte buf j;
     c \<leftarrow> f c;
     buf \<leftarrow> mem_write buf j [c];
     update_loop f buf (j + 1) n
   }"

definition sdstolower :: "sdshdr \<Rightarrow> sdshdr option" where
  "sdstolower s = do {
     buf \<leftarrow> update_loop (\<lambda>c. Some (tolower c)) (sds_buf s) 0 (nat (narrow32 (int (sdslen s))));
     Some (s\<lparr>sds_buf := buf\<rparr>)
   }"

definition sdstoupper :: "sdshdr \<Rightarrow> sdshdr option" where
  "sdstoupper s = do {
     buf \<leftarrow> update_loop (\<lambda>c. Some (toupper c)) (sds_buf s) 0 (nat (narrow32 (int (sdslen s))));
     Some (s\<lparr>sds_buf := buf\<rparr>)
   }"

fun mapchar_loop :: "bytes \<Rightarrow> bytes \<Rightarrow> byte \<Rightarrow> nat \<Rightarrow> nat \<Rightarrow> byte option" where
  "mapchar_loop from to c i 0 = Some c"
| "mapchar_loop from to c i (Suc n) = do {
     f \<leftarrow> mem_byte from i;
     if c = f then mem_byte to i else mapchar_loop from to c (i + 1) n
   }"

definition sdsmapchars :: "sdshdr \<Rightarrow> bytes \<Rightarrow> bytes \<Rightarrow> nat \<Rightarrow> sdshdr option" where
  "sdsmapchars s from to setlen = do {
     buf \<leftarrow> update_loop (\<lambda>c. mapchar_loop from to c 0 setlen) (sds_buf s) 0 (sdslen s);
     Some (s\<lparr>sds_buf := buf\<rparr>)
   }"

text \<open>\<open>memcmp\<close> fixes only the sign of its result.\<close>

fun memcmp :: "bytes \<Rightarrow> bytes \<Rightarrow> int" where
  "memcmp (a # as) (b # bs) = (if a < b then -1 else if b < a then 1 else memcmp as bs)"
| "memcmp as bs = 0"

definition sdscmp :: "sdshdr \<Rightarrow> sdshdr \<Rightarrow> int option" where
  "sdscmp s1 s2 = do {
     let l1 = sdslen s1;
     let l2 = sdslen s2;
     let minlen = (if l1 < l2 then l1 else l2);
     x \<leftarrow> mem_read (sds_buf s1) 0 minlen;
     y \<leftarrow> mem_read (sds_buf s2) 0 minlen;
     if memcmp x y = 0 then Some (narrow32 (int l1 - int l2)) else Some (memcmp x y)
   }"

section \<open>Splitting, joining and quoting\<close>

text \<open>The tokens found so far are a list; \<open>slots\<close> is the capacity of the array they are stored in.\<close>

function split_loop :: "fresh_mem \<Rightarrow> bytes \<Rightarrow> nat \<Rightarrow> bytes \<Rightarrow> nat \<Rightarrow> nat \<Rightarrow> nat \<Rightarrow> nat \<Rightarrow> sdshdr list \<Rightarrow>
    (nat \<times> nat \<times> sdshdr list) option" where
  "split_loop g s len sep seplen j start slots tokens =
     (if j + (seplen - 1) < len then do {
        let slots = (if slots < length tokens + 2 then slots * 2 else slots);
        c \<leftarrow> mem_byte s j;
        b \<leftarrow> mem_byte sep 0;
        hit \<leftarrow> (if seplen = 1 \<and> c = b then Some True
               else do { x \<leftarrow> mem_read s j seplen; y \<leftarrow> mem_read sep 0 seplen; Some (memcmp x y = 0) });
        if hit then do {
          t \<leftarrow> sdsnewlen g (Some (drop start s)) (j - start);
          ensure (length tokens < slots);
          split_loop g s len sep seplen (j + (seplen - 1) + 1) (j + seplen) slots (tokens @ [t])
        } else split_loop g s len sep seplen (j + 1) start slots tokens
      } else Some (start, slots, tokens))"
  by pat_completeness auto
termination
  by (relation "measure (\<lambda>(g, s, len, sep, seplen, j, start, slots, tokens). len - j)") auto

declare split_loop.simps [simp del]

text \<open>The outer \<open>option\<close> is a read outside the arguments, the inner one a NULL result.\<close>

definition sdssplitlen :: "fresh_mem \<Rightarrow> bytes \<Rightarrow> int \<Rightarrow> bytes \<Rightarrow> int \<Rightarrow> sdshdr list option option" where
  "sdssplitlen g s len sep seplen =
     (if seplen < 1 \<or> len < 0 then Some None
      else if len = 0 then Some (Some [])
      else do {
        (start, slots, tokens) \<leftarrow> split_loop g s (nat len) sep (nat seplen) 0 0 5 [];
        t \<leftarrow> sdsnewlen g (Some (drop start s)) (nat len - start);
        ensure (length tokens < slots);
        Some (Some (tokens @ [t]))
      })"

fun join_loop :: "fresh_mem \<Rightarrow> sdshdr \<Rightarrow> bytes list \<Rightarrow> bytes \<Rightarrow> sdshdr option" where
  "join_loop g s [] sep = Some s"
| "join_loop g s (a # as) sep = do {
     s \<leftarrow> sdscat g s a;
     s \<leftarrow> (if as \<noteq> [] then sdscat g s sep else Some s);
     join_loop g s as sep
   }"

definition sdsjoin :: "fresh_mem \<Rightarrow> bytes list \<Rightarrow> bytes \<Rightarrow> sdshdr option" where
  "sdsjoin g argv sep = do { s \<leftarrow> sdsempty g; join_loop g s argv sep }"

definition sdsfromlonglong :: "fresh_mem \<Rightarrow> int \<Rightarrow> sdshdr option" where
  "sdsfromlonglong g val = do {
     let v = nat ((if val < 0 then - val else val) mod 2 ^ 64);
     (buf, p) \<leftarrow> ll2string_loop (zmalloc g 32) 31 v;
     (buf, p) \<leftarrow> (if val < 0 then do { buf \<leftarrow> mem_write buf p [45]; ensure (0 < p); Some (buf, p - 1) }
                 else Some (buf, p));
     sdsnewlen g (Some (drop (p + 1) buf)) (32 - (p + 1))
   }"

text \<open>What \<open>%02x\<close> prints.\<close>

definition hex_char :: "nat \<Rightarrow> byte" where
  "hex_char n = of_nat (if n < 10 then 48 + n else 87 + n)"

definition fmt_02x :: "byte \<Rightarrow> bytes" where
  "fmt_02x c = [hex_char (unat c div 16), hex_char (unat c mod 16)]"

definition repr_char :: "fresh_mem \<Rightarrow> sdshdr \<Rightarrow> byte \<Rightarrow> sdshdr option" where
  "repr_char g s c =
     (if c = 92 \<or> c = 34 then sdscatprintf g s [92, c]
      else if c = 10 then sdscatlen g s [92, 110, 0] 2
      else if c = 13 then sdscatlen g s [92, 114, 0] 2
      else if c = 9 then sdscatlen g s [92, 116, 0] 2
      else if c = 7 then sdscatlen g s [92, 97, 0] 2
      else if c = 8 then sdscatlen g s [92, 98, 0] 2
      else if isprint c then sdscatprintf g s [c]
      else sdscatprintf g s ([92, 120] @ fmt_02x c))"

fun repr_loop :: "fresh_mem \<Rightarrow> sdshdr \<Rightarrow> bytes \<Rightarrow> nat \<Rightarrow> nat \<Rightarrow> sdshdr option" where
  "repr_loop g s p i 0 = Some s"
| "repr_loop g s p i (Suc n) = do {
     c \<leftarrow> mem_byte p i;
     s \<leftarrow> repr_char g s c;
     repr_loop g s p (i + 1) n
   }"

definition sdscatrepr :: "fresh_mem \<Rightarrow> sdshdr \<Rightarrow> bytes \<Rightarrow> nat \<Rightarrow> sdshdr option" where
  "sdscatrepr g s p len = do {
     s \<leftarrow> sdscatlen g s [34, 0] 1;
     s \<leftarrow> repr_loop g s p 0 len;
     sdscatlen g s [34, 0] 1
   }"

definition is_hex_digit :: "byte \<Rightarrow> bool" where
  "is_hex_digit c \<longleftrightarrow> 48 \<le> c \<and> c \<le> 57 \<or> 97 \<le> c \<and> c \<le> 102 \<or> 65 \<le> c \<and> c \<le> 70"

definition hex_digit_to_int :: "byte \<Rightarrow> nat" where
  "hex_digit_to_int c =
     (if c = 48 then 0 else if c = 49 then 1 else if c = 50 then 2 else if c = 51 then 3
      else if c = 52 then 4 else if c = 53 then 5 else if c = 54 then 6 else if c = 55 then 7
      else if c = 56 then 8 else if c = 57 then 9
      else if c = 97 \<or> c = 65 then 10 else if c = 98 \<or> c = 66 then 11
      else if c = 99 \<or> c = 67 then 12 else if c = 100 \<or> c = 68 then 13
      else if c = 101 \<or> c = 69 then 14 else if c = 102 \<or> c = 70 then 15 else 0)"

text \<open>The condition of the \<open>\x\<close> escape, evaluated from left to right.\<close>

definition at_hex_escape :: "bytes \<Rightarrow> nat \<Rightarrow> bool option" where
  "at_hex_escape line p = do {
     c0 \<leftarrow> cget line p;
     if c0 \<noteq> 92 then Some False
     else do {
       c1 \<leftarrow> cget line (p + 1);
       if c1 \<noteq> 120 then Some False
       else do {
         c2 \<leftarrow> cget line (p + 2);
         if \<not> is_hex_digit c2 then Some False
         else do { c3 \<leftarrow> cget line (p + 3); Some (is_hex_digit c3) }
       }
     }
   }"

definition unescape :: "byte \<Rightarrow> byte" where
  "unescape c = (if c = 110 then 10 else if c = 114 then 13 else if c = 116 then 9
                 else if c = 98 then 8 else if c = 97 then 7 else c)"

text \<open>One round of the token loop: an error, the end of the token, or another round.\<close>

datatype token_step = TErr | TDone nat sdshdr | TMore bool bool nat sdshdr

definition close_quote :: "bytes \<Rightarrow> nat \<Rightarrow> sdshdr \<Rightarrow> token_step option" where
  "close_quote line p cur = do {
     c1 \<leftarrow> cget line (p + 1);
     Some (if c1 \<noteq> 0 \<and> \<not> isspace c1 then TErr else TDone p cur)
   }"

definition step_inq :: "fresh_mem \<Rightarrow> bytes \<Rightarrow> nat \<Rightarrow> sdshdr \<Rightarrow> token_step option" where
  "step_inq g line p cur = do {
     hex \<leftarrow> at_hex_escape line p;
     c \<leftarrow> cget line p;
     if hex then do {
       c2 \<leftarrow> cget line (p + 2);
       c3 \<leftarrow> cget line (p + 3);
       cur \<leftarrow> sdscatlen g cur [of_nat (hex_digit_to_int c2 * 16 + hex_digit_to_int c3)] 1;
       Some (TMore True False (p + 3) cur)
     } else do {
       c1 \<leftarrow> (if c = 92 then cget line (p + 1) else Some 0);
       if c = 92 \<and> c1 \<noteq> 0 then do {
         cur \<leftarrow> sdscatlen g cur [unescape c1] 1;
         Some (TMore True False (p + 1) cur)
       }
       else if c = 34 then close_quote line p cur
       else if c = 0 then Some TErr
       else do { cur \<leftarrow> sdscatlen g cur [c] 1; Some (TMore True False p cur) }
     }
   }"

definition step_insq :: "fresh_mem \<Rightarrow> bytes \<Rightarrow> nat \<Rightarrow> sdshdr \<Rightarrow> token_step option" where
  "step_insq g line p cur = do {
     c \<leftarrow> cget line p;
     c1 \<leftarrow> (if c = 92 then cget line (p + 1) else Some 0);
     if c = 92 \<and> c1 = 39 then do {
       cur \<leftarrow> sdscatlen g cur [39, 0] 1;
       Some (TMore False True (p + 1) cur)
     }
     else if c = 39 then close_quote line p cur
     else if c = 0 then Some TErr
     else do { cur \<leftarrow> sdscatlen g cur [c] 1; Some (TMore False True p cur) }
   }"

definition step_plain :: "fresh_mem \<Rightarrow> bytes \<Rightarrow> nat \<Rightarrow> sdshdr \<Rightarrow> token_step option" where
  "step_plain g line p cur = do {
     c \<leftarrow> cget line p;
     if c = 32 \<or> c = 10 \<or> c = 13 \<or> c = 9 \<or> c = 0 then Some (TDone p cur)
     else if c = 34 then Some (TMore True False p cur)
     else if c = 39 then Some (TMore False True p cur)
     else do { cur \<leftarrow> sdscatlen g cur [c] 1; Some (TMore False False p cur) }
   }"

partial_function (option) token_loop ::
    "fresh_mem \<Rightarrow> bytes \<Rightarrow> bool \<Rightarrow> bool \<Rightarrow> nat \<Rightarrow> sdshdr \<Rightarrow> (nat \<times> sdshdr) option option" where
  "token_loop g line inq insq p cur = do {
     st \<leftarrow> (if inq then step_inq g line p cur else if insq then step_insq g line p cur else step_plain g line p cur);
     (case st of
        TErr \<Rightarrow> Some None
      | TDone p cur \<Rightarrow> do { c \<leftarrow> cget line p; Some (Some (if c \<noteq> 0 then p + 1 else p, cur)) }
      | TMore inq insq p cur \<Rightarrow> do { c \<leftarrow> cget line p; token_loop g line inq insq (if c \<noteq> 0 then p + 1 else p) cur })
   }"

function skip_blanks :: "bytes \<Rightarrow> nat \<Rightarrow> nat" where
  "skip_blanks line p = (if p < length line \<and> line ! p \<noteq> 0 \<and> isspace (line ! p) then skip_blanks line (p + 1) else p)"
  by pat_completeness auto
termination
  by (relation "measure (\<lambda>(line, p). length line - p)") auto

declare skip_blanks.simps [simp del]

partial_function (option) args_loop :: "fresh_mem \<Rightarrow> bytes \<Rightarrow> nat \<Rightarrow> sdshdr list \<Rightarrow> sdshdr list option option" where
  "args_loop g line p vec = do {
     let p = skip_blanks line p;
     c \<leftarrow> cget line p;
     if c \<noteq> 0 then do {
       cur \<leftarrow> sdsempty g;
       r \<leftarrow> token_loop g line False False p cur;
       (case r of None \<Rightarrow> Some None | Some (p, cur) \<Rightarrow> args_loop g line p (vec @ [cur]))
     } else Some (Some vec)
   }"

text \<open>\<open>Some None\<close> is the NULL result for unbalanced quotes.\<close>

definition sdssplitargs :: "fresh_mem \<Rightarrow> bytes \<Rightarrow> sdshdr list option option" where
  "sdssplitargs g line = args_loop g line 0 []"

text \<open>
  The loop of \<open>replicationFeedMonitors\<close> that prints the arguments of a command; an argument is an
  integer or a string object.
\<close>

datatype monitor_arg = ArgInt int | ArgSds sdshdr

fun feed_args :: "fresh_mem \<Rightarrow> sdshdr \<Rightarrow> monitor_arg list \<Rightarrow> sdshdr option" where
  "feed_args g s [] = Some s"
| "feed_args g s (a # as) = do {
     s \<leftarrow> (case a of
             ArgInt v \<Rightarrow> sdscatprintf g s ([34] @ int_dec v @ [34])
           | ArgSds t \<Rightarrow> sdscatrepr g s (sds_buf t) (sdslen t));
     s \<leftarrow> (if as \<noteq> [] then sdscatlen g s [32, 0] 1 else Some s);
     feed_args g s as
   }"

section \<open>Representation\<close>

text \<open>
  The string \<open>xs\<close> followed by a terminator and \<open>length m\<close> bytes of free space. Up to
  \<open>SDS_LIMIT\<close> bytes the preallocation does not overflow the header.
\<close>

definition sds_mk :: "bytes \<Rightarrow> bytes \<Rightarrow> sdshdr" where
  "sds_mk xs m = \<lparr>sds_len = int (length xs), sds_free = int (length m), sds_buf = xs @ 0 # m\<rparr>"

definition sds_rep :: "sdshdr \<Rightarrow> bytes \<Rightarrow> bool" where
  "sds_rep s xs \<longleftrightarrow> (\<exists>m. s = sds_mk xs m \<and> length xs + length m + 1 \<le> 2 ^ 31)"

definition SDS_LIMIT :: nat where "SDS_LIMIT = 2 ^ 31 - 2 ^ 20 - 1"

lemma sds_repI: "\<lbrakk>s = sds_mk xs m; length xs + length m + 1 \<le> 2 ^ 31\<rbrakk> \<Longrightarrow> sds_rep s xs"
  by (auto simp: sds_rep_def)

lemma sds_repE:
  assumes "sds_rep s xs"
  obtains m where "s = sds_mk xs m" "length xs + length m + 1 \<le> 2 ^ 31"
  using assms by (auto simp: sds_rep_def)

text \<open>The invariant that the representation stands for, in terms of the fields.\<close>

definition sds_inv :: "sdshdr \<Rightarrow> bool" where
  "sds_inv s \<longleftrightarrow> 0 \<le> sds_len s \<and> 0 \<le> sds_free s \<and> int (length (sds_buf s)) = sds_len s + sds_free s + 1 \<and>
     length (sds_buf s) \<le> 2 ^ 31 \<and> sds_buf s ! nat (sds_len s) = 0"

definition sds_str :: "sdshdr \<Rightarrow> bytes" where
  "sds_str s = take (nat (sds_len s)) (sds_buf s)"

lemma sds_rep_iff: "sds_rep s xs \<longleftrightarrow> sds_inv s \<and> sds_str s = xs"
proof
  assume "sds_rep s xs"
  then show "sds_inv s \<and> sds_str s = xs"
    by (auto simp: sds_rep_def sds_inv_def sds_str_def sds_mk_def nth_append)
next
  assume a: "sds_inv s \<and> sds_str s = xs"
  let ?n = "nat (sds_len s)"
  define m where "m = drop (?n + 1) (sds_buf s)"
  have n: "?n < length (sds_buf s)" using a by (auto simp: sds_inv_def)
  then have "sds_buf s = take ?n (sds_buf s) @ sds_buf s ! ?n # drop (?n + 1) (sds_buf s)"
    using id_take_nth_drop by fastforce
  then have "sds_buf s = xs @ 0 # m" using a by (simp add: sds_inv_def sds_str_def m_def)
  moreover have "sds_len s = int (length xs)" "sds_free s = int (length m)"
    using a n by (auto simp: sds_inv_def sds_str_def m_def)
  ultimately have "s = sds_mk xs m" by (simp add: sds_mk_def)
  moreover have "length xs + length m + 1 \<le> 2 ^ 31"
    using a \<open>sds_buf s = xs @ 0 # m\<close> by (simp add: sds_inv_def)
  ultimately show "sds_rep s xs" by (rule sds_repI)
qed

named_theorems sds_simps

lemma narrow32_small [sds_simps]: "\<lbrakk>- (2 ^ 31) \<le> v; v < 2 ^ 31\<rbrakk> \<Longrightarrow> narrow32 v = v"
  by (simp add: narrow32_def)

lemma to_size_small [sds_simps]: "\<lbrakk>0 \<le> v; v < 2 ^ 64\<rbrakk> \<Longrightarrow> to_size v = nat v"
  by (simp add: to_size_def)

lemma sds_mk_fields [simp]:
  "sds_len (sds_mk xs m) = int (length xs)" "sds_free (sds_mk xs m) = int (length m)" "sds_buf (sds_mk xs m) = xs @ 0 # m"
  by (simp_all add: sds_mk_def)

lemma sdslen_mk [sds_simps]: "length xs + length m + 1 \<le> 2 ^ 31 \<Longrightarrow> sdslen (sds_mk xs m) = length xs"
  by (simp add: sdslen_def to_size_small)

lemma sdsavail_mk [sds_simps]: "length xs + length m + 1 \<le> 2 ^ 31 \<Longrightarrow> sdsavail (sds_mk xs m) = length m"
  by (simp add: sdsavail_def to_size_small)

lemma sdslen_rep: "sds_rep s xs \<Longrightarrow> sdslen s = length xs"
  by (auto elim!: sds_repE simp: sds_simps)

lemma mk_eqI: "\<lbrakk>sds_len s = int (length xs); sds_free s = int (length m); sds_buf s = xs @ 0 # m\<rbrakk> \<Longrightarrow> s = sds_mk xs m"
  by (simp add: sds_mk_def)

section \<open>The operations on strings\<close>

lemma sdsnewlen_rep:
  assumes "n \<le> length t" and "n + 1 \<le> 2 ^ 31"
  shows "\<exists>s. sdsnewlen g (Some t) n = Some s \<and> sds_rep s (take n t)"
proof -
  have "sdsnewlen g (Some t) n = Some (sds_mk (take n t) [])"
  proof (cases "n = 0")
    case True
    then show ?thesis by (simp add: sdsnewlen_def mem_write_def zmalloc_def sds_mk_def narrow32_def)
  next
    case False
    with assms show ?thesis
      by (simp add: sdsnewlen_def mem_simps sds_mk_def narrow32_small)
  qed
  with assms show ?thesis by (auto intro: sds_repI [of _ _ "[]"])
qed

lemma sdsnewlen_zero:
  assumes "n + 1 \<le> 2 ^ 31"
  shows "\<exists>s. sdsnewlen g None n = Some s \<and> sds_rep s (replicate n 0)"
proof -
  have "sdsnewlen g None n = Some (sds_mk (replicate n 0) [])"
    using assms by (simp add: sdsnewlen_def mem_simps sds_mk_def narrow32_small replicate_append_same [symmetric])
  with assms show ?thesis by (auto intro: sds_repI [of _ _ "[]"])
qed

lemma sdsempty_rep: "\<exists>s. sdsempty g = Some s \<and> sds_rep s []"
  using sdsnewlen_rep [of 0 "[0]" g] by (simp add: sdsempty_def)

lemma zrealloc_more:
  assumes "length bs \<le> n"
  shows "\<exists>j. zrealloc g bs n = bs @ j \<and> length j = n - length bs"
  by (rule zrealloc_grow [OF assms]) blast

lemma sdsMakeRoomFor_rep:
  assumes m: "length xs + length m + 1 \<le> 2 ^ 31" and lim: "length xs + add \<le> SDS_LIMIT"
  shows "\<exists>m'. sdsMakeRoomFor g (sds_mk xs m) add = sds_mk xs m' \<and> add \<le> length m' \<and> length xs + length m' + 1 \<le> 2 ^ 31"
proof (cases "add \<le> length m")
  case True
  with m show ?thesis by (intro exI [of _ m]) (simp add: sdsMakeRoomFor_def sds_simps)
next
  case False
  define n where "n = (if length xs + add < SDS_MAX_PREALLOC then (length xs + add) * 2 else length xs + add + SDS_MAX_PREALLOC)"
  have n: "length xs + add \<le> n" "n + 1 \<le> 2 ^ 31"
    using lim by (auto simp: n_def SDS_LIMIT_def SDS_MAX_PREALLOC_def)
  have nm: "(if (length xs + add) mod 2 ^ 64 < SDS_MAX_PREALLOC then (length xs + add) mod 2 ^ 64 * 2
             else (length xs + add) mod 2 ^ 64 + SDS_MAX_PREALLOC) mod 2 ^ 64 = n"
  proof -
    have "(length xs + add) mod 2 ^ 64 = length xs + add" using n by simp
    then have "?thesis \<longleftrightarrow> n mod 2 ^ 64 = n" by (simp only: n_def)
    with n show ?thesis by simp
  qed
  have "length (xs @ 0 # m) \<le> n + 1" using False n by simp
  from zrealloc_more [OF this, of g] obtain j where j: "zrealloc g (xs @ 0 # m) (n + 1) = (xs @ 0 # m) @ j"
    "length j = n + 1 - length (xs @ 0 # m)" by blast
  have "sdsMakeRoomFor g (sds_mk xs m) add = (sds_mk xs m)\<lparr>sds_buf := (xs @ 0 # m) @ j, sds_free := narrow32 (int n - int (length xs))\<rparr>"
    using False m by (simp only: sdsMakeRoomFor_def Let_def sdslen_mk sdsavail_mk if_False nm j(1) sds_mk_fields)
  also have "\<dots> = sds_mk xs (m @ j)"
    using n j(2) False by (simp add: sds_mk_def narrow32_small)
  finally show ?thesis using j(2) n False by (intro exI [of _ "m @ j"]) simp
qed

lemma sdscatlen_rep:
  assumes "sds_rep s xs" and "n \<le> length t" and lim: "length xs + n \<le> SDS_LIMIT"
  shows "\<exists>s'. sdscatlen g s t n = Some s' \<and> sds_rep s' (xs @ take n t)"
proof -
  from assms(1) obtain m where s: "s = sds_mk xs m" and m: "length xs + length m + 1 \<le> 2 ^ 31" by (rule sds_repE)
  obtain m' where r: "sdsMakeRoomFor g s n = sds_mk xs m'" and m': "n \<le> length m'" "length xs + length m' + 1 \<le> 2 ^ 31"
    using sdsMakeRoomFor_rep [OF m lim] s by blast
  have w1: "mem_write (xs @ 0 # m') (length xs) (take n t) = Some (xs @ take n t @ drop n (0 # m'))"
    using assms(2) m' by (simp add: mem_write_def min_def)
  have w2: "mem_write (xs @ take n t @ drop n (0 # m')) (length xs + n) [0] = Some ((xs @ take n t) @ 0 # drop n m')"
    using assms(2) m' by (simp add: mem_write_def min_def)
  have "sdscatlen g s t n = Some (sds_mk (xs @ take n t) (drop n m'))"
    using assms(2) m m' w1 w2 r
    by (simp add: sdscatlen_def s sds_simps mem_read_def Let_def)
  with assms(2) m' show ?thesis by (auto intro!: sds_repI [where m = "drop n m'"] simp: min_def)
qed

text \<open>The dynamic strings are a growing buffer.\<close>

definition sdsapp :: "fresh_mem \<Rightarrow> sdshdr \<Rightarrow> bytes \<Rightarrow> sdshdr option" where
  "sdsapp g s xs = sdscatlen g s xs (length xs)"

interpretation sbuf: buffer sds_rep "sdsempty g" "sdsapp g" SDS_LIMIT for g
proof
  show "\<exists>s. sdsempty g = Some s \<and> sds_rep s []" by (rule sdsempty_rep)
  show "\<exists>s'. sdsapp g s ys = Some s' \<and> sds_rep s' (xs @ ys)"
    if "sds_rep s xs" "length xs + length ys \<le> SDS_LIMIT" for s xs ys
    using sdscatlen_rep [OF that(1) _ that(2), of ys g] by (simp add: sdsapp_def)
qed

lemma sdsclear_rep:
  assumes "sds_rep s xs"
  shows "\<exists>s'. sdsclear s = Some s' \<and> sds_rep s' []"
proof -
  from assms obtain m where s: "s = sds_mk xs m" and m: "length xs + length m + 1 \<le> 2 ^ 31" by (rule sds_repE)
  have "sdsclear s = Some (sds_mk [] (tl (xs @ [0]) @ m))"
    using m by (cases xs) (simp_all add: sdsclear_def s mem_write_def sds_mk_def narrow32_small)
  then show ?thesis using m by (auto intro!: sds_repI [where m = "tl (xs @ [0]) @ m"])
qed

lemma sdsupdatelen_rep:
  assumes "sds_rep s xs"
  shows "\<exists>s'. sdsupdatelen s = Some s' \<and> sds_rep s' (takeWhile (\<lambda>c. c \<noteq> 0) xs)"
proof -
  from assms obtain m where s: "s = sds_mk xs m" and m: "length xs + length m + 1 \<le> 2 ^ 31" by (rule sds_repE)
  let ?t = "takeWhile (\<lambda>c. c \<noteq> 0) xs"
  have le: "length ?t \<le> length xs" by (rule length_takeWhile_le)
  have sl: "c_strlen (xs @ 0 # m) = Some (length ?t)"
    by (cases "0 \<in> set xs") (auto simp: c_strlen_def takeWhile_append takeWhile_eq_all_conv [THEN iffD2])
  define r where "r = drop (length ?t + 1) (xs @ 0 # m)"
  have "xs @ 0 # m = ?t @ dropWhile (\<lambda>c. c \<noteq> 0) xs @ 0 # m" by simp
  moreover have "dropWhile (\<lambda>c. c \<noteq> 0) xs @ 0 # m = 0 # tl (dropWhile (\<lambda>c. c \<noteq> 0) xs @ 0 # m)"
  proof (cases "dropWhile (\<lambda>c. c \<noteq> 0) xs")
    case Nil
    show ?thesis unfolding Nil by simp
  next
    case (Cons c ys)
    then have "c = 0" using hd_dropWhile [of "\<lambda>c. c \<noteq> 0" xs] by simp
    then show ?thesis unfolding Cons by simp
  qed
  ultimately have b: "xs @ 0 # m = ?t @ 0 # tl (dropWhile (\<lambda>c. c \<noteq> 0) xs @ 0 # m)" by metis
  then have "r = tl (dropWhile (\<lambda>c. c \<noteq> 0) xs @ 0 # m)"
    unfolding r_def by (metis (no_types, lifting) add.commute append_eq_conv_conj drop_Suc list.sel(3) plus_1_eq_Suc tl_drop)
  with b have b': "xs @ 0 # m = ?t @ 0 # r" by simp
  have lr: "length ?t + length r = length xs + length m" using le by (simp add: r_def)
  have "sdsupdatelen s = Some (sds_mk ?t r)"
    using m le lr by (simp add: sdsupdatelen_def s sl narrow32_small Let_def) (simp add: sds_mk_def b' narrow32_small)
  then show ?thesis using m lr by (auto intro!: sds_repI [where m = r])
qed

lemma sdsRemoveFreeSpace_rep:
  assumes "sds_rep s xs"
  shows "sds_rep (sdsRemoveFreeSpace g s) xs \<and> sds_free (sdsRemoveFreeSpace g s) = 0"
proof -
  from assms obtain m where s: "s = sds_mk xs m" and m: "length xs + length m + 1 \<le> 2 ^ 31" by (rule sds_repE)
  have "sdsRemoveFreeSpace g s = sds_mk xs []"
    using m by (simp add: sdsRemoveFreeSpace_def s zrealloc_shrink sds_mk_def to_size_small nat_add_distrib)
  then show ?thesis using m by (auto intro!: sds_repI [where m = "[]"])
qed

lemma mem_write_end: "n < length b \<Longrightarrow> mem_write b n [0] = Some (take n b @ 0 # drop (n + 1) b)"
  by (simp add: mem_write_def)

lemma mem_write_str:
  "\<lbrakk>n \<le> length t; n < length b\<rbrakk> \<Longrightarrow>
     mem_write b 0 (take n t) = Some (take n t @ drop n b) \<and>
     mem_write (take n t @ drop n b) n [0] = Some (take n t @ 0 # drop (n + 1) b)"
  by (simp add: mem_write_def min_def)

lemma sdsIncrLen_rep:
  assumes "sds_rep s xs" and "incr \<le> sds_free s" and "0 \<le> int (length xs) + incr"
  shows "\<exists>s'. sdsIncrLen s incr = Some s' \<and> sds_rep s' (take (nat (int (length xs) + incr)) (sds_buf s))"
proof -
  from assms(1) obtain m where s: "s = sds_mk xs m" and m: "length xs + length m + 1 \<le> 2 ^ 31" by (rule sds_repE)
  define n where "n = nat (int (length xs) + incr)"
  define b where "b = xs @ 0 # m"
  have n: "n < length b" "int n = int (length xs) + incr" "length b = length xs + length m + 1"
    using assms(2,3) s by (auto simp: n_def b_def)
  have "sdsIncrLen s incr = Some (sds_mk (take n b) (drop (n + 1) b))"
    using n m assms(2,3) by (simp add: sdsIncrLen_def s narrow32_small mem_write_end sds_mk_def Let_def min_def flip: b_def n_def)
  then show ?thesis using n m by (auto intro!: sds_repI [where m = "drop (n + 1) b"] simp: s simp flip: b_def n_def)
qed

lemma sdsgrowzero_rep:
  assumes "sds_rep s xs" and lim: "n \<le> SDS_LIMIT"
  shows "\<exists>s'. sdsgrowzero g s n = Some s' \<and> sds_rep s' (xs @ replicate (n - length xs) 0)"
proof (cases "n \<le> length xs")
  case True
  with assms(1) show ?thesis by (simp add: sdsgrowzero_def sdslen_rep)
next
  case False
  from assms(1) obtain m where s: "s = sds_mk xs m" and m: "length xs + length m + 1 \<le> 2 ^ 31" by (rule sds_repE)
  let ?k = "n - length xs"
  have "length xs + ?k \<le> SDS_LIMIT" using False lim by simp
  from sdsMakeRoomFor_rep [OF m this, of g] obtain m' where r: "sdsMakeRoomFor g s ?k = sds_mk xs m'"
    and m': "?k \<le> length m'" "length xs + length m' + 1 \<le> 2 ^ 31" using s by blast
  have w: "mem_write (xs @ 0 # m') (length xs) (replicate (?k + 1) 0) = Some ((xs @ replicate ?k 0) @ 0 # drop ?k m')"
    using m' by (simp add: mem_write_def replicate_append_same [symmetric])
  have "sdsgrowzero g s n = Some (sds_mk (xs @ replicate ?k 0) (drop ?k m'))"
    using False m m' w r by (simp add: sdsgrowzero_def sdslen_rep [OF assms(1)] Let_def narrow32_small)
  then show ?thesis using False m' by (auto intro!: sds_repI [where m = "drop ?k m'"])
qed

lemma sdscpylen_rep:
  assumes "sds_rep s xs" and n: "n \<le> length t" and lim: "n \<le> SDS_LIMIT"
  shows "\<exists>s'. sdscpylen g s t n = Some s' \<and> sds_rep s' (take n t)"
proof -
  from assms(1) obtain m where s: "s = sds_mk xs m" and m: "length xs + length m + 1 \<le> 2 ^ 31" by (rule sds_repE)
  have "\<exists>m'. (if to_size (sds_free s + sds_len s) < n then sdsMakeRoomFor g s (to_size (int n - sds_len s)) else s) = sds_mk xs m' \<and>
      n \<le> length xs + length m' \<and> length xs + length m' + 1 \<le> 2 ^ 31"
  proof (cases "length m + length xs < n")
    case True
    then have "length xs + (n - length xs) \<le> SDS_LIMIT" using lim by simp
    from sdsMakeRoomFor_rep [OF m this, of g] True m lim show ?thesis
      by (auto simp: s to_size_small SDS_LIMIT_def nat_diff_distrib)
  next
    case False
    with m show ?thesis by (intro exI [of _ m]) (auto simp: s to_size_small nat_add_distrib)
  qed
  then obtain m' where r: "(if to_size (sds_free s + sds_len s) < n then sdsMakeRoomFor g s (to_size (int n - sds_len s)) else s) = sds_mk xs m'"
    and m': "n \<le> length xs + length m'" "length xs + length m' + 1 \<le> 2 ^ 31" by blast
  define b where "b = xs @ 0 # m'"
  have b: "n < length b" "length b = length xs + length m' + 1" using m' by (simp_all add: b_def)
  have "sdscpylen g s t n = Some (sds_mk (take n t) (drop (n + 1) b))"
    unfolding sdscpylen_def r
    using n m' b mem_write_str [OF n b(1)] by (simp add: mem_read_def Let_def narrow32_small sds_mk_def flip: b_def)
  then show ?thesis using n m' b by (auto intro!: sds_repI [where m = "drop (n + 1) b"] simp: min_def)
qed

text \<open>Trimming: the two index loops find the ends of the rest.\<close>

definition trim :: "bytes \<Rightarrow> bytes \<Rightarrow> bytes" where
  "trim cset xs = rev (dropWhile (strchr cset) (rev (dropWhile (strchr cset) xs)))"

lemma trim_left_spec:
  assumes "j \<le> length xs"
  shows "trim_left (xs @ m) cset (int j) (int (length xs) - 1) =
           Some (int (j + length (takeWhile (strchr cset) (drop j xs))))"
  using assms
proof (induction "length xs - j" arbitrary: j)
  case 0
  then show ?case by (simp add: trim_left.simps)
next
  case (Suc k)
  then have j: "j < length xs" by simp
  then have d: "drop j xs = xs ! j # drop (j + 1) xs" by (metis Cons_nth_drop_Suc Suc_eq_plus1)
  have b: "mem_byte (xs @ m) j = Some (xs ! j)" using j by (simp add: mem_byte_def nth_append)
  have "trim_left (xs @ m) cset (int (j + 1)) (int (length xs) - 1) =
      Some (int (j + 1 + length (takeWhile (strchr cset) (drop (j + 1) xs))))"
    using Suc by (intro Suc(1)) auto
  with j b d show ?case by (subst trim_left.simps) (auto simp: add.commute)
qed

lemma trim_right_spec:
  assumes "j < length xs"
  shows "trim_right (xs @ m) cset (int j) =
           Some (int (j - length (takeWhile (strchr cset) (rev (take j (tl xs))))))"
  using assms
proof (induction j)
  case 0
  then show ?case by (simp add: trim_right.simps)
next
  case (Suc j)
  have b: "mem_byte (xs @ m) (Suc j) = Some (xs ! Suc j)" using Suc.prems by (simp add: mem_byte_def nth_append)
  have "take (Suc j) (tl xs) = take j (tl xs) @ [xs ! Suc j]"
    using Suc.prems by (cases xs) (auto simp: take_Suc_conv_app_nth)
  then have t: "rev (take (Suc j) (tl xs)) = xs ! Suc j # rev (take j (tl xs))" by simp
  have "nat (1 + int j) = Suc j" "1 + int j - 1 = int j" by auto
  then show ?case using Suc b t by (subst trim_right.simps) simp
qed

lemma move_front:
  assumes "a + n < length b" and "c \<or> a = 0 \<or> n = 0"
  shows "\<exists>b1 m'. (if c then memmove b 0 a n else Some b) = Some b1 \<and>
           mem_write b1 n [0] = Some (take n (drop a b) @ 0 # m') \<and> length m' + n + 1 = length b"
proof -
  have n: "n < length b" using assms(1) by simp
  show ?thesis
  proof (cases c)
    case True
    have "memmove b 0 a n = Some (take n (drop a b) @ drop n b)" using assms(1) by (simp add: memmove_Some)
    moreover have "mem_write (take n (drop a b) @ drop n b) n [0] = Some (take n (drop a b) @ 0 # drop (n + 1) b)"
      using mem_write_str [of n "drop a b" b] assms(1) by simp
    ultimately show ?thesis using n True by simp
  next
    case False
    with assms(2) have "take n (drop a b) = take n b" by auto
    with mem_write_end [OF n] n False show ?thesis by simp
  qed
qed

lemma takeWhile_rev_tl:
  assumes "\<exists>x \<in> set xs. \<not> P x"
  shows "takeWhile P (rev (tl xs)) = takeWhile P (rev xs)"
proof (cases xs)
  case (Cons y ys)
  show ?thesis
  proof (cases "\<forall>x \<in> set ys. P x")
    case True
    with assms Cons have "\<not> P y" by auto
    with True Cons show ?thesis by (simp add: takeWhile_append takeWhile_eq_all_conv [THEN iffD2])
  next
    case False
    with Cons show ?thesis by (auto simp: takeWhile_append)
  qed
qed simp

lemma trim_slice:
  assumes "\<exists>x \<in> set xs. \<not> strchr cset x"
  defines "a \<equiv> length (takeWhile (strchr cset) xs)" and "w \<equiv> length (takeWhile (strchr cset) (rev xs))"
  shows "trim cset xs = take (length xs - w - a) (drop a xs)" and "a + w < length xs"
proof -
  let ?P = "strchr cset"
  have d: "dropWhile ?P xs = drop a xs" by (simp add: a_def dropWhile_eq_drop)
  have ne: "\<exists>x \<in> set (drop a xs). \<not> ?P x"
  proof -
    have "dropWhile ?P xs \<noteq> []" using assms(1) by simp
    then have "hd (dropWhile ?P xs) \<in> set (dropWhile ?P xs)" "\<not> ?P (hd (dropWhile ?P xs))"
      by (rule hd_in_set, rule hd_dropWhile)
    with d show ?thesis by metis
  qed
  have "rev xs = rev (drop a xs) @ rev (take a xs)" by (simp flip: rev_append)
  then have tw: "takeWhile ?P (rev xs) = takeWhile ?P (rev (drop a xs))"
    using ne by (auto simp: takeWhile_append)
  have "length (takeWhile ?P (rev (drop a xs))) \<noteq> length (rev (drop a xs))"
  proof
    assume "length (takeWhile ?P (rev (drop a xs))) = length (rev (drop a xs))"
    then have "takeWhile ?P (rev (drop a xs)) = rev (drop a xs)"
      by (metis takeWhile_eq_take take_all order_refl)
    with ne show False by (auto simp: takeWhile_eq_all_conv)
  qed
  moreover have "length (takeWhile ?P (rev (drop a xs))) \<le> length (rev (drop a xs))" by (rule length_takeWhile_le)
  ultimately show "a + w < length xs" by (simp add: w_def tw)
  show "trim cset xs = take (length xs - w - a) (drop a xs)"
    unfolding trim_def d dropWhile_eq_drop [of _ "rev (drop a xs)"] tw [symmetric] w_def [symmetric]
    by (simp add: drop_rev diff_commute add.commute)
qed

lemma sdstrim_rep:
  assumes "sds_rep s xs"
  shows "\<exists>s'. sdstrim s cset = Some s' \<and> sds_rep s' (trim cset xs)"
proof -
  from assms obtain m where s: "s = sds_mk xs m" and m: "length xs + length m + 1 \<le> 2 ^ 31" by (rule sds_repE)
  define a where "a = length (takeWhile (strchr cset) xs)"
  define w where "w = length (takeWhile (strchr cset) (rev xs))"
  have l: "trim_left (xs @ 0 # m) cset 0 (int (length xs) - 1) = Some (int a)"
    using trim_left_spec [of 0 xs "0 # m" cset] by (simp add: a_def)
  have "\<exists>ep. trim_right (xs @ 0 # m) cset (int (length xs) - 1) = Some ep \<and>
      (let n = (if int a > ep then 0 else nat (ep - int a + 1)) in trim cset xs = take n (drop a xs) \<and> a + n \<le> length xs)"
  proof (cases "\<exists>x \<in> set xs. \<not> strchr cset x")
    case True
    note t = trim_slice [OF True, folded a_def w_def]
    then have lt: "length xs - 1 < length xs" by simp
    have "trim_right (xs @ 0 # m) cset (int (length xs - 1)) = Some (int (length xs - 1 - w))"
      using trim_right_spec [OF lt, of "0 # m" cset] takeWhile_rev_tl [OF True] by (simp add: w_def)
    moreover have "int (length xs) - 1 = int (length xs - 1)" using t(2) by simp
    moreover have "nat (int (length xs - 1 - w) - int a + 1) = length xs - w - a" "\<not> int a > int (length xs - 1 - w)"
      using t(2) by auto
    moreover have "a + (length xs - w - a) \<le> length xs" using t(2) by simp
    ultimately show ?thesis using t(1)
      by (intro exI [of _ "int (length xs - 1 - w)"]) (simp only: Let_def if_False simp_thms)
  next
    case False
    then have "a = length xs" "trim cset xs = []"
      by (simp_all add: a_def trim_def takeWhile_eq_all_conv [THEN iffD2] dropWhile_eq_Nil_conv [THEN iffD2] del: dropWhile_eq_Nil_conv)
    moreover have "\<exists>ep. trim_right (xs @ 0 # m) cset (int (length xs) - 1) = Some ep \<and> ep < int (length xs)"
    proof (cases "xs = []")
      case True
      then show ?thesis by (simp add: trim_right.simps)
    next
      case False
      then have lt: "length xs - 1 < length xs" "int (length xs) - 1 = int (length xs - 1)" by (auto simp: Suc_leI)
      from trim_right_spec [OF lt(1), of "0 # m" cset] show ?thesis unfolding lt(2)
        by (intro exI conjI) (assumption, use lt(1) in linarith)
    qed
    ultimately show ?thesis by (auto simp: Let_def)
  qed
  then obtain ep n where r: "trim_right (xs @ 0 # m) cset (int (length xs) - 1) = Some ep"
    and n: "n = (if int a > ep then 0 else nat (ep - int a + 1))" "trim cset xs = take n (drop a xs)" "a + n \<le> length xs"
    by (auto simp: Let_def)
  define b where "b = xs @ 0 # m"
  have "a + n < length b" "int a \<noteq> 0 \<or> a = 0 \<or> n = 0" using n(3) by (auto simp: b_def)
  from move_front [OF this] obtain b1 m' where b: "(if int a \<noteq> 0 then memmove b 0 a n else Some b) = Some b1"
    "mem_write b1 n [0] = Some (take n (drop a b) @ 0 # m')" "length m' + n + 1 = length b" by blast
  have "take n (drop a b) = trim cset xs" using n by (simp add: b_def)
  with b(2) have b2: "mem_write b1 n [0] = Some (trim cset xs @ 0 # m')" by simp
  have ln: "length (trim cset xs) = n" using n by simp
  have "sds_buf s = b" by (simp add: s b_def)
  then have "sdstrim s cset = (if int a \<noteq> 0 then memmove b 0 a n else Some b) \<bind> (\<lambda>buf. mem_write buf n [0] \<bind>
      (\<lambda>buf. Some (s\<lparr>sds_buf := buf, sds_free := narrow32 (sds_free s + (sds_len s - int n)), sds_len := narrow32 (int n)\<rparr>)))"
    using l r by (simp only: sdstrim_def Let_def sdslen_rep [OF assms] bind.bind_lunit n(1) [symmetric] nat_int b_def)
  also have "\<dots> = Some (s\<lparr>sds_buf := trim cset xs @ 0 # m', sds_free := narrow32 (sds_free s + (sds_len s - int n)), sds_len := narrow32 (int n)\<rparr>)"
    by (simp only: b(1) b2 bind.bind_lunit)
  also have "\<dots> = Some (sds_mk (trim cset xs) m')"
    using m b(3) ln n(3) by (simp add: s b_def sds_mk_def narrow32_small)
  finally show ?thesis using b(3) m ln n(3) by (auto intro!: sds_repI [where m = m'] simp: b_def)
qed

text \<open>Ranges: negative indices count from the end and both ends are clipped.\<close>

definition clip :: "nat \<Rightarrow> int \<Rightarrow> int" where
  "clip n i = (if i < 0 then max 0 (int n + i) else i)"

definition range_of :: "int \<Rightarrow> int \<Rightarrow> bytes \<Rightarrow> bytes" where
  "range_of start en xs =
     (let n = length xs; s = clip n start; e = min (clip n en) (int n - 1) in take (nat (e - s + 1)) (drop (nat s) xs))"

definition int32 :: "int \<Rightarrow> bool" where
  "int32 i \<longleftrightarrow> - (2 ^ 31) \<le> i \<and> i < 2 ^ 31"

definition range_bounds :: "nat \<Rightarrow> int \<Rightarrow> int \<Rightarrow> int \<times> nat" where
  "range_bounds n s e =
     (let newlen = (if s > e then 0 else to_size (narrow32 (e - s + 1))) in
      if newlen \<noteq> 0 then
        if s \<ge> narrow32 (int n) then (s, 0)
        else if e \<ge> narrow32 (int n) then
          let e = narrow32 (int n - 1) in (s, if s > e then 0 else to_size (e - s + 1))
        else (s, newlen)
      else (0, newlen))"

lemma range_bounds_spec:
  assumes s: "0 \<le> s" "s < 2 ^ 31" and e: "0 \<le> e" "e < 2 ^ 31" and n: "0 < n" "n < 2 ^ 31"
  defines "l \<equiv> (if s < int n then nat (min e (int n - 1) - s + 1) else 0)"
  shows "range_bounds n s e = (if s > e then 0 else s, l)"
proof -
  have [simp]: "narrow32 (int n) = int n" "narrow32 (int n - 1) = int n - 1" using n by (simp_all add: narrow32_small)
  show ?thesis
  proof (cases "s > e")
    case True
    then show ?thesis by (auto simp: range_bounds_def l_def)
  next
    case False
    have nz: "to_size (narrow32 (e - s + 1)) \<noteq> 0"
    proof (cases "e - s + 1 < 2 ^ 31")
      case True
      with False show ?thesis using s by (simp add: narrow32_small to_size_small)
    next
      case big: False
      with s e have "e - s + 1 = 2 ^ 31" by simp
      then show ?thesis by (simp add: narrow32_def to_size_def)
    qed
    show ?thesis
    proof (cases "e < int n")
      case True
      then have "to_size (narrow32 (e - s + 1)) = nat (e - s + 1)"
        using s e n False by (simp add: narrow32_small to_size_small)
      with nz False True show ?thesis by (simp add: range_bounds_def l_def Let_def)
    next
      case ge: False
      have "to_size (int n - s) = nat (int n - s)" if "s < int n" using that s n by (simp add: to_size_small)
      with nz False ge n show ?thesis by (auto simp: range_bounds_def l_def Let_def)
    qed
  qed
qed

lemma sdsrange_rep:
  assumes "sds_rep s xs" and "int32 start" and "int32 en"
  shows "\<exists>s'. sdsrange s start en = Some s' \<and> sds_rep s' (range_of start en xs)"
proof (cases "xs = []")
  case True
  with assms(1) show ?thesis by (simp add: sdsrange_def sdslen_rep range_of_def)
next
  case False
  from assms(1) obtain m where s: "s = sds_mk xs m" and m: "length xs + length m + 1 \<le> 2 ^ 31" by (rule sds_repE)
  let ?n = "length xs"
  define S where "S = clip ?n start"
  define E where "E = clip ?n en"
  have n: "0 < ?n" "?n < 2 ^ 31" using False m by auto
  have cl: "(if i < 0 then max 0 (narrow32 (int ?n + i)) else i) = clip ?n i" if "int32 i" for i
    using that n by (auto simp: clip_def int32_def narrow32_small)
  have SE: "0 \<le> S" "S < 2 ^ 31" "0 \<le> E" "E < 2 ^ 31"
    using assms(2,3) n by (auto simp: S_def E_def clip_def int32_def)
  define l where "l = (if S < int ?n then nat (min E (int ?n - 1) - S + 1) else 0)"
  define a where "a = (if S > E then 0 else S)"
  note rb = range_bounds_spec [OF SE n, folded l_def a_def]
  define c where "c \<longleftrightarrow> a \<noteq> 0 \<and> l \<noteq> 0"
  have la: "l = 0 \<or> int l + S \<le> int ?n \<and> a = S" using SE by (auto simp: l_def a_def)
  have ro: "range_of start en xs = take l (drop (nat S) xs)"
    by (cases "S < int ?n") (simp_all add: range_of_def l_def Let_def flip: S_def E_def)
  define b where "b = xs @ 0 # m"
  define a' where "a' = (if l = 0 then 0 else nat a)"
  have a': "a' + l < length b" "c \<or> a' = 0 \<or> l = 0" "take l (drop a' b) = range_of start en xs"
    using la SE by (auto simp: a'_def b_def c_def ro)
  from move_front [OF a'(1,2)] obtain b1 m' where b: "(if c then memmove b 0 a' l else Some b) = Some b1"
    "mem_write b1 l [0] = Some (range_of start en xs @ 0 # m')" "length m' + l + 1 = length b" unfolding a'(3) by blast
  have b': "(if a \<noteq> 0 \<and> l \<noteq> 0 then memmove b 0 (nat a) l else Some b) = Some b1"
    using b(1) by (auto simp: c_def a'_def)
  have "sds_buf s = b" by (simp add: s b_def)
  then have "sdsrange s start en = (case range_bounds ?n S E of (start, newlen) \<Rightarrow>
      (if start \<noteq> 0 \<and> newlen \<noteq> 0 then memmove b 0 (nat start) newlen else Some b) \<bind> (\<lambda>buf. mem_write buf newlen [0] \<bind>
      (\<lambda>buf. Some (s\<lparr>sds_buf := buf, sds_free := narrow32 (sds_free s + (sds_len s - int newlen)), sds_len := narrow32 (int newlen)\<rparr>))))"
    unfolding sdsrange_def Let_def sdslen_rep [OF assms(1)] cl [OF assms(2)] cl [OF assms(3)] range_bounds_def S_def E_def
    using False by simp
  also have "\<dots> = Some (s\<lparr>sds_buf := range_of start en xs @ 0 # m', sds_free := narrow32 (sds_free s + (sds_len s - int l)), sds_len := narrow32 (int l)\<rparr>)"
    by (simp only: rb prod.case b' b(2) bind.bind_lunit)
  also have "\<dots> = Some (sds_mk (range_of start en xs) m')"
  proof -
    have "length (range_of start en xs) = l" using la SE by (auto simp: ro)
    with m b(3) la SE show ?thesis by (auto simp: s b_def sds_mk_def narrow32_small)
  qed
  finally show ?thesis using b(3) m la SE by (auto intro!: sds_repI [where m = m'] simp: b_def ro)
qed

text \<open>Updating every byte in place.\<close>

lemma update_loop_spec:
  "update_loop (\<lambda>c. Some (h c)) (xs @ ys @ m) (length xs) (length ys) = Some (xs @ map h ys @ m)"
proof (induction ys arbitrary: xs)
  case (Cons y ys)
  have "update_loop (\<lambda>c. Some (h c)) ((xs @ [h y]) @ ys @ m) (length (xs @ [h y])) (length ys) = Some ((xs @ [h y]) @ map h ys @ m)"
    by (rule Cons)
  then show ?case by (simp add: mem_byte_def mem_write_def nth_append)
qed simp

lemma update_rep:
  assumes "sds_rep s xs" and "\<And>c. f c = Some (h c)"
  shows "\<exists>s'. (update_loop f (sds_buf s) 0 (length xs) \<bind> (\<lambda>buf. Some (s\<lparr>sds_buf := buf\<rparr>))) = Some s' \<and> sds_rep s' (map h xs)"
proof -
  from assms(1) obtain m where s: "s = sds_mk xs m" and m: "length xs + length m + 1 \<le> 2 ^ 31" by (rule sds_repE)
  have "f = (\<lambda>c. Some (h c))" using assms(2) by (rule ext)
  then have "update_loop f (sds_buf s) 0 (length xs) = Some (map h xs @ 0 # m)"
    using update_loop_spec [of h "[]" xs "0 # m"] by (simp add: s)
  then show ?thesis using m by (auto intro!: sds_repI [where m = m] simp: s sds_mk_def)
qed

lemma sds_rep_narrow: "sds_rep s xs \<Longrightarrow> nat (narrow32 (int (sdslen s))) = length xs"
  by (auto elim!: sds_repE simp: sds_simps)

lemma sdstolower_rep: "sds_rep s xs \<Longrightarrow> \<exists>s'. sdstolower s = Some s' \<and> sds_rep s' (map tolower xs)"
  unfolding sdstolower_def by (simp only: sds_rep_narrow update_rep)

lemma sdstoupper_rep: "sds_rep s xs \<Longrightarrow> \<exists>s'. sdstoupper s = Some s' \<and> sds_rep s' (map toupper xs)"
  unfolding sdstoupper_def by (simp only: sds_rep_narrow update_rep)

definition map_char :: "bytes \<Rightarrow> bytes \<Rightarrow> byte \<Rightarrow> byte" where
  "map_char from to c = (case map_of (zip from to) c of Some d \<Rightarrow> d | None \<Rightarrow> c)"

lemma mapchar_loop_spec:
  assumes "length from = length to" and "i \<le> length from"
  shows "mapchar_loop from to c i (length from - i) = Some (map_char (drop i from) (drop i to) c)"
  using assms(2)
proof (induction "length from - i" arbitrary: i)
  case 0
  then show ?case by (simp add: map_char_def)
next
  case (Suc k)
  then have i: "i < length from" "i < length to" using assms(1) by auto
  have e: "length from - i = Suc (length from - (i + 1))" using i by simp
  have d: "drop i from = from ! i # drop (i + 1) from" "drop i to = to ! i # drop (i + 1) to"
    using i by (metis Cons_nth_drop_Suc Suc_eq_plus1)+
  have "mapchar_loop from to c (i + 1) (length from - (i + 1)) = Some (map_char (drop (i + 1) from) (drop (i + 1) to) c)"
    using Suc i by (intro Suc(1)) auto
  then show ?case unfolding e using i by (simp add: d mem_byte_def map_char_def)
qed

lemma sdsmapchars_rep:
  assumes "sds_rep s xs" and "length from = length to"
  shows "\<exists>s'. sdsmapchars s from to (length from) = Some s' \<and> sds_rep s' (map (map_char from to) xs)"
  unfolding sdsmapchars_def sdslen_rep [OF assms(1)]
  using mapchar_loop_spec [OF assms(2), of 0] by (intro update_rep [OF assms(1)]) simp

text \<open>Formatted output: the retry loop ends with a large enough buffer.\<close>

lemma vprintf_loop_spec:
  assumes "0 \<notin> set out" and "2 \<le> n"
  shows "\<exists>m. vprintf_loop g out n = Some (out @ 0 # m)"
  using assms(2)
proof (induction "length out + 2 - n" arbitrary: n rule: less_induct)
  case less
  define b where "b = take (n - 2) (zmalloc g n) @ 0 # drop (n - 1) (zmalloc g n)"
  have lb: "length b = n" "b ! (n - 2) = 0" using less(2) by (auto simp: b_def nth_append)
  have w: "mem_write (zmalloc g n) (n - 2) [0] = Some b"
    using less(2) by (simp add: mem_write_def b_def Suc_diff_Suc numeral_2_eq_2)
  define t where "t = take (n - 1) out @ [0]"
  have lt: "length t \<le> n" using less(2) by (auto simp: t_def)
  have v: "vsnprintf b n out = Some (t @ drop (length t) b)"
    unfolding vsnprintf_def t_def [symmetric] using less(2) lt lb(1) by (simp add: mem_write_def)
  have r: "mem_byte (t @ drop (length t) b) (n - 2) = Some (if n - 2 < length out then out ! (n - 2) else 0)"
  proof -
    have "(t @ drop (length t) b) ! (n - 2) = (if n - 2 < length out then out ! (n - 2) else 0)"
    proof (cases "n - 2 < length out")
      case True
      then show ?thesis using less(2) by (auto simp: t_def nth_append)
    next
      case False
      then have t: "t = out @ [0]" using less(2) by (simp add: t_def)
      show ?thesis
      proof (cases "n - 2 = length out")
        case True
        then show ?thesis by (simp add: t)
      next
        case ne: False
        with False have "length t \<le> n - 2" by (simp add: t)
        then obtain k where k: "n - 2 = length t + k" using le_Suc_ex by blast
        have "(t @ drop (length t) b) ! (n - 2) = b ! (n - 2)" using lb lt unfolding k by simp
        with False lb show ?thesis by simp
      qed
    qed
    moreover have "n - 2 < length (t @ drop (length t) b)" using lb lt less(2) by simp
    ultimately show ?thesis by (simp add: mem_byte_def)
  qed
  show ?case
  proof (cases "n - 2 < length out")
    case True
    then have nz: "out ! (n - 2) \<noteq> 0" using assms(1) by (metis nth_mem)
    have "vprintf_loop g out n = vprintf_loop g out (n * 2)"
      using w v r nz True by (subst vprintf_loop.simps) simp
    moreover have "\<exists>m. vprintf_loop g out (n * 2) = Some (out @ 0 # m)"
      using less(2) True by (intro less(1)) auto
    ultimately show ?thesis by simp
  next
    case False
    then have "t = out @ [0]" using less(2) by (simp add: t_def)
    with w v r False show ?thesis by (subst vprintf_loop.simps) simp
  qed
qed

lemma sdscat_rep:
  assumes "sds_rep s xs" and "0 \<notin> set ys" and "length xs + length ys \<le> SDS_LIMIT"
  shows "\<exists>s'. sdscat g s (ys @ 0 # m) = Some s' \<and> sds_rep s' (xs @ ys)"
  using sdscatlen_rep [OF assms(1), of "length ys" "ys @ 0 # m" g] assms(2,3) by (simp add: sdscat_def)

lemma sdscatprintf_rep:
  assumes "sds_rep s xs" and "0 \<notin> set out" and "length xs + length out \<le> SDS_LIMIT"
  shows "\<exists>s'. sdscatprintf g s out = Some s' \<and> sds_rep s' (xs @ out)"
proof -
  obtain m where "vprintf_loop g out 16 = Some (out @ 0 # m)" using vprintf_loop_spec [OF assms(2), of 16 g] by auto
  with sdscat_rep [OF assms, of g m] show ?thesis by (simp add: sdscatprintf_def sdscatvprintf_def)
qed

lemma sdsfromlonglong_rep:
  assumes "LLONG_MIN \<le> x" and "x \<le> LLONG_MAX"
  shows "\<exists>s. sdsfromlonglong g x = Some s \<and> sds_rep s (int_dec x)"
proof -
  let ?n = "length (int_dec x)"
  obtain pre where e: "do {
      (buf, p) \<leftarrow> ll2string_loop (zmalloc g 32) 31 (nat ((if x < 0 then - x else x) mod 2 ^ 64));
      if x < 0 then do { buf \<leftarrow> mem_write buf p [45]; ensure (0 < p); Some (buf, p - 1) } else Some (buf, p)
    } = Some (pre @ int_dec x, 31 - ?n)" and lp: "length pre = 32 - ?n"
    using ll2string_buffer [OF assms] by blast
  have n: "?n \<le> 20" by (rule int_dec_length [OF assms])
  have "sdsfromlonglong g x = do {
      (buf, p) \<leftarrow> Some (pre @ int_dec x, 31 - ?n);
      sdsnewlen g (Some (drop (p + 1) buf)) (32 - (p + 1))
    }"
    unfolding sdsfromlonglong_def e [symmetric] by (simp add: Let_def split: Option.bind_split)
  also have "\<dots> = sdsnewlen g (Some (int_dec x)) ?n" using n lp by (simp add: Suc_diff_le)
  finally show ?thesis using sdsnewlen_rep [of ?n "int_dec x" g] n by simp
qed

text \<open>Comparison is the lexicographic order of the bytes.\<close>

abbreviation bytes_less :: "bytes \<Rightarrow> bytes \<Rightarrow> bool" where
  "bytes_less \<equiv> ord_class.lexordp"

lemma memcmp_bytes:
  "length xs = length ys \<Longrightarrow>
     (memcmp xs ys = 0 \<longleftrightarrow> xs = ys) \<and> (memcmp xs ys < 0 \<longleftrightarrow> bytes_less xs ys) \<and> (0 < memcmp xs ys \<longleftrightarrow> bytes_less ys xs)"
  by (induction xs ys rule: list_induct2) auto

lemma lexordp_eq_length_append:
  "length xs = length ys \<Longrightarrow> bytes_less (xs @ u) (ys @ v) \<longleftrightarrow> bytes_less xs ys \<or> xs = ys \<and> bytes_less u (v :: bytes)"
  by (induction xs ys rule: list_induct2) auto

lemma sdscmp_rep:
  assumes "sds_rep s xs" and "sds_rep t ys"
  shows "\<exists>r. sdscmp s t = Some r \<and> (r < 0 \<longleftrightarrow> bytes_less xs ys) \<and> (r = 0 \<longleftrightarrow> xs = ys) \<and> (0 < r \<longleftrightarrow> bytes_less ys xs)"
proof -
  from assms(1) obtain m where s: "s = sds_mk xs m" and m: "length xs + length m + 1 \<le> 2 ^ 31" by (rule sds_repE)
  from assms(2) obtain m' where t: "t = sds_mk ys m'" and m': "length ys + length m' + 1 \<le> 2 ^ 31" by (rule sds_repE)
  let ?n = "min (length xs) (length ys)"
  let ?x = "take ?n xs" and ?y = "take ?n ys"
  have eq: "sdscmp s t = (if memcmp ?x ?y = 0 then Some (int (length xs) - int (length ys)) else Some (memcmp ?x ?y))"
    using m m' by (auto simp: sdscmp_def sdslen_mk s t mem_read_def Let_def min_def narrow32_small)
  have len: "length ?x = length ?y" by simp
  note mc = memcmp_bytes [OF len]
  have l1: "bytes_less xs ys \<longleftrightarrow> bytes_less ?x ?y \<or> ?x = ?y \<and> bytes_less (drop ?n xs) (drop ?n ys)"
    and l2: "bytes_less ys xs \<longleftrightarrow> bytes_less ?y ?x \<or> ?x = ?y \<and> bytes_less (drop ?n ys) (drop ?n xs)"
    using lexordp_eq_length_append [OF len, of "drop ?n xs" "drop ?n ys"]
      lexordp_eq_length_append [OF len [symmetric], of "drop ?n ys" "drop ?n xs"] by auto
  show ?thesis
  proof (cases "memcmp ?x ?y = 0")
    case False
    with mc have "?x \<noteq> ?y" by simp
    moreover from this have "xs \<noteq> ys" by auto
    ultimately show ?thesis unfolding eq l1 l2 using False mc by simp
  next
    case True
    with mc have e: "?x = ?y" "\<not> bytes_less ?x ?y" "\<not> bytes_less ?y ?x" by auto
    have "xs = ys \<longleftrightarrow> length xs = length ys" using e(1) by auto
    moreover have "bytes_less (drop ?n xs) (drop ?n ys) \<longleftrightarrow> length xs < length ys"
      by (cases "length xs < length ys") (auto simp: min_def lexordp_simps Cons_nth_drop_Suc [symmetric])
    moreover have "bytes_less (drop ?n ys) (drop ?n xs) \<longleftrightarrow> length ys < length xs"
      by (cases "length ys < length xs") (auto simp: min_def lexordp_simps Cons_nth_drop_Suc [symmetric])
    ultimately show ?thesis unfolding eq l1 l2 using e True by simp
  qed
qed

section \<open>Sequences of operations\<close>

datatype sds_op =
    Cat bytes | Cpy bytes | Range int int | Trim bytes | Clear | Grow nat | Lower | Upper
  | Mapchars bytes bytes | MakeRoom nat | RemoveFree | Updatelen | Dup

fun sds_do :: "fresh_mem \<Rightarrow> sds_op \<Rightarrow> sdshdr \<Rightarrow> sdshdr option" where
  "sds_do g (Cat t) s = sdscatlen g s t (length t)"
| "sds_do g (Cpy t) s = sdscpylen g s t (length t)"
| "sds_do g (Range i j) s = sdsrange s i j"
| "sds_do g (Trim cset) s = sdstrim s cset"
| "sds_do g Clear s = sdsclear s"
| "sds_do g (Grow n) s = sdsgrowzero g s n"
| "sds_do g Lower s = sdstolower s"
| "sds_do g Upper s = sdstoupper s"
| "sds_do g (Mapchars from to) s = sdsmapchars s from to (length from)"
| "sds_do g (MakeRoom n) s = Some (sdsMakeRoomFor g s n)"
| "sds_do g RemoveFree s = Some (sdsRemoveFreeSpace g s)"
| "sds_do g Updatelen s = sdsupdatelen s"
| "sds_do g Dup s = sdsdup g s"

fun sds_spec :: "sds_op \<Rightarrow> bytes \<Rightarrow> bytes" where
  "sds_spec (Cat t) xs = xs @ t"
| "sds_spec (Cpy t) xs = t"
| "sds_spec (Range i j) xs = range_of i j xs"
| "sds_spec (Trim cset) xs = trim cset xs"
| "sds_spec Clear xs = []"
| "sds_spec (Grow n) xs = xs @ replicate (n - length xs) 0"
| "sds_spec Lower xs = map tolower xs"
| "sds_spec Upper xs = map toupper xs"
| "sds_spec (Mapchars from to) xs = map (map_char from to) xs"
| "sds_spec Updatelen xs = takeWhile (\<lambda>c. c \<noteq> 0) xs"
| "sds_spec (MakeRoom n) xs = xs"
| "sds_spec RemoveFree xs = xs"
| "sds_spec Dup xs = xs"

text \<open>The arguments are in range and the string stays small enough for the header.\<close>

fun sds_fits :: "sds_op \<Rightarrow> bytes \<Rightarrow> bool" where
  "sds_fits (Cat t) xs \<longleftrightarrow> length xs + length t \<le> SDS_LIMIT"
| "sds_fits (Cpy t) xs \<longleftrightarrow> length t \<le> SDS_LIMIT"
| "sds_fits (Range i j) xs \<longleftrightarrow> int32 i \<and> int32 j"
| "sds_fits (Grow n) xs \<longleftrightarrow> n \<le> SDS_LIMIT"
| "sds_fits (Mapchars from to) xs \<longleftrightarrow> length from = length to"
| "sds_fits (MakeRoom n) xs \<longleftrightarrow> length xs + n \<le> SDS_LIMIT"
| "sds_fits _ xs \<longleftrightarrow> True"

fun sds_run :: "fresh_mem \<Rightarrow> sds_op list \<Rightarrow> sdshdr \<Rightarrow> sdshdr option" where
  "sds_run g [] s = Some s"
| "sds_run g (p # ps) s = do { s \<leftarrow> sds_do g p s; sds_run g ps s }"

fun sds_all_fit :: "sds_op list \<Rightarrow> bytes \<Rightarrow> bool" where
  "sds_all_fit [] xs \<longleftrightarrow> True"
| "sds_all_fit (p # ps) xs \<longleftrightarrow> sds_fits p xs \<and> sds_all_fit ps (sds_spec p xs)"

lemma sdsdup_rep: "sds_rep s xs \<Longrightarrow> \<exists>s'. sdsdup g s = Some s' \<and> sds_rep s' xs"
proof -
  assume r: "sds_rep s xs"
  then obtain m where s: "s = sds_mk xs m" and m: "length xs + length m + 1 \<le> 2 ^ 31" by (rule sds_repE)
  from sdsnewlen_rep [of "length xs" "xs @ 0 # m" g] m show ?thesis
    by (simp add: sdsdup_def sdslen_rep [OF r]) (simp add: s)
qed

lemma sdsMakeRoomFor_keeps:
  assumes "sds_rep s xs" and "length xs + n \<le> SDS_LIMIT"
  shows "sds_rep (sdsMakeRoomFor g s n) xs \<and> n \<le> sdsavail (sdsMakeRoomFor g s n)"
proof -
  from assms(1) obtain m where s: "s = sds_mk xs m" and m: "length xs + length m + 1 \<le> 2 ^ 31" by (rule sds_repE)
  from sdsMakeRoomFor_rep [OF m assms(2), of g] obtain m' where "sdsMakeRoomFor g s n = sds_mk xs m'"
    "n \<le> length m'" "length xs + length m' + 1 \<le> 2 ^ 31" unfolding s by blast
  then show ?thesis by (auto intro: sds_repI simp: sds_simps)
qed

lemma sds_do_rep:
  assumes "sds_rep s xs" and "sds_fits p xs"
  shows "\<exists>s'. sds_do g p s = Some s' \<and> sds_rep s' (sds_spec p xs)"
proof (cases p)
  case (Cat t)
  with assms(2) sdscatlen_rep [OF assms(1), of "length t" t g] show ?thesis by simp
next
  case (Cpy t)
  with assms(2) sdscpylen_rep [OF assms(1), of "length t" t g] show ?thesis by simp
qed (use assms sdsrange_rep sdstrim_rep sdsclear_rep sdsgrowzero_rep sdstolower_rep sdstoupper_rep sdsmapchars_rep
    sdsupdatelen_rep sdsdup_rep sdsMakeRoomFor_keeps sdsRemoveFreeSpace_rep in simp_all)

lemma sds_run_rep:
  "\<lbrakk>sds_rep s xs; sds_all_fit ps xs\<rbrakk> \<Longrightarrow> \<exists>s'. sds_run g ps s = Some s' \<and> sds_rep s' (fold sds_spec ps xs)"
proof (induction ps arbitrary: s xs)
  case (Cons p ps)
  then obtain s' where "sds_do g p s = Some s'" "sds_rep s' (sds_spec p xs)" using sds_do_rep [of s xs p g] by auto
  with Cons show ?case by simp
qed simp

section \<open>Quoting and splitting into arguments\<close>

definition repr_of :: "byte \<Rightarrow> bytes" where
  "repr_of c =
     (if c = 92 \<or> c = 34 then [92, c]
      else if c = 10 then [92, 110] else if c = 13 then [92, 114] else if c = 9 then [92, 116]
      else if c = 7 then [92, 97] else if c = 8 then [92, 98]
      else if isprint c then [c] else [92, 120] @ fmt_02x c)"

definition quoted :: "bytes \<Rightarrow> bytes" where
  "quoted xs = [34] @ concat (map repr_of xs) @ [34]"

lemma hex_char_digit: "n < 16 \<Longrightarrow> is_hex_digit (hex_char n) \<and> hex_digit_to_int (hex_char n) = n \<and> hex_char n \<noteq> 0"
proof -
  assume "n < 16"
  then have "n \<in> {0, 1, 2, 3, 4, 5, 6, 7, 8, 9, 10, 11, 12, 13, 14, 15}" unfolding insert_iff empty_iff by presburger
  then show ?thesis by (elim insertE) (simp_all add: hex_char_def is_hex_digit_def hex_digit_to_int_def)
qed

lemma byte_div_16: "unat (c :: byte) div 16 < 16" "unat c mod 16 < 16"
proof -
  have "unat c < 16 * 16" using unsigned_less [of c] by simp
  then show "unat c div 16 < 16" by (rule less_mult_imp_div_less)
qed simp

lemma fmt_02x_digits:
  "is_hex_digit (hex_char (unat c div 16))" "is_hex_digit (hex_char (unat c mod 16))"
  "of_nat (hex_digit_to_int (hex_char (unat c div 16)) * 16 + hex_digit_to_int (hex_char (unat c mod 16))) = (c :: byte)"
  "hex_char (unat c div 16) \<noteq> 0" "hex_char (unat c mod 16) \<noteq> 0"
  using hex_char_digit byte_div_16 [of c] by (simp_all add: mult.commute)

lemma repr_of_length: "length (repr_of c) \<le> 4"
  by (simp add: repr_of_def fmt_02x_def)

lemma repr_of_nonzero: "0 \<notin> set (repr_of c)"
  using fmt_02x_digits [of c] by (auto simp: repr_of_def fmt_02x_def isprint_def)

lemma repr_char_rep:
  assumes r: "sds_rep s xs" and l: "length xs + length (repr_of c) \<le> SDS_LIMIT"
  shows "\<exists>s'. repr_char g s c = Some s' \<and> sds_rep s' (xs @ repr_of c)"
proof -
  have esc: "\<exists>s'. sdscatlen g s [92, d, 0] 2 = Some s' \<and> sds_rep s' (xs @ [92, d])" if "length xs + 2 \<le> SDS_LIMIT" for d
    using sdscatlen_rep [OF r, of 2 "[92, d, 0]" g] that by (simp add: numeral_2_eq_2)
  have pr: "\<exists>s'. sdscatprintf g s (repr_of c) = Some s' \<and> sds_rep s' (xs @ repr_of c)"
    by (rule sdscatprintf_rep [OF r repr_of_nonzero l])
  show ?thesis
  proof (cases "c \<in> {10, 13, 9, 7, 8}")
    case True
    with l have "length xs + 2 \<le> SDS_LIMIT" by (auto simp: repr_of_def)
    from esc [OF this] True show ?thesis by (auto simp: repr_char_def repr_of_def)
  next
    case False
    then have "repr_char g s c = sdscatprintf g s (repr_of c)" by (simp add: repr_char_def repr_of_def)
    with pr show ?thesis by simp
  qed
qed

lemma repr_of_cases:
  obtains (esc) d where "repr_of c = [92, d]" "d \<noteq> 120" "d \<noteq> 0" "unescape d = c"
    | (plain) "repr_of c = [c]" "c \<noteq> 92" "c \<noteq> 34" "c \<noteq> 0"
    | (hex) "repr_of c = [92, 120, hex_char (unat c div 16), hex_char (unat c mod 16)]"
proof (cases "c \<in> {92, 34, 10, 13, 9, 7, 8}")
  case True
  then have "\<exists>d. repr_of c = [92, d] \<and> d \<noteq> 120 \<and> d \<noteq> 0 \<and> unescape d = c"
    by (elim insertE) (simp_all add: repr_of_def unescape_def)
  with esc show ?thesis by blast
next
  case False
  show ?thesis
  proof (cases "isprint c")
    case True
    then have "c \<noteq> 0" by (auto simp: isprint_def)
    with False True plain show ?thesis by (simp add: repr_of_def)
  next
    case no: False
    with False hex show ?thesis by (simp add: repr_of_def fmt_02x_def)
  qed
qed

lemma repr_loop_rep:
  assumes "sds_rep s xs" and "i + n \<le> length t" and "length xs + length (concat (map repr_of (take n (drop i t)))) \<le> SDS_LIMIT"
  shows "\<exists>s'. repr_loop g s t i n = Some s' \<and> sds_rep s' (xs @ concat (map repr_of (take n (drop i t))))"
  using assms
proof (induction n arbitrary: s xs i)
  case (Suc n)
  have d: "take (Suc n) (drop i t) = t ! i # take n (drop (i + 1) t)"
    using Suc.prems(2) by (metis Cons_nth_drop_Suc Suc_eq_plus1 add_Suc_right le_add1 less_le_trans lessI take_Suc_Cons add_lessD1)
  have "length xs + length (repr_of (t ! i)) \<le> SDS_LIMIT" using Suc.prems(3) by (simp add: d)
  from repr_char_rep [OF Suc.prems(1) this, of g] obtain s1 where s1: "repr_char g s (t ! i) = Some s1"
    "sds_rep s1 (xs @ repr_of (t ! i))" by blast
  from Suc.IH [OF s1(2), of "i + 1"] Suc.prems(2,3) s1(1) show ?case
    by (simp add: d mem_byte_def add.assoc)
qed simp

lemma sdscatrepr_rep:
  assumes "sds_rep s xs" and "length t + 1 \<le> length b" and "take (length t) b = t" and "length xs + length (quoted t) \<le> SDS_LIMIT"
  shows "\<exists>s'. sdscatrepr g s b (length t) = Some s' \<and> sds_rep s' (xs @ quoted t)"
proof -
  have q: "\<exists>s'. sdscatlen g s [34, 0] 1 = Some s' \<and> sds_rep s' (xs @ [34])"
    if "sds_rep s xs" "length xs + 1 \<le> SDS_LIMIT" for s xs
    using sdscatlen_rep [OF that(1), of 1 "[34, 0]" g] that(2) by simp
  let ?r = "concat (map repr_of t)"
  have l: "length xs + length ?r + 2 \<le> SDS_LIMIT" using assms(4) by (simp add: quoted_def)
  obtain s1 where s1: "sdscatlen g s [34, 0] 1 = Some s1" "sds_rep s1 (xs @ [34])" using q [OF assms(1)] l by auto
  obtain s2 where s2: "repr_loop g s1 b 0 (length t) = Some s2" "sds_rep s2 ((xs @ [34]) @ ?r)"
    using repr_loop_rep [OF s1(2), of 0 "length t" b g] assms(2,3) l by auto
  obtain s3 where s3: "sdscatlen g s2 [34, 0] 1 = Some s3" "sds_rep s3 (((xs @ [34]) @ ?r) @ [34])" using q [OF s2(2)] l by auto
  from s1 s2 s3 show ?thesis by (simp add: sdscatrepr_def quoted_def)
qed

text \<open>Reading a C string that is put together from parts.\<close>

lemma cget_part: "k < length u \<Longrightarrow> cget (pre @ u @ suf) (length pre + k) = Some (u ! k)"
  by (simp add: cget_def nth_append)

lemma step_inq_repr:
  assumes r: "sds_rep cur xs" and l: "length xs + 1 \<le> SDS_LIMIT"
  shows "\<exists>cur'. step_inq g (pre @ repr_of c @ suf) (length pre) cur =
           Some (TMore True False (length pre + length (repr_of c) - 1) cur') \<and> sds_rep cur' (xs @ [c])"
proof -
  have cat: "\<exists>s'. sdscatlen g cur [d] 1 = Some s' \<and> sds_rep s' (xs @ [d])" for d
    using sdscatlen_rep [OF r, of 1 "[d]" g] l by simp
  note get = cget_part [of _ "repr_of c" pre suf]
  show ?thesis
  proof (cases c rule: repr_of_cases)
    case esc
    from get [of 0] get [of 1] cat [of c] esc show ?thesis
      by (auto simp: step_inq_def at_hex_escape_def)
  next
    case plain
    from get [of 0] cat [of c] plain show ?thesis
      by (auto simp: step_inq_def at_hex_escape_def)
  next
    case hex
    from get [of 0] get [of 1] get [of 2] get [of 3] cat [of c] hex fmt_02x_digits [of c] show ?thesis
      by (auto simp: step_inq_def at_hex_escape_def)
  qed
qed

lemma token_loop_step:
  assumes "(if inq then step_inq g line p cur else if insq then step_insq g line p cur else step_plain g line p cur)
             = Some (TMore inq' insq' p' cur')"
    and "cget line p' = Some c" and "c \<noteq> 0"
  shows "token_loop g line inq insq p cur = token_loop g line inq' insq' (p' + 1) cur'"
  using assms by (subst token_loop.simps) simp

definition ends_word :: "bytes \<Rightarrow> bool" where
  "ends_word suf \<longleftrightarrow> suf = [] \<or> isspace (hd suf)"

lemma token_loop_inq:
  assumes "sds_rep cur xs" and "length xs + length ys \<le> SDS_LIMIT" and "ends_word suf"
  shows "\<exists>cur'. token_loop g (pre @ concat (map repr_of ys) @ 34 # suf) True False (length pre) cur =
           Some (Some (length pre + length (concat (map repr_of ys)) + 1, cur')) \<and> sds_rep cur' (xs @ ys)"
  using assms(1,2)
proof (induction ys arbitrary: pre cur xs)
  case Nil
  let ?l = "pre @ 34 # suf"
  have "cget ?l (length pre) = Some 34" by (simp add: cget_def)
  moreover have "cget ?l (length pre + 1) = Some (if suf = [] then 0 else hd suf)"
    by (cases suf) (auto simp: cget_def nth_append)
  ultimately have "step_inq g ?l (length pre) cur = Some (TDone (length pre) cur)"
    using assms(3) by (auto simp: step_inq_def at_hex_escape_def close_quote_def ends_word_def)
  with Nil \<open>cget ?l (length pre) = Some 34\<close> show ?case by (subst token_loop.simps) simp
next
  case (Cons y ys)
  let ?s = "concat (map repr_of ys) @ 34 # suf"
  let ?l = "pre @ repr_of y @ ?s"
  have "length xs + 1 \<le> SDS_LIMIT" using Cons.prems by simp
  from step_inq_repr [OF Cons.prems(1) this, of g pre y ?s] obtain cur1 where
    c1: "step_inq g ?l (length pre) cur = Some (TMore True False (length pre + length (repr_of y) - 1) cur1)"
    "sds_rep cur1 (xs @ [y])" by blast
  have ne: "repr_of y \<noteq> []" by (cases y rule: repr_of_cases) auto
  then have i: "length (repr_of y) - 1 < length (repr_of y)" "length pre + length (repr_of y) - 1 = length pre + (length (repr_of y) - 1)"
    by (auto simp: Suc_leI)
  have "cget ?l (length pre + length (repr_of y) - 1) = Some (repr_of y ! (length (repr_of y) - 1))"
    using cget_part [OF i(1)] i(2) by simp
  moreover have "repr_of y ! (length (repr_of y) - 1) \<noteq> 0" using repr_of_nonzero [of y] nth_mem [OF i(1)] by metis
  ultimately have "token_loop g ?l True False (length pre) cur = token_loop g ?l True False (length pre + length (repr_of y) - 1 + 1) cur1"
    using c1(1) by (intro token_loop_step) auto
  also have "length pre + length (repr_of y) - 1 + 1 = length (pre @ repr_of y)" using ne by (simp add: Suc_leI)
  finally have st: "token_loop g ?l True False (length pre) cur = token_loop g ?l True False (length (pre @ repr_of y)) cur1" .
  have "length (xs @ [y]) + length ys \<le> SDS_LIMIT" using Cons.prems by simp
  from Cons.IH [OF c1(2) this, of "pre @ repr_of y"] st show ?case by (simp add: add.assoc)
qed

lemma token_loop_quoted:
  assumes "sds_rep cur []" and "length ys \<le> SDS_LIMIT" and "ends_word suf"
  shows "\<exists>cur'. token_loop g (pre @ quoted ys @ suf) False False (length pre) cur =
           Some (Some (length (pre @ quoted ys), cur')) \<and> sds_rep cur' ys"
proof -
  let ?l = "pre @ quoted ys @ suf"
  have c: "cget ?l (length pre) = Some 34" by (simp add: cget_def quoted_def nth_append)
  then have "step_plain g ?l (length pre) cur = Some (TMore True False (length pre) cur)" by (simp add: step_plain_def)
  with c have "token_loop g ?l False False (length pre) cur = token_loop g ?l True False (length pre + 1) cur"
    by (intro token_loop_step) auto
  with token_loop_inq [OF assms(1) _ assms(3), of ys g "pre @ [34]"] assms(2) show ?thesis
    by (simp add: quoted_def)
qed

lemma skip_blanks_stop: "\<not> (p < length line \<and> isspace (line ! p)) \<Longrightarrow> skip_blanks line p = p"
  by (subst skip_blanks.simps) (rule if_not_P, blast)

lemma skip_blanks_space: "p < length line \<Longrightarrow> line ! p = 32 \<Longrightarrow> skip_blanks line p = skip_blanks line (p + 1)"
  by (subst skip_blanks.simps) (simp add: isspace_def)

fun args_line :: "bytes list \<Rightarrow> bytes" where
  "args_line [] = []"
| "args_line [w] = quoted w"
| "args_line (w # v # ws) = quoted w @ 32 # args_line (v # ws)"

lemma args_line_Cons: "args_line (w # ws) = quoted w @ (if ws = [] then [] else 32 # args_line ws)"
  by (cases ws) simp_all

lemma args_line_first: "ws \<noteq> [] \<Longrightarrow> \<exists>r. args_line ws = 34 # r"
  by (cases ws) (auto simp: args_line_Cons quoted_def)

lemma quoted_long: "length ys + 2 \<le> length (quoted ys)"
proof -
  have "length ys \<le> length (concat (map repr_of ys))"
  proof (induction ys)
    case (Cons y ys)
    have "Suc 0 \<le> length (repr_of y)" by (cases y rule: repr_of_cases) auto
    from add_mono [OF this Cons] show ?case by simp
  qed simp
  then show ?thesis by (simp add: quoted_def)
qed

lemma args_loop_line:
  assumes "length (args_line ws) \<le> SDS_LIMIT"
  shows "\<exists>v. args_loop g (pre @ args_line ws) (length pre) vec = Some (Some (vec @ v)) \<and> list_all2 sds_rep v ws"
  using assms
proof (induction ws arbitrary: pre vec)
  case Nil
  have "skip_blanks pre (length pre) = length pre" by (rule skip_blanks_stop) simp
  then show ?case by (subst args_loop.simps) (simp add: cget_def)
next
  case (Cons w ws)
  define suf where "suf = (if ws = [] then [] else 32 # args_line ws)"
  let ?l = "pre @ quoted w @ suf"
  have l: "pre @ args_line (w # ws) = ?l" by (simp add: args_line_Cons suf_def)
  have c: "cget ?l (length pre) = Some 34" "?l ! length pre = 34" by (simp_all add: cget_def quoted_def nth_append)
  have sk: "skip_blanks ?l (length pre) = length pre"
    by (rule skip_blanks_stop) (simp add: c(2) isspace_def)
  obtain cur where cur: "sdsempty g = Some cur" "sds_rep cur []" using sdsempty_rep [of g] by blast
  have "length w \<le> SDS_LIMIT" using Cons.prems quoted_long [of w] by (simp add: args_line_Cons)
  moreover have "ends_word suf" by (simp add: ends_word_def suf_def isspace_def)
  ultimately obtain cur' where t: "token_loop g ?l False False (length pre) cur = Some (Some (length (pre @ quoted w), cur'))"
    "sds_rep cur' w" using token_loop_quoted [OF cur(2)] by blast
  have st: "args_loop g ?l (length pre) vec = args_loop g ?l (length (pre @ quoted w)) (vec @ [cur'])"
    using sk c cur t by (subst args_loop.simps) simp
  show ?case
  proof (cases "ws = []")
    case True
    have "skip_blanks (pre @ quoted w) (length (pre @ quoted w)) = length (pre @ quoted w)" by (rule skip_blanks_stop) simp
    then have "args_loop g ?l (length (pre @ quoted w)) (vec @ [cur']) = Some (Some (vec @ [cur']))"
      using True by (subst args_loop.simps) (simp add: suf_def cget_def)
    with st t(2) l True show ?thesis by auto
  next
    case False
    let ?p = "pre @ quoted w @ [32]"
    have l': "?l = ?p @ args_line ws" using False by (simp add: suf_def)
    have "length (args_line ws) \<le> SDS_LIMIT" using Cons.prems False by (simp add: args_line_Cons)
    from Cons.IH [OF this, of ?p "vec @ [cur']"] obtain v where
      v: "args_loop g ?l (length ?p) (vec @ [cur']) = Some (Some (vec @ cur' # v))" "list_all2 sds_rep v ws"
      unfolding l' by auto
    have "skip_blanks ?l (length (pre @ quoted w)) = skip_blanks ?l (length (pre @ quoted w) + 1)"
      by (rule skip_blanks_space) (simp_all add: l' nth_append)
    then have "args_loop g ?l (length (pre @ quoted w)) (vec @ [cur']) = args_loop g ?l (length ?p) (vec @ [cur'])"
      by (subst (1 2) args_loop.simps) simp
    with st v t(2) l show ?thesis by (intro exI [of _ "cur' # v"]) simp
  qed
qed

lemma digit_repr: "isdigit c \<Longrightarrow> repr_of c = [c]"
proof -
  assume "isdigit c"
  then have "48 \<le> c" "c \<le> 57" by (auto simp: isdigit_def)
  then have "isprint c" "c \<noteq> 92" "c \<noteq> 34" "c \<noteq> 10" "c \<noteq> 13" "c \<noteq> 9" "c \<noteq> 7" "c \<noteq> 8"
    by (auto simp: isprint_def word_le_nat_alt)
  then show ?thesis by (simp add: repr_of_def)
qed

lemma quoted_int_dec: "quoted (int_dec v) = [34] @ int_dec v @ [34]"
proof -
  have "concat (map repr_of (nat_dec n)) = nat_dec n" for n
  proof -
    have "map repr_of (nat_dec n) = map (\<lambda>c. [c]) (nat_dec n)"
      using nat_dec_digits [of n] by (auto simp: digit_repr)
    then show ?thesis by (simp only: concat_map_singleton list.map_ident)
  qed
  moreover have "repr_of 45 = [45]" by (simp add: repr_of_def isprint_def)
  ultimately show ?thesis by (simp add: quoted_def int_dec_def)
qed

lemma int_dec_nonzero: "0 \<notin> set (int_dec v)"
  using nat_dec_digits [of "nat (- v)"] nat_dec_digits [of "nat v"] by (auto simp: int_dec_def isdigit_def)

text \<open>The text of an argument.\<close>

definition arg_str :: "monitor_arg \<Rightarrow> bytes" where
  "arg_str a = (case a of ArgInt v \<Rightarrow> int_dec v | ArgSds t \<Rightarrow> sds_str t)"

definition arg_ok :: "monitor_arg \<Rightarrow> bool" where
  "arg_ok a = (case a of ArgInt v \<Rightarrow> True | ArgSds t \<Rightarrow> sds_inv t)"

lemma feed_arg_rep:
  assumes "sds_rep s xs" and "arg_ok a" and "length xs + length (quoted (arg_str a)) \<le> SDS_LIMIT"
  shows "\<exists>s'. (case a of ArgInt v \<Rightarrow> sdscatprintf g s ([34] @ int_dec v @ [34])
                | ArgSds t \<Rightarrow> sdscatrepr g s (sds_buf t) (sdslen t)) = Some s' \<and> sds_rep s' (xs @ quoted (arg_str a))"
proof (cases a)
  case (ArgInt v)
  with assms sdscatprintf_rep [OF assms(1), of "[34] @ int_dec v @ [34]" g] show ?thesis
    by (simp add: arg_str_def quoted_int_dec int_dec_nonzero)
next
  case (ArgSds t)
  with assms(2) have r: "sds_rep t (sds_str t)" by (simp add: sds_rep_iff arg_ok_def)
  then obtain m where t: "t = sds_mk (sds_str t) m" by (rule sds_repE)
  have b: "sds_buf t = sds_str t @ 0 # m" by (subst t) simp
  from sdscatrepr_rep [OF assms(1), of "sds_str t" "sds_buf t" g] assms(3) ArgSds show ?thesis
    by (simp add: arg_str_def sdslen_rep [OF r] b)
qed

lemma feed_args_rep:
  assumes "sds_rep s xs" and "list_all arg_ok as" and "length xs + length (args_line (map arg_str as)) \<le> SDS_LIMIT"
  shows "\<exists>s'. feed_args g s as = Some s' \<and> sds_rep s' (xs @ args_line (map arg_str as))"
  using assms
proof (induction as arbitrary: s xs)
  case (Cons a as)
  let ?q = "quoted (arg_str a)"
  have "length xs + length ?q \<le> SDS_LIMIT" using Cons.prems(3) by (simp add: args_line_Cons)
  with Cons.prems obtain s1 where s1: "(case a of ArgInt v \<Rightarrow> sdscatprintf g s ([34] @ int_dec v @ [34])
                | ArgSds t \<Rightarrow> sdscatrepr g s (sds_buf t) (sdslen t)) = Some s1" "sds_rep s1 (xs @ ?q)"
    using feed_arg_rep [OF Cons.prems(1), of a g] by auto
  show ?case
  proof (cases "as = []")
    case True
    with s1 show ?thesis by simp
  next
    case False
    have l: "length (xs @ ?q) + 1 + length (args_line (map arg_str as)) \<le> SDS_LIMIT"
      using Cons.prems(3) False by (simp add: args_line_Cons)
    then obtain s2 where s2: "sdscatlen g s1 [32, 0] 1 = Some s2" "sds_rep s2 ((xs @ ?q) @ [32])"
      using sdscatlen_rep [OF s1(2), of 1 "[32, 0]" g] by auto
    from Cons.IH [OF s2(2)] Cons.prems(2) l obtain s3 where
      "feed_args g s2 as = Some s3" "sds_rep s3 (((xs @ ?q) @ [32]) @ args_line (map arg_str as))" by auto
    with s1(1) s2(1) False show ?thesis by (simp add: args_line_Cons)
  qed
qed simp

section \<open>Every line\<close>

lemma cget_Some: "p \<le> length line \<Longrightarrow> \<exists>c. cget line p = Some c \<and> (c \<noteq> 0 \<longrightarrow> p < length line)"
  by (auto simp: cget_def)

lemma cget_next: "\<lbrakk>cget line p = Some c; c \<noteq> 0\<rbrakk> \<Longrightarrow> \<exists>d. cget line (p + 1) = Some d"
  by (auto simp: cget_def split: if_splits)

lemma cat_one:
  "\<lbrakk>sds_rep s xs; length xs + 1 \<le> SDS_LIMIT; 1 \<le> length t\<rbrakk> \<Longrightarrow> \<exists>s'. sdscatlen g s t 1 = Some s' \<and> sds_rep s' (xs @ take 1 t)"
  using sdscatlen_rep [of s xs 1 t g] by blast

lemma at_hex_escape_Some:
  assumes "p \<le> length line"
  shows "\<exists>b. at_hex_escape line p = Some b \<and> (b \<longrightarrow> p + 3 < length line \<and> line ! (p + 3) \<noteq> 0)"
proof -
  have nz: "is_hex_digit c \<Longrightarrow> c \<noteq> 0" for c by (auto simp: is_hex_digit_def)
  show ?thesis
    using assms nz by (auto simp: at_hex_escape_def cget_def)
qed

definition step_ok :: "bytes \<Rightarrow> nat \<Rightarrow> bytes \<Rightarrow> token_step option \<Rightarrow> bool" where
  "step_ok line p xs r \<longleftrightarrow>
     (\<exists>st. r = Some st \<and>
        (case st of
           TErr \<Rightarrow> True
         | TDone p' cur \<Rightarrow> p' = p \<and> (\<exists>ys. sds_rep cur ys)
         | TMore a b p' cur \<Rightarrow> p \<le> p' \<and> p' < length line \<and> line ! p' \<noteq> 0 \<and> (\<exists>ys. sds_rep cur ys \<and> length ys \<le> length xs + 1)))"

lemma step_ok_more:
  "\<lbrakk>sds_rep s xs; length xs + 1 \<le> SDS_LIMIT; 1 \<le> length t; p \<le> p'; p' < length line; line ! p' \<noteq> 0\<rbrakk>
     \<Longrightarrow> step_ok line p xs (sdscatlen g s t 1 \<bind> (\<lambda>cur. Some (TMore a b p' cur)))"
  using cat_one [of s xs t g] by (fastforce simp: step_ok_def)

lemma close_quote_ok: "\<lbrakk>sds_rep s xs; p < length line\<rbrakk> \<Longrightarrow> step_ok line p xs (close_quote line p s)"
  using cget_Some [of "p + 1" line] by (auto simp: close_quote_def step_ok_def)

lemma step_ok_err: "step_ok line p xs (Some TErr)"
  by (simp add: step_ok_def)

lemma cget_eq_Some: "cget line p = Some c \<Longrightarrow> c \<noteq> 0 \<Longrightarrow> p < length line \<and> line ! p = c"
  by (auto simp: cget_def split: if_splits)

lemma step_total:
  assumes p: "p \<le> length line" and r: "sds_rep s xs" and l: "length xs + (length line - p) \<le> SDS_LIMIT"
  shows "step_ok line p xs (step_inq g line p s)" and "step_ok line p xs (step_insq g line p s)"
    and "step_ok line p xs (step_plain g line p s)"
proof -
  obtain c where c: "cget line p = Some c" "c \<noteq> 0 \<longrightarrow> p < length line \<and> line ! p = c"
    using cget_Some [OF p] cget_eq_Some by blast
  have l1: "length xs + 1 \<le> SDS_LIMIT" if "p < length line" using l that by simp
  have nx: "\<exists>d. cget line (p + 1) = Some d \<and> (d \<noteq> 0 \<longrightarrow> p + 1 < length line \<and> line ! (p + 1) = d)" if "p < length line"
    using cget_Some [of "p + 1" line] cget_eq_Some that by fastforce
  note more = step_ok_more [OF r l1]
  show "step_ok line p xs (step_plain g line p s)"
  proof (cases "c = 0")
    case True
    then show ?thesis using c(1) r by (auto simp: step_plain_def step_ok_def)
  next
    case False
    with c(2) have lt: "p < length line" "line ! p = c" by auto
    have "step_ok line p xs (Some (TMore a b p s))" for a b
      using lt r False by (auto simp: step_ok_def)
    with more [of "[c]" p p line g False False] lt False c(1) r show ?thesis
      by (auto simp: step_plain_def) (auto simp: step_ok_def)
  qed
  show "step_ok line p xs (step_insq g line p s)"
  proof (cases "c = 0")
    case True
    with c(1) show ?thesis by (simp add: step_insq_def step_ok_err)
  next
    case False
    with c(2) have lt: "p < length line" "line ! p = c" by auto
    obtain d where d: "cget line (p + 1) = Some d" "d \<noteq> 0 \<longrightarrow> p + 1 < length line \<and> line ! (p + 1) = d" using nx [OF lt(1)] by blast
    show ?thesis
      using c(1) d False more [of "[c]" p p line g False True] more [of "[39, 0]" p "p + 1" line g False True] lt close_quote_ok [OF r lt(1)]
      by (auto simp: step_insq_def)
  qed
  show "step_ok line p xs (step_inq g line p s)"
  proof (cases "c = 0")
    case True
    with c(1) show ?thesis by (simp add: step_inq_def at_hex_escape_def step_ok_err)
  next
    case False
    with c(2) have lt: "p < length line" "line ! p = c" by auto
    obtain d where d: "cget line (p + 1) = Some d" "d \<noteq> 0 \<longrightarrow> p + 1 < length line \<and> line ! (p + 1) = d" using nx [OF lt(1)] by blast
    obtain b where b: "at_hex_escape line p = Some b" "b \<longrightarrow> p + 3 < length line \<and> line ! (p + 3) \<noteq> 0"
      using at_hex_escape_Some [OF p] by blast
    show ?thesis
    proof (cases b)
      case True
      with b have h: "p + 3 < length line" "line ! (p + 3) \<noteq> 0" by auto
      then have "cget line (p + 2) = Some (line ! (p + 2))" "cget line (p + 3) = Some (line ! (p + 3))" by (auto simp: cget_def)
      with b(1) True c(1) more [of "[of_nat (hex_digit_to_int (line ! (p + 2)) * 16 + hex_digit_to_int (line ! (p + 3)))]" p "p + 3" line g True False] lt h
      show ?thesis by (simp add: step_inq_def)
    next
      case no: False
      show ?thesis
        using b(1) no c(1) d False more [of "[c]" p p line g True False] more [of "[unescape d]" p "p + 1" line g True False] lt close_quote_ok [OF r lt(1)]
        by (auto simp: step_inq_def)
    qed
  qed
qed

lemma token_loop_total:
  assumes "p \<le> length line" and "sds_rep s xs" and "length xs + (length line - p) \<le> SDS_LIMIT"
  shows "\<exists>r. token_loop g line inq insq p s = Some r \<and>
           (\<forall>p' s'. r = Some (p', s') \<longrightarrow> p \<le> p' \<and> p' \<le> length line \<and> (cget line p \<noteq> Some 0 \<longrightarrow> p < p') \<and> (\<exists>ys. sds_rep s' ys))"
  using assms
proof (induction "length line - p" arbitrary: p s xs inq insq rule: less_induct)
  case less
  let ?step = "if inq then step_inq g line p s else if insq then step_insq g line p s else step_plain g line p s"
  have "step_ok line p xs ?step" using step_total [OF less.prems] by simp
  then obtain st where st: "?step = Some st" and ok: "step_ok line p xs (Some st)" by (auto simp: step_ok_def)
  show ?case
  proof (cases st)
    case TErr
    with st show ?thesis by (subst token_loop.simps) simp
  next
    case (TDone p' s')
    with ok have p': "p' = p" "\<exists>ys. sds_rep s' ys" by (auto simp: step_ok_def)
    obtain c where c: "cget line p = Some c" "c \<noteq> 0 \<longrightarrow> p < length line" using cget_Some [OF less.prems(1)] by blast
    have "token_loop g line inq insq p s = Some (Some (if c \<noteq> 0 then p + 1 else p, s'))"
      using st TDone p'(1) c by (subst token_loop.simps) simp
    with c p'(2) less.prems(1) show ?thesis by auto
  next
    case (TMore a b p' s')
    with ok obtain ys where p': "p \<le> p'" "p' < length line" "line ! p' \<noteq> 0" and ys: "sds_rep s' ys" "length ys \<le> length xs + 1"
      by (auto simp: step_ok_def)
    have "cget line p' = Some (line ! p')" using p' by (simp add: cget_def)
    then have e: "token_loop g line inq insq p s = token_loop g line a b (p' + 1) s'"
      using st TMore p'(3) by (intro token_loop_step) auto
    have "length line - (p' + 1) < length line - p" "p' + 1 \<le> length line" "length ys + (length line - (p' + 1)) \<le> SDS_LIMIT"
      using p' ys(2) less.prems(3) by auto
    from less.hyps [OF this(1,2) ys(1) this(3), of a b] obtain r where "token_loop g line a b (p' + 1) s' = Some r"
      "\<forall>q s'. r = Some (q, s') \<longrightarrow> p' + 1 \<le> q \<and> q \<le> length line \<and> (\<exists>ys. sds_rep s' ys)" by blast
    with e p'(1) show ?thesis by fastforce
  qed
qed

lemma skip_blanks_le: "p \<le> skip_blanks line p \<and> (p \<le> length line \<longrightarrow> skip_blanks line p \<le> length line)"
  by (induction line p rule: skip_blanks.induct) (subst (1 2) skip_blanks.simps, auto)

lemma args_loop_total:
  assumes "p \<le> length line" and "length line \<le> SDS_LIMIT" and "\<forall>s \<in> set vec. sds_inv s"
  shows "\<exists>r. args_loop g line p vec = Some r \<and> (\<forall>v. r = Some v \<longrightarrow> (\<forall>s \<in> set v. sds_inv s))"
  using assms(1,3)
proof (induction "length line - p" arbitrary: p vec rule: less_induct)
  case less
  let ?p = "skip_blanks line p"
  have q: "p \<le> ?p" "?p \<le> length line" using skip_blanks_le [of p line] less.prems(1) by auto
  obtain c where c: "cget line ?p = Some c" using cget_Some [OF q(2)] by blast
  show ?case
  proof (cases "c = 0")
    case True
    with c less.prems(2) show ?thesis by (subst args_loop.simps) simp
  next
    case False
    obtain s where s: "sdsempty g = Some s" "sds_rep s []" using sdsempty_rep [of g] by blast
    have lim: "length ([] :: bytes) + (length line - ?p) \<le> SDS_LIMIT" using assms(2) by simp
    obtain r where r: "token_loop g line False False ?p s = Some r"
      "\<forall>p' s'. r = Some (p', s') \<longrightarrow> ?p \<le> p' \<and> p' \<le> length line \<and> (cget line ?p \<noteq> Some 0 \<longrightarrow> ?p < p') \<and> (\<exists>ys. sds_rep s' ys)"
      using token_loop_total [OF q(2) s(2) lim, of g False False] by blast
    show ?thesis
    proof (cases r)
      case None
      with c False s r(1) show ?thesis by (subst args_loop.simps) simp
    next
      case (Some ps)
      obtain p' s' where ps: "ps = (p', s')" by fastforce
      from r(2) Some ps c False have p': "?p < p'" "p' \<le> length line" "sds_inv s'" by (auto simp: sds_rep_iff)
      have e: "args_loop g line p vec = args_loop g line p' (vec @ [s'])"
        using c False s r(1) Some ps by (subst args_loop.simps) simp
      have "length line - p' < length line - p" using p' q by linarith
      from less.hyps [OF this p'(2)] p'(3) less.prems(2) e show ?thesis by auto
    qed
  qed
qed

section \<open>Splitting on a separator\<close>

lemma memcmp_eq: "length xs = length ys \<Longrightarrow> memcmp xs ys = 0 \<longleftrightarrow> xs = ys"
  using memcmp_bytes by blast

lemma no_occurrence:
  assumes "\<forall>i. start \<le> i \<and> i < j \<longrightarrow> take (length sep) (drop i s) \<noteq> sep" and "j \<le> length s" and "sep \<noteq> []"
  shows "\<not> sublist sep (take (j - start) (drop start s))"
proof
  assume "sublist sep (take (j - start) (drop start s))"
  then obtain ps ss where e: "take (j - start) (drop start s) = ps @ sep @ ss" by (auto simp: sublist_def)
  then have "length ps + length sep + length ss = min (j - start) (length s - start)"
    by (metis length_append length_take length_drop add.assoc min.commute)
  with assms(2,3) have lt: "start + length ps < j" using length_greater_0_conv [of sep] by linarith
  have "drop start s = ps @ sep @ ss @ drop (j - start) (drop start s)"
    by (metis e append_take_drop_id append_assoc)
  then have "drop (start + length ps) s = sep @ ss @ drop (j - start) (drop start s)"
    by (metis append_eq_conv_conj drop_drop add.commute)
  then have "take (length sep) (drop (start + length ps) s) = sep" by (metis append_eq_conv_conj)
  with assms(1) lt show False by auto
qed

definition split_result :: "bytes \<Rightarrow> bytes \<Rightarrow> nat \<times> nat \<times> sdshdr list \<Rightarrow> bool" where
  "split_result s sep r = (case r of (start, slots, tokens) \<Rightarrow>
     start \<le> length s \<and> length tokens < slots \<and>
     (\<exists>toks. list_all2 sds_rep tokens toks \<and> concat (map (\<lambda>t. t @ sep) toks) = take start s \<and>
        (\<forall>t \<in> set toks. \<not> sublist sep t)) \<and>
     \<not> sublist sep (drop start s))"

lemma split_loop_spec:
  assumes sep: "sep \<noteq> []" and len: "length s < 2 ^ 31"
    and "start \<le> j" "j \<le> length s" "length tokens < slots"
    and "list_all2 sds_rep tokens toks" "concat (map (\<lambda>t. t @ sep) toks) = take start s" "\<forall>t \<in> set toks. \<not> sublist sep t"
    and "\<forall>i. start \<le> i \<and> i < j \<longrightarrow> take (length sep) (drop i s) \<noteq> sep"
  shows "\<exists>r. split_loop g s (length s) sep (length sep) j start slots tokens = Some r \<and> split_result s sep r"
  using assms(3-)
proof (induction "length s - j" arbitrary: j start slots tokens toks rule: less_induct)
  case less
  let ?k = "length sep"
  have k: "0 < ?k" using sep by simp
  let ?sl = "if slots < length tokens + 2 then slots * 2 else slots"
  have sl: "length tokens + 1 < ?sl" using less.prems(3) by auto
  note st = split_loop.simps [of g s "length s" sep ?k j start slots tokens]
  show ?case
  proof (cases "j + (?k - 1) < length s")
    case False
    have "\<forall>i. start \<le> i \<and> i < length s \<longrightarrow> take ?k (drop i s) \<noteq> sep"
    proof (intro allI impI notI, elim conjE)
      fix i assume i: "start \<le> i" "i < length s" "take ?k (drop i s) = sep"
      then have "i + ?k \<le> length s" by (metis length_take length_drop min.absorb_iff2 le_diff_conv2 less_imp_le add.commute min_def)
      with False k have "i < j" by linarith
      with less.prems(7) i show False by blast
    qed
    from no_occurrence [OF this _ sep] have "\<not> sublist sep (drop start s)" by simp
    with False st less.prems show ?thesis by (auto simp: split_result_def)
  next
    case True
    then have "j + ?k \<le> length s" by linarith
    moreover obtain n where "?k = Suc n" using sep by (cases sep) auto
    ultimately have j: "j < length s" "j + ?k \<le> length s" by linarith+
    let ?hit = "take ?k (drop j s) = sep"
    have mb: "mem_byte s j = Some (s ! j)" "mem_byte sep 0 = Some (sep ! 0)" using j(1) sep by (simp_all add: mem_byte_def)
    have h: "(if ?k = 1 \<and> s ! j = sep ! 0 then Some True
              else do { x \<leftarrow> mem_read s j ?k; y \<leftarrow> mem_read sep 0 ?k; Some (memcmp x y = 0) }) = Some ?hit"
    proof (cases "?k = 1 \<and> s ! j = sep ! 0")
      case True
      then obtain b where "sep = [b]" by (metis One_nat_def length_0_conv length_Suc_conv)
      with True j have ?hit by (simp add: take_Suc_conv_app_nth)
      with True show ?thesis by simp
    next
      case no: False
      have "memcmp (take ?k (drop j s)) sep = 0 \<longleftrightarrow> ?hit" using j(2) by (intro memcmp_eq) simp
      with j(2) show ?thesis unfolding if_not_P [OF no] by (simp add: mem_read_def)
    qed
    show ?thesis
    proof (cases ?hit)
      case False
      have "split_loop g s (length s) sep ?k j start slots tokens = split_loop g s (length s) sep ?k (j + 1) start ?sl tokens"
        unfolding st using True mb h False by (simp add: Let_def)
      moreover have "\<forall>i. start \<le> i \<and> i < j + 1 \<longrightarrow> take ?k (drop i s) \<noteq> sep"
        using less.prems(7) False by (metis less_Suc_eq Suc_eq_plus1)
      moreover have "length s - (j + 1) < length s - j" "start \<le> j + 1" "j + 1 \<le> length s" "length tokens < ?sl"
        using j less.prems(1) sl by auto
      ultimately show ?thesis using less.hyps [OF _ _ _ _ less.prems(4-6)] by metis
    next
      case hit: True
      let ?t = "take (j - start) (drop start s)"
      obtain t where t: "sdsnewlen g (Some (drop start s)) (j - start) = Some t" "sds_rep t ?t"
      proof -
        have "j - start \<le> length (drop start s)" "j - start + 1 \<le> 2 ^ 31" using j(1) len by auto
        from sdsnewlen_rep [OF this, of g] that show thesis by blast
      qed
      have "split_loop g s (length s) sep ?k j start slots tokens =
          split_loop g s (length s) sep ?k (j + (?k - 1) + 1) (j + ?k) ?sl (tokens @ [t])"
        unfolding st using True mb h hit t sl by (simp add: Let_def)
      also have "j + (?k - 1) + 1 = j + ?k" using k by simp
      finally have e: "split_loop g s (length s) sep ?k j start slots tokens =
          split_loop g s (length s) sep ?k (j + ?k) (j + ?k) ?sl (tokens @ [t])" .
      have "concat (map (\<lambda>t. t @ sep) (toks @ [?t])) = take (j + ?k) s"
      proof -
        have "take (j + ?k) s = take j s @ sep" using hit by (simp add: take_add)
        moreover have "take j s = take start s @ ?t" using less.prems(1) by (metis le_add_diff_inverse take_add)
        ultimately show ?thesis using less.prems(5) by simp
      qed
      moreover have "\<not> sublist sep ?t" by (rule no_occurrence [OF less.prems(7) _ sep]) (use j in simp)
      moreover have "list_all2 sds_rep (tokens @ [t]) (toks @ [?t])"
        using less.prems(4) t(2) by (simp add: list_all2_appendI)
      moreover have "length s - (j + ?k) < length s - j" by (intro diff_less_mono2) (use sep j(1) in auto)
      moreover have "length (tokens @ [t]) < ?sl" using sl by auto
      ultimately show ?thesis unfolding e using less.prems(6) j(2)
        by (intro less.hyps [where toks = "toks @ [?t]"]) auto
    qed
  qed
qed

fun join_with :: "bytes \<Rightarrow> bytes list \<Rightarrow> bytes" where
  "join_with sep [] = []"
| "join_with sep [t] = t"
| "join_with sep (t # u # ts) = t @ sep @ join_with sep (u # ts)"

lemma join_with_snoc: "join_with sep (ts @ [t]) = concat (map (\<lambda>t. t @ sep) ts) @ t"
proof (induction ts)
  case (Cons u ts)
  then show ?case by (cases ts) simp_all
qed simp

lemma join_with_Cons: "join_with sep (t # ts) = t @ (if ts = [] then [] else sep @ join_with sep ts)"
  by (cases ts) simp_all

lemma sdssplitlen_spec:
  assumes "sep \<noteq> []" and "s \<noteq> []" and "length s < 2 ^ 31"
  shows "\<exists>tokens. sdssplitlen g s (int (length s)) sep (int (length sep)) = Some (Some tokens) \<and>
           list_all sds_inv tokens \<and> join_with sep (map sds_str tokens) = s \<and>
           (\<forall>t \<in> set tokens. \<not> sublist sep (sds_str t))"
proof -
  obtain start slots tokens where sp: "split_loop g s (length s) sep (length sep) 0 0 5 [] = Some (start, slots, tokens)"
    and res: "split_result s sep (start, slots, tokens)"
    using split_loop_spec [OF assms(1,3), of 0 0 "[]" 5 "[]" g] by auto
  from res obtain toks where r: "start \<le> length s" "length tokens < slots" "list_all2 sds_rep tokens toks"
    "concat (map (\<lambda>t. t @ sep) toks) = take start s" "\<forall>t \<in> set toks. \<not> sublist sep t" "\<not> sublist sep (drop start s)"
    by (auto simp: split_result_def)
  obtain t where t: "sdsnewlen g (Some (drop start s)) (length s - start) = Some t" "sds_rep t (drop start s)"
  proof -
    have "length s - start \<le> length (drop start s)" "length s - start + 1 \<le> 2 ^ 31" using assms(3) by auto
    from sdsnewlen_rep [OF this, of g] that show thesis by auto
  qed
  have map: "map sds_str tokens = toks" "list_all sds_inv tokens"
    using r(3) by (induction rule: list_all2_induct) (auto simp: sds_rep_iff)
  have "0 < length s" "0 < length sep" using assms by auto
  then have "sdssplitlen g s (int (length s)) sep (int (length sep)) = Some (Some (tokens @ [t]))"
    using sp t(1) r(2) by (simp add: sdssplitlen_def)
  moreover have "join_with sep (map sds_str (tokens @ [t])) = s"
    using t(2) r(4) by (simp add: map join_with_snoc sds_rep_iff)
  moreover have "\<forall>u \<in> set (tokens @ [t]). \<not> sublist sep (sds_str u)"
    using r(5,6) t(2) map(1) by (auto simp: sds_rep_iff)
  ultimately show ?thesis using map(2) t(2) by (intro exI [of _ "tokens @ [t]"]) (simp add: sds_rep_iff)
qed

lemma join_loop_rep:
  assumes "sds_rep s xs" and "\<forall>a \<in> set as. 0 \<notin> set a" and "0 \<notin> set sep" and "length xs + length (join_with sep as) \<le> SDS_LIMIT"
  shows "\<exists>s'. join_loop g s (map (\<lambda>a. a @ [0]) as) (sep @ [0]) = Some s' \<and> sds_rep s' (xs @ join_with sep as)"
  using assms
proof (induction as arbitrary: s xs)
  case (Cons a as)
  have l: "length xs + length a \<le> SDS_LIMIT" using Cons.prems(4) by (simp add: join_with_Cons)
  obtain s1 where s1: "sdscat g s (a @ [0]) = Some s1" "sds_rep s1 (xs @ a)"
    using sdscat_rep [OF Cons.prems(1) _ l, of g "[]"] Cons.prems(2) by auto
  show ?case
  proof (cases "as = []")
    case True
    with s1 show ?thesis by simp
  next
    case False
    then have l2: "length (xs @ a) + length sep + length (join_with sep as) \<le> SDS_LIMIT"
      using Cons.prems(4) by (simp add: join_with_Cons)
    obtain s2 where s2: "sdscat g s1 (sep @ [0]) = Some s2" "sds_rep s2 ((xs @ a) @ sep)"
      using sdscat_rep [OF s1(2) Cons.prems(3), of g "[]"] l2 by auto
    from Cons.IH [OF s2(2) _ Cons.prems(3)] Cons.prems(2) l2 obtain s3 where
      "join_loop g s2 (map (\<lambda>a. a @ [0]) as) (sep @ [0]) = Some s3" "sds_rep s3 (((xs @ a) @ sep) @ join_with sep as)" by auto
    with s1 s2 False show ?thesis by (simp add: join_with_Cons)
  qed
qed simp

section \<open>Properties\<close>



text \<open>
  C21: Quoting and splitting are inverse. The arguments of a command, strings of arbitrary bytes or integers, printed
  one after the other in the quoted form of \<open>sdscatrepr\<close> as the monitor feed does, are exactly what \<open>sdssplitargs\<close> reads
  from the line: binary data, quotes, blanks and control characters included.
\<close>

theorem sdssplitargs_sdscatrepr:
  assumes "list_all arg_ok args" and "length (args_line (map arg_str args)) \<le> SDS_LIMIT"
  shows "\<exists>s0 s tokens. sdsempty g = Some s0 \<and> feed_args g s0 args = Some s \<and>
           sdssplitargs g' (sds_str s) = Some (Some tokens) \<and> map sds_str tokens = map arg_str args"
proof -
  obtain s0 where s0: "sdsempty g = Some s0" "sds_rep s0 []" using sdsempty_rep [of g] by blast
  obtain s where s: "feed_args g s0 args = Some s" "sds_rep s (args_line (map arg_str args))"
    using feed_args_rep [OF s0(2) assms(1), of g] assms(2) by auto
  obtain v where v: "sdssplitargs g' (args_line (map arg_str args)) = Some (Some v)" "list_all2 sds_rep v (map arg_str args)"
    using args_loop_line [OF assms(2), of g' "[]" "[]"] by (auto simp: sdssplitargs_def)
  from v(2) have "map sds_str v = map arg_str args"
    by (induction rule: list_all2_induct) (auto simp: sds_rep_iff)
  with s0 s v(1) show ?thesis by (auto simp: sds_rep_iff)
qed

theorem sdssplitargs_sdscatrepr_witness:
  "list_all arg_ok [ArgInt (-5), ArgSds (sds_mk [34, 0, 255, 32] [])] \<and>
   (\<exists>s0 s tokens. sdsempty (\<lambda>_. 1) = Some s0 \<and>
      feed_args (\<lambda>_. 1) s0 [ArgInt (-5), ArgSds (sds_mk [34, 0, 255, 32] [])] = Some s \<and>
      sdssplitargs (\<lambda>_. 2) (sds_str s) = Some (Some tokens) \<and> map sds_str tokens = [bstr ''-5'', [34, 0, 255, 32]])"
proof -
  have rep: "sds_rep (sds_mk [34, 0, 255, 32] []) [34, 0, 255, 32]" by (rule sds_repI [OF refl]) simp
  then have ok: "list_all arg_ok [ArgInt (-5), ArgSds (sds_mk [34, 0, 255, 32] [])]"
    by (simp add: arg_ok_def sds_rep_iff)
  have str: "map arg_str [ArgInt (-5), ArgSds (sds_mk [34, 0, 255, 32] [])] = [bstr ''-5'', [34, 0, 255, 32]]"
    using rep by (simp add: arg_str_def sds_rep_iff int_dec_def nat_dec.simps)
  have "length (args_line [bstr ''-5'', [34, 0, 255, 32]]) \<le> SDS_LIMIT"
    by (simp add: quoted_def repr_of_def fmt_02x_def isprint_def SDS_LIMIT_def)
  with ok sdssplitargs_sdscatrepr [OF ok, of "\<lambda>_. 1" "\<lambda>_. 2"] show ?thesis unfolding str by blast
qed

text \<open>
  C23: Splitting a line into arguments is total: on every line, also with unbalanced quotes, dangling backslashes and
  truncated hexadecimal escapes, \<open>sdssplitargs\<close> ends and reads nothing beyond the terminator of the line; it returns
  NULL or well-formed strings.
\<close>

theorem sdssplitargs_total:
  assumes "length line \<le> SDS_LIMIT"
  shows "\<exists>r. sdssplitargs g line = Some r \<and> (\<forall>v. r = Some v \<longrightarrow> list_all sds_inv v)"
  using args_loop_total [OF _ assms, of 0 "[]" g] by (auto simp: sdssplitargs_def list_all_iff)

theorem sdssplitargs_total_witness: "\<exists>r. sdssplitargs (\<lambda>_. 0) [34, 92] = Some r"
  using sdssplitargs_total [of "[34, 92]" "\<lambda>_. 0"] by (auto simp: SDS_LIMIT_def)

text \<open>
  C22: Splitting on a separator finds all of it: the tokens that \<open>sdssplitlen\<close> returns for a non-empty string contain no
  occurrence of the separator, joined with it they are the string again, and \<open>sdsjoin\<close> computes that join for
  strings without NUL; the array of tokens is never written beyond its capacity.
\<close>

theorem sdssplitlen_sdsjoin:
  assumes "sep \<noteq> []" and "s \<noteq> []" and "length s \<le> SDS_LIMIT" and "0 \<notin> set s" and "0 \<notin> set sep"
  shows "\<exists>tokens s'. sdssplitlen g s (int (length s)) sep (int (length sep)) = Some (Some tokens) \<and>
           list_all sds_inv tokens \<and> (\<forall>t \<in> set tokens. \<not> sublist sep (sds_str t)) \<and>
           sdsjoin g (map (\<lambda>t. sds_str t @ [0]) tokens) (sep @ [0]) = Some s' \<and> sds_str s' = s"
proof -
  have "length s < 2 ^ 31" using assms(3) by (simp add: SDS_LIMIT_def)
  from sdssplitlen_spec [OF assms(1,2) this, of g] obtain tokens where t:
    "sdssplitlen g s (int (length s)) sep (int (length sep)) = Some (Some tokens)"
    "list_all sds_inv tokens" "join_with sep (map sds_str tokens) = s" "\<forall>t \<in> set tokens. \<not> sublist sep (sds_str t)" by blast
  have sub: "a \<in> set as \<Longrightarrow> set a \<subseteq> set (join_with sep as)" for a as
    by (induction sep as rule: join_with.induct) auto
  have "\<forall>a \<in> set (map sds_str tokens). 0 \<notin> set a" using sub [of _ "map sds_str tokens"] t(3) assms(4) by blast
  moreover obtain s0 where s0: "sdsempty g = Some s0" "sds_rep s0 []" using sdsempty_rep [of g] by blast
  ultimately obtain s' where "join_loop g s0 (map (\<lambda>a. a @ [0]) (map sds_str tokens)) (sep @ [0]) = Some s'" "sds_rep s' s"
    using join_loop_rep [OF s0(2) _ assms(5), of "map sds_str tokens" g] t(3) assms(3) by auto
  with t s0 show ?thesis by (auto simp: sdsjoin_def sds_rep_iff comp_def)
qed

theorem sdssplitlen_sdsjoin_witness:
  "\<exists>tokens s'. sdssplitlen (\<lambda>_. 0) (bstr ''foo_-_bar'') (int (length (bstr ''foo_-_bar''))) (bstr ''_-_'') (int (length (bstr ''_-_''))) = Some (Some tokens) \<and>
     sdsjoin (\<lambda>_. 0) (map (\<lambda>t. sds_str t @ [0]) tokens) (bstr ''_-_'' @ [0]) = Some s' \<and> sds_str s' = bstr ''foo_-_bar''"
proof -
  have "bstr ''_-_'' \<noteq> []" "bstr ''foo_-_bar'' \<noteq> []" "length (bstr ''foo_-_bar'') \<le> SDS_LIMIT"
    "0 \<notin> set (bstr ''foo_-_bar'')" "0 \<notin> set (bstr ''_-_'')" by (simp_all add: SDS_LIMIT_def)
  from sdssplitlen_sdsjoin [OF this, of "\<lambda>_. 0"] show ?thesis by blast
qed

text \<open>
  \<open>sdscmp\<close> is the lexicographic order of the bytes, a prefix being smaller, and zero exactly on equal strings.
\<close>

theorem sdscmp_lexicographic:
  assumes "sds_inv s" and "sds_inv t"
  shows "\<exists>r. sdscmp s t = Some r \<and> (r < 0 \<longleftrightarrow> bytes_less (sds_str s) (sds_str t)) \<and>
           (r = 0 \<longleftrightarrow> sds_str s = sds_str t) \<and> (0 < r \<longleftrightarrow> bytes_less (sds_str t) (sds_str s))"
  using sdscmp_rep [of s "sds_str s" t "sds_str t"] assms by (simp add: sds_rep_iff)

theorem sdscmp_lexicographic_witness:
  "\<exists>r. sdscmp (sds_mk (bstr ''ab'') []) (sds_mk (bstr ''abc'') []) = Some r \<and> r < 0"
proof -
  have "sds_inv (sds_mk (bstr ''ab'') [])" "sds_inv (sds_mk (bstr ''abc'') [])" by (simp_all add: sds_inv_def)
  from sdscmp_lexicographic [OF this] show ?thesis by (auto simp: sds_str_def)
qed

end
