(* ===== verification/Seq_Spec.thy ===== *)
theory Seq_Spec
  imports Prelude
begin

text \<open>
  The contract of a sequence container as its clients use it: pushing at either end, inserting
  before and deleting at an index, and reading at an index, where negative indices count from the
  end. An operation that fails (\<open>None\<close>) is an access outside the memory of the container. The
  clients' lemma is that any sequence of operations behaves as on a list, as long as the list fits.
\<close>

datatype 'a seqop = PushHead 'a | PushTail 'a | InsertAt int 'a | DeleteAt int | ReadAt int

text \<open>The position an index stands for, if it is in range.\<close>

definition position :: "nat \<Rightarrow> int \<Rightarrow> nat option" where
  "position n i =
     (if 0 \<le> i then if nat i < n then Some (nat i) else None
      else if nat (- i) \<le> n then Some (n - nat (- i)) else None)"

lemma position_less: "position n i = Some k \<Longrightarrow> k < n"
  by (auto simp: position_def split: if_splits)

definition insert_spec :: "int \<Rightarrow> 'a \<Rightarrow> 'a list \<Rightarrow> 'a list" where
  "insert_spec i v xs = (case position (length xs) i of None \<Rightarrow> xs | Some k \<Rightarrow> take k xs @ v # drop k xs)"

definition delete_spec :: "int \<Rightarrow> 'a list \<Rightarrow> 'a list" where
  "delete_spec i xs = (case position (length xs) i of None \<Rightarrow> xs | Some k \<Rightarrow> take k xs @ drop (k + 1) xs)"

definition read_spec :: "int \<Rightarrow> 'a list \<Rightarrow> 'a option" where
  "read_spec i xs = map_option ((!) xs) (position (length xs) i)"

fun seq_spec :: "'a seqop \<Rightarrow> 'a list \<Rightarrow> 'a list \<times> 'a option" where
  "seq_spec (PushHead v) xs = (v # xs, None)"
| "seq_spec (PushTail v) xs = (xs @ [v], None)"
| "seq_spec (InsertAt i v) xs = (insert_spec i v xs, None)"
| "seq_spec (DeleteAt i) xs = (delete_spec i xs, None)"
| "seq_spec (ReadAt i) xs = (xs, read_spec i xs)"

text \<open>A sequence of operations on a list: the final list and what the operations returned.\<close>

fun seq_run :: "'a seqop list \<Rightarrow> 'a list \<Rightarrow> 'a list \<times> 'a option list" where
  "seq_run [] xs = (xs, [])"
| "seq_run (p # ps) xs = (let (ys, r) = seq_spec p xs; (zs, rs) = seq_run ps ys in (zs, r # rs))"

fun seq_fits :: "('a list \<Rightarrow> bool) \<Rightarrow> 'a seqop list \<Rightarrow> 'a list \<Rightarrow> bool" where
  "seq_fits fits [] xs \<longleftrightarrow> fits xs"
| "seq_fits fits (p # ps) xs \<longleftrightarrow> fits xs \<and> seq_fits fits ps (fst (seq_spec p xs))"

text \<open>Insertion at an index is not offered by every container.\<close>

fun at_ends :: "'a seqop \<Rightarrow> bool" where
  "at_ends (InsertAt i v) = False"
| "at_ends _ = True"

fun exec_seqop ::
  "('a \<Rightarrow> 's \<Rightarrow> 's option) \<Rightarrow> ('a \<Rightarrow> 's \<Rightarrow> 's option) \<Rightarrow> (int \<Rightarrow> 'a \<Rightarrow> 's \<Rightarrow> 's option) \<Rightarrow> (int \<Rightarrow> 's \<Rightarrow> 's option) \<Rightarrow>
   (int \<Rightarrow> 's \<Rightarrow> 'a option option) \<Rightarrow> 'a seqop \<Rightarrow> 's \<Rightarrow> ('s \<times> 'a option) option" where
  "exec_seqop ph pt ins del rd (PushHead v) s = map_option (\<lambda>s. (s, None)) (ph v s)"
| "exec_seqop ph pt ins del rd (PushTail v) s = map_option (\<lambda>s. (s, None)) (pt v s)"
| "exec_seqop ph pt ins del rd (InsertAt i v) s = map_option (\<lambda>s. (s, None)) (ins i v s)"
| "exec_seqop ph pt ins del rd (DeleteAt i) s = map_option (\<lambda>s. (s, None)) (del i s)"
| "exec_seqop ph pt ins del rd (ReadAt i) s = map_option (\<lambda>r. (s, r)) (rd i s)"

fun exec_seqops ::
  "('a \<Rightarrow> 's \<Rightarrow> 's option) \<Rightarrow> ('a \<Rightarrow> 's \<Rightarrow> 's option) \<Rightarrow> (int \<Rightarrow> 'a \<Rightarrow> 's \<Rightarrow> 's option) \<Rightarrow> (int \<Rightarrow> 's \<Rightarrow> 's option) \<Rightarrow>
   (int \<Rightarrow> 's \<Rightarrow> 'a option option) \<Rightarrow> 'a seqop list \<Rightarrow> 's \<Rightarrow> ('s \<times> 'a option list) option" where
  "exec_seqops ph pt ins del rd [] s = Some (s, [])"
| "exec_seqops ph pt ins del rd (p # ps) s = do {
     (s, r) \<leftarrow> exec_seqop ph pt ins del rd p s;
     (s, rs) \<leftarrow> exec_seqops ph pt ins del rd ps s;
     Some (s, r # rs)
   }"

text \<open>If every operation of a sequence is right, so is the sequence.\<close>

lemma exec_seqops_run:
  assumes "\<And>p s xs. p \<in> set ps \<Longrightarrow> rep s xs \<Longrightarrow> fits xs \<Longrightarrow> fits (fst (seq_spec p xs)) \<Longrightarrow>
      \<exists>s'. exec_seqop ph pt ins del rd p s = Some (s', snd (seq_spec p xs)) \<and> rep s' (fst (seq_spec p xs))"
    and "rep s xs" and "seq_fits fits ps xs"
  shows "\<exists>s'. exec_seqops ph pt ins del rd ps s = Some (s', snd (seq_run ps xs)) \<and> rep s' (fst (seq_run ps xs))"
  using assms
proof (induction ps arbitrary: s xs)
  case (Cons p ps)
  have fits: "fits (fst (seq_spec p xs))" "fits xs" using Cons.prems(3) by (cases ps; auto)+
  then obtain s1 where s1: "exec_seqop ph pt ins del rd p s = Some (s1, snd (seq_spec p xs))" "rep s1 (fst (seq_spec p xs))"
    using Cons.prems(1) [of p s xs] Cons.prems(2) by auto
  have "\<exists>s'. exec_seqops ph pt ins del rd ps s1 = Some (s', snd (seq_run ps (fst (seq_spec p xs)))) \<and>
      rep s' (fst (seq_run ps (fst (seq_spec p xs))))"
    by (rule Cons.IH [OF _ s1(2)]) (use Cons.prems in auto)
  with s1(1) show ?case by (auto simp: Let_def split_def)
qed simp

text \<open>The operations every sequence container has, and the containers that insert anywhere.\<close>

locale ends =
  fixes rep :: "'s \<Rightarrow> 'a list \<Rightarrow> bool"
    and fits :: "'a list \<Rightarrow> bool"
    and push_head :: "'a \<Rightarrow> 's \<Rightarrow> 's option"
    and push_tail :: "'a \<Rightarrow> 's \<Rightarrow> 's option"
    and delete_at :: "int \<Rightarrow> 's \<Rightarrow> 's option"
    and read_at :: "int \<Rightarrow> 's \<Rightarrow> 'a option option"
  assumes head_ok: "rep s xs \<Longrightarrow> fits (v # xs) \<Longrightarrow> \<exists>s'. push_head v s = Some s' \<and> rep s' (v # xs)"
    and tail_ok: "rep s xs \<Longrightarrow> fits (xs @ [v]) \<Longrightarrow> \<exists>s'. push_tail v s = Some s' \<and> rep s' (xs @ [v])"
    and delete_ok: "rep s xs \<Longrightarrow> fits xs \<Longrightarrow> \<exists>s'. delete_at i s = Some s' \<and> rep s' (delete_spec i xs)"
    and read_ok: "rep s xs \<Longrightarrow> fits xs \<Longrightarrow> read_at i s = Some (read_spec i xs)"
begin

lemma step_ends:
  assumes "at_ends p" and "rep s xs" and "fits xs" and "fits (fst (seq_spec p xs))"
  shows "\<exists>s'. exec_seqop push_head push_tail ins delete_at read_at p s = Some (s', snd (seq_spec p xs)) \<and> rep s' (fst (seq_spec p xs))"
  using assms head_ok [of s xs] tail_ok [of s xs] delete_ok [of s xs] read_ok [of s xs] by (cases p) fastforce+

lemma run_ends:
  assumes "list_all at_ends ps" and "rep s xs" and "seq_fits fits ps xs"
  shows "\<exists>s'. exec_seqops push_head push_tail ins delete_at read_at ps s = Some (s', snd (seq_run ps xs)) \<and> rep s' (fst (seq_run ps xs))"
  by (rule exec_seqops_run [OF step_ends assms(2,3)]) (use assms(1) in \<open>auto simp: list_all_iff\<close>)

end

locale sequence = ends rep fits push_head push_tail delete_at read_at
  for rep :: "'s \<Rightarrow> 'a list \<Rightarrow> bool" and fits :: "'a list \<Rightarrow> bool" and push_head :: "'a \<Rightarrow> 's \<Rightarrow> 's option"
    and push_tail :: "'a \<Rightarrow> 's \<Rightarrow> 's option" and delete_at :: "int \<Rightarrow> 's \<Rightarrow> 's option" and read_at :: "int \<Rightarrow> 's \<Rightarrow> 'a option option" +
  fixes insert_at :: "int \<Rightarrow> 'a \<Rightarrow> 's \<Rightarrow> 's option"
  assumes insert_ok: "rep s xs \<Longrightarrow> fits xs \<Longrightarrow> fits (insert_spec i v xs) \<Longrightarrow>
                        \<exists>s'. insert_at i v s = Some s' \<and> rep s' (insert_spec i v xs)"
begin

lemma step_ok:
  assumes "rep s xs" and "fits xs" and "fits (fst (seq_spec p xs))"
  shows "\<exists>s'. exec_seqop push_head push_tail insert_at delete_at read_at p s = Some (s', snd (seq_spec p xs)) \<and> rep s' (fst (seq_spec p xs))"
proof (cases "at_ends p")
  case True
  then show ?thesis using assms by (rule step_ends)
next
  case False
  then show ?thesis using assms insert_ok [of s xs] by (cases p) fastforce+
qed

lemma run_ok:
  assumes "rep s xs" and "seq_fits fits ps xs"
  shows "\<exists>s'. exec_seqops push_head push_tail insert_at delete_at read_at ps s = Some (s', snd (seq_run ps xs)) \<and> rep s' (fst (seq_run ps xs))"
  by (rule exec_seqops_run [OF step_ok assms])

end

end
