(* ===== verification/Adlist.thy ===== *)
theory Adlist
  imports Seq_Spec
begin

text \<open>
  The doubly linked lists of \<open>adlist.c\<close>. The nodes live in a heap, a map from addresses to nodes;
  a pointer is an address or NULL (\<open>None\<close>), and using NULL or a freed node is \<open>None\<close>. The address
  of a new node is given by a parameter \<open>al\<close>, of which only the law of an allocator is assumed: it
  is not in use. A value is opaque; the \<open>dup\<close> and \<open>match\<close> methods are functions, and the \<open>free\<close>
  method is a flag: operations return the values handed to it, in order.

  The lemmas relate a list in the heap to the sequence of its cells, address and value
  (\<open>al_rep\<close>), show the effect of every operation on it, and that nothing else in the heap changes.
\<close>

section \<open>The code\<close>

record 'a listNode =
  ln_prev :: "nat option"
  ln_next :: "nat option"
  ln_value :: 'a

record listIter =
  li_next :: "nat option"
  li_head :: bool

record 'a adlist =
  al_head :: "nat option"
  al_tail :: "nat option"
  al_dup :: "('a \<Rightarrow> 'a option) option"
  al_free :: bool
  al_match :: "('a \<Rightarrow> 'a \<Rightarrow> bool) option"
  al_len :: nat

type_synonym 'a heap = "nat \<Rightarrow> 'a listNode option"

definition deref :: "'a heap \<Rightarrow> nat option \<Rightarrow> 'a listNode option" where
  "deref h p = (case p of None \<Rightarrow> None | Some a \<Rightarrow> h a)"

definition update :: "'a heap \<Rightarrow> nat option \<Rightarrow> ('a listNode \<Rightarrow> 'a listNode) \<Rightarrow> 'a heap option" where
  "update h p f = (case p of None \<Rightarrow> None | Some a \<Rightarrow> map_option (\<lambda>n. h(a \<mapsto> f n)) (h a))"

definition listCreate :: "'a adlist" where
  "listCreate = \<lparr>al_head = None, al_tail = None, al_dup = None, al_free = False, al_match = None, al_len = 0\<rparr>"

text \<open>Releasing returns the heap and the values given to \<open>free\<close>.\<close>

fun release_loop :: "'a heap \<Rightarrow> nat option \<Rightarrow> bool \<Rightarrow> nat \<Rightarrow> ('a heap \<times> 'a list) option" where
  "release_loop h p fr 0 = Some (h, [])"
| "release_loop h p fr (Suc n) = do {
     cur \<leftarrow> deref h p;
     (h', vs) \<leftarrow> release_loop (h(the p := None)) (ln_next cur) fr n;
     Some (h', if fr then ln_value cur # vs else vs)
   }"

definition listRelease :: "'a heap \<Rightarrow> 'a adlist \<Rightarrow> ('a heap \<times> 'a list) option" where
  "listRelease h l = release_loop h (al_head l) (al_free l) (al_len l)"

definition listAddNodeHead :: "('a heap \<Rightarrow> nat) \<Rightarrow> 'a heap \<Rightarrow> 'a adlist \<Rightarrow> 'a \<Rightarrow> ('a heap \<times> 'a adlist) option" where
  "listAddNodeHead al h l val = do {
     let a = al h;
     (h, l) \<leftarrow>
       (if al_len l = 0 then
          Some (h(a \<mapsto> \<lparr>ln_prev = None, ln_next = None, ln_value = val\<rparr>), l\<lparr>al_head := Some a, al_tail := Some a\<rparr>)
        else do {
          h \<leftarrow> update (h(a \<mapsto> \<lparr>ln_prev = None, ln_next = al_head l, ln_value = val\<rparr>)) (al_head l) (\<lambda>n. n\<lparr>ln_prev := Some a\<rparr>);
          Some (h, l\<lparr>al_head := Some a\<rparr>)
        });
     Some (h, l\<lparr>al_len := (al_len l + 1) mod 2 ^ 64\<rparr>)
   }"

definition listAddNodeTail :: "('a heap \<Rightarrow> nat) \<Rightarrow> 'a heap \<Rightarrow> 'a adlist \<Rightarrow> 'a \<Rightarrow> ('a heap \<times> 'a adlist) option" where
  "listAddNodeTail al h l val = do {
     let a = al h;
     (h, l) \<leftarrow>
       (if al_len l = 0 then
          Some (h(a \<mapsto> \<lparr>ln_prev = None, ln_next = None, ln_value = val\<rparr>), l\<lparr>al_head := Some a, al_tail := Some a\<rparr>)
        else do {
          h \<leftarrow> update (h(a \<mapsto> \<lparr>ln_prev = al_tail l, ln_next = None, ln_value = val\<rparr>)) (al_tail l) (\<lambda>n. n\<lparr>ln_next := Some a\<rparr>);
          Some (h, l\<lparr>al_tail := Some a\<rparr>)
        });
     Some (h, l\<lparr>al_len := (al_len l + 1) mod 2 ^ 64\<rparr>)
   }"

definition listInsertNode ::
    "('a heap \<Rightarrow> nat) \<Rightarrow> 'a heap \<Rightarrow> 'a adlist \<Rightarrow> nat option \<Rightarrow> 'a \<Rightarrow> bool \<Rightarrow> ('a heap \<times> 'a adlist) option" where
  "listInsertNode al h l old_node val after = do {
     let a = al h;
     old \<leftarrow> deref h old_node;
     let (node, l) =
       (if after then
          (\<lparr>ln_prev = old_node, ln_next = ln_next old, ln_value = val\<rparr>,
           if al_tail l = old_node then l\<lparr>al_tail := Some a\<rparr> else l)
        else
          (\<lparr>ln_prev = ln_prev old, ln_next = old_node, ln_value = val\<rparr>,
           if al_head l = old_node then l\<lparr>al_head := Some a\<rparr> else l));
     let h = h(a \<mapsto> node);
     h \<leftarrow> (if ln_prev node \<noteq> None then update h (ln_prev node) (\<lambda>n. n\<lparr>ln_next := Some a\<rparr>) else Some h);
     h \<leftarrow> (if ln_next node \<noteq> None then update h (ln_next node) (\<lambda>n. n\<lparr>ln_prev := Some a\<rparr>) else Some h);
     Some (h, l\<lparr>al_len := (al_len l + 1) mod 2 ^ 64\<rparr>)
   }"

definition listDelNode :: "'a heap \<Rightarrow> 'a adlist \<Rightarrow> nat option \<Rightarrow> ('a heap \<times> 'a adlist \<times> 'a list) option" where
  "listDelNode h l node = do {
     n \<leftarrow> deref h node;
     (h, l) \<leftarrow> (if ln_prev n \<noteq> None then do { h \<leftarrow> update h (ln_prev n) (\<lambda>m. m\<lparr>ln_next := ln_next n\<rparr>); Some (h, l) }
               else Some (h, l\<lparr>al_head := ln_next n\<rparr>));
     (h, l) \<leftarrow> (if ln_next n \<noteq> None then do { h \<leftarrow> update h (ln_next n) (\<lambda>m. m\<lparr>ln_prev := ln_prev n\<rparr>); Some (h, l) }
               else Some (h, l\<lparr>al_tail := ln_prev n\<rparr>));
     Some (h(the node := None), l\<lparr>al_len := (al_len l + (2 ^ 64 - 1)) mod 2 ^ 64\<rparr>, if al_free l then [ln_value n] else [])
   }"

definition listGetIterator :: "'a adlist \<Rightarrow> bool \<Rightarrow> listIter" where
  "listGetIterator l from_head =
     (if from_head then \<lparr>li_next = al_head l, li_head = from_head\<rparr> else \<lparr>li_next = al_tail l, li_head = from_head\<rparr>)"

definition listRewind :: "'a adlist \<Rightarrow> listIter" where
  "listRewind l = \<lparr>li_next = al_head l, li_head = True\<rparr>"

definition listRewindTail :: "'a adlist \<Rightarrow> listIter" where
  "listRewindTail l = \<lparr>li_next = al_tail l, li_head = False\<rparr>"

definition listNext :: "'a heap \<Rightarrow> listIter \<Rightarrow> (nat option \<times> listIter) option" where
  "listNext h it =
     (case li_next it of
        None \<Rightarrow> Some (None, it)
      | Some a \<Rightarrow> do {
          n \<leftarrow> h a;
          Some (Some a, if li_head it then it\<lparr>li_next := ln_next n\<rparr> else it\<lparr>li_next := ln_prev n\<rparr>)
        })"

text \<open>\<open>Some None\<close> is the NULL result; the heap is returned in both cases.\<close>

partial_function (option) dup_loop ::
    "('a heap \<Rightarrow> nat) \<Rightarrow> 'a heap \<Rightarrow> 'a adlist \<Rightarrow> listIter \<Rightarrow> ('a heap \<times> 'a adlist option) option" where
  "dup_loop al h copy it = do {
     (node, it) \<leftarrow> listNext h it;
     (case node of
        None \<Rightarrow> Some (h, Some copy)
      | Some a \<Rightarrow> do {
          n \<leftarrow> h a;
          (case (case al_dup copy of Some f \<Rightarrow> f (ln_value n) | None \<Rightarrow> Some (ln_value n)) of
             None \<Rightarrow> do { (h, vs) \<leftarrow> listRelease h copy; Some (h, None) }
           | Some val \<Rightarrow> do { (h, copy) \<leftarrow> listAddNodeTail al h copy val; dup_loop al h copy it })
        })
   }"

definition listDup :: "('a heap \<Rightarrow> nat) \<Rightarrow> 'a heap \<Rightarrow> 'a adlist \<Rightarrow> ('a heap \<times> 'a adlist option) option" where
  "listDup al h orig =
     (let copy = listCreate\<lparr>al_dup := al_dup orig, al_free := al_free orig, al_match := al_match orig\<rparr>
      in dup_loop al h copy (listGetIterator orig True))"

partial_function (option) search_loop :: "'a heap \<Rightarrow> 'a adlist \<Rightarrow> 'a \<Rightarrow> listIter \<Rightarrow> nat option option" where
  "search_loop h l key it = do {
     (node, it) \<leftarrow> listNext h it;
     (case node of
        None \<Rightarrow> Some None
      | Some a \<Rightarrow> do {
          n \<leftarrow> h a;
          if (case al_match l of Some m \<Rightarrow> m (ln_value n) key | None \<Rightarrow> key = ln_value n) then Some (Some a)
          else search_loop h l key it
        })
   }"

definition listSearchKey :: "'a heap \<Rightarrow> 'a adlist \<Rightarrow> 'a \<Rightarrow> nat option option" where
  "listSearchKey h l key = search_loop h l key (listGetIterator l True)"

fun index_loop :: "('a listNode \<Rightarrow> nat option) \<Rightarrow> 'a heap \<Rightarrow> nat \<Rightarrow> nat option \<Rightarrow> nat option option" where
  "index_loop step h 0 p = Some p"
| "index_loop step h (Suc i) p =
     (case p of None \<Rightarrow> Some None | Some a \<Rightarrow> do { n \<leftarrow> h a; index_loop step h i (step n) })"

definition listIndex :: "'a heap \<Rightarrow> 'a adlist \<Rightarrow> int \<Rightarrow> nat option option" where
  "listIndex h l index =
     (if index < 0 then index_loop ln_prev h (nat (- index - 1)) (al_tail l)
      else index_loop ln_next h (nat index) (al_head l))"

definition listRotate :: "'a heap \<Rightarrow> 'a adlist \<Rightarrow> ('a heap \<times> 'a adlist) option" where
  "listRotate h l =
     (if al_len l \<le> 1 then Some (h, l)
      else do {
        let tail = al_tail l;
        t \<leftarrow> deref h tail;
        let l = l\<lparr>al_tail := ln_prev t\<rparr>;
        h \<leftarrow> update h (al_tail l) (\<lambda>n. n\<lparr>ln_next := None\<rparr>);
        h \<leftarrow> update h (al_head l) (\<lambda>n. n\<lparr>ln_prev := tail\<rparr>);
        h \<leftarrow> update h tail (\<lambda>n. n\<lparr>ln_prev := None\<rparr>);
        h \<leftarrow> update h tail (\<lambda>n. n\<lparr>ln_next := al_head l\<rparr>);
        Some (h, l\<lparr>al_head := tail\<rparr>)
      })"

section \<open>Segments of cells\<close>

definition first_of :: "(nat \<times> 'a) list \<Rightarrow> nat option \<Rightarrow> nat option" where
  "first_of cs nx = (case cs of [] \<Rightarrow> nx | c # cs \<Rightarrow> Some (fst c))"

definition last_of :: "nat option \<Rightarrow> (nat \<times> 'a) list \<Rightarrow> nat option" where
  "last_of pr cs = (if cs = [] then pr else Some (fst (last cs)))"

lemma first_of_simps [simp]: "first_of [] nx = nx" "first_of (c # cs) nx = Some (fst c)"
  by (simp_all add: first_of_def)

lemma last_of_simps [simp]: "last_of pr [] = pr" "last_of pr (cs @ [c]) = Some (fst c)" "last_of pr (c # cs) = last_of (Some (fst c)) cs"
  by (simp_all add: last_of_def)

lemma first_of_append: "first_of (cs @ ds) nx = first_of cs (first_of ds nx)"
  by (cases cs) simp_all

lemma last_of_append: "last_of pr (cs @ ds) = last_of (last_of pr cs) ds"
  by (simp add: last_of_def)

fun dseg :: "'a heap \<Rightarrow> nat option \<Rightarrow> (nat \<times> 'a) list \<Rightarrow> nat option \<Rightarrow> bool" where
  "dseg h pr [] nx \<longleftrightarrow> True"
| "dseg h pr (c # cs) nx \<longleftrightarrow>
     h (fst c) = Some \<lparr>ln_prev = pr, ln_next = first_of cs nx, ln_value = snd c\<rparr> \<and> dseg h (Some (fst c)) cs nx"

lemma dseg_append: "dseg h pr (cs @ ds) nx \<longleftrightarrow> dseg h pr cs (first_of ds nx) \<and> dseg h (last_of pr cs) ds nx"
  by (induction cs arbitrary: pr) (auto simp: first_of_append)

lemma dseg_cong: "(\<And>a. a \<in> fst ` set cs \<Longrightarrow> h' a = h a) \<Longrightarrow> dseg h' pr cs nx = dseg h pr cs nx"
  by (induction cs arbitrary: pr) auto

lemma dseg_other [simp]: "a \<notin> fst ` set cs \<Longrightarrow> dseg (h(a := n)) pr cs nx = dseg h pr cs nx"
  by (rule dseg_cong) auto

lemma dseg_dom: "dseg h pr cs nx \<Longrightarrow> fst ` set cs \<subseteq> dom h"
  by (induction cs arbitrary: pr) auto

text \<open>Changing the successor of the last cell and the predecessor of the first one.\<close>

definition set_next :: "'a heap \<Rightarrow> nat option \<Rightarrow> nat option \<Rightarrow> 'a heap" where
  "set_next h p q = (case p of None \<Rightarrow> h | Some a \<Rightarrow> h(a := map_option (\<lambda>n. n\<lparr>ln_next := q\<rparr>) (h a)))"

definition set_prev :: "'a heap \<Rightarrow> nat option \<Rightarrow> nat option \<Rightarrow> 'a heap" where
  "set_prev h p q = (case p of None \<Rightarrow> h | Some a \<Rightarrow> h(a := map_option (\<lambda>n. n\<lparr>ln_prev := q\<rparr>) (h a)))"

lemma set_next_simps [simp]: "set_next h None q = h" "set_next h (Some a) q = h(a := map_option (\<lambda>n. n\<lparr>ln_next := q\<rparr>) (h a))"
  by (simp_all add: set_next_def)

lemma set_prev_simps [simp]: "set_prev h None q = h" "set_prev h (Some a) q = h(a := map_option (\<lambda>n. n\<lparr>ln_prev := q\<rparr>) (h a))"
  by (simp_all add: set_prev_def)

lemma dseg_set_next:
  assumes "dseg h pr cs nx" and "distinct (map fst cs)"
  shows "dseg (set_next h (last_of None cs) q) pr cs q"
proof (cases cs rule: rev_cases)
  case (snoc ds c)
  with assms show ?thesis by (auto simp: dseg_append)
qed simp

lemma dseg_set_prev:
  assumes "dseg h pr cs nx" and "distinct (map fst cs)"
  shows "dseg (set_prev h (first_of cs None) q) q cs nx"
proof (cases cs)
  case (Cons c ds)
  with assms show ?thesis by auto
qed simp

lemma update_next: "a \<in> dom h \<Longrightarrow> update h (Some a) (\<lambda>n. n\<lparr>ln_next := q\<rparr>) = Some (set_next h (Some a) q)"
  by (auto simp: update_def)

lemma update_prev: "a \<in> dom h \<Longrightarrow> update h (Some a) (\<lambda>n. n\<lparr>ln_prev := q\<rparr>) = Some (set_prev h (Some a) q)"
  by (auto simp: update_def)

lemma set_next_other: "last_of None cs \<noteq> Some b \<Longrightarrow> set_next h (last_of None cs) q b = h b"
  by (cases cs rule: rev_cases) auto

lemma set_prev_other: "first_of cs None \<noteq> Some b \<Longrightarrow> set_prev h (first_of cs None) q b = h b"
  by (cases cs) auto

lemma last_of_mem: "last_of None cs = Some a \<Longrightarrow> a \<in> fst ` set cs"
  by (auto simp: last_of_def split: if_splits)

lemma first_of_mem: "first_of cs None = Some a \<Longrightarrow> a \<in> fst ` set cs"
  by (auto simp: first_of_def split: list.splits)

text \<open>Linking a new cell between two segments, and unlinking one.\<close>

definition link :: "'a heap \<Rightarrow> (nat \<times> 'a) list \<Rightarrow> nat \<Rightarrow> 'a \<Rightarrow> (nat \<times> 'a) list \<Rightarrow> 'a heap" where
  "link h cs a v ds =
     set_prev (set_next (h(a \<mapsto> \<lparr>ln_prev = last_of None cs, ln_next = first_of ds None, ln_value = v\<rparr>))
       (last_of None cs) (Some a)) (first_of ds None) (Some a)"

definition unlink_cell :: "'a heap \<Rightarrow> (nat \<times> 'a) list \<Rightarrow> nat \<Rightarrow> (nat \<times> 'a) list \<Rightarrow> 'a heap" where
  "unlink_cell h cs a ds =
     (set_prev (set_next h (last_of None cs) (first_of ds None)) (first_of ds None) (last_of None cs))(a := None)"

lemma set_next_away: "a \<notin> fst ` set cs \<Longrightarrow> set_next h (last_of None cs) q a = h a"
  using last_of_mem set_next_other by metis

lemma set_prev_away: "a \<notin> fst ` set ds \<Longrightarrow> set_prev h (first_of ds None) q a = h a"
  using first_of_mem set_prev_other by metis

lemma link_dseg:
  assumes d: "distinct (map fst (cs @ ds))" and seg: "dseg h None (cs @ ds) None" and a: "a \<notin> fst ` set (cs @ ds)"
  shows "dseg (link h cs a v ds) None (cs @ (a, v) # ds) None"
proof -
  let ?n = "\<lparr>ln_prev = last_of None cs, ln_next = first_of ds None, ln_value = v\<rparr>"
  let ?h1 = "h(a \<mapsto> ?n)"
  let ?h2 = "set_next ?h1 (last_of None cs) (Some a)"
  let ?h3 = "set_prev ?h2 (first_of ds None) (Some a)"
  have disj: "x \<notin> fst ` set ds" if "x \<in> fst ` set cs" for x using d that by auto
  have disj': "x \<notin> fst ` set cs" if "x \<in> fst ` set ds" for x using disj that by blast
  have s1: "dseg ?h1 None cs (first_of ds None)" "dseg ?h1 (last_of None cs) ds None"
    using seg a by (simp_all add: dseg_append image_Un)
  have c2: "dseg ?h2 None cs (Some a)" using dseg_set_next [OF s1(1)] d by simp
  have "dseg ?h2 (last_of None cs) ds None = dseg ?h1 (last_of None cs) ds None"
    by (rule dseg_cong, rule set_next_away, rule disj')
  with s1(2) have d2: "dseg ?h2 (last_of None cs) ds None" by simp
  have d3: "dseg ?h3 (Some a) ds None" using dseg_set_prev [OF d2] d by simp
  have "dseg ?h3 None cs (Some a) = dseg ?h2 None cs (Some a)"
    by (rule dseg_cong, rule set_prev_away, rule disj)
  with c2 have c3: "dseg ?h3 None cs (Some a)" by simp
  have "?h3 a = Some ?n" using a by (simp add: image_Un set_prev_away set_next_away)
  with c3 d3 show ?thesis by (simp add: link_def dseg_append)
qed

lemma link_frame: "b \<notin> insert a (fst ` set (cs @ ds)) \<Longrightarrow> link h cs a v ds b = h b"
  by (simp add: link_def image_Un set_prev_away set_next_away)

lemma unlink_dseg:
  assumes d: "distinct (map fst (cs @ (a, v) # ds))" and seg: "dseg h None (cs @ (a, v) # ds) None"
  shows "dseg (unlink_cell h cs a ds) None (cs @ ds) None"
proof -
  let ?h2 = "set_next h (last_of None cs) (first_of ds None)"
  let ?h3 = "set_prev ?h2 (first_of ds None) (last_of None cs)"
  have disj: "x \<notin> fst ` set ds" if "x \<in> fst ` set cs" for x using d that by auto
  have disj': "x \<notin> fst ` set cs" if "x \<in> fst ` set ds" for x using disj that by blast
  have s1: "dseg h None cs (Some a)" "dseg h (Some a) ds None" using seg by (auto simp: dseg_append)
  have c2: "dseg ?h2 None cs (first_of ds None)" using dseg_set_next [OF s1(1)] d by simp
  have "dseg ?h2 (Some a) ds None = dseg h (Some a) ds None"
    by (rule dseg_cong, rule set_next_away, rule disj')
  with s1(2) have d2: "dseg ?h2 (Some a) ds None" by simp
  have d3: "dseg ?h3 (last_of None cs) ds None" using dseg_set_prev [OF d2] d by simp
  have "dseg ?h3 None cs (first_of ds None) = dseg ?h2 None cs (first_of ds None)"
    by (rule dseg_cong, rule set_prev_away, rule disj)
  with c2 d3 d show ?thesis by (simp add: unlink_cell_def dseg_append)
qed

lemma unlink_frame: "b \<notin> fst ` set (cs @ (a, v) # ds) \<Longrightarrow> unlink_cell h cs a ds b = h b"
  by (simp add: unlink_cell_def image_Un set_prev_away set_next_away)

section \<open>Lists in the heap\<close>

definition al_rep :: "'a heap \<Rightarrow> 'a adlist \<Rightarrow> (nat \<times> 'a) list \<Rightarrow> bool" where
  "al_rep h l cs \<longleftrightarrow> distinct (map fst cs) \<and> dseg h None cs None \<and> al_head l = first_of cs None \<and>
     al_tail l = last_of None cs \<and> al_len l = length cs \<and> length cs < 2 ^ 64"

text \<open>The methods of a list are the same.\<close>

definition same_methods :: "'a adlist \<Rightarrow> 'a adlist \<Rightarrow> bool" where
  "same_methods l l' \<longleftrightarrow> al_dup l' = al_dup l \<and> al_free l' = al_free l \<and> al_match l' = al_match l"

lemma al_rep_create: "al_rep h listCreate []"
  by (simp add: al_rep_def listCreate_def)

lemma al_rep_dom: "al_rep h l cs \<Longrightarrow> fst ` set cs \<subseteq> dom h"
  by (auto simp: al_rep_def dest: dseg_dom)

lemma al_rep_cell: "al_rep h l (cs @ (a, v) # ds) \<Longrightarrow> h a = Some \<lparr>ln_prev = last_of None cs, ln_next = first_of ds None, ln_value = v\<rparr>"
  by (auto simp: al_rep_def dseg_append)

lemma al_rep_frame: "\<lbrakk>al_rep h l cs; \<And>a. a \<in> fst ` set cs \<Longrightarrow> h' a = h a\<rbrakk> \<Longrightarrow> al_rep h' l cs"
  unfolding al_rep_def by (metis dseg_cong)

lemma al_rep_link:
  assumes "al_rep h l (cs @ ds)" and "a \<notin> dom h" and "length (cs @ ds) + 1 < 2 ^ 64"
    and "al_head l' = first_of cs (Some a)" and "al_tail l' = last_of (Some a) ds" and "al_len l' = (al_len l + 1) mod 2 ^ 64"
  shows "al_rep (link h cs a v ds) l' (cs @ (a, v) # ds)"
proof -
  have a: "a \<notin> fst ` set (cs @ ds)" using al_rep_dom [OF assms(1)] assms(2) by blast
  show ?thesis
    unfolding al_rep_def
  proof (intro conjI)
    show "dseg (link h cs a v ds) None (cs @ (a, v) # ds) None"
      using assms(1) a by (intro link_dseg) (simp_all add: al_rep_def)
    show "distinct (map fst (cs @ (a, v) # ds))" using assms(1) a by (auto simp: al_rep_def)
    show "al_len l' = length (cs @ (a, v) # ds)" using assms(1,3,6) by (simp add: al_rep_def)
    show "al_head l' = first_of (cs @ (a, v) # ds) None" using assms(4) by (simp add: first_of_append)
    show "al_tail l' = last_of None (cs @ (a, v) # ds)" using assms(5) by (simp add: last_of_append)
    show "length (cs @ (a, v) # ds) < 2 ^ 64" using assms(3) by simp
  qed
qed

lemma cells_dom:
  assumes "al_rep h l (cs @ ds)"
  shows "last_of None cs = Some b \<Longrightarrow> b \<in> dom h" and "first_of ds None = Some b \<Longrightarrow> b \<in> dom h"
  using al_rep_dom [OF assms] last_of_mem [of cs b] first_of_mem [of ds b] by auto

lemma update_next_last:
  assumes "al_rep h l (cs @ ds)" and "last_of None cs \<noteq> None"
  shows "update (h(a \<mapsto> n)) (last_of None cs) (\<lambda>n. n\<lparr>ln_next := q\<rparr>) = Some (set_next (h(a \<mapsto> n)) (last_of None cs) q)"
    and "update h (last_of None cs) (\<lambda>n. n\<lparr>ln_next := q\<rparr>) = Some (set_next h (last_of None cs) q)"
proof -
  obtain b where b: "last_of None cs = Some b" using assms(2) by blast
  with cells_dom(1) [OF assms(1)] have "b \<in> dom h" by blast
  then show "update (h(a \<mapsto> n)) (last_of None cs) (\<lambda>n. n\<lparr>ln_next := q\<rparr>) = Some (set_next (h(a \<mapsto> n)) (last_of None cs) q)"
    and "update h (last_of None cs) (\<lambda>n. n\<lparr>ln_next := q\<rparr>) = Some (set_next h (last_of None cs) q)"
    unfolding b by (intro update_next, simp)+
qed

lemma set_next_dom [simp]: "dom (set_next h p q) = dom h"
  by (cases p) (auto simp: dom_def)

lemma update_prev_first:
  assumes "al_rep h l (cs @ ds)" and "first_of ds None \<noteq> None" and "dom h \<subseteq> dom h'"
  shows "update h' (first_of ds None) (\<lambda>n. n\<lparr>ln_prev := q\<rparr>) = Some (set_prev h' (first_of ds None) q)"
proof -
  obtain b where b: "first_of ds None = Some b" using assms(2) by blast
  with cells_dom(2) [OF assms(1)] assms(3) have "b \<in> dom h'" by blast
  then show ?thesis unfolding b by (rule update_prev)
qed

text \<open>The result of an operation that links a cell with the value \<open>v\<close> at a fresh address.\<close>

definition linked :: "'a heap \<Rightarrow> 'a adlist \<Rightarrow> (nat \<times> 'a) list \<Rightarrow> nat \<Rightarrow> 'a \<Rightarrow> (nat \<times> 'a) list \<Rightarrow> ('a heap \<times> 'a adlist) option \<Rightarrow> bool" where
  "linked h l cs a v ds r \<longleftrightarrow> (\<exists>h' l'. r = Some (h', l') \<and> al_rep h' l' (cs @ (a, v) # ds) \<and> same_methods l l' \<and>
     (\<forall>b. b \<notin> insert a (fst ` set (cs @ ds)) \<longrightarrow> h' b = h b) \<and> dom h' = insert a (dom h))"

lemma set_prev_dom [simp]: "dom (set_prev h p q) = dom h"
  by (cases p) (auto simp: dom_def)

lemma link_dom [simp]: "dom (link h cs a v ds) = insert a (dom h)"
  by (simp add: link_def)

lemma linkedI:
  assumes "al_rep h l (cs @ ds)" and "a \<notin> dom h" and "length (cs @ ds) + 1 < 2 ^ 64"
    and "r = Some (link h cs a v ds, l')"
    and "al_head l' = first_of cs (Some a)" and "al_tail l' = last_of (Some a) ds" and "al_len l' = (al_len l + 1) mod 2 ^ 64"
    and "same_methods l l'"
  shows "linked h l cs a v ds r"
  unfolding linked_def
proof (intro exI conjI allI impI)
  show "r = Some (link h cs a v ds, l')" by (rule assms(4))
  show "al_rep (link h cs a v ds) l' (cs @ (a, v) # ds)" by (rule al_rep_link [OF assms(1-3,5-7)])
  show "link h cs a v ds b = h b" if "b \<notin> insert a (fst ` set (cs @ ds))" for b using that by (rule link_frame)
qed (use assms(8) in simp_all)

lemma listAddNodeHead_rep:
  assumes rep: "al_rep h l cs" and fresh: "al h \<notin> dom h" and len: "length cs + 1 < 2 ^ 64"
  shows "linked h l [] (al h) v cs (listAddNodeHead al h l v)"
proof -
  define l' where "l' = l\<lparr>al_head := Some (al h), al_tail := last_of (Some (al h)) cs, al_len := (al_len l + 1) mod 2 ^ 64\<rparr>"
  have "listAddNodeHead al h l v = Some (link h [] (al h) v cs, l')"
  proof (cases cs)
    case Nil
    with rep show ?thesis by (simp add: listAddNodeHead_def al_rep_def link_def l'_def Let_def)
  next
    case (Cons c ds)
    have "al_len l \<noteq> 0" "al_head l = first_of cs None" "al_tail l = last_of (Some (al h)) cs"
      using rep Cons by (simp_all add: al_rep_def)
    moreover have "update (h(al h \<mapsto> n)) (first_of cs None) (\<lambda>n. n\<lparr>ln_prev := q\<rparr>) = Some (set_prev (h(al h \<mapsto> n)) (first_of cs None) q)" for n q
      by (rule update_prev_first [of h l "[]"]) (use rep Cons in auto)
    ultimately show ?thesis by (simp add: listAddNodeHead_def link_def l'_def Let_def)
  qed
  then show ?thesis using rep fresh len
    by (intro linkedI [where l' = l']) (simp_all add: l'_def same_methods_def)
qed

lemma listAddNodeTail_rep:
  assumes rep: "al_rep h l cs" and fresh: "al h \<notin> dom h" and len: "length cs + 1 < 2 ^ 64"
  shows "linked h l cs (al h) v [] (listAddNodeTail al h l v)"
proof -
  define l' where "l' = l\<lparr>al_head := first_of cs (Some (al h)), al_tail := Some (al h), al_len := (al_len l + 1) mod 2 ^ 64\<rparr>"
  have "listAddNodeTail al h l v = Some (link h cs (al h) v [], l')"
  proof (cases "cs = []")
    case True
    with rep show ?thesis by (simp add: listAddNodeTail_def al_rep_def link_def l'_def Let_def)
  next
    case False
    then have ne: "al_len l \<noteq> 0" "al_tail l = last_of None cs" "al_head l = first_of cs (Some (al h))" "last_of None cs \<noteq> None"
      using rep by (auto simp: al_rep_def first_of_def last_of_def split: list.splits)
    have rep': "al_rep h l (cs @ [])" using rep by simp
    from ne update_next_last(1) [OF rep' ne(4)] show ?thesis
      by (simp add: listAddNodeTail_def link_def l'_def Let_def)
  qed
  then show ?thesis using rep fresh len
    by (intro linkedI [where l' = l']) (simp_all add: l'_def same_methods_def)
qed

lemma first_of_None: "first_of ds None \<noteq> None \<longleftrightarrow> ds \<noteq> []" "last_of None cs \<noteq> None \<longleftrightarrow> cs \<noteq> []"
  by (auto simp: first_of_def last_of_def split: list.splits)

lemma insert_between:
  fixes v :: 'a and h :: "'a heap"
  assumes rep: "al_rep h l (cs @ ds)" and fresh: "a \<notin> dom h"
  defines "n \<equiv> \<lparr>ln_prev = last_of None cs, ln_next = first_of ds None, ln_value = v\<rparr>"
  shows "do {
      h \<leftarrow> (if ln_prev n \<noteq> None then update (h(a \<mapsto> n)) (ln_prev n) (\<lambda>n. n\<lparr>ln_next := Some a\<rparr>) else Some (h(a \<mapsto> n)));
      (if ln_next n \<noteq> None then update h (ln_next n) (\<lambda>n. n\<lparr>ln_prev := Some a\<rparr>) else Some h)
    } = Some (link h cs a v ds)"
proof -
  have p: "(if last_of None cs \<noteq> None then update (h(a \<mapsto> n)) (last_of None cs) (\<lambda>n. n\<lparr>ln_next := Some a\<rparr>) else Some (h(a \<mapsto> n)))
      = Some (set_next (h(a \<mapsto> n)) (last_of None cs) (Some a))"
    using update_next_last(1) [OF rep, of a n "Some a"] by (cases "last_of None cs") auto
  have q: "(if first_of ds None \<noteq> None then update h' (first_of ds None) (\<lambda>n. n\<lparr>ln_prev := Some a\<rparr>) else Some h')
      = Some (set_prev h' (first_of ds None) (Some a))" if "dom h \<subseteq> dom h'" for h'
    using update_prev_first [OF rep _ that, of "Some a"] by (cases "first_of ds None") auto
  have "dom h \<subseteq> dom (set_next (h(a \<mapsto> n)) (last_of None cs) (Some a))" by auto
  note q = q [OF this]
  have n: "ln_prev n = last_of None cs" "ln_next n = first_of ds None" by (simp_all add: n_def)
  show ?thesis unfolding n p bind.bind_lunit q link_def n_def [symmetric] ..
qed

lemma insert_link:
  fixes v :: 'a and h :: "'a heap"
  assumes rep: "al_rep h l (cs @ ds)" and fresh: "a \<notin> dom h"
  defines "n \<equiv> \<lparr>ln_prev = last_of None cs, ln_next = first_of ds None, ln_value = v\<rparr>"
  shows "do {
      h \<leftarrow> (if ln_prev n \<noteq> None then update (h(a \<mapsto> n)) (ln_prev n) (\<lambda>n. n\<lparr>ln_next := Some a\<rparr>) else Some (h(a \<mapsto> n)));
      h \<leftarrow> (if ln_next n \<noteq> None then update h (ln_next n) (\<lambda>n. n\<lparr>ln_prev := Some a\<rparr>) else Some h);
      f h
    } = f (link h cs a v ds)"
  using arg_cong [OF insert_between [OF rep fresh, of v], of "\<lambda>m. m \<bind> f"]
  unfolding n_def by (simp only: Option.bind_assoc bind.bind_lunit)

lemma first_of_eq_hd: "first_of (cs @ (b, w) # ds) None = Some b \<longleftrightarrow> cs = [] \<or> fst (hd cs) = b"
  by (cases cs) auto

lemma last_of_eq_last: "last_of None (cs @ (b, w) # ds) = Some b \<longleftrightarrow> ds = [] \<or> fst (last ds) = b"
  by (auto simp: last_of_def)

lemma listInsertNode_before:
  assumes rep: "al_rep h l (cs @ (b, w) # ds)" and fresh: "al h \<notin> dom h" and len: "length (cs @ (b, w) # ds) + 1 < 2 ^ 64"
  shows "linked h l cs (al h) v ((b, w) # ds) (listInsertNode al h l (Some b) v False)"
proof -
  note cell = al_rep_cell [OF rep]
  let ?l = "if al_head l = Some b then l\<lparr>al_head := Some (al h)\<rparr> else l"
  define l' where "l' = ?l\<lparr>al_len := (al_len ?l + 1) mod 2 ^ 64\<rparr>"
  have d: "distinct (map fst (cs @ (b, w) # ds))" using rep by (simp add: al_rep_def)
  have hd: "al_head l = Some b \<longleftrightarrow> cs = []"
    using rep d by (cases cs) (auto simp: al_rep_def first_of_append)
  have "listInsertNode al h l (Some b) v False = Some (link h cs (al h) v ((b, w) # ds), l')"
    unfolding insert_link [OF rep fresh, of v "\<lambda>h. Some (h, l')", symmetric]
    using cell by (simp add: listInsertNode_def deref_def Let_def l'_def cong: if_cong)
  moreover have "al_head l' = first_of cs (Some (al h))" "al_tail l' = last_of (Some (al h)) ((b, w) # ds)" "al_len l' = (al_len l + 1) mod 2 ^ 64"
    "same_methods l l'"
    using rep hd by (cases cs; simp add: l'_def al_rep_def last_of_append same_methods_def)+
  ultimately show ?thesis using rep fresh len by (intro linkedI)
qed

lemma listInsertNode_after:
  assumes rep: "al_rep h l (cs @ (b, w) # ds)" and fresh: "al h \<notin> dom h" and len: "length (cs @ (b, w) # ds) + 1 < 2 ^ 64"
  shows "linked h l (cs @ [(b, w)]) (al h) v ds (listInsertNode al h l (Some b) v True)"
proof -
  have rep': "al_rep h l ((cs @ [(b, w)]) @ ds)" using rep by simp
  note cell = al_rep_cell [OF rep]
  let ?l = "if al_tail l = Some b then l\<lparr>al_tail := Some (al h)\<rparr> else l"
  define l' where "l' = ?l\<lparr>al_len := (al_len ?l + 1) mod 2 ^ 64\<rparr>"
  have d: "distinct (map fst (cs @ (b, w) # ds))" using rep by (simp add: al_rep_def)
  have tl: "al_tail l = Some b \<longleftrightarrow> ds = []"
    using rep d by (cases ds rule: rev_cases) (auto simp: al_rep_def last_of_append)
  have "listInsertNode al h l (Some b) v True = Some (link h (cs @ [(b, w)]) (al h) v ds, l')"
    unfolding insert_link [OF rep' fresh, of v "\<lambda>h. Some (h, l')", symmetric]
    using cell by (simp add: listInsertNode_def deref_def Let_def l'_def cong: if_cong)
  moreover have "al_head l' = first_of (cs @ [(b, w)]) (Some (al h))" "al_tail l' = last_of (Some (al h)) ds" "al_len l' = (al_len l + 1) mod 2 ^ 64"
    "same_methods l l'"
    using rep tl by (cases ds rule: rev_cases; simp add: l'_def al_rep_def last_of_append first_of_append same_methods_def)+
  ultimately show ?thesis using rep' fresh len by (intro linkedI) simp_all
qed

lemma listDelNode_rep:
  assumes rep: "al_rep h l (cs @ (b, w) # ds)"
  shows "\<exists>h' l'. listDelNode h l (Some b) = Some (h', l', if al_free l then [w] else []) \<and> al_rep h' l' (cs @ ds) \<and>
           same_methods l l' \<and> (\<forall>a. a \<notin> fst ` set (cs @ (b, w) # ds) \<longrightarrow> h' a = h a) \<and> dom h' = dom h - {b}"
proof -
  note cell = al_rep_cell [OF rep]
  have rep1: "al_rep h l (cs @ ((b, w) # ds))" and rep2: "al_rep h l ((cs @ [(b, w)]) @ ds)" using rep by simp_all
  define l' where "l' = l\<lparr>al_head := (if cs = [] then first_of ds None else al_head l),
      al_tail := (if ds = [] then last_of None cs else al_tail l), al_len := (al_len l + (2 ^ 64 - 1)) mod 2 ^ 64\<rparr>"
  let ?h1 = "set_next h (last_of None cs) (first_of ds None)"
  have s1: "(if last_of None cs \<noteq> None then do { h \<leftarrow> update h (last_of None cs) (\<lambda>m. m\<lparr>ln_next := first_of ds None\<rparr>); Some (h, l) }
      else Some (h, l\<lparr>al_head := first_of ds None\<rparr>)) =
      Some (?h1, l\<lparr>al_head := (if cs = [] then first_of ds None else al_head l)\<rparr>)"
    using update_next_last(2) [OF rep1, of "first_of ds None"] first_of_None(2) [of cs] by (cases "cs = []") auto
  have s2: "(if first_of ds None \<noteq> None then do { h \<leftarrow> update ?h1 (first_of ds None) (\<lambda>m. m\<lparr>ln_prev := last_of None cs\<rparr>); Some (h, k) }
      else Some (?h1, k\<lparr>al_tail := last_of None cs\<rparr>)) =
      Some (set_prev ?h1 (first_of ds None) (last_of None cs), k\<lparr>al_tail := (if ds = [] then last_of None cs else al_tail k)\<rparr>)" for k
    using update_prev_first [OF rep2, of ?h1 "last_of None cs"] first_of_None(1) [of ds] by (cases "ds = []") auto
  have del: "listDelNode h l (Some b) = Some (unlink_cell h cs b ds, l', if al_free l then [w] else [])"
    unfolding listDelNode_def deref_def option.case cell bind.bind_lunit listNode.simps s1 s2 prod.case
    by (simp add: unlink_cell_def l'_def)
  have len: "al_len l' = length (cs @ ds)"
  proof -
    have "al_len l = length (cs @ ds) + 1" "length (cs @ ds) < 2 ^ 64" using rep by (simp_all add: al_rep_def)
    then have "al_len l + (2 ^ 64 - 1) = length (cs @ ds) + 2 ^ 64" by simp
    then show ?thesis unfolding l'_def using \<open>length (cs @ ds) < 2 ^ 64\<close> by simp
  qed
  have "al_rep (unlink_cell h cs b ds) l' (cs @ ds)"
    unfolding al_rep_def
  proof (intro conjI)
    show "dseg (unlink_cell h cs b ds) None (cs @ ds) None"
      using rep by (intro unlink_dseg [where v = w]) (simp_all add: al_rep_def)
    show "distinct (map fst (cs @ ds))" using rep by (auto simp: al_rep_def)
    show "al_head l' = first_of (cs @ ds) None" using rep by (cases cs) (auto simp: l'_def al_rep_def)
    show "al_tail l' = last_of None (cs @ ds)" using rep by (cases ds rule: rev_cases) (auto simp: l'_def al_rep_def last_of_append)
    show "length (cs @ ds) < 2 ^ 64" using rep by (simp add: al_rep_def)
  qed (rule len)
  moreover have "dom (unlink_cell h cs b ds) = dom h - {b}" by (simp add: unlink_cell_def)
  ultimately show ?thesis using del unlink_frame [of _ cs b w ds h] by (auto simp: l'_def same_methods_def)
qed

section \<open>Traversal\<close>

lemma release_loop_rep:
  assumes "dseg h pr cs nx" and "distinct (map fst cs)"
  shows "release_loop h (first_of cs nx) fr (length cs) =
           Some (\<lambda>a. if a \<in> fst ` set cs then None else h a, if fr then map snd cs else [])"
  using assms
proof (induction cs arbitrary: h pr)
  case (Cons c cs)
  let ?h = "h(fst c := None)"
  have "dseg ?h (Some (fst c)) cs nx" "distinct (map fst cs)" using Cons.prems by auto
  note ih = Cons.IH [OF this]
  have "(\<lambda>a. if a \<in> fst ` set cs then None else ?h a) = (\<lambda>a. if a \<in> fst ` set (c # cs) then None else h a)" by auto
  note ih' = ih [unfolded this]
  have "h (fst c) = Some \<lparr>ln_prev = pr, ln_next = first_of cs nx, ln_value = snd c\<rparr>" using Cons.prems(1) by simp
  then show ?case by (simp only: first_of_simps list.size add_0_right add_Suc_right release_loop.simps deref_def option.case
        option.sel bind.bind_lunit listNode.simps ih' prod.case) simp
qed simp

text \<open>One step of an iterator that stands before the cells \<open>ds\<close>.\<close>

lemma listNext_rep:
  assumes "al_rep h l (cs @ ds)" and "li_head it" and "li_next it = first_of ds None"
  shows "case ds of
           [] \<Rightarrow> listNext h it = Some (None, it)
         | c # ds' \<Rightarrow> \<exists>it'. listNext h it = Some (Some (fst c), it') \<and> li_head it' \<and> li_next it' = first_of ds' None \<and>
             h (fst c) = Some \<lparr>ln_prev = last_of None cs, ln_next = first_of ds' None, ln_value = snd c\<rparr>"
proof (cases ds)
  case Nil
  with assms(3) show ?thesis by (simp add: listNext_def)
next
  case (Cons c ds')
  with assms(1) have "h (fst c) = Some \<lparr>ln_prev = last_of None cs, ln_next = first_of ds' None, ln_value = snd c\<rparr>"
    using al_rep_cell [of h l cs "fst c" "snd c" ds'] by simp
  with Cons assms(2,3) show ?thesis by (simp add: listNext_def)
qed

definition key_matches :: "'a adlist \<Rightarrow> 'a \<Rightarrow> 'a \<Rightarrow> bool" where
  "key_matches l key v = (case al_match l of Some m \<Rightarrow> m v key | None \<Rightarrow> key = v)"

lemma search_loop_rep:
  assumes "al_rep h l (cs @ ds)" and "li_head it" and "li_next it = first_of ds None"
  shows "search_loop h l key it = Some (map_option fst (find (\<lambda>c. key_matches l key (snd c)) ds))"
  using assms
proof (induction ds arbitrary: cs it)
  case Nil
  with listNext_rep [OF Nil] show ?case by (subst search_loop.simps) simp
next
  case (Cons c ds)
  from listNext_rep [OF Cons.prems] obtain it' where it': "listNext h it = Some (Some (fst c), it')" "li_head it'"
    "li_next it' = first_of ds None" "h (fst c) = Some \<lparr>ln_prev = last_of None cs, ln_next = first_of ds None, ln_value = snd c\<rparr>"
    by auto
  have "al_rep h l ((cs @ [c]) @ ds)" using Cons.prems(1) by simp
  from Cons.IH [OF this it'(2,3)] it'(1,4) show ?case
    by (subst search_loop.simps) (simp flip: key_matches_def)
qed

lemma index_forward:
  assumes "al_rep h l (cs @ ds)"
  shows "index_loop ln_next h i (first_of ds None) = Some (if i < length ds then Some (fst (ds ! i)) else None)"
  using assms
proof (induction i arbitrary: cs ds)
  case 0
  then show ?case by (cases ds) auto
next
  case (Suc i)
  show ?case
  proof (cases ds)
    case (Cons c ds')
    have "h (fst c) = Some \<lparr>ln_prev = last_of None cs, ln_next = first_of ds' None, ln_value = snd c\<rparr>"
      using Suc.prems al_rep_cell [of h l cs "fst c" "snd c" ds'] Cons by simp
    with Suc.IH [of "cs @ [c]" ds'] Suc.prems Cons show ?thesis by simp
  qed simp
qed

lemma index_backward:
  assumes "al_rep h l (cs @ ds)"
  shows "index_loop ln_prev h i (last_of None cs) = Some (if i < length cs then Some (fst (cs ! (length cs - 1 - i))) else None)"
  using assms
proof (induction i arbitrary: cs ds)
  case 0
  then show ?case by (cases cs rule: rev_cases) auto
next
  case (Suc i)
  show ?case
  proof (cases cs rule: rev_cases)
    case (snoc cs' c)
    have "h (fst c) = Some \<lparr>ln_prev = last_of None cs', ln_next = first_of ds None, ln_value = snd c\<rparr>"
      using Suc.prems al_rep_cell [of h l cs' "fst c" "snd c" ds] snoc by simp
    with Suc.IH [of cs' "c # ds"] Suc.prems snoc show ?thesis by (auto simp: nth_append)
  qed simp
qed

lemma listIndex_rep:
  assumes "al_rep h l cs"
  shows "listIndex h l i = Some (map_option (\<lambda>k. fst (cs ! k)) (position (length cs) i))"
proof (cases "i < 0")
  case True
  have rep: "al_rep h l (cs @ [])" using assms by simp
  have "nat (- i - 1) < length cs \<longleftrightarrow> nat (- i) \<le> length cs" "length cs - 1 - nat (- i - 1) = length cs - nat (- i)"
    using True by auto
  with index_backward [OF rep, of "nat (- i - 1)"] True assms show ?thesis
    by (simp add: listIndex_def position_def al_rep_def)
next
  case False
  with index_forward [of h l "[]" cs "nat i"] assms show ?thesis
    by (simp add: listIndex_def position_def al_rep_def)
qed

lemma listRelease_rep:
  assumes "al_rep h l cs"
  shows "listRelease h l = Some (\<lambda>a. if a \<in> fst ` set cs then None else h a, if al_free l then map snd cs else [])"
  using release_loop_rep [of h None cs None "al_free l"] assms by (simp add: listRelease_def al_rep_def)

section \<open>Copying\<close>

definition dup_value :: "'a adlist \<Rightarrow> 'a \<Rightarrow> 'a option" where
  "dup_value l v = (case al_dup l of Some f \<Rightarrow> f v | None \<Rightarrow> Some v)"

text \<open>The allocator: addresses that are not in use, as long as finitely many are.\<close>

definition allocator :: "('a heap \<Rightarrow> nat) \<Rightarrow> bool" where
  "allocator al \<longleftrightarrow> (\<forall>h. finite (dom h) \<longrightarrow> al h \<notin> dom h)"

definition dup_result :: "'a heap \<Rightarrow> (nat \<times> 'a) list \<Rightarrow> 'a option list \<Rightarrow> ('a heap \<times> 'a adlist option) option \<Rightarrow> bool" where
  "dup_result h cs vs r \<longleftrightarrow>
     (\<exists>h' c. r = Some (h', c) \<and> (\<forall>a. a \<in> dom h - fst ` set cs \<longrightarrow> h' a = h a) \<and>
        (case c of
           None \<Rightarrow> None \<in> set vs \<and> dom h' = dom h - fst ` set cs
         | Some l \<Rightarrow> None \<notin> set vs \<and> (\<exists>es. al_rep h' l (cs @ es) \<and> map (Some \<circ> snd) es = vs \<and> fst ` set es \<inter> dom h = {})))"

lemma dup_loop_rep:
  assumes "allocator al" and "finite (dom h)"
    and "al_rep h orig (cs @ ds)" and "al_rep h copy es" and "fst ` set (cs @ ds) \<inter> fst ` set es = {}"
    and "li_head it" and "li_next it = first_of ds None" and "length es + length ds < 2 ^ 64"
  shows "dup_result h es (map (dup_value copy \<circ> snd) ds) (dup_loop al h copy it)"
  using assms(2-)
proof (induction ds arbitrary: cs it h copy es)
  case Nil
  have "listNext h it = Some (None, it)" using listNext_rep [OF Nil(2,5,6)] by simp
  then have "dup_loop al h copy it = Some (h, Some copy)" by (subst dup_loop.simps) simp
  with Nil(3) show ?case by (simp add: dup_result_def)
next
  case (Cons c ds)
  from listNext_rep [OF Cons.prems(2,5,6)] obtain it' where it': "listNext h it = Some (Some (fst c), it')" "li_head it'"
    "li_next it' = first_of ds None" "h (fst c) = Some \<lparr>ln_prev = last_of None cs, ln_next = first_of ds None, ln_value = snd c\<rparr>"
    by auto
  show ?case
  proof (cases "dup_value copy (snd c)")
    case None
    have "dup_loop al h copy it = Some (\<lambda>a. if a \<in> fst ` set es then None else h a, None)"
      using it'(1,4) None listRelease_rep [OF Cons.prems(3)]
      by (subst dup_loop.simps) (simp flip: dup_value_def)
    moreover have "dom (\<lambda>a. if a \<in> fst ` set es then None else h a) = dom h - fst ` set es" by (auto simp: dom_def)
    ultimately show ?thesis using None by (simp add: dup_result_def)
  next
    case (Some v)
    have fresh: "al h \<notin> dom h" using assms(1) Cons.prems(1) by (simp add: allocator_def)
    have "length es + 1 < 2 ^ 64" using Cons.prems(7) by simp
    from listAddNodeTail_rep [where al = al, OF Cons.prems(3) fresh this, of v] obtain h' copy' where
      n: "listAddNodeTail al h copy v = Some (h', copy')" "al_rep h' copy' (es @ [(al h, v)])" "same_methods copy copy'"
        "\<forall>b. b \<notin> insert (al h) (fst ` set es) \<longrightarrow> h' b = h b" "dom h' = insert (al h) (dom h)"
      by (auto simp: linked_def)
    have e: "dup_loop al h copy it = dup_loop al h' copy' it'"
      using it'(1,4) Some n(1) by (subst dup_loop.simps) (simp flip: dup_value_def)
    have same: "dup_value copy' = dup_value copy" using n(3) by (simp add: dup_value_def same_methods_def fun_eq_iff)
    have sub: "fst ` set (cs @ c # ds) \<subseteq> dom h" using al_rep_dom [OF Cons.prems(2)] by simp
    have rep: "al_rep h' orig ((cs @ [c]) @ ds)"
    proof (rule al_rep_frame)
      show "al_rep h orig ((cs @ [c]) @ ds)" using Cons.prems(2) by simp
      show "h' a = h a" if "a \<in> fst ` set ((cs @ [c]) @ ds)" for a
      proof -
        have "a \<in> fst ` set (cs @ c # ds)" using that by auto
        with sub fresh Cons.prems(4) have "a \<noteq> al h" "a \<notin> fst ` set es" by blast+
        with n(4) show ?thesis by simp
      qed
    qed
    have "fst ` set ((cs @ [c]) @ ds) \<inter> fst ` set (es @ [(al h, v)]) = {}"
      using Cons.prems(4) sub fresh by auto
    moreover have "finite (dom h')" "length (es @ [(al h, v)]) + length ds < 2 ^ 64" using Cons.prems(1,7) n(5) by simp_all
    ultimately have "dup_result h' (es @ [(al h, v)]) (map (dup_value copy \<circ> snd) ds) (dup_loop al h copy it)"
      unfolding e using Cons.IH [OF _ rep n(2) _ it'(2,3)] unfolding same by blast
    then obtain h2 r where r: "dup_loop al h copy it = Some (h2, r)"
      "\<forall>a. a \<in> dom h' - fst ` set (es @ [(al h, v)]) \<longrightarrow> h2 a = h' a"
      "case r of None \<Rightarrow> None \<in> set (map (dup_value copy \<circ> snd) ds) \<and> dom h2 = dom h' - fst ` set (es @ [(al h, v)])
       | Some l \<Rightarrow> None \<notin> set (map (dup_value copy \<circ> snd) ds) \<and> (\<exists>fs. al_rep h2 l ((es @ [(al h, v)]) @ fs) \<and>
           map (Some \<circ> snd) fs = map (dup_value copy \<circ> snd) ds \<and> fst ` set fs \<inter> dom h' = {})"
      by (auto simp: dup_result_def)
    have fr: "\<forall>a. a \<in> dom h - fst ` set es \<longrightarrow> h2 a = h a"
    proof (intro allI impI)
      fix a assume a: "a \<in> dom h - fst ` set es"
      with fresh have "a \<noteq> al h" by blast
      with a r(2) n(4,5) show "h2 a = h a" by auto
    qed
    show ?thesis
    proof (cases r)
      case None
      have "dom h' - fst ` set (es @ [(al h, v)]) = dom h - fst ` set es" using n(5) fresh by auto
      with None r(1,3) fr show ?thesis by (simp add: dup_result_def)
    next
      case (Some l)
      with r(3) obtain fs where fs: "None \<notin> set (map (dup_value copy \<circ> snd) ds)" "al_rep h2 l ((es @ [(al h, v)]) @ fs)"
        "map (Some \<circ> snd) fs = map (dup_value copy \<circ> snd) ds" "fst ` set fs \<inter> dom h' = {}" by auto
      have "fst ` set ((al h, v) # fs) \<inter> dom h = {}" using fs(4) n(5) fresh by auto
      moreover have "al_rep h2 l (es @ (al h, v) # fs)" using fs(2) by simp
      moreover have "map (Some \<circ> snd) ((al h, v) # fs) = map (dup_value copy \<circ> snd) (c # ds)"
        using fs(3) \<open>dup_value copy (snd c) = Some v\<close> by simp
      ultimately have "\<exists>gs. al_rep h2 l (es @ gs) \<and> map (Some \<circ> snd) gs = map (dup_value copy \<circ> snd) (c # ds) \<and> fst ` set gs \<inter> dom h = {}"
        by blast
      moreover have "None \<notin> set (map (dup_value copy \<circ> snd) (c # ds))"
        using fs(1) \<open>dup_value copy (snd c) = Some v\<close> by simp
      ultimately show ?thesis unfolding dup_result_def using r(1) fr Some by auto
    qed
  qed
qed

section \<open>Rotation\<close>

lemma listRotate_rep:
  assumes rep: "al_rep h l cs" and len: "2 \<le> length cs"
  shows "\<exists>h' l'. listRotate h l = Some (h', l') \<and> al_rep h' l' (last cs # butlast cs) \<and> same_methods l l' \<and>
           (\<forall>a. a \<notin> fst ` set cs \<longrightarrow> h' a = h a) \<and> dom h' = dom h"
proof -
  obtain ds a v where cs: "cs = ds @ [(a, v)]" using len by (cases cs rule: rev_cases) auto
  obtain b w es where ds: "ds = (b, w) # es" using len cs by (cases ds) auto
  have d: "distinct (map fst cs)" using rep by (simp add: al_rep_def)
  have ab: "a \<noteq> b" "a \<notin> fst ` set ds" using d cs ds by auto
  have cell: "h a = Some \<lparr>ln_prev = last_of None ds, ln_next = None, ln_value = v\<rparr>"
    using al_rep_cell [of h l ds a v "[]"] rep cs by simp
  have seg: "dseg h None ds (Some a)" using rep cs by (simp add: al_rep_def dseg_append)
  obtain p where p: "last_of None ds = Some p" "p \<in> fst ` set ds" using ds last_of_mem [of ds] first_of_None(2) [of ds] by fastforce
  define h1 where "h1 = set_next h (Some p) None"
  define h2 where "h2 = set_prev h1 (Some b) (Some a)"
  define h3 where "h3 = h2(a \<mapsto> \<lparr>ln_prev = None, ln_next = Some b, ln_value = v\<rparr>)"
  define l' where "l' = l\<lparr>al_tail := Some p, al_head := Some a\<rparr>"
  have sub: "fst ` set ds \<subseteq> dom h" using al_rep_dom [OF rep] cs by auto
  have ap: "a \<noteq> p" using p(2) ab(2) by blast
  have b_dom: "b \<in> dom h" using sub ds by auto
  have u1: "update h (Some p) (\<lambda>n. n\<lparr>ln_next := None\<rparr>) = Some h1"
    unfolding h1_def using p(2) sub by (intro update_next) blast
  have u2: "update h1 (Some b) (\<lambda>n. n\<lparr>ln_prev := Some a\<rparr>) = Some h2"
    unfolding h2_def using b_dom by (intro update_prev) (simp only: h1_def set_next_dom)
  have h2a: "h2 a = h a" using ap ab(1) by (simp add: h2_def h1_def)
  have u3: "(update h2 (Some a) (\<lambda>n. n\<lparr>ln_prev := None\<rparr>) \<bind> (\<lambda>h. update h (Some a) (\<lambda>n. n\<lparr>ln_next := Some b\<rparr>))) = Some h3"
    using h2a cell by (simp add: update_def h3_def)
  have hd: "al_head l = Some b" "al_tail l = Some a" "\<not> al_len l \<le> 1" using rep cs ds len by (simp_all add: al_rep_def)
  have rot: "listRotate h l = Some (h3, l')"
  proof -
    have "listRotate h l = (update h2 (Some a) (\<lambda>n. n\<lparr>ln_prev := None\<rparr>) \<bind> (\<lambda>h. update h (Some a) (\<lambda>n. n\<lparr>ln_next := Some b\<rparr>))) \<bind> (\<lambda>h. Some (h, l'))"
      using hd cell u1 u2 p(1) by (simp add: listRotate_def deref_def Let_def Option.bind_assoc l'_def)
    then show ?thesis by (simp only: u3 bind.bind_lunit)
  qed
  have s1: "dseg h1 None ds None" using dseg_set_next [OF seg, of None] d cs p(1) by (simp add: h1_def)
  have s2: "dseg h2 (Some a) ds None" using dseg_set_prev [OF s1, of "Some a"] d cs ds by (simp add: h2_def)
  have "dseg h3 None ((a, v) # ds) None" using s2 ab(2) ds by (simp add: h3_def)
  then have "al_rep h3 l' ((a, v) # ds)"
    using rep cs p(1) d ds by (auto simp: al_rep_def l'_def last_of_def)
  moreover have "h3 x = h x" if "x \<notin> fst ` set cs" for x
  proof -
    have "x \<noteq> a" "x \<noteq> b" "x \<noteq> p" using that cs ds p(2) by auto
    then show ?thesis by (simp add: h3_def h2_def h1_def)
  qed
  moreover have "dom h3 = dom h"
  proof -
    have "dom h2 = dom h" by (simp only: h2_def h1_def set_prev_dom set_next_dom)
    with cell show ?thesis by (auto simp: h3_def)
  qed
  ultimately show ?thesis using rot cs by (auto simp: l'_def same_methods_def)
qed

section \<open>The lists as sequences\<close>

text \<open>Operations by index, as the list commands combine them from the operations on nodes.\<close>

type_synonym 'a lstate = "'a heap \<times> 'a adlist"

definition al_push_head :: "('a heap \<Rightarrow> nat) \<Rightarrow> 'a \<Rightarrow> 'a lstate \<Rightarrow> 'a lstate option" where
  "al_push_head al v s = (case s of (h, l) \<Rightarrow> listAddNodeHead al h l v)"

definition al_push_tail :: "('a heap \<Rightarrow> nat) \<Rightarrow> 'a \<Rightarrow> 'a lstate \<Rightarrow> 'a lstate option" where
  "al_push_tail al v s = (case s of (h, l) \<Rightarrow> listAddNodeTail al h l v)"

definition al_insert_at :: "('a heap \<Rightarrow> nat) \<Rightarrow> int \<Rightarrow> 'a \<Rightarrow> 'a lstate \<Rightarrow> 'a lstate option" where
  "al_insert_at al i v s = (case s of (h, l) \<Rightarrow> do {
     n \<leftarrow> listIndex h l i;
     (case n of None \<Rightarrow> Some (h, l) | Some a \<Rightarrow> listInsertNode al h l (Some a) v False)
   })"

definition al_delete_at :: "int \<Rightarrow> 'a lstate \<Rightarrow> 'a lstate option" where
  "al_delete_at i s = (case s of (h, l) \<Rightarrow> do {
     n \<leftarrow> listIndex h l i;
     (case n of None \<Rightarrow> Some (h, l) | Some a \<Rightarrow> do { (h, l, vs) \<leftarrow> listDelNode h l (Some a); Some (h, l) })
   })"

definition al_read_at :: "int \<Rightarrow> 'a lstate \<Rightarrow> 'a option option" where
  "al_read_at i s = (case s of (h, l) \<Rightarrow> do {
     n \<leftarrow> listIndex h l i;
     (case n of None \<Rightarrow> Some None | Some a \<Rightarrow> do { c \<leftarrow> h a; Some (Some (ln_value c)) })
   })"

definition al_seq :: "('a heap \<Rightarrow> nat) \<Rightarrow> 'a lstate \<Rightarrow> 'a list \<Rightarrow> bool" where
  "al_seq al s xs \<longleftrightarrow> allocator al \<and> (case s of (h, l) \<Rightarrow> finite (dom h) \<and> (\<exists>cs. al_rep h l cs \<and> map snd cs = xs))"

lemma al_seqI: "\<lbrakk>allocator al; finite (dom h); al_rep h l cs; map snd cs = xs\<rbrakk> \<Longrightarrow> al_seq al (h, l) xs"
  by (auto simp: al_seq_def)

lemma linked_seq:
  assumes "linked h l cs (al h) v ds r" and "allocator al" and "finite (dom h)"
  shows "\<exists>s'. r = Some s' \<and> al_seq al s' (map snd cs @ v # map snd ds)"
proof -
  from assms(1) obtain h' l' where r: "r = Some (h', l')" "al_rep h' l' (cs @ (al h, v) # ds)" "dom h' = insert (al h) (dom h)"
    by (auto simp: linked_def)
  have "al_seq al (h', l') (map snd cs @ v # map snd ds)"
    by (rule al_seqI [OF assms(2) _ r(2)]) (use r(3) assms(3) in simp_all)
  with r(1) show ?thesis by blast
qed

lemma split_at: "k < length cs \<Longrightarrow> cs = take k cs @ (fst (cs ! k), snd (cs ! k)) # drop (k + 1) cs"
  by (simp add: id_take_nth_drop)

interpretation alseq: sequence "al_seq al" "\<lambda>xs. length xs < 2 ^ 64" "al_push_head al" "al_push_tail al" al_delete_at al_read_at "al_insert_at al"
  for al :: "'a heap \<Rightarrow> nat"
proof
  fix s :: "'a lstate" and xs v i
  assume rep: "al_seq al s xs"
  obtain h l where s: "s = (h, l)" by (cases s)
  from rep s obtain cs where al: "allocator al" and fin: "finite (dom h)" and cs: "al_rep h l cs" and xs: "map snd cs = xs"
    by (auto simp: al_seq_def)
  have fresh: "al h \<notin> dom h" using al fin by (simp add: allocator_def)
  have len: "length cs = length xs" using xs by auto
  note idx = listIndex_rep [OF cs, of i]
  { assume f: "length (v # xs) < 2 ^ 64"
    then have "length cs + 1 < 2 ^ 64" using len by simp
    from linked_seq [OF listAddNodeHead_rep [where al = al, OF cs fresh this] al fin, of v]
    show "\<exists>s'. al_push_head al v s = Some s' \<and> al_seq al s' (v # xs)" by (simp add: al_push_head_def s xs) }
  { assume f: "length (xs @ [v]) < 2 ^ 64"
    then have "length cs + 1 < 2 ^ 64" using len by simp
    from linked_seq [OF listAddNodeTail_rep [where al = al, OF cs fresh this] al fin, of v]
    show "\<exists>s'. al_push_tail al v s = Some s' \<and> al_seq al s' (xs @ [v])" by (simp add: al_push_tail_def s xs) }
  show "\<exists>s'. al_insert_at al i v s = Some s' \<and> al_seq al s' (insert_spec i v xs)"
    if "length xs < 2 ^ 64" "length (insert_spec i v xs) < 2 ^ 64"
  proof (cases "position (length xs) i")
    case None
    with idx len rep s show ?thesis by (simp add: al_insert_at_def insert_spec_def)
  next
    case (Some k)
    then have k: "k < length cs" using position_less len by simp
    note sp = split_at [OF k]
    have "length cs + 1 < 2 ^ 64" using that(2) Some len k by (simp add: insert_spec_def)
    then have "linked h l (take k cs) (al h) v ((fst (cs ! k), snd (cs ! k)) # drop (k + 1) cs) (listInsertNode al h l (Some (fst (cs ! k))) v False)"
      using cs fresh sp by (intro listInsertNode_before) simp_all
    from linked_seq [OF this al fin] obtain s' where s': "listInsertNode al h l (Some (fst (cs ! k))) v False = Some s'"
      "al_seq al s' (map snd (take k cs) @ v # map snd ((fst (cs ! k), snd (cs ! k)) # drop (k + 1) cs))" by blast
    have "map snd ((fst (cs ! k), snd (cs ! k)) # drop (k + 1) cs) = drop k xs"
      using k by (simp add: xs [symmetric] drop_map Cons_nth_drop_Suc flip: list.map)
    moreover have "map snd (take k cs) = take k xs" by (simp add: xs [symmetric] take_map)
    ultimately have "al_seq al s' (insert_spec i v xs)" using s'(2) Some by (simp add: insert_spec_def)
    moreover have "al_insert_at al i v s = Some s'" using s'(1) idx len Some by (simp add: al_insert_at_def s)
    ultimately show ?thesis by blast
  qed
  show "\<exists>s'. al_delete_at i s = Some s' \<and> al_seq al s' (delete_spec i xs)" if "length xs < 2 ^ 64"
  proof (cases "position (length xs) i")
    case None
    with idx len rep s show ?thesis by (simp add: al_delete_at_def delete_spec_def)
  next
    case (Some k)
    then have k: "k < length cs" using position_less len by simp
    have "al_rep h l (take k cs @ (fst (cs ! k), snd (cs ! k)) # drop (k + 1) cs)" using cs split_at [OF k] by simp
    from listDelNode_rep [OF this] obtain h' l' vs where d: "listDelNode h l (Some (fst (cs ! k))) = Some (h', l', vs)"
      "al_rep h' l' (take k cs @ drop (k + 1) cs)" "dom h' = dom h - {fst (cs ! k)}" by blast
    have "map snd (take k cs) = take k xs" "map snd (drop (k + 1) cs) = drop (k + 1) xs"
      by (simp_all add: xs [symmetric] take_map drop_map)
    then have "map snd (take k cs @ drop (k + 1) cs) = delete_spec i xs" using Some by (simp add: delete_spec_def)
    moreover have "finite (dom h')" using d(3) fin by simp
    ultimately have "al_seq al (h', l') (delete_spec i xs)" by (intro al_seqI [OF al _ d(2)])
    moreover have "al_delete_at i s = Some (h', l')" using d(1) idx len Some by (simp add: al_delete_at_def s)
    ultimately show ?thesis by blast
  qed
  show "al_read_at i s = Some (read_spec i xs)" if "length xs < 2 ^ 64"
  proof (cases "position (length xs) i")
    case None
    with idx len s show ?thesis by (simp add: al_read_at_def read_spec_def)
  next
    case (Some k)
    then have k: "k < length cs" using position_less len by simp
    have "al_rep h l (take k cs @ (fst (cs ! k), snd (cs ! k)) # drop (k + 1) cs)" using cs split_at [OF k] by simp
    from al_rep_cell [OF this] have "al_read_at i s = Some (Some (snd (cs ! k)))" using idx len Some by (simp add: al_read_at_def s)
    moreover have "snd (cs ! k) = xs ! k" using k by (simp add: xs [symmetric])
    ultimately show ?thesis using Some by (simp add: read_spec_def)
  qed
qed

section \<open>Properties\<close>

text \<open>
  C11: A doubly linked list behaves as a sequence. Any sequence of pushes at the head and at the tail, of insertions
  before and deletions of the node at an index and of reads at an index (negative indices from the tail), started from
  a new list in any heap, never follows a NULL or dangling pointer and gives the final contents and the replies of the
  same operations on a list, whatever unused addresses the allocator returns.
\<close>

theorem adlist_refines_list:
  assumes "allocator al" and "finite (dom h)" and "seq_fits (\<lambda>xs. length xs < 2 ^ 64) ps []"
  shows "\<exists>h' l' cs. exec_seqops (al_push_head al) (al_push_tail al) (al_insert_at al) al_delete_at al_read_at ps (h, listCreate) =
             Some ((h', l'), snd (seq_run ps [])) \<and> al_rep h' l' cs \<and> map snd cs = fst (seq_run ps [])"
proof -
  have "al_seq al (h, listCreate) []" by (rule al_seqI [OF assms(1,2) al_rep_create]) simp
  from alseq.run_ok [OF this assms(3)] show ?thesis by (auto simp: al_seq_def)
qed

lemma max_allocator: "allocator (\<lambda>h. Suc (Max (insert 0 (dom h))))"
proof (unfold allocator_def, intro allI impI notI)
  fix h :: "'a heap" assume f: "finite (dom h)" and "Suc (Max (insert 0 (dom h))) \<in> dom h"
  then have "Suc (Max (insert 0 (dom h))) \<le> Max (insert 0 (dom h))" by (intro Max_ge) auto
  then show False by simp
qed

theorem adlist_refines_list_witness:
  "\<exists>h' l' cs. exec_seqops (al_push_head (\<lambda>h. Suc (Max (insert 0 (dom h))))) (al_push_tail (\<lambda>h. Suc (Max (insert 0 (dom h)))))
       (al_insert_at (\<lambda>h. Suc (Max (insert 0 (dom h))))) al_delete_at al_read_at
       [PushHead ''b'', PushTail ''c'', InsertAt (-1) ''x'', DeleteAt 0, ReadAt 1] (Map.empty, listCreate) =
     Some ((h', l'), [None, None, None, None, Some ''c'']) \<and> al_rep h' l' cs \<and> map snd cs = [''x'', ''c'']"
  using adlist_refines_list [OF max_allocator, of Map.empty "[PushHead ''b'', PushTail ''c'', InsertAt (-1) ''x'', DeleteAt 0, ReadAt 1]"]
  by (simp add: insert_spec_def delete_spec_def read_spec_def position_def)

text \<open>
  C28: Copying a list gives a separate list: on success its nodes are all new, its values are the copies of the values of
  the original in order, and every cell that was in the heap is unchanged; if the \<open>dup\<close> method fails on some value, the
  nodes of the partial copy have all been freed and the heap is as before.
\<close>

theorem listDup_copies:
  fixes h :: "'a heap"
  assumes "allocator al" and "finite (dom h)" and "al_rep h l cs"
  shows "\<exists>h' r. listDup al h l = Some (h', r) \<and>
           (case r of
              None \<Rightarrow> h' = h \<and> None \<in> dup_value l ` snd ` set cs
            | Some l' \<Rightarrow> \<exists>es. al_rep h' l' es \<and> map (Some \<circ> snd) es = map (dup_value l \<circ> snd) cs \<and> fst ` set es \<inter> dom h = {} \<and>
                (\<forall>a \<in> dom h. h' a = h a))"
proof -
  define copy where "copy = listCreate\<lparr>al_dup := al_dup l, al_free := al_free l, al_match := al_match l\<rparr>"
  have "al_rep h copy []" by (simp add: al_rep_def copy_def listCreate_def)
  moreover have "al_rep h l ([] @ cs)" using assms(3) by simp
  moreover have "length cs < 2 ^ 64" "al_head l = first_of cs None" using assms(3) by (simp_all add: al_rep_def)
  ultimately have "dup_result h [] (map (dup_value copy \<circ> snd) cs) (dup_loop al h copy (listGetIterator l True))"
    using assms(1,2) by (intro dup_loop_rep [where cs = "[]"]) (simp_all add: listGetIterator_def)
  moreover have "dup_value copy = dup_value l" by (simp add: dup_value_def copy_def fun_eq_iff)
  moreover have "listDup al h l = dup_loop al h copy (listGetIterator l True)" by (simp add: listDup_def copy_def)
  ultimately have "dup_result h [] (map (dup_value l \<circ> snd) cs) (listDup al h l)" by simp
  then obtain h' r where r: "listDup al h l = Some (h', r)" "\<forall>a. a \<in> dom h - fst ` set ([] :: (nat \<times> 'a) list) \<longrightarrow> h' a = h a"
    "case r of None \<Rightarrow> None \<in> set (map (dup_value l \<circ> snd) cs) \<and> dom h' = dom h - fst ` set ([] :: (nat \<times> 'a) list)
     | Some l' \<Rightarrow> None \<notin> set (map (dup_value l \<circ> snd) cs) \<and>
         (\<exists>es. al_rep h' l' ([] @ es) \<and> map (Some \<circ> snd) es = map (dup_value l \<circ> snd) cs \<and> fst ` set es \<inter> dom h = {})"
    unfolding dup_result_def by blast
  show ?thesis
  proof (cases r)
    case None
    have "h' a = h a" for a using r(2,3) None by (cases "a \<in> dom h") (auto simp: domIff)
    then have "h' = h" by (rule ext)
    with None r(1,3) show ?thesis by (auto simp: image_comp)
  next
    case (Some l')
    with r show ?thesis by (intro exI [of _ h'] exI [of _ r]) simp
  qed
qed

theorem listDup_copies_witness:
  "\<exists>h l cs h' r. al_rep h l cs \<and> map snd cs = [''a''] \<and> listDup (\<lambda>h. Suc (Max (insert 0 (dom h)))) h l = Some (h', r)"
proof -
  define h :: "string heap" where "h = [5 \<mapsto> \<lparr>ln_prev = None, ln_next = None, ln_value = ''a''\<rparr>]"
  define l :: "string adlist" where "l = listCreate\<lparr>al_head := Some 5, al_tail := Some 5, al_len := 1\<rparr>"
  have rep: "al_rep h l [(5, ''a'')]" by (simp add: al_rep_def h_def l_def)
  have "finite (dom h)" by (simp add: h_def)
  from listDup_copies [OF max_allocator this rep] rep show ?thesis by fastforce
qed

end
