(* ===== verification/Crc.thy ===== *)
theory Crc
  imports Ctype
begin

text \<open>
  The checksums of \<open>crc16.c\<close> and \<open>crc64.c\<close>, with their tables as in the source, and the hash slot
  of a cluster key (\<open>keyHashSlot\<close> of \<open>cluster.c\<close>). The reference is the division of the message by
  the generator polynomial, one bit at a time. The table entries are checked one by one; that the
  table-driven step is the reference step follows from the linearity of the division.
\<close>

unbundle bit_operations_syntax

section \<open>The code\<close>

definition crc16tab :: "16 word list" where
  "crc16tab =
    [
     0x0000, 0x1021, 0x2042, 0x3063, 0x4084, 0x50a5, 0x60c6, 0x70e7,
     0x8108, 0x9129, 0xa14a, 0xb16b, 0xc18c, 0xd1ad, 0xe1ce, 0xf1ef,
     0x1231, 0x0210, 0x3273, 0x2252, 0x52b5, 0x4294, 0x72f7, 0x62d6,
     0x9339, 0x8318, 0xb37b, 0xa35a, 0xd3bd, 0xc39c, 0xf3ff, 0xe3de,
     0x2462, 0x3443, 0x0420, 0x1401, 0x64e6, 0x74c7, 0x44a4, 0x5485,
     0xa56a, 0xb54b, 0x8528, 0x9509, 0xe5ee, 0xf5cf, 0xc5ac, 0xd58d,
     0x3653, 0x2672, 0x1611, 0x0630, 0x76d7, 0x66f6, 0x5695, 0x46b4,
     0xb75b, 0xa77a, 0x9719, 0x8738, 0xf7df, 0xe7fe, 0xd79d, 0xc7bc,
     0x48c4, 0x58e5, 0x6886, 0x78a7, 0x0840, 0x1861, 0x2802, 0x3823,
     0xc9cc, 0xd9ed, 0xe98e, 0xf9af, 0x8948, 0x9969, 0xa90a, 0xb92b,
     0x5af5, 0x4ad4, 0x7ab7, 0x6a96, 0x1a71, 0x0a50, 0x3a33, 0x2a12,
     0xdbfd, 0xcbdc, 0xfbbf, 0xeb9e, 0x9b79, 0x8b58, 0xbb3b, 0xab1a,
     0x6ca6, 0x7c87, 0x4ce4, 0x5cc5, 0x2c22, 0x3c03, 0x0c60, 0x1c41,
     0xedae, 0xfd8f, 0xcdec, 0xddcd, 0xad2a, 0xbd0b, 0x8d68, 0x9d49,
     0x7e97, 0x6eb6, 0x5ed5, 0x4ef4, 0x3e13, 0x2e32, 0x1e51, 0x0e70,
     0xff9f, 0xefbe, 0xdfdd, 0xcffc, 0xbf1b, 0xaf3a, 0x9f59, 0x8f78,
     0x9188, 0x81a9, 0xb1ca, 0xa1eb, 0xd10c, 0xc12d, 0xf14e, 0xe16f,
     0x1080, 0x00a1, 0x30c2, 0x20e3, 0x5004, 0x4025, 0x7046, 0x6067,
     0x83b9, 0x9398, 0xa3fb, 0xb3da, 0xc33d, 0xd31c, 0xe37f, 0xf35e,
     0x02b1, 0x1290, 0x22f3, 0x32d2, 0x4235, 0x5214, 0x6277, 0x7256,
     0xb5ea, 0xa5cb, 0x95a8, 0x8589, 0xf56e, 0xe54f, 0xd52c, 0xc50d,
     0x34e2, 0x24c3, 0x14a0, 0x0481, 0x7466, 0x6447, 0x5424, 0x4405,
     0xa7db, 0xb7fa, 0x8799, 0x97b8, 0xe75f, 0xf77e, 0xc71d, 0xd73c,
     0x26d3, 0x36f2, 0x0691, 0x16b0, 0x6657, 0x7676, 0x4615, 0x5634,
     0xd94c, 0xc96d, 0xf90e, 0xe92f, 0x99c8, 0x89e9, 0xb98a, 0xa9ab,
     0x5844, 0x4865, 0x7806, 0x6827, 0x18c0, 0x08e1, 0x3882, 0x28a3,
     0xcb7d, 0xdb5c, 0xeb3f, 0xfb1e, 0x8bf9, 0x9bd8, 0xabbb, 0xbb9a,
     0x4a75, 0x5a54, 0x6a37, 0x7a16, 0x0af1, 0x1ad0, 0x2ab3, 0x3a92,
     0xfd2e, 0xed0f, 0xdd6c, 0xcd4d, 0xbdaa, 0xad8b, 0x9de8, 0x8dc9,
     0x7c26, 0x6c07, 0x5c64, 0x4c45, 0x3ca2, 0x2c83, 0x1ce0, 0x0cc1,
     0xef1f, 0xff3e, 0xcf5d, 0xdf7c, 0xaf9b, 0xbfba, 0x8fd9, 0x9ff8,
     0x6e17, 0x7e36, 0x4e55, 0x5e74, 0x2e93, 0x3eb2, 0x0ed1, 0x1ef0
    ]"

fun crc16_loop :: "bytes \<Rightarrow> nat \<Rightarrow> nat \<Rightarrow> 16 word \<Rightarrow> 16 word option" where
  "crc16_loop buf i 0 crc = Some crc"
| "crc16_loop buf i (Suc n) crc = do {
     b \<leftarrow> mem_byte buf i;
     crc16_loop buf (i + 1) n (push_bit 8 crc XOR crc16tab ! unat ((drop_bit 8 crc XOR ucast b) AND 0x00FF))
   }"

definition crc16 :: "bytes \<Rightarrow> nat \<Rightarrow> 16 word option" where
  "crc16 buf len = crc16_loop buf 0 len 0"

definition crc64_tab :: "64 word list" where
  "crc64_tab =
    [
     0x0000000000000000, 0x7ad870c830358979, 0xf5b0e190606b12f2, 0x8f689158505e9b8b,
     0xc038e5739841b68f, 0xbae095bba8743ff6, 0x358804e3f82aa47d, 0x4f50742bc81f2d04,
     0xab28ecb46814fe75, 0xd1f09c7c5821770c, 0x5e980d24087fec87, 0x24407dec384a65fe,
     0x6b1009c7f05548fa, 0x11c8790fc060c183, 0x9ea0e857903e5a08, 0xe478989fa00bd371,
     0x7d08ff3b88be6f81, 0x07d08ff3b88be6f8, 0x88b81eabe8d57d73, 0xf2606e63d8e0f40a,
     0xbd301a4810ffd90e, 0xc7e86a8020ca5077, 0x4880fbd87094cbfc, 0x32588b1040a14285,
     0xd620138fe0aa91f4, 0xacf86347d09f188d, 0x2390f21f80c18306, 0x594882d7b0f40a7f,
     0x1618f6fc78eb277b, 0x6cc0863448deae02, 0xe3a8176c18803589, 0x997067a428b5bcf0,
     0xfa11fe77117cdf02, 0x80c98ebf2149567b, 0x0fa11fe77117cdf0, 0x75796f2f41224489,
     0x3a291b04893d698d, 0x40f16bccb908e0f4, 0xcf99fa94e9567b7f, 0xb5418a5cd963f206,
     0x513912c379682177, 0x2be1620b495da80e, 0xa489f35319033385, 0xde51839b2936bafc,
     0x9101f7b0e12997f8, 0xebd98778d11c1e81, 0x64b116208142850a, 0x1e6966e8b1770c73,
     0x8719014c99c2b083, 0xfdc17184a9f739fa, 0x72a9e0dcf9a9a271, 0x08719014c99c2b08,
     0x4721e43f0183060c, 0x3df994f731b68f75, 0xb29105af61e814fe, 0xc849756751dd9d87,
     0x2c31edf8f1d64ef6, 0x56e99d30c1e3c78f, 0xd9810c6891bd5c04, 0xa3597ca0a188d57d,
     0xec09088b6997f879, 0x96d1784359a27100, 0x19b9e91b09fcea8b, 0x636199d339c963f2,
     0xdf7adabd7a6e2d6f, 0xa5a2aa754a5ba416, 0x2aca3b2d1a053f9d, 0x50124be52a30b6e4,
     0x1f423fcee22f9be0, 0x659a4f06d21a1299, 0xeaf2de5e82448912, 0x902aae96b271006b,
     0x74523609127ad31a, 0x0e8a46c1224f5a63, 0x81e2d7997211c1e8, 0xfb3aa75142244891,
     0xb46ad37a8a3b6595, 0xceb2a3b2ba0eecec, 0x41da32eaea507767, 0x3b024222da65fe1e,
     0xa2722586f2d042ee, 0xd8aa554ec2e5cb97, 0x57c2c41692bb501c, 0x2d1ab4dea28ed965,
     0x624ac0f56a91f461, 0x1892b03d5aa47d18, 0x97fa21650afae693, 0xed2251ad3acf6fea,
     0x095ac9329ac4bc9b, 0x7382b9faaaf135e2, 0xfcea28a2faafae69, 0x8632586aca9a2710,
     0xc9622c4102850a14, 0xb3ba5c8932b0836d, 0x3cd2cdd162ee18e6, 0x460abd1952db919f,
     0x256b24ca6b12f26d, 0x5fb354025b277b14, 0xd0dbc55a0b79e09f, 0xaa03b5923b4c69e6,
     0xe553c1b9f35344e2, 0x9f8bb171c366cd9b, 0x10e3202993385610, 0x6a3b50e1a30ddf69,
     0x8e43c87e03060c18, 0xf49bb8b633338561, 0x7bf329ee636d1eea, 0x012b592653589793,
     0x4e7b2d0d9b47ba97, 0x34a35dc5ab7233ee, 0xbbcbcc9dfb2ca865, 0xc113bc55cb19211c,
     0x5863dbf1e3ac9dec, 0x22bbab39d3991495, 0xadd33a6183c78f1e, 0xd70b4aa9b3f20667,
     0x985b3e827bed2b63, 0xe2834e4a4bd8a21a, 0x6debdf121b863991, 0x1733afda2bb3b0e8,
     0xf34b37458bb86399, 0x8993478dbb8deae0, 0x06fbd6d5ebd3716b, 0x7c23a61ddbe6f812,
     0x3373d23613f9d516, 0x49aba2fe23cc5c6f, 0xc6c333a67392c7e4, 0xbc1b436e43a74e9d,
     0x95ac9329ac4bc9b5, 0xef74e3e19c7e40cc, 0x601c72b9cc20db47, 0x1ac40271fc15523e,
     0x5594765a340a7f3a, 0x2f4c0692043ff643, 0xa02497ca54616dc8, 0xdafce7026454e4b1,
     0x3e847f9dc45f37c0, 0x445c0f55f46abeb9, 0xcb349e0da4342532, 0xb1eceec59401ac4b,
     0xfebc9aee5c1e814f, 0x8464ea266c2b0836, 0x0b0c7b7e3c7593bd, 0x71d40bb60c401ac4,
     0xe8a46c1224f5a634, 0x927c1cda14c02f4d, 0x1d148d82449eb4c6, 0x67ccfd4a74ab3dbf,
     0x289c8961bcb410bb, 0x5244f9a98c8199c2, 0xdd2c68f1dcdf0249, 0xa7f41839ecea8b30,
     0x438c80a64ce15841, 0x3954f06e7cd4d138, 0xb63c61362c8a4ab3, 0xcce411fe1cbfc3ca,
     0x83b465d5d4a0eece, 0xf96c151de49567b7, 0x76048445b4cbfc3c, 0x0cdcf48d84fe7545,
     0x6fbd6d5ebd3716b7, 0x15651d968d029fce, 0x9a0d8ccedd5c0445, 0xe0d5fc06ed698d3c,
     0xaf85882d2576a038, 0xd55df8e515432941, 0x5a3569bd451db2ca, 0x20ed197575283bb3,
     0xc49581ead523e8c2, 0xbe4df122e51661bb, 0x3125607ab548fa30, 0x4bfd10b2857d7349,
     0x04ad64994d625e4d, 0x7e7514517d57d734, 0xf11d85092d094cbf, 0x8bc5f5c11d3cc5c6,
     0x12b5926535897936, 0x686de2ad05bcf04f, 0xe70573f555e26bc4, 0x9ddd033d65d7e2bd,
     0xd28d7716adc8cfb9, 0xa85507de9dfd46c0, 0x273d9686cda3dd4b, 0x5de5e64efd965432,
     0xb99d7ed15d9d8743, 0xc3450e196da80e3a, 0x4c2d9f413df695b1, 0x36f5ef890dc31cc8,
     0x79a59ba2c5dc31cc, 0x037deb6af5e9b8b5, 0x8c157a32a5b7233e, 0xf6cd0afa9582aa47,
     0x4ad64994d625e4da, 0x300e395ce6106da3, 0xbf66a804b64ef628, 0xc5bed8cc867b7f51,
     0x8aeeace74e645255, 0xf036dc2f7e51db2c, 0x7f5e4d772e0f40a7, 0x05863dbf1e3ac9de,
     0xe1fea520be311aaf, 0x9b26d5e88e0493d6, 0x144e44b0de5a085d, 0x6e963478ee6f8124,
     0x21c640532670ac20, 0x5b1e309b16452559, 0xd476a1c3461bbed2, 0xaeaed10b762e37ab,
     0x37deb6af5e9b8b5b, 0x4d06c6676eae0222, 0xc26e573f3ef099a9, 0xb8b627f70ec510d0,
     0xf7e653dcc6da3dd4, 0x8d3e2314f6efb4ad, 0x0256b24ca6b12f26, 0x788ec2849684a65f,
     0x9cf65a1b368f752e, 0xe62e2ad306bafc57, 0x6946bb8b56e467dc, 0x139ecb4366d1eea5,
     0x5ccebf68aecec3a1, 0x2616cfa09efb4ad8, 0xa97e5ef8cea5d153, 0xd3a62e30fe90582a,
     0xb0c7b7e3c7593bd8, 0xca1fc72bf76cb2a1, 0x45775673a732292a, 0x3faf26bb9707a053,
     0x70ff52905f188d57, 0x0a2722586f2d042e, 0x854fb3003f739fa5, 0xff97c3c80f4616dc,
     0x1bef5b57af4dc5ad, 0x61372b9f9f784cd4, 0xee5fbac7cf26d75f, 0x9487ca0fff135e26,
     0xdbd7be24370c7322, 0xa10fceec0739fa5b, 0x2e675fb4576761d0, 0x54bf2f7c6752e8a9,
     0xcdcf48d84fe75459, 0xb71738107fd2dd20, 0x387fa9482f8c46ab, 0x42a7d9801fb9cfd2,
     0x0df7adabd7a6e2d6, 0x772fdd63e7936baf, 0xf8474c3bb7cdf024, 0x829f3cf387f8795d,
     0x66e7a46c27f3aa2c, 0x1c3fd4a417c62355, 0x935745fc4798b8de, 0xe98f353477ad31a7,
     0xa6df411fbfb21ca3, 0xdc0731d78f8795da, 0x536fa08fdfd90e51, 0x29b7d047efec8728
    ]"

fun crc64_loop :: "bytes \<Rightarrow> nat \<Rightarrow> nat \<Rightarrow> 64 word \<Rightarrow> 64 word option" where
  "crc64_loop s j 0 crc = Some crc"
| "crc64_loop s j (Suc n) crc = do {
     byte \<leftarrow> mem_byte s j;
     crc64_loop s (j + 1) n (crc64_tab ! unat ((ucast crc :: byte) XOR byte) XOR drop_bit 8 crc)
   }"

definition crc64 :: "64 word \<Rightarrow> bytes \<Rightarrow> nat \<Rightarrow> 64 word option" where
  "crc64 crc s l = crc64_loop s 0 l crc"

text \<open>The index of the first occurrence of a byte from \<open>s\<close> on, or \<open>n\<close>.\<close>

function find_byte :: "bytes \<Rightarrow> byte \<Rightarrow> nat \<Rightarrow> nat \<Rightarrow> nat option" where
  "find_byte key c s n =
     (if s < n then do { b \<leftarrow> mem_byte key s; if b = c then Some s else find_byte key c (s + 1) n } else Some s)"
  by pat_completeness auto
termination
  by (relation "measure (\<lambda>(key, c, s, n). n - s)") auto

declare find_byte.simps [simp del]

definition keyHashSlot :: "bytes \<Rightarrow> nat \<Rightarrow> 16 word option" where
  "keyHashSlot key keylen = do {
     s \<leftarrow> find_byte key 123 0 keylen;
     if s = keylen then do { c \<leftarrow> crc16 key keylen; Some (c AND 0x3FFF) }
     else do {
       e \<leftarrow> find_byte key 125 (s + 1) keylen;
       if e = keylen \<or> e = s + 1 then do { c \<leftarrow> crc16 key keylen; Some (c AND 0x3FFF) }
       else do { c \<leftarrow> crc16 (drop (s + 1) key) (e - s - 1); Some (c AND 0x3FFF) }
     }
   }"

section \<open>Division by the generator polynomial\<close>

text \<open>Most significant bit first, polynomial \<open>0x1021\<close>.\<close>

definition crc16_bit :: "16 word \<Rightarrow> 16 word" where
  "crc16_bit c = (if bit c 15 then push_bit 1 c XOR 0x1021 else push_bit 1 c)"

definition crc16_byte :: "16 word \<Rightarrow> byte \<Rightarrow> 16 word" where
  "crc16_byte c b = (crc16_bit ^^ 8) (c XOR push_bit 8 (ucast b))"

text \<open>Least significant bit first, the reflected polynomial \<open>0xad93d23594c935a9\<close>.\<close>

definition crc64_bit :: "64 word \<Rightarrow> 64 word" where
  "crc64_bit c = (if bit c 0 then drop_bit 1 c XOR 0x95ac9329ac4bc9b5 else drop_bit 1 c)"

definition crc64_byte :: "64 word \<Rightarrow> byte \<Rightarrow> 64 word" where
  "crc64_byte c b = (crc64_bit ^^ 8) (c XOR ucast b)"

lemma crc64_poly: "0x95ac9329ac4bc9b5 = word_reverse (0xad93d23594c935a9 :: 64 word)"
  by (simp add: word_reverse_def upt_rec)

text \<open>The steps are linear.\<close>

lemma crc16_bit_xor: "crc16_bit (x XOR y) = crc16_bit x XOR crc16_bit y"
  by (auto simp: crc16_bit_def bit_xor_iff push_bit_xor xor.assoc xor.left_commute xor.commute)

lemma crc64_bit_xor: "crc64_bit (x XOR y) = crc64_bit x XOR crc64_bit y"
  by (auto simp: crc64_bit_def bit_xor_iff drop_bit_xor xor.assoc xor.left_commute xor.commute)

lemma funpow_xor:
  fixes f :: "'a::len word \<Rightarrow> 'a word"
  assumes "\<And>x y. f (x XOR y) = f x XOR f y"
  shows "(f ^^ n) (x XOR y) = (f ^^ n) x XOR (f ^^ n) y"
  by (induction n) (simp_all add: assms)

text \<open>
  The tables. Halving the index is one division step of the entry, and an odd entry differs from
  the even one before it by the entry of 1: the 255 relations determine the table.
\<close>

fun evens :: "'a list \<Rightarrow> 'a list" where
  "evens (x # y # zs) = x # evens zs"
| "evens zs = []"

fun odds :: "'a list \<Rightarrow> 'a list" where
  "odds (x # y # zs) = y # odds zs"
| "odds zs = []"

lemma evens_nth: "2 * k + 1 < length xs \<Longrightarrow> evens xs ! k = xs ! (2 * k) \<and> k < length (evens xs)"
proof (induction xs arbitrary: k rule: evens.induct)
  case (1 x y zs)
  then show ?case by (cases k) auto
qed auto

lemma odds_nth: "2 * k + 1 < length xs \<Longrightarrow> odds xs ! k = xs ! (2 * k + 1) \<and> k < length (odds xs)"
proof (induction xs arbitrary: k rule: odds.induct)
  case (1 x y zs)
  then show ?case by (cases k) auto
qed auto

lemma crc64_tab_halves: "map crc64_bit (evens crc64_tab) = take 128 crc64_tab"
  by (simp add: crc64_tab_def crc64_bit_def)

lemma crc64_tab_odds: "odds crc64_tab = map (\<lambda>x. x XOR 0x7ad870c830358979) (evens crc64_tab)"
  by (simp add: crc64_tab_def)

lemma crc16_tab_doubles: "map crc16_bit (take 128 crc16tab) = evens crc16tab"
  by (simp add: crc16tab_def crc16_bit_def)

lemma crc16_tab_odds: "odds crc16tab = map (\<lambda>x. x XOR 0x1021) (evens crc16tab)"
  by (simp add: crc16tab_def)

lemma crc_tab_lengths: "length crc16tab = 256" "length crc64_tab = 256"
  by (simp_all add: crc16tab_def crc64_tab_def)

lemma crc_tab_first:
  "crc16tab ! 0 = 0" "crc64_tab ! 0 = 0"
  by (simp_all add: crc16tab_def crc64_tab_def)

lemma crc_tab_even_odd:
  assumes "k < 128"
  shows "crc16tab ! (2 * k) = crc16_bit (crc16tab ! k)" and "crc64_bit (crc64_tab ! (2 * k)) = crc64_tab ! k"
    and "crc16tab ! (2 * k + 1) = crc16tab ! (2 * k) XOR 0x1021"
    and "crc64_tab ! (2 * k + 1) = crc64_tab ! (2 * k) XOR 0x7ad870c830358979"
proof -
  have l: "2 * k + 1 < length crc16tab" "2 * k + 1 < length crc64_tab" using assms by (simp_all add: crc_tab_lengths)
  note e16 = evens_nth [OF l(1)] odds_nth [OF l(1)] and e64 = evens_nth [OF l(2)] odds_nth [OF l(2)]
  have "map crc16_bit (take 128 crc16tab) ! k = evens crc16tab ! k" by (simp only: crc16_tab_doubles)
  then show "crc16tab ! (2 * k) = crc16_bit (crc16tab ! k)" using e16 assms by (simp add: crc_tab_lengths)
  have "map crc64_bit (evens crc64_tab) ! k = take 128 crc64_tab ! k" by (simp only: crc64_tab_halves)
  then show "crc64_bit (crc64_tab ! (2 * k)) = crc64_tab ! k" using e64 assms by simp
  show "crc16tab ! (2 * k + 1) = crc16tab ! (2 * k) XOR 0x1021"
    using e16 by (simp add: crc16_tab_odds)
  show "crc64_tab ! (2 * k + 1) = crc64_tab ! (2 * k) XOR 0x7ad870c830358979"
    using e64 by (simp add: crc64_tab_odds)
qed

lemma funpow_comm: "(f ^^ n) (f x) = f ((f ^^ n) x)"
  by (metis comp_apply funpow_Suc_right funpow.simps(2))

lemma funpow_0_fix: "f c = c \<Longrightarrow> (f ^^ n) c = c"
  by (induction n) simp_all

lemma even_odd_xor: "of_nat (2 * k + 1) = of_nat (2 * k) XOR (1 :: 'a::len word)"
  by (simp add: xor_one_eq)

lemma funpow_8: "(f ^^ 8) x = f (f (f (f (f (f (f (f x)))))))"
  by (simp add: eval_nat_numeral)

lemma word_xor_0: "x XOR y = 0 \<Longrightarrow> x = (y :: 'a::len word)"
proof -
  assume "x XOR y = 0"
  then have "(x XOR y) XOR y = y" by simp
  then show "x = y" by (simp add: xor.assoc)
qed

lemma crc64_bit_inj: "crc64_bit x = crc64_bit y \<Longrightarrow> x = y"
proof -
  assume "crc64_bit x = crc64_bit y"
  then have z: "crc64_bit (x XOR y) = 0" by (simp add: crc64_bit_xor)
  define c where "c = x XOR y"
  have "\<not> bit c 0"
  proof
    assume "bit c 0"
    with z have "drop_bit 1 c XOR 0x95ac9329ac4bc9b5 = 0" by (simp add: crc64_bit_def c_def)
    then have "drop_bit 1 c = 0x95ac9329ac4bc9b5" by (rule word_xor_0)
    then have "bit (drop_bit 1 c) 63" by simp
    then have "bit c 64" by (simp add: bit_drop_bit_eq)
    then show False using bit_imp_le_length [of c 64] by simp
  qed
  with z have "drop_bit 1 c = 0" by (simp add: crc64_bit_def c_def)
  have "c = 0"
  proof (rule bit_word_eqI)
    fix n
    have "bit c (Suc m) = bit (drop_bit 1 c) m" for m by (simp add: bit_drop_bit_eq)
    with \<open>drop_bit 1 c = 0\<close> \<open>\<not> bit c 0\<close> show "bit c n = bit 0 n" by (cases n) auto
  qed
  then show ?thesis unfolding c_def by (rule word_xor_0)
qed

lemma crc64_tab_nth: "i < 256 \<Longrightarrow> crc64_tab ! i = (crc64_bit ^^ 8) (of_nat i)"
proof (induction i rule: less_induct)
  case (less i)
  have even: "crc64_tab ! (2 * k) = (crc64_bit ^^ 8) (of_nat (2 * k))" if "2 * k \<le> i" for k
  proof (cases "k = 0")
    case True
    then show ?thesis by (simp add: crc_tab_first funpow_0_fix crc64_bit_def)
  next
    case False
    have "drop_bit 1 (of_nat (2 * k)) = (of_nat k :: 64 word)"
      using that less.prems by (simp add: word_unat_eq_iff unat_div unat_of_nat drop_bit_eq_div del: of_nat_mult)
    then have "crc64_bit (of_nat (2 * k)) = of_nat k" by (simp add: crc64_bit_def bit_0)
    then have "crc64_bit ((crc64_bit ^^ 8) (of_nat (2 * k))) = (crc64_bit ^^ 8) (of_nat k)" by (metis funpow_comm)
    also have "\<dots> = crc64_tab ! k" using less.IH [of k] False that less.prems by simp
    also have "\<dots> = crc64_bit (crc64_tab ! (2 * k))" using crc_tab_even_odd(2) [of k] that less.prems by simp
    finally show ?thesis using crc64_bit_inj by metis
  qed
  show ?case
  proof (cases "even i")
    case True
    with even [of "i div 2"] show ?thesis by simp
  next
    case False
    then obtain k where i: "i = 2 * k + 1" by (rule oddE)
    have one: "(crc64_bit ^^ 8) 1 = 0x7ad870c830358979" by (simp add: funpow_8 crc64_bit_def)
    have "(crc64_bit ^^ 8) (of_nat i) = (crc64_bit ^^ 8) (of_nat (2 * k)) XOR (crc64_bit ^^ 8) 1"
      unfolding i even_odd_xor by (rule funpow_xor [OF crc64_bit_xor])
    with even [of k] one i crc_tab_even_odd(4) [of k] less.prems show ?thesis by simp
  qed
qed

lemma crc16_tab_nth: "i < 256 \<Longrightarrow> crc16tab ! i = (crc16_bit ^^ 8) (push_bit 8 (of_nat i))"
proof (induction i rule: less_induct)
  case (less i)
  have even: "crc16tab ! (2 * k) = (crc16_bit ^^ 8) (push_bit 8 (of_nat (2 * k)))" if "2 * k \<le> i" for k
  proof (cases "k = 0")
    case True
    then show ?thesis by (simp add: crc_tab_first funpow_0_fix crc16_bit_def)
  next
    case False
    have "crc16_bit (push_bit 8 (of_nat k)) = push_bit 8 (of_nat (2 * k))"
    proof -
      have "\<not> bit (push_bit 8 (of_nat k) :: 16 word) 15"
      proof -
        have "\<not> bit k 7" using that less.prems by (simp add: bit_iff_odd)
        then show ?thesis by (simp add: bit_push_bit_iff bit_of_nat_iff)
      qed
      moreover have "push_bit 1 (push_bit 8 (of_nat k)) = push_bit 8 (of_nat (2 * k) :: 16 word)"
        by (simp add: push_bit_eq_mult)
      ultimately show ?thesis by (simp add: crc16_bit_def)
    qed
    then have "(crc16_bit ^^ 8) (push_bit 8 (of_nat (2 * k))) = crc16_bit ((crc16_bit ^^ 8) (push_bit 8 (of_nat k)))"
      by (metis funpow_comm)
    also have "\<dots> = crc16_bit (crc16tab ! k)" using less.IH [of k] False that less.prems by simp
    also have "\<dots> = crc16tab ! (2 * k)" using crc_tab_even_odd(1) [of k] that less.prems by simp
    finally show ?thesis by simp
  qed
  show ?case
  proof (cases "even i")
    case True
    with even [of "i div 2"] show ?thesis by simp
  next
    case False
    then obtain k where i: "i = 2 * k + 1" by (rule oddE)
    have one: "(crc16_bit ^^ 8) (push_bit 8 1) = 0x1021" by (simp add: funpow_8 crc16_bit_def)
    have "(crc16_bit ^^ 8) (push_bit 8 (of_nat i)) = (crc16_bit ^^ 8) (push_bit 8 (of_nat (2 * k))) XOR (crc16_bit ^^ 8) (push_bit 8 1)"
      unfolding i even_odd_xor push_bit_xor by (rule funpow_xor [OF crc16_bit_xor])
    with even [of k] one i crc_tab_even_odd(3) [of k] less.prems show ?thesis by simp
  qed
qed

section \<open>The table-driven steps\<close>

lemma unat_take_bit_less: "unat (take_bit n (w :: 'a::len word)) < 2 ^ n"
  by (simp add: unsigned_take_bit_eq)

lemma word_split_8: "x = take_bit 8 x XOR push_bit 8 (drop_bit 8 (x :: 'a::len word))"
  by (rule bit_word_eqI) (auto simp: bit_xor_iff bit_take_bit_iff bit_push_bit_iff bit_drop_bit_eq)

lemma crc64_high:
  assumes "j \<le> 8"
  shows "(crc64_bit ^^ j) (push_bit 8 (drop_bit 8 x)) = push_bit (8 - j) (drop_bit 8 x)"
  using assms
proof (induction j)
  case (Suc j)
  have "crc64_bit (push_bit (8 - j) (drop_bit 8 x)) = push_bit (8 - Suc j) (drop_bit 8 x)"
  proof -
    have "\<not> bit (push_bit (8 - j) (drop_bit 8 x)) 0" using Suc.prems by (simp add: bit_push_bit_iff)
    moreover have "drop_bit 1 (push_bit (8 - j) (drop_bit 8 x)) = push_bit (8 - Suc j) (drop_bit 8 x)"
    proof (rule bit_word_eqI)
      fix n assume n: "n < LENGTH(64)"
      have e: "1 + n - (8 - j) = n - (8 - Suc j)" "8 - j \<le> 1 + n \<longleftrightarrow> 8 - Suc j \<le> n" using Suc.prems by auto
      show "bit (drop_bit 1 (push_bit (8 - j) (drop_bit 8 x))) n \<longleftrightarrow> bit (push_bit (8 - Suc j) (drop_bit 8 x)) n"
        using n by (auto simp: bit_drop_bit_eq bit_push_bit_iff e simp del: One_nat_def dest: bit_imp_le_length)
    qed
    ultimately show ?thesis by (simp add: crc64_bit_def)
  qed
  with Suc show ?case by simp
qed simp

lemma crc64_step: "crc64_byte c b = crc64_tab ! unat ((ucast c :: byte) XOR b) XOR drop_bit 8 c"
proof -
  define x where "x = c XOR ucast b"
  have lo: "take_bit 8 x = of_nat (unat ((ucast c :: byte) XOR b))"
  proof -
    have "of_nat (unat ((ucast c :: byte) XOR b)) = (ucast ((ucast c :: byte) XOR b) :: 64 word)" by simp
    also have "\<dots> = take_bit 8 x"
      by (rule bit_word_eqI) (auto simp: x_def bit_take_bit_iff bit_xor_iff bit_ucast_iff dest: bit_imp_le_length)
    finally show ?thesis by simp
  qed
  have hi: "drop_bit 8 x = drop_bit 8 c"
    by (rule bit_word_eqI) (auto simp: x_def bit_drop_bit_eq bit_xor_iff bit_ucast_iff dest: bit_imp_le_length)
  have "crc64_byte c b = (crc64_bit ^^ 8) (take_bit 8 x XOR push_bit 8 (drop_bit 8 x))"
    unfolding crc64_byte_def x_def [symmetric] using word_split_8 [of x] by simp
  also have "\<dots> = (crc64_bit ^^ 8) (take_bit 8 x) XOR (crc64_bit ^^ 8) (push_bit 8 (drop_bit 8 x))"
    by (rule funpow_xor [OF crc64_bit_xor])
  also have "(crc64_bit ^^ 8) (push_bit 8 (drop_bit 8 x)) = drop_bit 8 c" using crc64_high [of 8 x] hi by simp
  also have "(crc64_bit ^^ 8) (take_bit 8 x) = crc64_tab ! unat ((ucast c :: byte) XOR b)"
    unfolding lo by (rule crc64_tab_nth [symmetric]) simp
  finally show ?thesis .
qed

lemma crc16_low:
  assumes "j \<le> 8"
  shows "(crc16_bit ^^ j) (take_bit 8 x) = push_bit j (take_bit 8 x)"
  using assms
proof (induction j)
  case (Suc j)
  have "\<not> 15 - j < 8" using Suc.prems by simp
  then have "\<not> bit (push_bit j (take_bit 8 x)) 15" by (simp only: bit_push_bit_iff bit_take_bit_iff) blast
  with Suc show ?case by (simp add: crc16_bit_def)
qed simp

lemma crc16_step: "crc16_byte c b = push_bit 8 c XOR crc16tab ! unat ((drop_bit 8 c XOR ucast b) AND 0x00FF)"
proof -
  define x where "x = c XOR push_bit 8 (ucast b)"
  have ff: "(0x00FF :: 16 word) = mask 8" by (simp add: mask_eq_exp_minus_1)
  define i where "i = unat ((drop_bit 8 c XOR ucast b) AND (0x00FF :: 16 word))"
  have i: "i < 256"
  proof -
    have "(drop_bit 8 c XOR ucast b) AND (0x00FF :: 16 word) = take_bit 8 (drop_bit 8 c XOR ucast b)"
      unfolding ff by (simp add: take_bit_eq_mask)
    then show ?thesis using unat_take_bit_less [of 8 "drop_bit 8 c XOR ucast b :: 16 word"] by (simp add: i_def)
  qed
  have hi: "push_bit 8 (drop_bit 8 x) = push_bit 8 (of_nat i)"
  proof -
    have "(of_nat i :: 16 word) = (drop_bit 8 c XOR ucast b) AND mask 8" by (simp add: i_def ff)
    then show ?thesis
      by (simp, intro bit_word_eqI)
        (auto simp: x_def bit_push_bit_iff bit_drop_bit_eq bit_xor_iff bit_and_iff bit_mask_iff bit_ucast_iff dest: bit_imp_le_length)
  qed
  have lo: "push_bit 8 (take_bit 8 x) = push_bit 8 c"
    by (rule bit_word_eqI) (auto simp: x_def bit_push_bit_iff bit_take_bit_iff bit_xor_iff)
  have "crc16_byte c b = (crc16_bit ^^ 8) (take_bit 8 x XOR push_bit 8 (drop_bit 8 x))"
    unfolding crc16_byte_def x_def [symmetric] using word_split_8 [of x] by simp
  also have "\<dots> = (crc16_bit ^^ 8) (take_bit 8 x) XOR (crc16_bit ^^ 8) (push_bit 8 (drop_bit 8 x))"
    by (rule funpow_xor [OF crc16_bit_xor])
  also have "(crc16_bit ^^ 8) (take_bit 8 x) = push_bit 8 c" using crc16_low [of 8 x] lo by simp
  also have "(crc16_bit ^^ 8) (push_bit 8 (drop_bit 8 x)) = crc16tab ! i"
    unfolding hi by (rule crc16_tab_nth [OF i, symmetric])
  finally show ?thesis by (simp add: i_def)
qed

lemma crc64_loop_spec:
  "i + n \<le> length s \<Longrightarrow> crc64_loop s i n c = Some (foldl crc64_byte c (take n (drop i s)))"
proof (induction n arbitrary: i c)
  case (Suc n)
  then have "take (Suc n) (drop i s) = s ! i # take n (drop (i + 1) s)"
    by (metis Cons_nth_drop_Suc Suc_eq_plus1 add_Suc_right le_add1 less_le_trans lessI take_Suc_Cons add_lessD1)
  with Suc show ?case by (simp add: mem_byte_def crc64_step)
qed simp

lemma crc16_loop_spec:
  "i + n \<le> length s \<Longrightarrow> crc16_loop s i n c = Some (foldl crc16_byte c (take n (drop i s)))"
proof (induction n arbitrary: i c)
  case (Suc n)
  then have "take (Suc n) (drop i s) = s ! i # take n (drop (i + 1) s)"
    by (metis Cons_nth_drop_Suc Suc_eq_plus1 add_Suc_right le_add1 less_le_trans lessI take_Suc_Cons add_lessD1)
  with Suc show ?case by (simp add: mem_byte_def crc16_step)
qed simp

section \<open>Hash tags\<close>

text \<open>
  The part of a key that decides its slot: what stands between the first opening brace and the
  first closing brace after it, if there is such a pair and something in between.
\<close>

definition hash_tag :: "bytes \<Rightarrow> bytes" where
  "hash_tag key =
     (let r = tl (dropWhile (\<lambda>c. c \<noteq> 123) key); t = takeWhile (\<lambda>c. c \<noteq> 125) r
      in if 125 \<in> set r \<and> t \<noteq> [] then t else key)"

lemma find_byte_spec:
  "s \<le> length key \<Longrightarrow> find_byte key c s (length key) = Some (s + length (takeWhile (\<lambda>b. b \<noteq> c) (drop s key)))"
proof (induction key c s "length key" rule: find_byte.induct)
  case (1 key c s)
  show ?case
  proof (cases "s < length key")
    case True
    then have "drop s key = key ! s # drop (s + 1) key" by (metis Cons_nth_drop_Suc Suc_eq_plus1)
    with 1 True show ?thesis by (subst find_byte.simps) (simp add: mem_byte_def)
  next
    case False
    with 1 show ?thesis by (subst find_byte.simps) simp
  qed
qed

lemma keyHashSlot_tag:
  "keyHashSlot key (length key) = Some (foldl crc16_byte 0 (hash_tag key) AND 0x3FFF)"
proof -
  define s where "s = length (takeWhile (\<lambda>b. b \<noteq> 123) key)"
  have fs: "find_byte key 123 0 (length key) = Some s" using find_byte_spec [of 0 key 123] by (simp add: s_def)
  have whole: "crc16 key (length key) = Some (foldl crc16_byte 0 key)"
    using crc16_loop_spec [of 0 "length key" key 0] by (simp add: crc16_def)
  have dw: "dropWhile (\<lambda>c. c \<noteq> 123) key = drop s key" by (simp add: s_def dropWhile_eq_drop)
  have le: "s \<le> length key" by (simp add: s_def length_takeWhile_le)
  show ?thesis
  proof (cases "s = length key")
    case True
    then have "hash_tag key = key" by (simp add: hash_tag_def dw)
    with True fs whole show ?thesis by (simp add: keyHashSlot_def)
  next
    case False
    define r where "r = drop (s + 1) key"
    define t where "t = takeWhile (\<lambda>c. c \<noteq> 125) r"
    have tl: "tl (dropWhile (\<lambda>c. c \<noteq> 123) key) = r" by (simp add: dw r_def tl_drop drop_Suc)
    have fe: "find_byte key 125 (s + 1) (length key) = Some (s + 1 + length t)"
      using find_byte_spec [of "s + 1" key 125] False le by (simp add: t_def r_def)
    have all: "s + 1 + length t = length key \<longleftrightarrow> 125 \<notin> set r"
    proof -
      have "length r = length key - (s + 1)" by (simp add: r_def)
      then have "s + 1 + length t = length key \<longleftrightarrow> length t = length r" using False le by linarith
      also have "\<dots> \<longleftrightarrow> t = r"
        unfolding t_def by (metis takeWhile_eq_take take_all order_refl)
      also have "\<dots> \<longleftrightarrow> 125 \<notin> set r" by (auto simp: t_def takeWhile_eq_all_conv)
      finally show ?thesis .
    qed
    have ht: "hash_tag key = (if 125 \<in> set r \<and> t \<noteq> [] then t else key)"
      by (simp add: hash_tag_def tl t_def Let_def)
    have tr: "take (length t) r = t" unfolding t_def by (metis takeWhile_eq_take)
    have "length t \<le> length r" by (simp add: t_def length_takeWhile_le)
    then have inner: "crc16 (drop (s + 1) key) (s + 1 + length t - s - 1) = Some (foldl crc16_byte 0 t)"
      using crc16_loop_spec [of 0 "length t" r 0] tr by (simp add: crc16_def r_def)
    show ?thesis
    proof (cases "125 \<in> set r \<and> t \<noteq> []")
      case True
      with all ht inner fs fe False show ?thesis by (simp add: keyHashSlot_def)
    next
      case no: False
      with all ht whole fs fe False show ?thesis by (auto simp: keyHashSlot_def)
    qed
  qed
qed

text \<open>
  The check value of the documentation belongs to the start value zero, though the documentation
  gives all ones as the value that is xored in.
\<close>

lemma crc64_check_string:
  "crc64 0 (bstr ''123456789'') (length (bstr ''123456789'')) = Some 0xe9c6d914c4b8d9ca"
proof -
  have "crc64 0 (bstr ''123456789'') (length (bstr ''123456789'')) = Some (foldl crc64_byte 0 (bstr ''123456789''))"
    unfolding crc64_def by (subst crc64_loop_spec) simp_all
  also have "foldl crc64_byte 0 (bstr ''123456789'') = 0xe9c6d914c4b8d9ca"
    by (simp add: crc64_byte_def funpow_8 crc64_bit_def)
  finally show ?thesis .
qed

section \<open>Properties\<close>

text \<open>
  C29: The table-driven 64-bit checksum of any buffer is its division by the generator polynomial, bit by bit, least
  significant bit first, started from the given value; only the buffer is read.
\<close>

theorem crc64_is_polynomial_division:
  assumes "n \<le> length s"
  shows "crc64 c s n = Some (foldl (\<lambda>c b. (crc64_bit ^^ 8) (c XOR ucast b)) c (take n s))"
  using crc64_loop_spec [of 0 n s c] assms by (simp add: crc64_def crc64_byte_def [abs_def])

theorem crc64_is_polynomial_division_witness:
  "crc64 0 (bstr ''123456789'') 9 = Some (foldl (\<lambda>c b. (crc64_bit ^^ 8) (c XOR ucast b)) 0 (bstr ''123456789''))"
  using crc64_is_polynomial_division [of 9 "bstr ''123456789''" 0] by simp

text \<open>
  C30: The slot of a cluster key depends on its hash tag only (what stands between the first opening brace and the
  first closing brace after it, or the whole key), is the remainder of the tag's polynomial division by the
  CCITT polynomial modulo 16384, and is always a valid slot number; no byte outside the key is read.
\<close>

theorem keyHashSlot_by_tag:
  "\<exists>slot. keyHashSlot key (length key) = Some slot \<and> unat slot < 16384 \<and>
     slot = foldl (\<lambda>c b. (crc16_bit ^^ 8) (c XOR push_bit 8 (ucast b))) 0 (hash_tag key) AND 0x3FFF"
proof -
  have "unat (w AND 0x3FFF) < 16384" for w :: "16 word"
  proof -
    have "(0x3FFF :: 16 word) = mask 14" by (simp add: mask_eq_exp_minus_1)
    then have "w AND 0x3FFF = take_bit 14 w" by (simp add: take_bit_eq_mask)
    then show ?thesis using unat_take_bit_less [of 14 w] by simp
  qed
  with keyHashSlot_tag [of key] show ?thesis by (simp add: crc16_byte_def [abs_def])
qed

end
