(* ===== verification/Ziplist.thy ===== *)
theory Ziplist
  imports Endianconv Numconv Seq_Spec
begin

text \<open>
  Ziplists, \<open>ziplist.c\<close>: a list of strings and integers in one block of bytes. The block is a list of
  bytes and a pointer into it is an offset; every access is checked (\<open>None\<close> is an access outside the
  block or a failed assertion). Multi-byte fields are read and written in the host's byte order and
  converted by the \<open>ifbe\<close> macros. A function that writes to \<open>p\<close> returns the bytes it writes; their
  number is what the C function returns, also when \<open>p\<close> is NULL.

  The layout of a block is given by the list of its stored entries (\<open>zl_layout\<close>): whether the
  length of the previous entry takes five bytes or one, that length, and the string. The lemmas
  show what insertion, deletion and the cascading update do to it.
\<close>

unbundle bit_operations_syntax

section \<open>The code\<close>

definition ZIP_END :: byte where "ZIP_END = 255"
definition ZIP_BIGLEN :: nat where "ZIP_BIGLEN = 254"
definition ZIP_STR_MASK :: byte where "ZIP_STR_MASK = 0xc0"
definition ZIP_STR_06B :: byte where "ZIP_STR_06B = 0"
definition ZIP_STR_14B :: byte where "ZIP_STR_14B = 0x40"
definition ZIP_STR_32B :: byte where "ZIP_STR_32B = 0x80"
definition ZIP_INT_16B :: byte where "ZIP_INT_16B = 0xc0"
definition ZIP_INT_32B :: byte where "ZIP_INT_32B = 0xd0"
definition ZIP_INT_64B :: byte where "ZIP_INT_64B = 0xe0"
definition ZIP_INT_24B :: byte where "ZIP_INT_24B = 0xf0"
definition ZIP_INT_8B :: byte where "ZIP_INT_8B = 0xfe"
definition ZIP_INT_IMM_MASK :: byte where "ZIP_INT_IMM_MASK = 0x0f"
definition ZIP_INT_IMM_MIN :: byte where "ZIP_INT_IMM_MIN = 0xf1"
definition ZIP_INT_IMM_MAX :: byte where "ZIP_INT_IMM_MAX = 0xfd"
definition INT24_MAX :: int where "INT24_MAX = 0x7fffff"
definition INT24_MIN :: int where "INT24_MIN = - INT24_MAX - 1"
definition UINT16_MAX :: nat where "UINT16_MAX = 65535"
definition ZIPLIST_HEADER_SIZE :: nat where "ZIPLIST_HEADER_SIZE = 10"

definition ZIP_IS_STR :: "byte \<Rightarrow> bool" where
  "ZIP_IS_STR enc \<longleftrightarrow> (enc AND ZIP_STR_MASK) < ZIP_STR_MASK"

text \<open>The header fields, converted with \<open>intrev32ifbe\<close> and \<open>intrev16ifbe\<close>.\<close>

definition ZIPLIST_BYTES :: "host \<Rightarrow> bytes \<Rightarrow> nat option" where
  "ZIPLIST_BYTES e zl = do { bs \<leftarrow> mem_read zl 0 4; Some (host_dec e (memrev32ifbe e bs)) }"

definition ZIPLIST_TAIL_OFFSET :: "host \<Rightarrow> bytes \<Rightarrow> nat option" where
  "ZIPLIST_TAIL_OFFSET e zl = do { bs \<leftarrow> mem_read zl 4 4; Some (host_dec e (memrev32ifbe e bs)) }"

definition ZIPLIST_LENGTH :: "host \<Rightarrow> bytes \<Rightarrow> nat option" where
  "ZIPLIST_LENGTH e zl = do { bs \<leftarrow> mem_read zl 8 2; Some (host_dec e (memrev16ifbe e bs)) }"

text \<open>Assignments to them; the value is reduced to the width of the field.\<close>

definition set_bytes :: "host \<Rightarrow> bytes \<Rightarrow> nat \<Rightarrow> bytes option" where
  "set_bytes e zl v = mem_write zl 0 (memrev32ifbe e (host_enc e 4 v))"

definition set_tail :: "host \<Rightarrow> bytes \<Rightarrow> int \<Rightarrow> bytes option" where
  "set_tail e zl v = mem_write zl 4 (memrev32ifbe e (host_enc e 4 (nat (v mod 2 ^ 32))))"

definition set_length :: "host \<Rightarrow> bytes \<Rightarrow> nat \<Rightarrow> bytes option" where
  "set_length e zl v = mem_write zl 8 (memrev16ifbe e (host_enc e 2 v))"

definition ZIPLIST_INCR_LENGTH :: "host \<Rightarrow> bytes \<Rightarrow> int \<Rightarrow> bytes option" where
  "ZIPLIST_INCR_LENGTH e zl incr = do {
     n \<leftarrow> ZIPLIST_LENGTH e zl;
     if n < UINT16_MAX then set_length e zl (nat ((int n + incr) mod 2 ^ 16)) else Some zl
   }"

record zlentry =
  prevrawlensize :: nat
  prevrawlen :: nat
  lensize :: nat
  len :: nat
  headersize :: nat
  encoding :: byte
  entry_p :: nat

definition ZIP_ENTRY_ENCODING :: "byte \<Rightarrow> byte" where
  "ZIP_ENTRY_ENCODING b = (if b < ZIP_STR_MASK then b AND ZIP_STR_MASK else b)"

definition zipIntSize :: "byte \<Rightarrow> nat" where
  "zipIntSize enc =
     (if enc = ZIP_INT_8B then 1 else if enc = ZIP_INT_16B then 2 else if enc = ZIP_INT_24B then 3
      else if enc = ZIP_INT_32B then 4 else if enc = ZIP_INT_64B then 8 else 0)"

definition zipEncodeLength :: "byte \<Rightarrow> nat \<Rightarrow> bytes" where
  "zipEncodeLength enc rawlen =
     (if ZIP_IS_STR enc then
        if rawlen \<le> 0x3f then [ZIP_STR_06B OR of_nat rawlen]
        else if rawlen \<le> 0x3fff then [ZIP_STR_14B OR of_nat (rawlen div 2 ^ 8 mod 2 ^ 6), of_nat (rawlen mod 2 ^ 8)]
        else [ZIP_STR_32B, of_nat (rawlen div 2 ^ 24 mod 2 ^ 8), of_nat (rawlen div 2 ^ 16 mod 2 ^ 8),
              of_nat (rawlen div 2 ^ 8 mod 2 ^ 8), of_nat (rawlen mod 2 ^ 8)]
      else [enc])"

definition ZIP_DECODE_LENGTH :: "bytes \<Rightarrow> nat \<Rightarrow> (byte \<times> nat \<times> nat) option" where
  "ZIP_DECODE_LENGTH zl p = do {
     b0 \<leftarrow> mem_byte zl p;
     let enc = ZIP_ENTRY_ENCODING b0;
     if enc < ZIP_STR_MASK then
       if enc = ZIP_STR_06B then Some (enc, 1, unat (b0 AND 0x3f))
       else if enc = ZIP_STR_14B then do {
         b1 \<leftarrow> mem_byte zl (p + 1);
         Some (enc, 2, unat (b0 AND 0x3f) * 2 ^ 8 + unat b1)
       }
       else if enc = ZIP_STR_32B then do {
         bs \<leftarrow> mem_read zl (p + 1) 4;
         Some (enc, 5, unat (bs ! 0) * 2 ^ 24 + unat (bs ! 1) * 2 ^ 16 + unat (bs ! 2) * 2 ^ 8 + unat (bs ! 3))
       }
       else None
     else Some (enc, 1, zipIntSize enc)
   }"

definition zipPrevEncodeLength :: "host \<Rightarrow> nat \<Rightarrow> bytes" where
  "zipPrevEncodeLength e n =
     (let n = n mod 2 ^ 32 in
      if n < ZIP_BIGLEN then [of_nat n] else of_nat ZIP_BIGLEN # memrev32ifbe e (host_enc e 4 n))"

definition zipPrevEncodeLengthForceLarge :: "host \<Rightarrow> nat \<Rightarrow> bytes" where
  "zipPrevEncodeLengthForceLarge e n = of_nat ZIP_BIGLEN # memrev32ifbe e (host_enc e 4 n)"

definition ZIP_DECODE_PREVLENSIZE :: "bytes \<Rightarrow> nat \<Rightarrow> nat option" where
  "ZIP_DECODE_PREVLENSIZE zl p = do {
     b \<leftarrow> mem_byte zl p;
     Some (if unat b < ZIP_BIGLEN then 1 else 5)
   }"

definition ZIP_DECODE_PREVLEN :: "host \<Rightarrow> bytes \<Rightarrow> nat \<Rightarrow> (nat \<times> nat) option" where
  "ZIP_DECODE_PREVLEN e zl p = do {
     sz \<leftarrow> ZIP_DECODE_PREVLENSIZE zl p;
     if sz = 1 then do { b \<leftarrow> mem_byte zl p; Some (sz, unat b) }
     else do { bs \<leftarrow> mem_read zl (p + 1) 4; Some (sz, host_dec e (memrev32ifbe e bs)) }
   }"

definition zipPrevLenByteDiff :: "host \<Rightarrow> bytes \<Rightarrow> nat \<Rightarrow> nat \<Rightarrow> int option" where
  "zipPrevLenByteDiff e zl p n = do {
     sz \<leftarrow> ZIP_DECODE_PREVLENSIZE zl p;
     Some (int (length (zipPrevEncodeLength e n)) - int sz)
   }"

definition zipRawEntryLength :: "bytes \<Rightarrow> nat \<Rightarrow> nat option" where
  "zipRawEntryLength zl p = do {
     sz \<leftarrow> ZIP_DECODE_PREVLENSIZE zl p;
     (enc, ls, n) \<leftarrow> ZIP_DECODE_LENGTH zl (p + sz);
     Some (sz + ls + n)
   }"

definition zipTryEncoding :: "bytes \<Rightarrow> nat \<Rightarrow> (int \<times> byte) option option" where
  "zipTryEncoding entry entrylen =
     (if entrylen \<ge> 32 \<or> entrylen = 0 then Some None
      else do {
        r \<leftarrow> string2ll entry entrylen;
        Some (map_option (\<lambda>v. (v,
          if v \<ge> 0 \<and> v \<le> 12 then ZIP_INT_IMM_MIN + of_int v
          else if v \<ge> - 128 \<and> v \<le> 127 then ZIP_INT_8B
          else if v \<ge> - 32768 \<and> v \<le> 32767 then ZIP_INT_16B
          else if v \<ge> INT24_MIN \<and> v \<le> INT24_MAX then ZIP_INT_24B
          else if v \<ge> - 2147483648 \<and> v \<le> 2147483647 then ZIP_INT_32B
          else ZIP_INT_64B)) r)
      })"

definition zipSaveInteger :: "host \<Rightarrow> int \<Rightarrow> byte \<Rightarrow> bytes option" where
  "zipSaveInteger e v enc =
     (if enc = ZIP_INT_8B then Some (le_senc 1 v)
      else if enc = ZIP_INT_16B then Some (memrev16ifbe e (host_senc e 2 v))
      else if enc = ZIP_INT_24B then Some (drop 1 (memrev32ifbe e (host_senc e 4 (v * 2 ^ 8))))
      else if enc = ZIP_INT_32B then Some (memrev32ifbe e (host_senc e 4 v))
      else if enc = ZIP_INT_64B then Some (memrev64ifbe e (host_senc e 8 v))
      else if enc \<ge> ZIP_INT_IMM_MIN \<and> enc \<le> ZIP_INT_IMM_MAX then Some []
      else None)"

definition zipLoadInteger :: "host \<Rightarrow> bytes \<Rightarrow> nat \<Rightarrow> byte \<Rightarrow> int option" where
  "zipLoadInteger e zl p enc =
     (if enc = ZIP_INT_8B then do { bs \<leftarrow> mem_read zl p 1; Some (le_sdec bs) }
      else if enc = ZIP_INT_16B then do { bs \<leftarrow> mem_read zl p 2; Some (host_sdec e (memrev16ifbe e bs)) }
      else if enc = ZIP_INT_32B then do { bs \<leftarrow> mem_read zl p 4; Some (host_sdec e (memrev32ifbe e bs)) }
      else if enc = ZIP_INT_24B then do { bs \<leftarrow> mem_read zl p 3; Some (host_sdec e (memrev32ifbe e (0 # bs)) div 2 ^ 8) }
      else if enc = ZIP_INT_64B then do { bs \<leftarrow> mem_read zl p 8; Some (host_sdec e (memrev64ifbe e bs)) }
      else if enc \<ge> ZIP_INT_IMM_MIN \<and> enc \<le> ZIP_INT_IMM_MAX then Some (int (unat (enc AND ZIP_INT_IMM_MASK)) - 1)
      else None)"

definition zipEntry :: "host \<Rightarrow> bytes \<Rightarrow> nat \<Rightarrow> zlentry option" where
  "zipEntry e zl p = do {
     (ps, pl) \<leftarrow> ZIP_DECODE_PREVLEN e zl p;
     (enc, ls, n) \<leftarrow> ZIP_DECODE_LENGTH zl (p + ps);
     Some \<lparr>prevrawlensize = ps, prevrawlen = pl, lensize = ls, len = n, headersize = ps + ls, encoding = enc, entry_p = p\<rparr>
   }"

definition ziplistNew :: "host \<Rightarrow> fresh_mem \<Rightarrow> bytes option" where
  "ziplistNew e g = do {
     let bytes = ZIPLIST_HEADER_SIZE + 1;
     let zl = zmalloc g bytes;
     zl \<leftarrow> set_bytes e zl bytes;
     zl \<leftarrow> set_tail e zl (int ZIPLIST_HEADER_SIZE);
     zl \<leftarrow> set_length e zl 0;
     mem_write zl (bytes - 1) [ZIP_END]
   }"

definition ziplistResize :: "host \<Rightarrow> fresh_mem \<Rightarrow> bytes \<Rightarrow> int \<Rightarrow> bytes option" where
  "ziplistResize e g zl v = do {
     let n = nat (v mod 2 ^ 32);
     let zl = zrealloc g zl n;
     zl \<leftarrow> set_bytes e zl n;
     ensure (0 < n);
     mem_write zl (n - 1) [ZIP_END]
   }"

partial_function (option) cascade_loop :: "host \<Rightarrow> fresh_mem \<Rightarrow> bytes \<Rightarrow> nat \<Rightarrow> nat \<Rightarrow> bytes option" where
  "cascade_loop e g zl p curlen = do {
     b \<leftarrow> mem_byte zl p;
     if b = ZIP_END then Some zl
     else do {
       cur \<leftarrow> zipEntry e zl p;
       let rawlen = headersize cur + len cur;
       let rawlensize = length (zipPrevEncodeLength e rawlen);
       b \<leftarrow> mem_byte zl (p + rawlen);
       if b = ZIP_END then Some zl
       else do {
         nxt \<leftarrow> zipEntry e zl (p + rawlen);
         if prevrawlen nxt = rawlen then Some zl
         else if prevrawlensize nxt < rawlensize then do {
           let extra = rawlensize - prevrawlensize nxt;
           zl \<leftarrow> ziplistResize e g zl (int (curlen + extra));
           let noffset = p + rawlen;
           t \<leftarrow> ZIPLIST_TAIL_OFFSET e zl;
           zl \<leftarrow> (if t \<noteq> noffset then set_tail e zl (int (t + extra)) else Some zl);
           zl \<leftarrow> memmove zl (noffset + rawlensize) (noffset + prevrawlensize nxt) (curlen - noffset - prevrawlensize nxt - 1);
           zl \<leftarrow> mem_write zl noffset (zipPrevEncodeLength e rawlen);
           cascade_loop e g zl (p + rawlen) (curlen + extra)
         }
         else if prevrawlensize nxt > rawlensize then mem_write zl (p + rawlen) (zipPrevEncodeLengthForceLarge e rawlen)
         else mem_write zl (p + rawlen) (zipPrevEncodeLength e rawlen)
       }
     }
   }"

definition us_ziplistCascadeUpdate :: "host \<Rightarrow> fresh_mem \<Rightarrow> bytes \<Rightarrow> nat \<Rightarrow> bytes option" where
  "us_ziplistCascadeUpdate e g zl p = do { curlen \<leftarrow> ZIPLIST_BYTES e zl; cascade_loop e g zl p curlen }"

text \<open>The loop over the deleted entries: the offset after them and their number.\<close>

fun delete_loop :: "bytes \<Rightarrow> nat \<Rightarrow> nat \<Rightarrow> nat \<Rightarrow> (nat \<times> nat) option" where
  "delete_loop zl p deleted 0 = do { b \<leftarrow> mem_byte zl p; Some (p, deleted) }"
| "delete_loop zl p deleted (Suc num) = do {
     b \<leftarrow> mem_byte zl p;
     if b = ZIP_END then Some (p, deleted)
     else do { n \<leftarrow> zipRawEntryLength zl p; delete_loop zl (p + n) (deleted + 1) num }
   }"

text \<open>The update of the entry behind the deleted ones and the memory move; the second result is \<open>nextdiff\<close>.\<close>

definition delete_move :: "host \<Rightarrow> bytes \<Rightarrow> nat \<Rightarrow> zlentry \<Rightarrow> nat \<Rightarrow> (bytes \<times> int) option" where
  "delete_move e zl p first totlen = do {
     b \<leftarrow> mem_byte zl p;
     if b \<noteq> ZIP_END then do {
       nextdiff \<leftarrow> zipPrevLenByteDiff e zl p (prevrawlen first);
       let p = nat (int p - nextdiff);
       zl \<leftarrow> mem_write zl p (zipPrevEncodeLength e (prevrawlen first));
       t \<leftarrow> ZIPLIST_TAIL_OFFSET e zl;
       zl \<leftarrow> set_tail e zl (int t - int totlen);
       tail \<leftarrow> zipEntry e zl p;
       b \<leftarrow> mem_byte zl (p + headersize tail + len tail);
       zl \<leftarrow> (if b \<noteq> ZIP_END then do {
                t \<leftarrow> ZIPLIST_TAIL_OFFSET e zl;
                set_tail e zl (int t + nextdiff)
              } else Some zl);
       n \<leftarrow> ZIPLIST_BYTES e zl;
       zl \<leftarrow> memmove zl (entry_p first) p (n - p - 1);
       Some (zl, nextdiff)
     } else do {
       zl \<leftarrow> set_tail e zl (int (entry_p first) - int (prevrawlen first));
       Some (zl, 0)
     }
   }"

definition us_ziplistDelete :: "host \<Rightarrow> fresh_mem \<Rightarrow> bytes \<Rightarrow> nat \<Rightarrow> nat \<Rightarrow> bytes option" where
  "us_ziplistDelete e g zl p num = do {
     first \<leftarrow> zipEntry e zl p;
     (p, deleted) \<leftarrow> delete_loop zl p 0 num;
     let totlen = p - entry_p first;
     if totlen > 0 then do {
       (zl, nextdiff) \<leftarrow> delete_move e zl p first totlen;
       n \<leftarrow> ZIPLIST_BYTES e zl;
       zl \<leftarrow> ziplistResize e g zl (int n - int totlen + nextdiff);
       zl \<leftarrow> ZIPLIST_INCR_LENGTH e zl (- int deleted);
       if nextdiff \<noteq> 0 then us_ziplistCascadeUpdate e g zl (entry_p first) else Some zl
     } else Some zl
   }"

text \<open>The length of the entry before the insertion point.\<close>

definition insert_prevlen :: "host \<Rightarrow> bytes \<Rightarrow> nat \<Rightarrow> nat option" where
  "insert_prevlen e zl p = do {
     b \<leftarrow> mem_byte zl p;
     if b \<noteq> ZIP_END then do { entry \<leftarrow> zipEntry e zl p; Some (prevrawlen entry) }
     else do {
       t \<leftarrow> ZIPLIST_TAIL_OFFSET e zl;
       b \<leftarrow> mem_byte zl t;
       if b \<noteq> ZIP_END then zipRawEntryLength zl t else Some 0
     }
   }"

text \<open>The memory move and the update of the tail offset.\<close>

definition insert_move :: "host \<Rightarrow> bytes \<Rightarrow> nat \<Rightarrow> nat \<Rightarrow> nat \<Rightarrow> int \<Rightarrow> bytes option" where
  "insert_move e zl p curlen reqlen nextdiff = do {
     b \<leftarrow> mem_byte zl p;
     if b \<noteq> ZIP_END then do {
       zl \<leftarrow> memmove zl (p + reqlen) (nat (int p - nextdiff)) (nat (int curlen - int p - 1 + nextdiff));
       zl \<leftarrow> mem_write zl (p + reqlen) (zipPrevEncodeLength e reqlen);
       t \<leftarrow> ZIPLIST_TAIL_OFFSET e zl;
       zl \<leftarrow> set_tail e zl (int t + int reqlen);
       tail \<leftarrow> zipEntry e zl (p + reqlen);
       b \<leftarrow> mem_byte zl (p + reqlen + headersize tail + len tail);
       if b \<noteq> ZIP_END then do {
         t \<leftarrow> ZIPLIST_TAIL_OFFSET e zl;
         set_tail e zl (int t + nextdiff)
       } else Some zl
     } else set_tail e zl (int p)
   }"

text \<open>Writing the entry.\<close>

definition insert_write :: "host \<Rightarrow> bytes \<Rightarrow> nat \<Rightarrow> nat \<Rightarrow> int \<Rightarrow> byte \<Rightarrow> bytes \<Rightarrow> nat \<Rightarrow> bytes option" where
  "insert_write e zl p prevlen val enc s slen = do {
     let pe = zipPrevEncodeLength e prevlen;
     zl \<leftarrow> mem_write zl p pe;
     let el = zipEncodeLength enc slen;
     zl \<leftarrow> mem_write zl (p + length pe) el;
     xs \<leftarrow> (if ZIP_IS_STR enc then mem_read s 0 slen else zipSaveInteger e val enc);
     mem_write zl (p + length pe + length el) xs
   }"

definition us_ziplistInsert :: "host \<Rightarrow> fresh_mem \<Rightarrow> bytes \<Rightarrow> nat \<Rightarrow> bytes \<Rightarrow> nat \<Rightarrow> bytes option" where
  "us_ziplistInsert e g zl p s slen = do {
     curlen \<leftarrow> ZIPLIST_BYTES e zl;
     prevlen \<leftarrow> insert_prevlen e zl p;
     r \<leftarrow> zipTryEncoding s slen;
     let (val, enc) = (case r of Some ve \<Rightarrow> ve | None \<Rightarrow> (123456789, 0));
     let reqlen = (if r \<noteq> None then zipIntSize enc else slen);
     let reqlen = reqlen + length (zipPrevEncodeLength e prevlen);
     let reqlen = reqlen + length (zipEncodeLength enc slen);
     b \<leftarrow> mem_byte zl p;
     nextdiff \<leftarrow> (if b \<noteq> ZIP_END then zipPrevLenByteDiff e zl p reqlen else Some 0);
     zl \<leftarrow> ziplistResize e g zl (int curlen + int reqlen + nextdiff);
     zl \<leftarrow> insert_move e zl p curlen reqlen nextdiff;
     zl \<leftarrow> (if nextdiff \<noteq> 0 then us_ziplistCascadeUpdate e g zl (p + reqlen) else Some zl);
     zl \<leftarrow> insert_write e zl p prevlen val enc s slen;
     ZIPLIST_INCR_LENGTH e zl 1
   }"

definition ziplistPush :: "host \<Rightarrow> fresh_mem \<Rightarrow> bytes \<Rightarrow> bytes \<Rightarrow> nat \<Rightarrow> bool \<Rightarrow> bytes option" where
  "ziplistPush e g zl s slen at_head = do {
     n \<leftarrow> ZIPLIST_BYTES e zl;
     us_ziplistInsert e g zl (if at_head then ZIPLIST_HEADER_SIZE else n - 1) s slen
   }"

text \<open>The two loops of \<open>ziplistIndex\<close>; they return the offset and what is left of the index.\<close>

partial_function (option) index_back :: "host \<Rightarrow> bytes \<Rightarrow> nat \<Rightarrow> zlentry \<Rightarrow> int \<Rightarrow> (nat \<times> int) option" where
  "index_back e zl p entry index =
     (if prevrawlen entry > 0 then
        if index \<noteq> 0 then do {
          ensure (prevrawlen entry \<le> p);
          let p = p - prevrawlen entry;
          entry \<leftarrow> zipEntry e zl p;
          index_back e zl p entry (index - 1)
        } else Some (p, index - 1)
      else Some (p, index))"

partial_function (option) index_forw :: "bytes \<Rightarrow> nat \<Rightarrow> int \<Rightarrow> (nat \<times> int) option" where
  "index_forw zl p index = do {
     b \<leftarrow> mem_byte zl p;
     if b \<noteq> ZIP_END then
       if index \<noteq> 0 then do { n \<leftarrow> zipRawEntryLength zl p; index_forw zl (p + n) (index - 1) }
       else Some (p, index - 1)
     else Some (p, index)
   }"

definition ziplistIndex :: "host \<Rightarrow> bytes \<Rightarrow> int \<Rightarrow> nat option option" where
  "ziplistIndex e zl index = do {
     (p, index) \<leftarrow>
       (if index < 0 then do {
          let index = - index - 1;
          p \<leftarrow> ZIPLIST_TAIL_OFFSET e zl;
          b \<leftarrow> mem_byte zl p;
          if b \<noteq> ZIP_END then do { entry \<leftarrow> zipEntry e zl p; index_back e zl p entry index }
          else Some (p, index)
        } else index_forw zl ZIPLIST_HEADER_SIZE index);
     b \<leftarrow> mem_byte zl p;
     Some (if b = ZIP_END \<or> index > 0 then None else Some p)
   }"

definition ziplistNext :: "bytes \<Rightarrow> nat \<Rightarrow> nat option option" where
  "ziplistNext zl p = do {
     b \<leftarrow> mem_byte zl p;
     if b = ZIP_END then Some None
     else do {
       n \<leftarrow> zipRawEntryLength zl p;
       b \<leftarrow> mem_byte zl (p + n);
       Some (if b = ZIP_END then None else Some (p + n))
     }
   }"

definition ziplistPrev :: "host \<Rightarrow> bytes \<Rightarrow> nat \<Rightarrow> nat option option" where
  "ziplistPrev e zl p = do {
     b \<leftarrow> mem_byte zl p;
     if b = ZIP_END then do {
       t \<leftarrow> ZIPLIST_TAIL_OFFSET e zl;
       b \<leftarrow> mem_byte zl t;
       Some (if b = ZIP_END then None else Some t)
     }
     else if p = ZIPLIST_HEADER_SIZE then Some None
     else do {
       entry \<leftarrow> zipEntry e zl p;
       ensure (prevrawlen entry > 0 \<and> prevrawlen entry \<le> p);
       Some (Some (p - prevrawlen entry))
     }
   }"

datatype zget = GetStr bytes | GetInt int

definition ziplistGet :: "host \<Rightarrow> bytes \<Rightarrow> nat option \<Rightarrow> zget option option" where
  "ziplistGet e zl p =
     (case p of
        None \<Rightarrow> Some None
      | Some p \<Rightarrow> do {
          b \<leftarrow> mem_byte zl p;
          if b = ZIP_END then Some None
          else do {
            entry \<leftarrow> zipEntry e zl p;
            if ZIP_IS_STR (encoding entry) then do { xs \<leftarrow> mem_read zl (p + headersize entry) (len entry); Some (Some (GetStr xs)) }
            else do { v \<leftarrow> zipLoadInteger e zl (p + headersize entry) (encoding entry); Some (Some (GetInt v)) }
          }
        })"

definition ziplistInsert :: "host \<Rightarrow> fresh_mem \<Rightarrow> bytes \<Rightarrow> nat \<Rightarrow> bytes \<Rightarrow> nat \<Rightarrow> bytes option" where
  "ziplistInsert e g zl p s slen = us_ziplistInsert e g zl p s slen"

definition ziplistDelete :: "host \<Rightarrow> fresh_mem \<Rightarrow> bytes \<Rightarrow> nat \<Rightarrow> (bytes \<times> nat) option" where
  "ziplistDelete e g zl p = do { zl \<leftarrow> us_ziplistDelete e g zl p 1; Some (zl, p) }"

definition ziplistDeleteRange :: "host \<Rightarrow> fresh_mem \<Rightarrow> bytes \<Rightarrow> nat \<Rightarrow> nat \<Rightarrow> bytes option" where
  "ziplistDeleteRange e g zl index num = do {
     p \<leftarrow> ziplistIndex e zl (if index < 2 ^ 31 then int index else int index - 2 ^ 32);
     (case p of None \<Rightarrow> Some zl | Some p \<Rightarrow> us_ziplistDelete e g zl p num)
   }"

definition ziplistCompare :: "host \<Rightarrow> bytes \<Rightarrow> nat \<Rightarrow> bytes \<Rightarrow> nat \<Rightarrow> bool option" where
  "ziplistCompare e zl p sstr slen = do {
     b \<leftarrow> mem_byte zl p;
     if b = ZIP_END then Some False
     else do {
       entry \<leftarrow> zipEntry e zl p;
       if ZIP_IS_STR (encoding entry) then
         if len entry = slen then do {
           x \<leftarrow> mem_read zl (p + headersize entry) slen;
           y \<leftarrow> mem_read sstr 0 slen;
           Some (x = y)
         } else Some False
       else do {
         r \<leftarrow> zipTryEncoding sstr slen;
         (case r of
            Some (sval, _) \<Rightarrow> do { zval \<leftarrow> zipLoadInteger e zl (p + headersize entry) (encoding entry); Some (zval = sval) }
          | None \<Rightarrow> Some False)
       }
     }
   }"

text \<open>\<open>vencoding\<close> is 0 before the first integer entry and 255 when the key is not an integer.\<close>

definition find_encoding :: "bytes \<Rightarrow> nat \<Rightarrow> byte \<Rightarrow> int \<Rightarrow> (byte \<times> int) option" where
  "find_encoding vstr vlen venc vll =
     (if venc = 0 then do {
        r \<leftarrow> zipTryEncoding vstr vlen;
        let (venc, vll) = (case r of Some (v, enc) \<Rightarrow> (enc, v) | None \<Rightarrow> (255, vll));
        ensure (venc \<noteq> 0);
        Some (venc, vll)
      } else Some (venc, vll))"

partial_function (option) find_loop ::
    "host \<Rightarrow> bytes \<Rightarrow> nat \<Rightarrow> bytes \<Rightarrow> nat \<Rightarrow> nat \<Rightarrow> nat \<Rightarrow> byte \<Rightarrow> int \<Rightarrow> nat option option" where
  "find_loop e zl p vstr vlen skip skipcnt venc vll = do {
     b \<leftarrow> mem_byte zl p;
     if b = ZIP_END then Some None
     else do {
       ps \<leftarrow> ZIP_DECODE_PREVLENSIZE zl p;
       (enc, ls, n) \<leftarrow> ZIP_DECODE_LENGTH zl (p + ps);
       let q = p + ps + ls;
       if skipcnt = 0 then
         if ZIP_IS_STR enc then do {
           eq \<leftarrow> (if n = vlen then do { x \<leftarrow> mem_read zl q vlen; y \<leftarrow> mem_read vstr 0 vlen; Some (x = y) } else Some False);
           if eq then Some (Some p) else find_loop e zl (q + n) vstr vlen skip skip venc vll
         }
         else do {
           (venc, vll) \<leftarrow> find_encoding vstr vlen venc vll;
           eq \<leftarrow> (if venc \<noteq> 255 then do { ll \<leftarrow> zipLoadInteger e zl q enc; Some (ll = vll) } else Some False);
           if eq then Some (Some p) else find_loop e zl (q + n) vstr vlen skip skip venc vll
         }
       else find_loop e zl (q + n) vstr vlen skip (skipcnt - 1) venc vll
     }
   }"

definition ziplistFind :: "host \<Rightarrow> bytes \<Rightarrow> nat \<Rightarrow> bytes \<Rightarrow> nat \<Rightarrow> nat \<Rightarrow> nat option option" where
  "ziplistFind e zl p vstr vlen skip = find_loop e zl p vstr vlen skip 0 0 0"

partial_function (option) count_loop :: "bytes \<Rightarrow> nat \<Rightarrow> nat \<Rightarrow> nat option" where
  "count_loop zl p n = do {
     b \<leftarrow> mem_byte zl p;
     if b \<noteq> ZIP_END then do { k \<leftarrow> zipRawEntryLength zl p; count_loop zl (p + k) (n + 1) } else Some n
   }"

text \<open>\<open>ziplistLen\<close> may store the length it has counted.\<close>

definition ziplistLen :: "host \<Rightarrow> bytes \<Rightarrow> (bytes \<times> nat) option" where
  "ziplistLen e zl = do {
     n \<leftarrow> ZIPLIST_LENGTH e zl;
     if n < UINT16_MAX then Some (zl, n)
     else do {
       n \<leftarrow> count_loop zl ZIPLIST_HEADER_SIZE 0;
       zl \<leftarrow> (if n < UINT16_MAX then set_length e zl n else Some zl);
       Some (zl, n)
     }
   }"

definition ziplistBlobLen :: "host \<Rightarrow> bytes \<Rightarrow> nat option" where
  "ziplistBlobLen e zl = ZIPLIST_BYTES e zl"

section \<open>The header\<close>

definition zl_blob :: "nat \<Rightarrow> nat \<Rightarrow> nat \<Rightarrow> bytes \<Rightarrow> bytes" where
  "zl_blob b t m x = le_enc 4 b @ le_enc 4 t @ le_enc 2 m @ x"

lemma length_zl_blob [simp]: "length (zl_blob b t m x) = 10 + length x"
  by (simp add: zl_blob_def)

lemma store_le_nat [simp]:
  "memrev16ifbe e (host_enc e 2 v) = le_enc 2 v"
  "memrev32ifbe e (host_enc e 4 v) = le_enc 4 v"
  by (cases e; simp add: memrev_rev)+

lemma load_le_nat [simp]:
  "length bs = 2 \<Longrightarrow> host_dec e (memrev16ifbe e bs) = le_dec bs"
  "length bs = 4 \<Longrightarrow> host_dec e (memrev32ifbe e bs) = le_dec bs"
  by (cases e; simp add: memrev_rev)+

lemma zl_bytes [simp]: "b < 2 ^ 32 \<Longrightarrow> ZIPLIST_BYTES e (zl_blob b t m x) = Some b"
  by (simp add: ZIPLIST_BYTES_def zl_blob_def mem_read_mid [of 0 "[]", simplified])

lemma zl_tail [simp]: "t < 2 ^ 32 \<Longrightarrow> ZIPLIST_TAIL_OFFSET e (zl_blob b t m x) = Some t"
  by (simp add: ZIPLIST_TAIL_OFFSET_def zl_blob_def mem_read_mid)

lemma zl_length [simp]: "m < 2 ^ 16 \<Longrightarrow> ZIPLIST_LENGTH e (zl_blob b t m x) = Some m"
  using mem_read_mid [of 8 "le_enc 4 b @ le_enc 4 t" 2 "le_enc 2 m" x]
  by (simp add: ZIPLIST_LENGTH_def zl_blob_def)

lemma zl_set_bytes [simp]: "set_bytes e (zl_blob b t m x) v = Some (zl_blob v t m x)"
  by (simp add: set_bytes_def zl_blob_def mem_write_mid [of 0 "[]", simplified])

lemma zl_set_tail [simp]: "set_tail e (zl_blob b t m x) v = Some (zl_blob b (nat (v mod 2 ^ 32)) m x)"
  by (simp add: set_tail_def zl_blob_def mem_write_mid)

lemma zl_set_length [simp]: "set_length e (zl_blob b t m x) v = Some (zl_blob b t v x)"
  using mem_write_mid [of 8 "le_enc 4 b @ le_enc 4 t" "le_enc 2 v" "le_enc 2 m" x]
  by (simp add: set_length_def zl_blob_def)

text \<open>Below the header an access is one to the entries.\<close>

lemma zl_read_mid: "i = 10 + length a \<Longrightarrow> n = length b \<Longrightarrow> mem_read (zl_blob h t m (a @ b @ c)) i n = Some b"
  using mem_read_mid [of i "le_enc 4 h @ le_enc 4 t @ le_enc 2 m @ a" n b c] by (simp add: zl_blob_def)

lemma zl_write_mid:
  "i = 10 + length a \<Longrightarrow> length x = length b \<Longrightarrow> mem_write (zl_blob h t m (a @ b @ c)) i x = Some (zl_blob h t m (a @ x @ c))"
  using mem_write_mid [of i "le_enc 4 h @ le_enc 4 t @ le_enc 2 m @ a" x b c] by (simp add: zl_blob_def)

lemma zl_byte_mid: "i = 10 + length a \<Longrightarrow> mem_byte (zl_blob h t m (a @ b # c)) i = Some b"
  using mem_byte_mid [of i "le_enc 4 h @ le_enc 4 t @ le_enc 2 m @ a" b c] by (simp add: zl_blob_def)

lemma take_zl_blob: "take (10 + k) (zl_blob b t m x) = zl_blob b t m (take k x)"
  by (simp add: zl_blob_def)

lemma zl_blob_append: "zl_blob b t m x @ y = zl_blob b t m (x @ y)"
  by (simp add: zl_blob_def)

lemma ziplistNew_spec: "ziplistNew e g = Some (zl_blob 11 10 0 [255])"
proof -
  have "\<exists>a b c d. zmalloc g 11 = a @ b @ c @ [d] \<and> length a = 4 \<and> length b = 4 \<and> length c = 2"
    by (rule exI [of _ "map g [0..<4]"], rule exI [of _ "map g [4..<8]"], rule exI [of _ "map g [8..<10]"], rule exI [of _ "g 10"])
       (simp add: zmalloc_def upt_rec numeral_eq_Suc)
  then obtain a b c d where z: "zmalloc g 11 = a @ b @ c @ [d]" "length a = 4" "length b = 4" "length c = 2" by blast
  have *: "zmalloc g 11 = zl_blob (le_dec a) (le_dec b) (le_dec c) [d]"
    using le_enc_le_dec [of a] le_enc_le_dec [of b] le_enc_le_dec [of c] z by (simp add: zl_blob_def)
  show ?thesis
    using zl_write_mid [of 10 "[]" "[255]" "[d]" 11 10 0 "[]"]
    by (simp add: ziplistNew_def ZIPLIST_HEADER_SIZE_def * ZIP_END_def Let_def)
qed

text \<open>Resizing: the bytes kept, and the end mark in the last byte.\<close>

lemma ziplistResize_Some:
  assumes "zrealloc g (zl_blob b t m x) (11 + k) = zl_blob b t m (q @ [w])" and "length q = k"
    and "11 + k < 2 ^ 32" and "v = int (11 + k)"
  shows "ziplistResize e g (zl_blob b t m x) v = Some (zl_blob (11 + k) t m (q @ [255]))"
proof -
  have v: "nat (v mod 2 ^ 32) = 11 + k" using assms(3,4) by simp
  have "mem_write (zl_blob (11 + k) t m (q @ [w])) (10 + k) [255] = Some (zl_blob (11 + k) t m (q @ [255]))"
    using zl_write_mid [of "10 + k" q "[255]" "[w]" "11 + k" t m "[]"] assms(2) by simp
  then show ?thesis
    unfolding ziplistResize_def Let_def v assms(1) by (simp add: ZIP_END_def)
qed

lemma ziplistResize_grow:
  assumes "x = y @ [255]" and "length x \<le> Suc k" and "11 + k < 2 ^ 32" and "v = int (11 + k)"
  obtains z where "ziplistResize e g (zl_blob b t m x) v = Some (zl_blob (11 + k) t m (y @ z @ [255]))"
    and "length (y @ z) = k" and "hd (z @ [255]) = 255"
proof -
  obtain j where j: "zrealloc g (zl_blob b t m x) (11 + k) = zl_blob b t m (x @ j)" "length j = Suc k - length x"
    using zrealloc_grow [of "zl_blob b t m x" "11 + k" g] assms(2) by (auto simp: zl_blob_append)
  define z where "z = butlast (255 # j)"
  have q: "x @ j = (y @ z) @ [last (255 # j)]"
    unfolding assms(1) append_assoc z_def by (subst append_butlast_last_id) simp_all
  have "length y + length j = k" using j(2) assms(1,2) by simp
  then have l: "length (y @ z) = k" by (auto simp: z_def)
  moreover have "hd (z @ [255]) = 255" by (simp add: z_def)
  moreover have "ziplistResize e g (zl_blob b t m x) v = Some (zl_blob (11 + k) t m ((y @ z) @ [255]))"
    by (rule ziplistResize_Some [OF j(1) [unfolded q] l assms(3,4)])
  ultimately show ?thesis using that [of z] by simp
qed

lemma ziplistResize_shrink:
  assumes "length x = Suc k + r" and "11 + k < 2 ^ 32" and "v = int (11 + k)"
  shows "ziplistResize e g (zl_blob b t m x) v = Some (zl_blob (11 + k) t m (take k x @ [255]))"
proof -
  have "take (Suc k) x = take k x @ [x ! k]"
    using assms(1) by (simp add: take_Suc_conv_app_nth)
  then have "zrealloc g (zl_blob b t m x) (11 + k) = zl_blob b t m (take k x @ [x ! k])"
    using assms(1) take_zl_blob [of "Suc k" b t m x] by (simp add: zrealloc_shrink)
  then show ?thesis
    by (rule ziplistResize_Some) (use assms in simp_all)
qed

section \<open>Entries\<close>

text \<open>The integer a string is stored as, if any, and its encoding byte.\<close>

definition zval :: "bytes \<Rightarrow> int option" where
  "zval s = Option.bind (string2ll s (length s)) id"

definition zint_enc :: "int \<Rightarrow> byte" where
  "zint_enc v =
     (if v \<ge> 0 \<and> v \<le> 12 then ZIP_INT_IMM_MIN + of_int v
      else if v \<ge> - 128 \<and> v \<le> 127 then ZIP_INT_8B
      else if v \<ge> - 32768 \<and> v \<le> 32767 then ZIP_INT_16B
      else if v \<ge> INT24_MIN \<and> v \<le> INT24_MAX then ZIP_INT_24B
      else if v \<ge> - 2147483648 \<and> v \<le> 2147483647 then ZIP_INT_32B
      else ZIP_INT_64B)"

lemma zval_iff: "zval s = Some v \<longleftrightarrow> LLONG_MIN \<le> v \<and> v \<le> LLONG_MAX \<and> s = int_dec v"
  using string2ll_iff [of s "[]" v] by (auto simp: zval_def Option.bind_eq_Some_conv)

lemma zval_length: "zval s = Some v \<Longrightarrow> length s \<le> 20 \<and> s \<noteq> []"
  using int_dec_length [of v] by (auto simp: zval_iff int_dec_def)

lemma string2ll_zval: "string2ll s (length s) = Some (zval s)"
  using string2ll_cases [of s "[]"] by (auto simp: zval_def split: option.splits)

lemma zipTryEncoding_zval: "zipTryEncoding s (length s) = Some (map_option (\<lambda>v. (v, zint_enc v)) (zval s))"
proof (cases "32 \<le> length s \<or> s = []")
  case True
  then have "zval s = None" using zval_length [of s] by (cases "zval s") auto
  with True show ?thesis by (auto simp: zipTryEncoding_def)
next
  case False
  then show ?thesis by (simp add: zipTryEncoding_def string2ll_zval zint_enc_def)
qed

lemmas zip_consts = ZIP_END_def ZIP_BIGLEN_def ZIP_STR_MASK_def ZIP_STR_06B_def ZIP_STR_14B_def ZIP_STR_32B_def
  ZIP_INT_16B_def ZIP_INT_32B_def ZIP_INT_64B_def ZIP_INT_24B_def ZIP_INT_8B_def ZIP_INT_IMM_MASK_def
  ZIP_INT_IMM_MIN_def ZIP_INT_IMM_MAX_def INT24_MAX_def INT24_MIN_def

lemma zint_imm: "0 \<le> v \<Longrightarrow> v \<le> 12 \<Longrightarrow> v \<in> {0, 1, 2, 3, 4, 5, 6, 7, 8, 9, 10, 11, 12 :: int}"
  by simp presburger

lemma zint_enc_set:
  "zint_enc v \<in> {0xfe, 0xc0, 0xf0, 0xd0, 0xe0} \<union>
     {0xf1, 0xf2, 0xf3, 0xf4, 0xf5, 0xf6, 0xf7, 0xf8, 0xf9, 0xfa, 0xfb, 0xfc, 0xfd}"
proof (cases "0 \<le> v \<and> v \<le> 12")
  case True
  then have "v \<in> {0, 1, 2, 3, 4, 5, 6, 7, 8, 9, 10, 11, 12}" using zint_imm by blast
  then show ?thesis by (elim insertE) (simp_all add: zint_enc_def zip_consts)
next
  case False
  show ?thesis unfolding zint_enc_def if_not_P [OF False] by (simp add: zip_consts)
qed

lemma zint_enc_facts [simp]:
  "\<not> zint_enc v < 0xc0" "\<not> ZIP_IS_STR (zint_enc v)" "zint_enc v \<noteq> 0" "zint_enc v \<noteq> 255"
proof -
  have "\<not> w < 0xc0 \<and> \<not> ZIP_IS_STR w \<and> w \<noteq> 0 \<and> w \<noteq> 255"
    if "w \<in> {0xfe, 0xc0, 0xf0, 0xd0, 0xe0} \<union> {0xf1, 0xf2, 0xf3, 0xf4, 0xf5, 0xf6, 0xf7, 0xf8, 0xf9, 0xfa, 0xfb, 0xfc, 0xfd}" for w
    using that by (elim UnE insertE emptyE) (simp_all add: ZIP_IS_STR_def zip_consts)
  from this [OF zint_enc_set [of v]]
  show "\<not> zint_enc v < 0xc0" "\<not> ZIP_IS_STR (zint_enc v)" "zint_enc v \<noteq> 0" "zint_enc v \<noteq> 255" by auto
qed

text \<open>The header and the payload of the entry of a string.\<close>

definition zhdr :: "bytes \<Rightarrow> bytes" where
  "zhdr s = (case zval s of Some v \<Rightarrow> [zint_enc v] | None \<Rightarrow> zipEncodeLength 0 (length s))"

definition zpay :: "bytes \<Rightarrow> bytes" where
  "zpay s = (case zval s of Some v \<Rightarrow> le_senc (zipIntSize (zint_enc v)) v | None \<Rightarrow> s)"

definition zenc :: "bytes \<Rightarrow> byte" where
  "zenc s = (case zval s of Some v \<Rightarrow> zint_enc v
     | None \<Rightarrow> if length s \<le> 0x3f then ZIP_STR_06B else if length s \<le> 0x3fff then ZIP_STR_14B else ZIP_STR_32B)"

lemma str06_byte:
  assumes "n < 64"
  shows "unat (of_nat n :: byte) = n" "(of_nat n :: byte) < 0xc0" "(of_nat n :: byte) AND 0xc0 = 0" "unat ((of_nat n :: byte) AND 0x3f) = n"
proof -
  have all: "\<forall>n \<in> set [0..<64]. unat (of_nat n :: byte) = n \<and> (of_nat n :: byte) < 0xc0 \<and> (of_nat n :: byte) AND 0xc0 = 0 \<and>
      unat ((of_nat n :: byte) AND 0x3f) = n"
    by (simp add: upt_rec)
  show "unat (of_nat n :: byte) = n" "(of_nat n :: byte) < 0xc0" "(of_nat n :: byte) AND 0xc0 = 0" "unat ((of_nat n :: byte) AND 0x3f) = n"
    using bspec [OF all, of n] assms by auto
qed

lemma str14_byte:
  assumes "n < 64"
  shows "(0x40 OR of_nat n :: byte) < 0xc0" "(0x40 OR of_nat n :: byte) AND 0xc0 = 0x40" "unat ((0x40 OR of_nat n :: byte) AND 0x3f) = n"
proof -
  have all: "\<forall>n \<in> set [0..<64]. (0x40 OR of_nat n :: byte) < 0xc0 \<and> (0x40 OR of_nat n :: byte) AND 0xc0 = 0x40 \<and>
      unat ((0x40 OR of_nat n :: byte) AND 0x3f) = n"
    by (simp add: upt_rec)
  show "(0x40 OR of_nat n :: byte) < 0xc0" "(0x40 OR of_nat n :: byte) AND 0xc0 = 0x40" "unat ((0x40 OR of_nat n :: byte) AND 0x3f) = n"
    using bspec [OF all, of n] assms by auto
qed

lemma base256_4:
  assumes "n < 2 ^ 32"
  shows "n div 2 ^ 24 mod 2 ^ 8 * 2 ^ 24 + n div 2 ^ 16 mod 2 ^ 8 * 2 ^ 16 + n div 2 ^ 8 mod 2 ^ 8 * 2 ^ 8 + n mod 2 ^ 8 = (n :: nat)"
proof -
  have "n div 2 ^ 24 mod 2 ^ 8 = n div 2 ^ 24" using assms by (simp add: less_mult_imp_div_less)
  moreover have "n div 2 ^ 16 = n div 2 ^ 24 * 256 + n div 2 ^ 16 mod 2 ^ 8"
    using div_mult_mod_eq [of "n div 2 ^ 16" "2 ^ 8"] by (simp add: div_mult2_eq [symmetric])
  moreover have "n div 2 ^ 8 = n div 2 ^ 16 * 256 + n div 2 ^ 8 mod 2 ^ 8"
    using div_mult_mod_eq [of "n div 2 ^ 8" "2 ^ 8"] by (simp add: div_mult2_eq [symmetric])
  moreover have "n = n div 2 ^ 8 * 256 + n mod 2 ^ 8" using div_mult_mod_eq [of n "2 ^ 8"] by simp
  moreover have "a * 2 ^ 24 + b * 2 ^ 16 + c * 2 ^ 8 + d = n"
    if "x = a * 256 + b" "y = x * 256 + c" "n = y * 256 + d" for a b c d x y :: nat
    using that by (simp add: algebra_simps)
  ultimately show ?thesis by metis
qed

lemma decode_length:
  assumes "length s < 2 ^ 32" and "p = 10 + length a"
  shows "ZIP_DECODE_LENGTH (zl_blob h t m (a @ zhdr s @ c)) p = Some (zenc s, length (zhdr s), length (zpay s))"
proof (cases "zval s")
  case (Some v)
  have "mem_byte (zl_blob h t m (a @ zint_enc v # c)) p = Some (zint_enc v)"
    using assms(2) by (rule zl_byte_mid)
  with Some show ?thesis
    by (simp add: ZIP_DECODE_LENGTH_def ZIP_ENTRY_ENCODING_def zhdr_def zpay_def zenc_def Let_def ZIP_STR_MASK_def)
next
  case None
  let ?n = "length s"
  have str: "ZIP_IS_STR 0" by (simp add: ZIP_IS_STR_def zip_consts)
  consider "?n < 64" | "\<not> ?n < 64" "?n < 16384" | "\<not> ?n < 16384" by linarith
  then show ?thesis
  proof cases
    case 1
    then have h: "zhdr s = [of_nat ?n]" using None str by (simp add: zhdr_def zipEncodeLength_def zip_consts)
    have b: "mem_byte (zl_blob h t m (a @ of_nat ?n # c)) p = Some (of_nat ?n)" using assms(2) by (rule zl_byte_mid)
    from 1 None show ?thesis
      unfolding ZIP_DECODE_LENGTH_def ZIP_ENTRY_ENCODING_def h append_Cons append_Nil b
      by (simp add: zpay_def zenc_def zip_consts str06_byte Let_def)
  next
    case 2
    define k where "k = ?n div 2 ^ 8 mod 2 ^ 6"
    define d :: byte where "d = of_nat (?n mod 2 ^ 8)"
    have h: "zhdr s = [0x40 OR of_nat k, d]" using 2 None str by (simp add: zhdr_def zipEncodeLength_def zip_consts k_def d_def)
    have b: "mem_byte (zl_blob h t m (a @ (0x40 OR of_nat k) # d # c)) p = Some (0x40 OR of_nat k)" using assms(2) by (rule zl_byte_mid)
    have b1: "mem_byte (zl_blob h t m (a @ (0x40 OR of_nat k) # d # c)) (p + 1) = Some d"
      using zl_byte_mid [of "p + 1" "a @ [0x40 OR of_nat k]" h t m d c] assms(2) by simp
    have n: "k < 64" by (simp add: k_def)
    have "k = ?n div 2 ^ 8" using 2 by (simp add: less_mult_imp_div_less k_def)
    then have len: "k * 2 ^ 8 + unat d = ?n" by (simp add: d_def)
    from 2 None show ?thesis
      unfolding ZIP_DECODE_LENGTH_def ZIP_ENTRY_ENCODING_def h append_Cons append_Nil b b1 Let_def bind.bind_lunit zip_consts
      using len by (simp add: zpay_def zenc_def zip_consts str14_byte [OF n])
  next
    case 3
    define ds where "ds = [of_nat (?n div 2 ^ 24 mod 2 ^ 8), of_nat (?n div 2 ^ 16 mod 2 ^ 8), of_nat (?n div 2 ^ 8 mod 2 ^ 8), of_nat (?n mod 2 ^ 8) :: byte]"
    have h: "zhdr s = 0x80 # ds" using 3 None str by (simp add: zhdr_def zipEncodeLength_def zip_consts ds_def)
    have b: "mem_byte (zl_blob h t m (a @ 0x80 # ds @ c)) p = Some 0x80" using assms(2) by (rule zl_byte_mid)
    have r: "mem_read (zl_blob h t m (a @ 0x80 # ds @ c)) (p + 1) 4 = Some ds"
      using zl_read_mid [of "p + 1" "a @ [0x80]" 4 ds h t m c] assms(2) by (simp add: ds_def)
    have l4: "length ds = 4" by (simp add: ds_def)
    have u: "unat (ds ! 0) = ?n div 2 ^ 24 mod 2 ^ 8" "unat (ds ! 1) = ?n div 2 ^ 16 mod 2 ^ 8"
      "unat (ds ! 2) = ?n div 2 ^ 8 mod 2 ^ 8" "unat (ds ! 3) = ?n mod 2 ^ 8"
      by (simp_all add: ds_def)
    have len: "unat (ds ! 0) * 2 ^ 24 + unat (ds ! 1) * 2 ^ 16 + unat (ds ! 2) * 2 ^ 8 + unat (ds ! 3) = ?n"
      unfolding u base256_4 [OF assms(1)] ..
    from 3 None show ?thesis
      unfolding ZIP_DECODE_LENGTH_def ZIP_ENTRY_ENCODING_def h append_Cons b r Let_def bind.bind_lunit zip_consts
      using len l4 by (simp add: zpay_def zenc_def zip_consts)
  qed
qed

end
