(* ===== verification/Ziplist_Layout.thy ===== *)
theory Ziplist_Layout
  imports Ziplist
begin

text \<open>
  The layout of a ziplist and what the cascading update does to it. A stored entry is a triple: whether
  the length of the previous entry takes five bytes, that length, and the string. \<open>zl_of m a es\<close> is the
  block with the length field \<open>m\<close>, the bytes \<open>a\<close> after the header and then the entries \<open>es\<close>; the two
  other header fields are determined by them. \<open>consistent\<close> says that the stored lengths are the lengths of
  the entries before.
\<close>

type_synonym zent = "bool \<times> nat \<times> bytes"

definition zprev :: "bool \<Rightarrow> nat \<Rightarrow> bytes" where
  "zprev l n = (if l then 254 # le_enc 4 n else [of_nat n])"

fun ent :: "zent \<Rightarrow> bytes" where
  "ent (l, n, s) = zprev l n @ zhdr s @ zpay s"

definition zprevsize :: "bool \<Rightarrow> nat" where
  "zprevsize l = (if l then 5 else 1)"

fun rawlen :: "zent \<Rightarrow> nat" where
  "rawlen (l, n, s) = zprevsize l + length (zhdr s) + length (zpay s)"

fun entok :: "zent \<Rightarrow> bool" where
  "entok (l, n, s) \<longleftrightarrow> n < 2 ^ 32 \<and> (\<not> l \<longrightarrow> n < 254) \<and> length s < 2 ^ 32"

lemma length_zprev [simp]: "length (zprev l n) = zprevsize l"
  by (simp add: zprev_def zprevsize_def)

lemma length_ent [simp]: "length (ent x) = rawlen x"
  by (cases x) simp

lemma zhdr_nonempty: "0 < length (zhdr s)"
  by (auto simp: zhdr_def zipEncodeLength_def split: option.split)

lemma rawlen_pos [simp]: "0 < rawlen x"
  by (cases x) (simp add: zprevsize_def)

lemma zipPrevEncodeLength_zprev: "n < 2 ^ 32 \<Longrightarrow> zipPrevEncodeLength e n = zprev (254 \<le> n) n"
  by (auto simp: zipPrevEncodeLength_def zprev_def ZIP_BIGLEN_def Let_def)

lemma zipPrevEncodeLengthForceLarge_zprev: "zipPrevEncodeLengthForceLarge e n = zprev True n"
  by (simp add: zipPrevEncodeLengthForceLarge_def zprev_def ZIP_BIGLEN_def)

lemma zl_set_tail_nat: "v = int k \<Longrightarrow> k < 2 ^ 32 \<Longrightarrow> set_tail e (zl_blob b t m x) v = Some (zl_blob b k m x)"
  by simp

section \<open>Reading an entry\<close>

lemma zprev_byte:
  assumes "p = 10 + length a" and "\<not> l \<longrightarrow> n < 254"
  shows "\<exists>b. mem_byte (zl_blob h t m (a @ zprev l n @ c)) p = Some b \<and> b \<noteq> 255 \<and> (if l then b = 254 else unat b = n)"
proof (cases l)
  case True
  then show ?thesis using zl_byte_mid [OF assms(1), of h t m 254 "le_enc 4 n @ c"] by (simp add: zprev_def)
next
  case False
  moreover have "(of_nat n :: byte) \<noteq> 255"
  proof
    assume "(of_nat n :: byte) = 255"
    then have "unat (of_nat n :: byte) = 255" by simp
    with assms(2) False show False by simp
  qed
  ultimately show ?thesis using zl_byte_mid [OF assms(1), of h t m "of_nat n" c] assms(2) by (simp add: zprev_def)
qed

lemma decode_prevlensize:
  assumes "p = 10 + length a" and "\<not> l \<longrightarrow> n < 254"
  shows "ZIP_DECODE_PREVLENSIZE (zl_blob h t m (a @ zprev l n @ c)) p = Some (zprevsize l)"
  using zprev_byte [OF assms, of h t m c] assms(2)
  by (cases l) (auto simp: ZIP_DECODE_PREVLENSIZE_def ZIP_BIGLEN_def zprevsize_def)

lemma decode_prevlen:
  assumes "p = 10 + length a" and "\<not> l \<longrightarrow> n < 254" and "n < 2 ^ 32"
  shows "ZIP_DECODE_PREVLEN e (zl_blob h t m (a @ zprev l n @ c)) p = Some (zprevsize l, n)"
proof (cases l)
  case True
  then show ?thesis
    using zl_read_mid [of "p + 1" "a @ [254]" 4 "le_enc 4 n" h t m c] assms
    unfolding ZIP_DECODE_PREVLEN_def decode_prevlensize [OF assms(1,2)]
    by (simp add: zprevsize_def zprev_def)
next
  case False
  then show ?thesis
    using zprev_byte [OF assms(1,2), of h t m c] unfolding ZIP_DECODE_PREVLEN_def decode_prevlensize [OF assms(1,2)]
    by (auto simp: zprevsize_def)
qed

definition zentry_of :: "nat \<Rightarrow> zent \<Rightarrow> zlentry" where
  "zentry_of p x = (case x of (l, n, s) \<Rightarrow>
     \<lparr>prevrawlensize = zprevsize l, prevrawlen = n, lensize = length (zhdr s), len = length (zpay s),
      headersize = zprevsize l + length (zhdr s), encoding = zenc s, entry_p = p\<rparr>)"

lemma zentry_of_simps [simp]:
  "prevrawlensize (zentry_of p (l, n, s)) = zprevsize l" "prevrawlen (zentry_of p (l, n, s)) = n"
  "headersize (zentry_of p (l, n, s)) = zprevsize l + length (zhdr s)" "len (zentry_of p (l, n, s)) = length (zpay s)"
  "encoding (zentry_of p (l, n, s)) = zenc s" "entry_p (zentry_of p x) = p"
  by (simp_all add: zentry_of_def split: prod.split)

lemma zentry_of_rawlen [simp]: "headersize (zentry_of p x) + len (zentry_of p x) = rawlen x"
  by (cases x) simp

lemma decode_length_ent:
  assumes "p = 10 + length a + zprevsize l" and "length s < 2 ^ 32"
  shows "ZIP_DECODE_LENGTH (zl_blob h t m (a @ ent (l, n, s) @ c)) p = Some (zenc s, length (zhdr s), length (zpay s))"
  using decode_length [of s p "a @ zprev l n" h t m "zpay s @ c"] assms by simp

lemma zipEntry_ent:
  assumes "p = 10 + length a" and "entok x"
  shows "zipEntry e (zl_blob h t m (a @ ent x @ c)) p = Some (zentry_of p x)"
proof (cases x)
  case (fields l n s)
  have "ZIP_DECODE_PREVLEN e (zl_blob h t m (a @ ent (l, n, s) @ c)) p = Some (zprevsize l, n)"
    using decode_prevlen [OF assms(1), of l n e h t m "zhdr s @ zpay s @ c"] assms(2) fields by simp
  moreover have "ZIP_DECODE_LENGTH (zl_blob h t m (a @ ent (l, n, s) @ c)) (p + zprevsize l) = Some (zenc s, length (zhdr s), length (zpay s))"
    by (rule decode_length_ent) (use assms fields in auto)
  ultimately show ?thesis by (simp add: zipEntry_def fields zentry_of_def del: ent.simps)
qed

lemma zipRaw_ent:
  assumes "p = 10 + length a" and "entok x"
  shows "zipRawEntryLength (zl_blob h t m (a @ ent x @ c)) p = Some (rawlen x)"
proof (cases x)
  case (fields l n s)
  have "ZIP_DECODE_PREVLENSIZE (zl_blob h t m (a @ ent (l, n, s) @ c)) p = Some (zprevsize l)"
    using decode_prevlensize [OF assms(1), of l n h t m "zhdr s @ zpay s @ c"] assms(2) fields by simp
  moreover have "ZIP_DECODE_LENGTH (zl_blob h t m (a @ ent (l, n, s) @ c)) (p + zprevsize l) = Some (zenc s, length (zhdr s), length (zpay s))"
    by (rule decode_length_ent) (use assms fields in auto)
  ultimately show ?thesis by (simp add: zipRawEntryLength_def fields del: ent.simps)
qed

lemma byte_ent:
  assumes "p = 10 + length a" and "entok x"
  shows "\<exists>b. mem_byte (zl_blob h t m (a @ ent x @ c)) p = Some b \<and> b \<noteq> 255"
proof (cases x)
  case (fields l n s)
  then show ?thesis using zprev_byte [OF assms(1), of l n h t m "zhdr s @ zpay s @ c"] assms(2) by auto
qed

lemma byte_end: "p = 10 + length a \<Longrightarrow> mem_byte (zl_blob h t m (a @ [255])) p = Some 255"
  by (rule zl_byte_mid)

section \<open>Moving the bytes behind a field\<close>

text \<open>Enlarging a field by the bytes that the resize added at the end, as the cascading update does.\<close>

lemma zl_enlarge:
  assumes "p = 10 + length a" and "length new = length old + length z"
  shows "(memmove (zl_blob h t m (a @ old @ r @ z @ [255])) (p + length new) (p + length old) (length r) \<bind> (\<lambda>zl. mem_write zl p new)) =
           Some (zl_blob h t m (a @ new @ r @ [255]))"
proof -
  let ?b = "zl_blob h t m a"
  let ?x = "old @ r @ z @ [255]"
  have p: "p = length ?b" using assms(1) by simp
  have mv: "memmove (?b @ ?x) (p + length new) (p + length old) (length r) = Some (?b @ take (length new) ?x @ r @ [255])"
    using assms(2) unfolding p by (simp add: memmove_Some del: length_zl_blob)
  show ?thesis
    unfolding zl_blob_append [of h t m a, symmetric] mv
    using mem_write_mid [of p ?b new "take (length new) ?x" "r @ [255]"] p assms(2) by simp
qed

text \<open>Making room for \<open>req\<close> bytes and changing the size of the field behind them, as an insertion does.\<close>

lemma zl_make_room:
  assumes "p = 10 + length a" and "length new + req = length old + length z" and "length new \<le> length old + 10"
  shows "\<exists>G. length G = req \<and>
           (memmove (zl_blob h t m (a @ old @ r @ z @ [255])) (p + req) (p + length old - length new) (length r + length new) \<bind>
              (\<lambda>zl. mem_write zl (p + req) new)) =
           Some (zl_blob h t m (a @ G @ new @ r @ [255]))"
proof -
  let ?b = "zl_blob h t m a"
  let ?x = "old @ r @ z @ [255]"
  define S where "S = take (length r + length new) (drop (p + length old - length new) (?b @ ?x))"
  have p: "p = length ?b" using assms(1) by simp
  have len: "length ?x = req + length new + length r + 1" using assms(2) by simp
  have lS: "length S = length r + length new" using assms len by (simp add: S_def p del: length_zl_blob)
  have dS: "drop (length new) S = r"
  proof -
    have "drop (length new) S = take (length r) (drop (length new) (drop (p + length old - length new) (?b @ ?x)))"
      by (simp only: S_def drop_take add_diff_cancel_right')
    also have "drop (length new) (drop (p + length old - length new) (?b @ ?x)) = drop (p + length old) (?b @ ?x)"
      using assms(1,3) by simp
    also have "\<dots> = r @ z @ [255]" unfolding p by (simp del: length_zl_blob)
    finally show ?thesis by simp
  qed
  define G where "G = take req ?x"
  have lG: "length G = req" using len by (simp add: G_def)
  have mv: "memmove (?b @ ?x) (p + req) (p + length old - length new) (length r + length new) = Some (?b @ G @ S @ [255])"
    using assms(2,3) len unfolding S_def p G_def
    by (subst memmove_Some) (simp_all del: length_zl_blob add: nth_append)
  have "?b @ G @ S @ [255] = (?b @ G) @ take (length new) S @ r @ [255]"
    using dS append_take_drop_id [of "length new" S] by simp
  moreover have "mem_write ((?b @ G) @ take (length new) S @ r @ [255]) (p + req) new = Some ((?b @ G) @ new @ r @ [255])"
    by (rule mem_write_mid) (use p lG lS in simp_all)
  ultimately show ?thesis
    unfolding zl_blob_append [of h t m a, symmetric] mv
    using lG by (intro exI [of _ G]) (simp add: zl_blob_append)
qed

section \<open>The layout\<close>

definition zents :: "zent list \<Rightarrow> bytes" where
  "zents es = concat (map ent es)"

lemma zents_simps [simp]: "zents [] = []" "zents (x # es) = ent x @ zents es" "zents (es @ es') = zents es @ zents es'"
  by (simp_all add: zents_def)

fun tailpos :: "zent list \<Rightarrow> nat" where
  "tailpos (x # y # es) = rawlen x + tailpos (y # es)"
| "tailpos _ = 0"

definition zl_of :: "nat \<Rightarrow> bytes \<Rightarrow> zent list \<Rightarrow> bytes" where
  "zl_of m a es = zl_blob (11 + length a + length (zents es)) (10 + length a + tailpos es) m (a @ zents es @ [255])"

lemma zl_of_shift: "es \<noteq> [] \<Longrightarrow> zl_of m (a @ ent x) es = zl_of m a (x # es)"
  by (cases es) (simp_all add: zl_of_def add.assoc)

lemma zl_of_shifts: "es \<noteq> [] \<Longrightarrow> zl_of m (a @ zents xs) es = zl_of m a (xs @ es)"
proof (induction xs arbitrary: a)
  case (Cons x xs)
  then show ?case using zl_of_shift [of "xs @ es" m a x] Cons.IH [of "a @ ent x"] by simp
qed simp

text \<open>The most bytes a list of entries can take, whatever the sizes of the length fields.\<close>

definition zbound :: "zent list \<Rightarrow> nat" where
  "zbound es = (\<Sum>(l, n, s) \<leftarrow> es. 5 + length (zhdr s) + length (zpay s))"

lemma zbound_simps [simp]:
  "zbound [] = 0" "zbound ((l, n, s) # es) = 5 + length (zhdr s) + length (zpay s) + zbound es"
  "zbound (es @ es') = zbound es + zbound es'"
  by (simp_all add: zbound_def)

lemma zprevsize_le: "zprevsize l \<le> 5"
  by (simp add: zprevsize_def)

lemma length_zents_le: "length (zents es) \<le> zbound es"
proof (induction es)
  case (Cons x es)
  then show ?case using zprevsize_le [of "fst x"] by (cases x) auto
qed simp

lemma tailpos_le: "tailpos es \<le> length (zents es)"
  by (induction es rule: tailpos.induct) auto

lemma tailpos_0: "tailpos (x # es) = 0 \<longleftrightarrow> es = []"
  using rawlen_pos [of x] by (cases es) auto

lemma rawlen_le_zbound: "rawlen x + zbound es \<le> zbound (x # es)"
  by (cases x) (use zprevsize_le in simp)

section \<open>The cascading update\<close>

fun casc :: "nat \<Rightarrow> zent list \<Rightarrow> zent list" where
  "casc k [] = []"
| "casc k ((l, n, s) # es) =
     (if n = k then (l, n, s) # es
      else if \<not> l \<and> 254 \<le> k then (True, k, s) # casc (rawlen (True, k, s)) es
      else (l, k, s) # es)"

text \<open>What the loop does when the field of the next entry has to grow.\<close>

lemma cascade_grow:
  assumes "254 \<le> rawlen c" and "entok c" and "entok (False, n, s)" and "n \<noteq> rawlen c"
    and "11 + length a + zbound (c # (False, n, s) # es) < 2 ^ 32" and "p = 10 + length a"
    and "cur = 11 + length a + length (zents (c # (False, n, s) # es))"
  shows "cascade_loop e g (zl_of m a (c # (False, n, s) # es)) p cur =
           cascade_loop e g (zl_of m (a @ ent c) ((True, rawlen c, s) # es)) (p + rawlen c) (cur + 4)"
proof -
  let ?d = "(False, n, s)" and ?d' = "(True, rawlen c, s)"
  let ?r = "zhdr s @ zpay s @ zents es"
  have k: "rawlen c < 2 ^ 32" using rawlen_le_zbound [of c "?d # es"] assms(5) by linarith
  have small: "11 + length a + rawlen c + length (zents (?d' # es)) < 2 ^ 32"
    using rawlen_le_zbound [of c "?d # es"] length_zents_le [of "?d' # es"] assms(5) by simp
  define T where "T = 10 + length a + tailpos (c # ?d # es)"
  have T: "T < 2 ^ 32" using tailpos_le [of "c # ?d # es"] length_zents_le [of "c # ?d # es"] assms(5) by (simp add: T_def)
  have zl: "zl_of m a (c # ?d # es) = zl_blob cur T m (a @ ent c @ ent ?d @ zents es @ [255])"
    by (simp add: zl_of_def assms(7) T_def)
  obtain z where z: "ziplistResize e g (zl_of m a (c # ?d # es)) (int (cur + 4)) =
       Some (zl_blob (cur + 4) T m ((a @ ent c @ ent ?d @ zents es) @ z @ [255]))"
     and lz: "length z = 4"
    using ziplistResize_grow [of "a @ ent c @ ent ?d @ zents es @ [255]" "a @ ent c @ ent ?d @ zents es"
        "length a + length (zents (c # ?d # es)) + 4" "int (cur + 4)" e g cur T m] small assms(7)
    unfolding zl by (auto simp: zprevsize_def)
  obtain b1 where b1: "mem_byte (zl_of m a (c # ?d # es)) p = Some b1" "b1 \<noteq> 255"
    using byte_ent [OF assms(6,2)] unfolding zl by blast
  have e1: "zipEntry e (zl_of m a (c # ?d # es)) p = Some (zentry_of p c)"
    using zipEntry_ent [OF assms(6,2)] unfolding zl by blast
  have q: "p + rawlen c = 10 + length (a @ ent c)" using assms(6) by simp
  obtain b2 where b2: "mem_byte (zl_of m a (c # ?d # es)) (p + rawlen c) = Some b2" "b2 \<noteq> 255"
    using byte_ent [OF q assms(3), of cur T m "zents es @ [255]"] unfolding zl append_assoc by blast
  have e2: "zipEntry e (zl_of m a (c # ?d # es)) (p + rawlen c) = Some (zentry_of (p + rawlen c) ?d)"
    using zipEntry_ent [OF q assms(3), of e cur T m "zents es @ [255]"] unfolding zl append_assoc .
  define T' where "T' = (if T \<noteq> p + rawlen c then T + 4 else T)"
  have T': "T' = 10 + length (a @ ent c) + tailpos (?d' # es)"
    using tailpos_0 [of ?d es] assms(6) by (cases es) (auto simp: T'_def T_def zprevsize_def)
  have T'4: "T + 4 < 2 ^ 32" if "T \<noteq> p + rawlen c"
    using that T' small tailpos_le [of "?d' # es"] unfolding T'_def by (simp split: if_splits)
  have st: "(if T \<noteq> p + rawlen c then set_tail e (zl_blob (cur + 4) T m x) (int (T + 4)) else Some (zl_blob (cur + 4) T m x)) =
      Some (zl_blob (cur + 4) T' m x)" for x
    using T'4 zl_set_tail_nat [of "int (T + 4)" "T + 4"] unfolding T'_def by presburger
  have "(memmove (zl_blob (cur + 4) T' m ((a @ ent c @ ent ?d @ zents es) @ z @ [255])) (p + rawlen c + 5) (p + rawlen c + 1)
        (cur - (p + rawlen c) - 1 - 1) \<bind> (\<lambda>zl. mem_write zl (p + rawlen c) (zprev True (rawlen c)))) =
      Some (zl_of m (a @ ent c) (?d' # es))"
    using zl_enlarge [OF q, of "zprev True (rawlen c)" "zprev False n" z "cur + 4" T' m ?r] lz assms(6,7) T'
    by (simp add: zprevsize_def zl_of_def)
  then obtain y where mv: "memmove (zl_blob (cur + 4) T' m ((a @ ent c @ ent ?d @ zents es) @ z @ [255])) (p + rawlen c + 5) (p + rawlen c + 1)
        (cur - (p + rawlen c) - 1 - 1) = Some y" "mem_write y (p + rawlen c) (zprev True (rawlen c)) = Some (zl_of m (a @ ent c) (?d' # es))"
    unfolding bind_eq_Some_conv' by blast
  have p1: "zipPrevEncodeLength e (rawlen c) = zprev True (rawlen c)" using zipPrevEncodeLength_zprev [OF k] assms(1) by simp
  have "cascade_loop e g (zl_of m a (c # ?d # es)) p cur = do {
      zl \<leftarrow> ziplistResize e g (zl_of m a (c # ?d # es)) (int (cur + 4));
      t \<leftarrow> ZIPLIST_TAIL_OFFSET e zl;
      zl \<leftarrow> (if t \<noteq> p + rawlen c then set_tail e zl (int (t + 4)) else Some zl);
      zl \<leftarrow> memmove zl (p + rawlen c + 5) (p + rawlen c + 1) (cur - (p + rawlen c) - 1 - 1);
      zl \<leftarrow> mem_write zl (p + rawlen c) (zprev True (rawlen c));
      cascade_loop e g zl (p + rawlen c) (cur + 4)
    }"
    using assms(4) b1(2) b2(2) by (subst cascade_loop.simps) (simp add: b1(1) b2(1) e1 e2 ZIP_END_def p1 zprevsize_def Let_def)
  also have "\<dots> = cascade_loop e g (zl_of m (a @ ent c) (?d' # es)) (p + rawlen c) (cur + 4)"
    unfolding z bind.bind_lunit zl_tail [OF T] st mv ..
  finally show ?thesis .
qed

text \<open>What it does when it stops at the next entry: the field keeps its size.\<close>

lemma cascade_stop:
  assumes "entok c" and "entok (l, n, s)" and "l \<or> rawlen c < 254 \<or> n = rawlen c"
    and "11 + length a + zbound (c # (l, n, s) # es) < 2 ^ 32" and "p = 10 + length a"
  shows "cascade_loop e g (zl_of m a (c # (l, n, s) # es)) p cur = Some (zl_of m a (c # (l, rawlen c, s) # es))"
proof -
  let ?d = "(l, n, s)"
  have k: "rawlen c < 2 ^ 32" using rawlen_le_zbound [of c "?d # es"] assms(4) by linarith
  define T where "T = 10 + length a + tailpos (c # ?d # es)"
  define B where "B = 11 + length a + length (zents (c # ?d # es))"
  have zl: "zl_of m a (c # (l, i, s) # es) = zl_blob B T m (a @ ent c @ ent (l, i, s) @ zents es @ [255])" for i
    by (cases es) (simp_all add: zl_of_def B_def T_def)
  obtain b1 where b1: "mem_byte (zl_of m a (c # ?d # es)) p = Some b1" "b1 \<noteq> 255"
    using byte_ent [OF assms(5,1)] unfolding zl by blast
  have e1: "zipEntry e (zl_of m a (c # ?d # es)) p = Some (zentry_of p c)"
    using zipEntry_ent [OF assms(5,1)] unfolding zl by blast
  have q: "p + rawlen c = 10 + length (a @ ent c)" using assms(5) by simp
  obtain b2 where b2: "mem_byte (zl_of m a (c # ?d # es)) (p + rawlen c) = Some b2" "b2 \<noteq> 255"
    using byte_ent [OF q assms(2), of B T m "zents es @ [255]"] unfolding zl append_assoc by blast
  have e2: "zipEntry e (zl_of m a (c # ?d # es)) (p + rawlen c) = Some (zentry_of (p + rawlen c) ?d)"
    using zipEntry_ent [OF q assms(2), of e B T m "zents es @ [255]"] unfolding zl append_assoc .
  have w: "mem_write (zl_of m a (c # ?d # es)) (p + rawlen c) (zprev l (rawlen c)) = Some (zl_of m a (c # (l, rawlen c, s) # es))"
    using zl_write_mid [OF q, of "zprev l (rawlen c)" "zprev l n" B T m "zhdr s @ zpay s @ zents es @ [255]"] unfolding zl by simp
  have p1: "zipPrevEncodeLength e (rawlen c) = zprev (254 \<le> rawlen c) (rawlen c)" using zipPrevEncodeLength_zprev [OF k] .
  show ?thesis
  proof (cases "n = rawlen c")
    case True
    then show ?thesis
      using b1(2) b2(2) by (subst cascade_loop.simps)
        (simp add: b1(1) [unfolded True] b2(1) [unfolded True] e1 [unfolded True] e2 [unfolded True] ZIP_END_def Let_def)
  next
    case False
    with assms(3) have ps: "\<not> zprevsize l < zprevsize (254 \<le> rawlen c)" by (auto simp: zprevsize_def)
    have wr: "(if zprevsize (254 \<le> rawlen c) < zprevsize l
               then mem_write (zl_of m a (c # ?d # es)) (p + rawlen c) (zipPrevEncodeLengthForceLarge e (rawlen c))
               else mem_write (zl_of m a (c # ?d # es)) (p + rawlen c) (zprev (254 \<le> rawlen c) (rawlen c))) =
             Some (zl_of m a (c # (l, rawlen c, s) # es))"
    proof -
      have "(if zprevsize (254 \<le> rawlen c) < zprevsize l then zipPrevEncodeLengthForceLarge e (rawlen c)
             else zprev (254 \<le> rawlen c) (rawlen c)) = zprev l (rawlen c)"
        using ps by (cases l; cases "254 \<le> rawlen c") (simp_all add: zprevsize_def zipPrevEncodeLengthForceLarge_zprev)
      with w show ?thesis by (simp split: if_splits)
    qed
    show ?thesis
      using b1(2) b2(2) False wr
      by (subst cascade_loop.simps) (simp add: b1(1) b2(1) e1 e2 ZIP_END_def Let_def p1 ps split: if_splits)
  qed
qed

theorem cascade_loop_spec:
  assumes "\<forall>x \<in> set (c # es). entok x" and "11 + length a + zbound (c # es) < 2 ^ 32" and "p = 10 + length a"
    and "cur = 11 + length a + length (zents (c # es))"
  shows "cascade_loop e g (zl_of m a (c # es)) p cur = Some (zl_of m a (c # casc (rawlen c) es))"
  using assms
proof (induction es arbitrary: a c p cur)
  case Nil
  obtain b1 where b1: "mem_byte (zl_of m a [c]) p = Some b1" "b1 \<noteq> 255"
    using byte_ent [OF Nil.prems(3), of c _ _ m "[255]"] Nil.prems(1) by (auto simp: zl_of_def)
  have e1: "zipEntry e (zl_of m a [c]) p = Some (zentry_of p c)"
    using zipEntry_ent [OF Nil.prems(3), of c e _ _ m "[255]"] Nil.prems(1) by (simp add: zl_of_def)
  have "mem_byte (zl_of m a [c]) (p + rawlen c) = Some 255"
    using byte_end [of "p + rawlen c" "a @ ent c" _ _ m] Nil.prems(3) by (simp add: zl_of_def)
  with b1(2) show ?case by (subst cascade_loop.simps) (simp add: b1(1) e1 ZIP_END_def Let_def)
next
  case (Cons d es)
  obtain l n s where d: "d = (l, n, s)" by (cases d)
  show ?case
  proof (cases "n \<noteq> rawlen c \<and> \<not> l \<and> 254 \<le> rawlen c")
    case True
    let ?d = "(True, rawlen c, s)"
    have "rawlen c < 2 ^ 32" using rawlen_le_zbound [of c "d # es"] Cons.prems(2) by linarith
    then have "\<forall>x \<in> set (?d # es). entok x" using Cons.prems(1) d by simp
    moreover have "11 + length (a @ ent c) + zbound (?d # es) < 2 ^ 32"
      using Cons.prems(2) rawlen_le_zbound [of c "d # es"] d by simp
    moreover have "p + rawlen c = 10 + length (a @ ent c)" using Cons.prems(3) by simp
    moreover have "cur + 4 = 11 + length (a @ ent c) + length (zents (?d # es))"
      using Cons.prems(4) True by (simp add: d zprevsize_def)
    ultimately have IH: "cascade_loop e g (zl_of m (a @ ent c) (?d # es)) (p + rawlen c) (cur + 4) =
        Some (zl_of m (a @ ent c) (?d # casc (rawlen ?d) es))"
      by (rule Cons.IH)
    have "cascade_loop e g (zl_of m a (c # d # es)) p cur = cascade_loop e g (zl_of m (a @ ent c) (?d # es)) (p + rawlen c) (cur + 4)"
      using cascade_grow [of c n s a es p cur e g m] Cons.prems True d by auto
    with IH True d show ?thesis by (simp add: zl_of_shift)
  next
    case False
    then have "casc (rawlen c) (d # es) = (l, rawlen c, s) # es" by (auto simp: d)
    moreover have "cascade_loop e g (zl_of m a (c # d # es)) p cur = Some (zl_of m a (c # (l, rawlen c, s) # es))"
      unfolding d by (rule cascade_stop) (use Cons.prems False d in auto)
    ultimately show ?thesis by simp
  qed
qed

section \<open>Consistent lengths\<close>

fun consistent :: "nat \<Rightarrow> zent list \<Rightarrow> bool" where
  "consistent k [] \<longleftrightarrow> True"
| "consistent k ((l, n, s) # es) \<longleftrightarrow> n = k \<and> (\<not> l \<longrightarrow> n < 254) \<and> consistent (rawlen (l, n, s)) es"

fun lastlen :: "nat \<Rightarrow> zent list \<Rightarrow> nat" where
  "lastlen k [] = k"
| "lastlen k (x # es) = lastlen (rawlen x) es"

definition zstr :: "zent \<Rightarrow> bytes" where
  "zstr x = snd (snd x)"

lemma zstr_simps [simp]: "zstr (l, n, s) = s"
  by (simp add: zstr_def)

lemma consistent_append: "consistent k (xs @ ys) \<longleftrightarrow> consistent k xs \<and> consistent (lastlen k xs) ys"
proof (induction xs arbitrary: k)
  case (Cons x xs)
  then show ?case by (cases x) auto
qed simp

lemma lastlen_append: "lastlen k (xs @ ys) = lastlen (lastlen k xs) ys"
  by (induction xs arbitrary: k) auto

lemma casc_strs [simp]: "map zstr (casc k es) = map zstr es"
  by (induction k es rule: casc.induct) auto

lemma zbound_strs: "map zstr xs = map zstr ys \<Longrightarrow> zbound xs = zbound ys"
proof -
  have "zbound es = (\<Sum>s \<leftarrow> map zstr es. 5 + length (zhdr s) + length (zpay s))" for es
    unfolding zbound_def by (induction es) (auto simp: zstr_def)
  then show "map zstr xs = map zstr ys \<Longrightarrow> zbound xs = zbound ys" by metis
qed

text \<open>The tail of a consistent list stays consistent with its first entry whatever that entry's length becomes.\<close>

definition self_consistent :: "zent list \<Rightarrow> bool" where
  "self_consistent es = (case es of [] \<Rightarrow> True | x # es' \<Rightarrow> consistent (rawlen x) es')"

lemma casc_consistent:
  assumes "self_consistent es" and "\<forall>x \<in> set es. entok x"
  shows "consistent k (casc k es)"
  using assms
proof (induction k es rule: casc.induct)
  case (2 k l n s es)
  have "self_consistent es" using 2(2) by (cases es) (auto simp: self_consistent_def)
  then show ?case using 2 by (auto simp: self_consistent_def zprevsize_def)
qed simp

lemma casc_id: "consistent k es \<Longrightarrow> casc k es = es"
  by (cases es) auto

lemma consistent_self: "consistent k es \<Longrightarrow> self_consistent es"
  by (cases es) (auto simp: self_consistent_def)

text \<open>The entries after a change of the entry before them: the first one gets a field of the size the
  new length needs, the rest is updated by the cascade.\<close>

fun relink :: "nat \<Rightarrow> zent list \<Rightarrow> zent list" where
  "relink k [] = []"
| "relink k ((l, n, s) # es) = (254 \<le> k, k, s) # casc (rawlen (254 \<le> k, k, s)) es"

lemma relink_strs [simp]: "map zstr (relink k es) = map zstr es"
  by (cases "(k, es)" rule: relink.cases) auto

lemma relink_consistent:
  assumes "self_consistent es" and "\<forall>x \<in> set es. entok x"
  shows "consistent k (relink k es)"
proof (cases es)
  case (Cons x es')
  then have "self_consistent es'" using assms(1) consistent_self by (auto simp: self_consistent_def)
  with Cons show ?thesis using casc_consistent [of es'] assms(2) by (cases x) simp
qed simp

lemma consistent_entok:
  assumes "consistent k es" and "k + zbound es < 2 ^ 32" and "\<forall>x \<in> set es. length (zstr x) < 2 ^ 32"
  shows "\<forall>x \<in> set es. entok x"
  using assms
proof (induction es arbitrary: k)
  case (Cons x es)
  have "rawlen x + zbound es < 2 ^ 32" using Cons.prems(2) rawlen_le_zbound [of x es] by linarith
  with Cons show ?case by (cases x) auto
qed simp

end
