(* ===== verification/Ziplist_Ops.thy ===== *)
theory Ziplist_Ops
  imports Ziplist_Layout
begin

text \<open>
  What insertion and deletion do to the layout of a ziplist. Both are exact: the new block is the layout
  of the new list of entries, with the lengths stored in the entries behind the change brought up to date.
\<close>

section \<open>Integers\<close>

lemma le_senc_24: "drop 1 (le_senc 4 (v * 2 ^ 8)) = le_senc 3 v"
proof -
  have "v * 256 mod 256 ^ 4 = 256 * (v mod 256 ^ 3)"
    using mult_mod_right [of 256 v "256 ^ 3 :: int"] by (simp add: mult.commute)
  then have "nat (v * 256 mod 256 ^ 4) = 256 * nat (v mod 256 ^ 3)" by (simp add: nat_mult_distrib)
  moreover have "drop 1 (le_enc 4 (256 * x)) = le_enc 3 x" for x
    using le_enc.simps(2) [of 3 "256 * x"] by simp
  ultimately show ?thesis by (simp add: le_senc_def)
qed

lemma zipSaveInteger_zint: "zipSaveInteger e v (zint_enc v) = Some (le_senc (zipIntSize (zint_enc v)) v)"
proof (cases "0 \<le> v \<and> v \<le> 12")
  case True
  then have "v \<in> {0, 1, 2, 3, 4, 5, 6, 7, 8, 9, 10, 11, 12}" using zint_imm by blast
  then show ?thesis
    by (elim insertE) (simp_all add: zint_enc_def zipSaveInteger_def zipIntSize_def zip_consts le_senc_def)
next
  case False
  have "zint_enc v \<in> {0xfe, 0xc0, 0xf0, 0xd0, 0xe0}"
    unfolding zint_enc_def if_not_P [OF False] by (simp add: zip_consts)
  then show ?thesis
    by (elim insertE) (simp_all add: zipSaveInteger_def zipIntSize_def zip_consts le_senc_24 [simplified])
qed

section \<open>The stored length of a string\<close>

lemma zreq_length:
  assumes "zipTryEncoding s (length s) = Some r" and "(val, enc) = (case r of Some ve \<Rightarrow> ve | None \<Rightarrow> (123456789, 0))"
  shows "(if r \<noteq> None then zipIntSize enc else length s) = length (zpay s)" and "zipEncodeLength enc (length s) = zhdr s"
    and "(if ZIP_IS_STR enc then mem_read s 0 (length s) else zipSaveInteger e val enc) = Some (zpay s)"
proof -
  have r: "r = map_option (\<lambda>v. (v, zint_enc v)) (zval s)" using assms(1) by (simp add: zipTryEncoding_zval)
  have z: "ZIP_IS_STR 0" by (simp add: ZIP_IS_STR_def zip_consts)
  show "(if r \<noteq> None then zipIntSize enc else length s) = length (zpay s)" "zipEncodeLength enc (length s) = zhdr s"
    "(if ZIP_IS_STR enc then mem_read s 0 (length s) else zipSaveInteger e val enc) = Some (zpay s)"
    using assms(2) z
    by (cases "zval s"; simp add: r zpay_def zhdr_def zipSaveInteger_zint mem_read_def; simp add: zipEncodeLength_def)+
qed

section \<open>Insertion\<close>

lemma tailpos_snoc: "tailpos (es @ [x]) = length (zents es)"
  by (induction es rule: tailpos.induct) auto

lemma insert_prevlen_spec:
  assumes "\<forall>x \<in> set (As @ ds). entok x" and "consistent 0 (As @ ds)" and "11 + zbound (As @ ds) < 2 ^ 32"
  shows "insert_prevlen e (zl_of m [] (As @ ds)) (10 + length (zents As)) = Some (lastlen 0 As)"
proof (cases ds)
  case (Cons d r)
  define zl where "zl = zl_of m [] (As @ ds)"
  obtain B T where zl: "zl = zl_blob B T m (zents As @ ent d @ zents r @ [255])" by (auto simp: zl_def zl_of_def Cons)
  have d: "entok d" using assms(1) Cons by simp
  have "prevrawlen (zentry_of p d) = lastlen 0 As" for p using assms(2) Cons by (cases d) (simp add: consistent_append)
  moreover obtain b where "mem_byte zl (10 + length (zents As)) = Some b" "b \<noteq> 255"
    using byte_ent [OF refl d] unfolding zl by blast
  ultimately show ?thesis
    using zipEntry_ent [OF refl d] unfolding insert_prevlen_def zl_def [symmetric] zl by (simp add: ZIP_END_def)
next
  case Nil
  define zl where "zl = zl_of m [] As"
  define T where "T = 10 + tailpos As"
  obtain B where zl: "zl = zl_blob B T m (zents As @ [255])" by (simp add: zl_def zl_of_def T_def)
  have e: "mem_byte zl (10 + length (zents As)) = Some 255" unfolding zl by (rule byte_end) simp
  have "T < 2 ^ 32" using tailpos_le [of As] length_zents_le [of As] assms(3) Nil by (simp add: T_def)
  then have t: "ZIPLIST_TAIL_OFFSET e zl = Some T" unfolding zl by (rule zl_tail)
  show ?thesis
  proof (cases As rule: rev_cases)
    case Nil
    with e have "mem_byte zl T = Some 255" by (simp add: T_def)
    with e t show ?thesis using Nil \<open>ds = []\<close> unfolding insert_prevlen_def zl_def by (simp add: ZIP_END_def)
  next
    case (snoc Bs x)
    have x: "entok x" and T: "T = 10 + length (zents Bs)" using assms(1) snoc by (simp_all add: T_def tailpos_snoc)
    obtain b where "mem_byte zl T = Some b" "b \<noteq> 255"
      using byte_ent [OF T x, of B T m "[255]"] unfolding zl snoc by auto
    moreover have "zipRawEntryLength zl T = Some (rawlen x)"
      using zipRaw_ent [OF T x] unfolding zl snoc by simp
    ultimately show ?thesis
      using e t snoc \<open>ds = []\<close> unfolding insert_prevlen_def zl_def by (simp add: ZIP_END_def lastlen_append)
  qed
qed

lemma insert_write_spec:
  assumes "length G = rawlen (254 \<le> pl, pl, s)" and "pl < 2 ^ 32"
    and "zipTryEncoding s (length s) = Some r" and "(val, enc) = (case r of Some ve \<Rightarrow> ve | None \<Rightarrow> (123456789, 0))"
  shows "insert_write e (zl_blob B T m (a @ G @ c)) (10 + length a) pl val enc s (length s) =
           Some (zl_blob B T m (a @ ent (254 \<le> pl, pl, s) @ c))"
proof -
  let ?l = "254 \<le> pl"
  have p: "zipPrevEncodeLength e pl = zprev ?l pl" using assms(2) by (rule zipPrevEncodeLength_zprev)
  define G1 where "G1 = take (zprevsize ?l) G"
  define G2 where "G2 = take (length (zhdr s)) (drop (zprevsize ?l) G)"
  define G3 where "G3 = drop (zprevsize ?l + length (zhdr s)) G"
  have G: "G = G1 @ G2 @ G3"
    by (simp add: G1_def G2_def G3_def) (metis append_take_drop_id drop_drop add.commute)
  have len: "length G1 = zprevsize ?l" "length G2 = length (zhdr s)" "length G3 = length (zpay s)"
    using assms(1) by (simp_all add: G1_def G2_def G3_def)
  have w1: "mem_write (zl_blob B T m (a @ G @ c)) (10 + length a) (zprev ?l pl) = Some (zl_blob B T m (a @ zprev ?l pl @ G2 @ G3 @ c))"
    using zl_write_mid [OF refl, of "zprev ?l pl" G1] len G by simp
  have w2: "mem_write (zl_blob B T m (a @ zprev ?l pl @ G2 @ G3 @ c)) (10 + length a + zprevsize ?l) (zhdr s) =
      Some (zl_blob B T m (a @ zprev ?l pl @ zhdr s @ G3 @ c))"
    using zl_write_mid [of "10 + length a + zprevsize ?l" "a @ zprev ?l pl" "zhdr s" G2] len by simp
  have w3: "mem_write (zl_blob B T m (a @ zprev ?l pl @ zhdr s @ G3 @ c)) (10 + length a + zprevsize ?l + length (zhdr s)) (zpay s) =
      Some (zl_blob B T m (a @ zprev ?l pl @ zhdr s @ zpay s @ c))"
    using zl_write_mid [of "10 + length a + zprevsize ?l + length (zhdr s)" "a @ zprev ?l pl @ zhdr s" "zpay s" G3] len by simp
  show ?thesis
    unfolding insert_write_def p Let_def w1 bind.bind_lunit zreq_length [OF assms(3,4)] length_zprev w2 w3 by simp
qed

text \<open>The move in front of the entry \<open>d\<close>: \<open>z\<close> are the bytes the resize has added.\<close>

lemma insert_move_spec:
  fixes l n t k
  defines "d \<equiv> (l, n, t)" and "d' \<equiv> (254 \<le> k, k, t)"
  assumes "entok d" and "length z + zprevsize l = k + zprevsize (254 \<le> k)" and "0 < k"
    and "11 + length a + k + zbound (d # r) < 2 ^ 32" and "\<forall>x \<in> set r. entok x"
    and "nd = int (zprevsize (254 \<le> k)) - int (zprevsize l)" and "T = 10 + length a + tailpos (d # r)"
    and "B = 11 + length a + k + length (zents (d' # r))"
  shows "\<exists>G. length G = k \<and>
    insert_move e (zl_blob B T m (a @ ent d @ zents r @ z @ [255])) (10 + length a) (11 + length a + length (zents (d # r))) k nd =
      Some (zl_of m (a @ G) (d' # r))"
proof -
  let ?p = "10 + length a" and ?r = "zhdr t @ zpay t @ zents r"
  let ?zl = "zl_blob B T m (a @ ent d @ zents r @ z @ [255])"
  let ?new = "zprev (254 \<le> k) k"
  have k: "k < 2 ^ 32" using assms(6) by linarith
  have d': "entok d'" using assms(3) k by (simp add: d_def d'_def)
  obtain b1 where b1: "mem_byte ?zl ?p = Some b1" "b1 \<noteq> 255"
    using byte_ent [OF refl assms(3)] by blast
  obtain G where G: "length G = k" and mv: "(memmove ?zl (?p + k) (?p + zprevsize l - zprevsize (254 \<le> k)) (length ?r + zprevsize (254 \<le> k)) \<bind>
      (\<lambda>zl. mem_write zl (?p + k) ?new)) = Some (zl_blob B T m (a @ G @ ?new @ ?r @ [255]))"
    using zl_make_room [OF refl, where new = ?new and req = k and old = "zprev l n" and z = z and a = a and h = B and t = T and m = m and r = ?r] assms(4) zprevsize_le [of "254 \<le> k"]
    by (auto simp: d_def)
  have src: "nat (int ?p - nd) = ?p + zprevsize l - zprevsize (254 \<le> k)"
    and cnt: "nat (int (11 + length a + length (zents (d # r))) - int ?p - 1 + nd) = length ?r + zprevsize (254 \<le> k)"
    using assms(8) by (simp_all add: d_def)
  let ?z1 = "zl_blob B T m (a @ G @ ent d' @ zents r @ [255])"
  obtain y where mv1: "memmove ?zl (?p + k) (?p + zprevsize l - zprevsize (254 \<le> k)) (length ?r + zprevsize (254 \<le> k)) = Some y"
    and mv2: "mem_write y (?p + k) ?new = Some ?z1"
    using mv unfolding bind_eq_Some_conv' by (auto simp: d'_def)
  have B: "11 + length a + k + length (zents (d' # r)) < 2 ^ 32"
    using assms(6) length_zents_le [of "d' # r"] by (simp add: d_def d'_def)
  have T: "T < 2 ^ 32" using assms(6,9) tailpos_le [of "d # r"] length_zents_le [of "d # r"] by linarith
  have Tk: "T + k < 2 ^ 32" using assms(6,9) tailpos_le [of "d # r"] length_zents_le [of "d # r"] by linarith
  let ?z2 = "zl_blob B (T + k) m (a @ G @ ent d' @ zents r @ [255])"
  have s2: "set_tail e ?z1 (int T + int k) = Some ?z2" using zl_set_tail_nat [OF _ Tk] by simp
  have q: "?p + k = 10 + length (a @ G)" using G by simp
  have e2: "zipEntry e ?z2 (?p + k) = Some (zentry_of (?p + k) d')"
    using zipEntry_ent [OF q d', of e B "T + k" m "zents r @ [255]"] by simp
  have hl: "?p + k + headersize (zentry_of (?p + k) d') + len (zentry_of (?p + k) d') = ?p + k + rawlen d'"
    by (simp add: d'_def)
  have "\<exists>b. mem_byte ?z2 (?p + k + rawlen d') = Some b \<and>
      (if b \<noteq> 255 then set_tail e ?z2 (int (T + k) + nd) else Some ?z2) = Some (zl_of m (a @ G) (d' # r))"
  proof (cases r)
    case Nil
    then show ?thesis using byte_end [of "?p + k + rawlen d'" "a @ G @ ent d'" B "T + k" m] G assms(9,10)
      by (simp add: zl_of_def ac_simps)
  next
    case (Cons x xs)
    obtain b where b: "mem_byte ?z2 (?p + k + rawlen d') = Some b" "b \<noteq> 255"
      using byte_ent [of "?p + k + rawlen d'" "a @ G @ ent d'" x B "T + k" m "zents xs @ [255]"] G assms(7) Cons by auto
    have "int (T + k) + nd = int (10 + length (a @ G) + tailpos (d' # r))"
      using assms(8,9) G Cons by (simp add: d_def d'_def)
    moreover have "10 + length (a @ G) + tailpos (d' # r) < 2 ^ 32" using B tailpos_le [of "d' # r"] G by simp
    ultimately have "set_tail e ?z2 (int (T + k) + nd) = Some (zl_blob B (10 + length (a @ G) + tailpos (d' # r)) m (a @ G @ ent d' @ zents r @ [255]))"
      by (rule zl_set_tail_nat)
    also have "\<dots> = Some (zl_of m (a @ G) (d' # r))" using G assms(10) by (simp add: zl_of_def ac_simps)
    finally have "set_tail e ?z2 (int (T + k) + nd) = Some (zl_of m (a @ G) (d' # r))" .
    with b show ?thesis by simp
  qed
  then obtain b2 where b2: "mem_byte ?z2 (?p + k + rawlen d') = Some b2"
    "(if b2 \<noteq> 255 then set_tail e ?z2 (int (T + k) + nd) else Some ?z2) = Some (zl_of m (a @ G) (d' # r))" by blast
  have "insert_move e ?zl ?p (11 + length a + length (zents (d # r))) k nd = Some (zl_of m (a @ G) (d' # r))"
    unfolding insert_move_def b1(1) bind.bind_lunit src cnt mv1 mv2 zipPrevEncodeLength_zprev [OF k] zl_tail [OF T] s2 e2 hl b2(1) zl_tail [OF Tk]
      ZIP_END_def b2(2) using b1(2) by simp
  with G show ?thesis by blast
qed

definition zincr :: "nat \<Rightarrow> int \<Rightarrow> nat" where
  "zincr m i = (if m < UINT16_MAX then nat ((int m + i) mod 2 ^ 16) else m)"

lemma incr_length: "m < 2 ^ 16 \<Longrightarrow> ZIPLIST_INCR_LENGTH e (zl_blob b t m x) i = Some (zl_blob b t (zincr m i) x)"
  by (simp add: ZIPLIST_INCR_LENGTH_def zincr_def)

lemma incr_length_of: "m < 2 ^ 16 \<Longrightarrow> ZIPLIST_INCR_LENGTH e (zl_of m a es) i = Some (zl_of (zincr m i) a es)"
  by (simp add: zl_of_def incr_length)

lemma zl_bytes_of: "11 + length a + zbound es < 2 ^ 32 \<Longrightarrow> ZIPLIST_BYTES e (zl_of m a es) = Some (11 + length a + length (zents es))"
  using length_zents_le [of es] by (simp add: zl_of_def)

lemma cascade_spec:
  assumes "\<forall>x \<in> set (c # es). entok x" and "11 + length a + zbound (c # es) < 2 ^ 32"
  shows "us_ziplistCascadeUpdate e g (zl_of m a (c # es)) (10 + length a) = Some (zl_of m a (c # casc (rawlen c) es))"
  using zl_bytes_of [OF assms(2)] cascade_loop_spec [OF assms refl refl] by (simp add: us_ziplistCascadeUpdate_def)

text \<open>The update is only run when the first entry has changed its size; otherwise there is nothing to do.\<close>

lemma cascade_if:
  assumes "\<forall>x \<in> set (c # es). entok x" and "11 + length a + zbound (c # es) < 2 ^ 32" and "p = 10 + length a"
    and "nd = 0 \<Longrightarrow> consistent (rawlen c) es"
  shows "(if nd \<noteq> 0 then us_ziplistCascadeUpdate e g (zl_of m a (c # es)) p else Some (zl_of m a (c # es))) =
           Some (zl_of m a (c # casc (rawlen c) es))"
  using assms cascade_spec casc_id by simp

lemma zpay_length: "length s < 2 ^ 32" if "length (zpay s) < 2 ^ 32"
  using that zval_length [of s] by (cases "zval s") (auto simp: zpay_def)

lemma insert_write_of:
  assumes "length G = rawlen (254 \<le> pl, pl, s)" and "pl < 2 ^ 32" and "es \<noteq> []" and "zipTryEncoding s (length s) = Some r"
    and "(val, enc) = (case r of Some ve \<Rightarrow> ve | None \<Rightarrow> (123456789, 0))"
  shows "insert_write e (zl_of m (a @ G) es) (10 + length a) pl val enc s (length s) = Some (zl_of m a ((254 \<le> pl, pl, s) # es))"
  unfolding zl_of_shift [OF assms(3), symmetric]
  using insert_write_spec [OF assms(1,2,4,5), where a = a] assms(1) by (simp add: zl_of_def del: ent.simps rawlen.simps)

lemma ziplistInsert_tail:
  fixes s As
  defines "pl \<equiv> lastlen 0 As"
  defines "new \<equiv> (254 \<le> pl, pl, s)"
  assumes "consistent 0 As" and "\<forall>x \<in> set As. entok x" and "11 + zbound (As @ [new]) < 2 ^ 32" and "pl < 2 ^ 32" and "m < 2 ^ 16"
  shows "us_ziplistInsert e g (zl_of m [] As) (10 + length (zents As)) s (length s) = Some (zl_of (zincr m 1) [] (As @ [new]))"
proof -
  let ?a = "zents As"
  let ?p = "10 + length ?a"
  have len: "11 + length ?a + rawlen new < 2 ^ 32"
    using assms(5) length_zents_le [of As] rawlen_le_zbound [of new "[]"] by simp
  define T where "T = 10 + tailpos As"
  have zl: "zl_of m [] As = zl_blob (11 + length ?a) T m (?a @ [255])" by (simp add: zl_of_def T_def)
  have nb: "ZIPLIST_BYTES e (zl_of m [] As) = Some (11 + length ?a)" using len by (simp add: zl)
  have pl: "insert_prevlen e (zl_of m [] As) ?p = Some pl"
    using insert_prevlen_spec [of As "[]"] assms(3-5) by (auto simp: pl_def)
  obtain r where r: "zipTryEncoding s (length s) = Some r" by (simp add: zipTryEncoding_zval)
  obtain val enc where ve: "(val, enc) = (case r of Some ve \<Rightarrow> ve | None \<Rightarrow> (123456789, 0))" by (metis surj_pair)
  have b: "mem_byte (zl_of m [] As) ?p = Some 255" unfolding zl by (rule byte_end) simp
  have k: "length (zpay s) + zprevsize (254 \<le> pl) + length (zhdr s) = rawlen new" by (simp add: new_def)
  obtain z where z: "ziplistResize e g (zl_of m [] As) (int (11 + length ?a) + int (rawlen new) + 0) =
       Some (zl_blob (11 + (length ?a + rawlen new)) T m (?a @ z @ [255]))"
     and lz: "length z = rawlen new" and hz: "hd (z @ [255]) = 255"
    using ziplistResize_grow [of "?a @ [255]" ?a "length ?a + rawlen new" "int (11 + length ?a) + int (rawlen new) + 0" e g "11 + length ?a" T m]
      len unfolding zl by auto
  have b2: "mem_byte (zl_blob (11 + (length ?a + rawlen new)) T m (?a @ z @ [255])) ?p = Some 255"
    using hz byte_end [of ?p ?a] zl_byte_mid [of ?p ?a] lz rawlen_pos [of new] by (cases z) (auto simp del: rawlen_pos)
  have mv: "insert_move e (zl_blob (11 + (length ?a + rawlen new)) T m (?a @ z @ [255])) ?p (11 + length ?a) (rawlen new) 0 =
      Some (zl_blob (11 + (length ?a + rawlen new)) ?p m (?a @ z @ [255]))"
    unfolding insert_move_def b2 using zl_set_tail_nat [OF refl, of ?p] len by (simp add: ZIP_END_def del: zl_set_tail)
  have wr: "insert_write e (zl_blob (11 + (length ?a + rawlen new)) ?p m (?a @ z @ [255])) ?p pl val enc s (length s) =
      Some (zl_of m [] (As @ [new]))"
    using insert_write_spec [OF lz [unfolded new_def] assms(6) r ve, where a = ?a and c = "[255]"]
    by (simp add: new_def zl_of_def tailpos_snoc add.assoc del: ent.simps rawlen.simps)
  show ?thesis
    unfolding us_ziplistInsert_def nb pl r bind.bind_lunit ve [symmetric] Let_def split_conv b zreq_length [OF r ve]
      zipPrevEncodeLength_zprev [OF assms(6)] length_zprev k
    by (simp add: ZIP_END_def z [simplified] mv wr incr_length_of [OF assms(7)])
qed

text \<open>Insertion in front of an entry. The hypothesis on \<open>l\<close> excludes the one case in which the block shrinks before
  its bytes are moved: the next entry has a five byte length field and the new entry is shorter than four bytes.\<close>

lemma ziplistInsert_before:
  fixes s As l n t r
  defines "pl \<equiv> lastlen 0 As"
  defines "new \<equiv> (254 \<le> pl, pl, s)" and "d \<equiv> (l, n, t)"
  assumes "consistent 0 (As @ d # r)" and "\<forall>x \<in> set (As @ d # r). entok x" and "11 + zbound (As @ new # d # r) < 2 ^ 32" and "m < 2 ^ 16"
    and "l \<longrightarrow> 4 \<le> rawlen new"
  shows "us_ziplistInsert e g (zl_of m [] (As @ d # r)) (10 + length (zents As)) s (length s) =
           Some (zl_of (zincr m 1) [] (As @ new # relink (rawlen new) (d # r)))"
proof -
  let ?a = "zents As"
  let ?p = "10 + length ?a"
  let ?zl = "zl_of m [] (As @ d # r)"
  define k where "k = rawlen new"
  define d' where "d' = (254 \<le> k, k, t)"
  define nd where "nd = int (zprevsize (254 \<le> k)) - int (zprevsize l)"
  have ok: "entok d" "\<forall>x \<in> set r. entok x" "pl < 2 ^ 32" using assms(4,5) by (auto simp: pl_def d_def consistent_append)
  have bound: "11 + length ?a + k + zbound (d # r) < 2 ^ 32"
    using assms(6) length_zents_le [of As] rawlen_le_zbound [of new "d # r"] by (simp add: k_def)
  have k: "k < 2 ^ 32" using bound by linarith
  have d'ok: "entok d'" using ok(1) k by (simp add: d_def d'_def)
  have len: "11 + length ?a + k + length (zents (d' # r)) < 2 ^ 32"
    using bound length_zents_le [of "d' # r"] by (simp add: d_def d'_def)
  define T where "T = 10 + length ?a + tailpos (d # r)"
  have zl: "?zl = zl_blob (11 + length ?a + length (zents (d # r))) T m (?a @ ent d @ zents r @ [255])"
    using zl_of_shifts [of "d # r" m "[]" As] by (simp add: zl_of_def T_def)
  have nb: "ZIPLIST_BYTES e ?zl = Some (11 + length ?a + length (zents (d # r)))"
    unfolding zl using bound length_zents_le [of "d # r"] by (intro zl_bytes) linarith
  have pl: "insert_prevlen e ?zl ?p = Some pl"
    unfolding pl_def by (rule insert_prevlen_spec) (use assms(4-6) rawlen_le_zbound [of new "d # r"] in simp_all)
  obtain rr where r: "zipTryEncoding s (length s) = Some rr" by (simp add: zipTryEncoding_zval)
  obtain val enc where ve: "(val, enc) = (case rr of Some ve \<Rightarrow> ve | None \<Rightarrow> (123456789, 0))" by (metis surj_pair)
  obtain b where b: "mem_byte ?zl ?p = Some b" "b \<noteq> 255"
    using byte_ent [OF refl ok(1)] unfolding zl by blast
  have kk: "length (zpay s) + zprevsize (254 \<le> pl) + length (zhdr s) = k" by (simp add: new_def k_def)
  have diff: "zipPrevLenByteDiff e ?zl ?p k = Some nd"
    using decode_prevlensize [OF refl, of l n _ T m ?a "zhdr t @ zpay t @ zents r @ [255]"] ok(1)
    unfolding zl zipPrevLenByteDiff_def zipPrevEncodeLength_zprev [OF k] by (simp add: d_def nd_def)
  have rd': "int (rawlen d') = int (rawlen d) + nd" by (simp add: d_def d'_def nd_def)
  have safe: "zprevsize l \<le> k + zprevsize (254 \<le> k)" using assms(8) by (auto simp: k_def [symmetric] zprevsize_def)
  define K where "K = length ?a + k + length (zents (d' # r))"
  obtain z where z: "ziplistResize e g ?zl (int (11 + length ?a + length (zents (d # r))) + int k + nd) =
       Some (zl_blob (11 + K) T m ((?a @ ent d @ zents r) @ z @ [255]))"
     and lz: "length ((?a @ ent d @ zents r) @ z) = K"
    using ziplistResize_grow [of "?a @ ent d @ zents r @ [255]" "?a @ ent d @ zents r" K
        "int (11 + length ?a + length (zents (d # r))) + int k + nd" e g "11 + length ?a + length (zents (d # r))" T m]
      len safe rd' unfolding zl K_def by (auto simp: d_def d'_def)
  have lz': "length z + zprevsize l = k + zprevsize (254 \<le> k)" using lz safe by (simp add: K_def d_def d'_def)
  obtain G where G: "length G = k" and mv: "insert_move e (zl_blob (11 + K) T m ((?a @ ent d @ zents r) @ z @ [255])) ?p
       (11 + length ?a + length (zents (d # r))) k nd = Some (zl_of m (?a @ G) (d' # r))"
    using insert_move_spec [of l n t z k ?a r nd T "11 + K" e m] ok bound lz' nd_def T_def rawlen_pos [of new]
    unfolding d_def [symmetric] d'_def [symmetric] by (auto simp: K_def k_def [symmetric] add.assoc)
  have r0: "consistent (rawlen d) r" using assms(4) by (simp add: d_def consistent_append)
  have ca: "(if nd \<noteq> 0 then us_ziplistCascadeUpdate e g (zl_of m (?a @ G) (d' # r)) (?p + k) else Some (zl_of m (?a @ G) (d' # r))) =
      Some (zl_of m (?a @ G) (d' # casc (rawlen d') r))"
  proof (rule cascade_if)
    show "\<forall>x \<in> set (d' # r). entok x" using ok d'ok by simp
    show "11 + length (?a @ G) + zbound (d' # r) < 2 ^ 32" using bound G by (simp add: d_def d'_def)
    show "?p + k = 10 + length (?a @ G)" using G by simp
    show "consistent (rawlen d') r" if "nd = 0" using r0 rd' that by simp
  qed
  have wr: "insert_write e (zl_of m (?a @ G) (d' # casc (rawlen d') r)) ?p pl val enc s (length s) =
      Some (zl_of m ?a (new # d' # casc (rawlen d') r))"
    using insert_write_of [OF _ ok(3) _ r ve, of G "d' # casc (rawlen d') r" e m ?a] G by (simp add: new_def k_def)
  have res: "zl_of i ?a (new # d' # casc (rawlen d') r) = zl_of i [] (As @ new # relink k (d # r))" for i
    using zl_of_shifts [of "new # d' # casc (rawlen d') r" i "[]" As] by (simp add: d_def d'_def)
  show ?thesis
    unfolding us_ziplistInsert_def nb pl r bind.bind_lunit ve [symmetric] Let_def split_conv b(1) zreq_length [OF r ve]
      zipPrevEncodeLength_zprev [OF ok(3)] length_zprev kk ZIP_END_def diff if_P [OF b(2)] z mv ca wr incr_length_of [OF assms(7)] res
    by (simp add: k_def)
qed

text \<open>In that case, with a new entry of two bytes, the block has lost two bytes of its last entry before the move,
  which then reads past its end.\<close>

lemma ziplistInsert_overread:
  fixes s As n t r
  defines "pl \<equiv> lastlen 0 As"
  defines "new \<equiv> (254 \<le> pl, pl, s)" and "d \<equiv> (True, n, t)"
  assumes "consistent 0 (As @ d # r)" and "\<forall>x \<in> set (As @ d # r). entok x" and "11 + zbound (As @ new # d # r) < 2 ^ 32"
    and "rawlen new = 2"
  shows "us_ziplistInsert e g (zl_of m [] (As @ d # r)) (10 + length (zents As)) s (length s) = None"
proof -
  let ?a = "zents As"
  let ?p = "10 + length ?a"
  let ?zl = "zl_of m [] (As @ d # r)"
  have ok: "entok d" "\<forall>x \<in> set r. entok x" "pl < 2 ^ 32" using assms(4,5) by (auto simp: pl_def d_def consistent_append)
  have bound: "11 + length ?a + 2 + zbound (d # r) < 2 ^ 32"
    using assms(6,7) length_zents_le [of As] rawlen_le_zbound [of new "d # r"] by simp
  define T where "T = 10 + length ?a + tailpos (d # r)"
  define N where "N = length (zents (d # r))"
  have N: "6 \<le> N" using zhdr_nonempty [of t] by (cases "zhdr t") (simp_all add: N_def d_def zprevsize_def)
  have NB: "N \<le> zbound (d # r)" unfolding N_def by (rule length_zents_le)
  have zl: "?zl = zl_blob (11 + length ?a + N) T m (?a @ zents (d # r) @ [255])"
    using zl_of_shifts [of "d # r" m "[]" As] by (simp add: zl_of_def T_def N_def)
  have nb: "ZIPLIST_BYTES e ?zl = Some (11 + length ?a + N)"
    unfolding zl using bound length_zents_le [of "d # r"] by (intro zl_bytes) (simp add: N_def)
  have pl: "insert_prevlen e ?zl ?p = Some pl"
    unfolding pl_def by (rule insert_prevlen_spec) (use assms(4-6) rawlen_le_zbound [of new "d # r"] in simp_all)
  obtain rr where r: "zipTryEncoding s (length s) = Some rr" by (simp add: zipTryEncoding_zval)
  obtain val enc where ve: "(val, enc) = (case rr of Some ve \<Rightarrow> ve | None \<Rightarrow> (123456789, 0))" by (metis surj_pair)
  have b: "mem_byte ?zl ?p = Some 254"
    unfolding zl using zl_byte_mid [OF refl, of _ _ m ?a 254] by (simp add: d_def zprev_def)
  have kk: "length (zpay s) + zprevsize (254 \<le> pl) + length (zhdr s) = 2" using assms(7) by (simp add: new_def)
  have diff: "zipPrevLenByteDiff e ?zl ?p 2 = Some (- 4)"
    using decode_prevlensize [OF refl, of True n _ T m ?a "zhdr t @ zpay t @ zents r @ [255]"] zipPrevEncodeLength_zprev [of 2 e]
    unfolding zl zipPrevLenByteDiff_def by (simp add: d_def zprevsize_def)
  obtain N' where N': "N = N' + 6" using N by (metis le_add_diff_inverse2)
  define y where "y = take (length ?a + (N' + 4)) (?a @ zents (d # r) @ [255])"
  have len: "length (?a @ zents (d # r) @ [255]) = Suc (length ?a + (N' + 4)) + 2" unfolding length_append N_def [symmetric] N' by simp
  have z: "ziplistResize e g ?zl (int (11 + length ?a + N) + int 2 + - 4) = Some (zl_blob (11 + (length ?a + (N' + 4))) T m (y @ [255]))"
    unfolding zl y_def by (rule ziplistResize_shrink [OF len]) (use N' bound NB in simp_all)
  obtain w where y: "y = ?a @ 254 # w"
    by (simp add: y_def d_def zprev_def take_Cons')
  have ly: "length y = length ?a + (N' + 4)" using len by (simp add: y_def)
  have b2: "mem_byte (zl_blob B T m (y @ [255])) ?p = Some 254" for B
    unfolding y using zl_byte_mid [OF refl, of B T m ?a 254] by simp
  have "insert_move e (zl_blob (11 + (length ?a + (N' + 4))) T m (y @ [255])) ?p (11 + length ?a + N) 2 (- 4) = None"
  proof -
    have src: "nat (int ?p - - 4) = ?p + 4" and cnt: "nat (int (11 + length ?a + N) - int ?p - 1 + - 4) = N' + 2"
      using N' by simp_all
    have "memmove (zl_blob (11 + (length ?a + (N' + 4))) T m (y @ [255])) (?p + 2) (?p + 4) (N' + 2) = None"
      using ly by (simp add: memmove_def mem_read_def)
    then show ?thesis unfolding insert_move_def b2 src cnt by (simp add: ZIP_END_def)
  qed
  then show ?thesis
    unfolding us_ziplistInsert_def nb pl r bind.bind_lunit ve [symmetric] Let_def split_conv b zreq_length [OF r ve]
      zipPrevEncodeLength_zprev [OF ok(3)] length_zprev kk ZIP_END_def by (simp add: diff z [simplified])
qed

section \<open>Deletion\<close>

lemma delete_loop_spec:
  assumes "\<forall>x \<in> set D. entok x" and "p = 10 + length a" and "c = [255] \<and> length D \<le> num \<or> c \<noteq> [] \<and> num = length D"
  shows "delete_loop (zl_blob B T m (a @ zents D @ c)) p k num = Some (p + length (zents D), k + length D)"
  using assms
proof (induction D arbitrary: a p k num)
  case Nil
  then obtain x xs where c: "c = x # xs" by (cases c) auto
  have "mem_byte (zl_blob B T m (a @ c)) p = Some x" using zl_byte_mid [OF Nil.prems(2)] c by simp
  with Nil.prems(3) c show ?case by (cases num) (auto simp: ZIP_END_def)
next
  case (Cons x D)
  then obtain num' where num: "num = Suc num'" by (cases num) auto
  have x: "entok x" using Cons.prems(1) by simp
  obtain b where b: "mem_byte (zl_blob B T m (a @ ent x @ zents D @ c)) p = Some b" "b \<noteq> 255"
    using byte_ent [OF Cons.prems(2) x] by blast
  have l: "zipRawEntryLength (zl_blob B T m (a @ ent x @ zents D @ c)) p = Some (rawlen x)"
    by (rule zipRaw_ent [OF Cons.prems(2) x])
  have "delete_loop (zl_blob B T m ((a @ ent x) @ zents D @ c)) (p + rawlen x) (k + 1) num' =
      Some (p + rawlen x + length (zents D), k + 1 + length D)"
    by (rule Cons.IH) (use Cons.prems num in auto)
  with b l num show ?case by (simp add: ZIP_END_def)
qed

lemma zl_move_down:
  "\<exists>V. length V = length U + 1 \<and>
     memmove (zl_blob B T m (a @ U @ W @ [255])) (10 + length a) (10 + length a + length U) (length W) = Some (zl_blob B T m (a @ W @ V))"
proof -
  let ?b = "zl_blob B T m a"
  let ?x = "U @ W @ [255]"
  have "memmove (?b @ ?x) (length ?b) (length ?b + length U) (length W) = Some (?b @ W @ drop (length W) ?x)"
    by (subst memmove_Some) (simp_all del: length_zl_blob)
  then show ?thesis by (intro exI [of _ "drop (length W) ?x"]) (simp add: zl_blob_append del: drop_append)
qed

text \<open>The update of the entry \<open>d\<close> behind the deleted entries \<open>D\<close>.\<close>

lemma delete_move_spec:
  fixes l n t pl
  defines "d \<equiv> (l, n, t)" and "d' \<equiv> (254 \<le> pl, pl, t)"
  assumes "entok d" and "\<forall>x \<in> set r. entok x" and "pl < 2 ^ 32" and "254 \<le> pl \<longrightarrow> 4 \<le> length (zents D)"
    and "11 + length a + length (zents D) + zbound (d # r) < 2 ^ 32"
    and "nd = int (zprevsize (254 \<le> pl)) - int (zprevsize l)"
    and "T = 10 + length a + length (zents D) + tailpos (d # r)" and "B = 11 + length a + length (zents D) + length (zents (d # r))"
    and "entry_p first = 10 + length a" and "prevrawlen first = pl"
  shows "\<exists>V. int (length V) = int (length (zents D)) - nd + 1 \<and>
     delete_move e (zl_blob B T m (a @ zents D @ zents (d # r) @ [255])) (10 + length a + length (zents D)) first (length (zents D)) =
       Some (zl_blob B (10 + length a + tailpos (d' # r)) m (a @ zents (d' # r) @ V), nd)"
proof -
  let ?D = "zents D"
  let ?p = "10 + length a + length ?D" and ?R = "zhdr t @ zpay t @ zents r @ [255]" and ?new = "zprev (254 \<le> pl) pl"
  let ?zl = "zl_blob B T m (a @ ?D @ zents (d # r) @ [255])"
  have d': "entok d'" using assms(3,5) by (simp add: d_def d'_def)
  obtain b where b: "mem_byte ?zl ?p = Some b" "b \<noteq> 255"
    using byte_ent [of ?p "a @ ?D" d B T m "zents r @ [255]"] assms(3) by auto
  have diff: "zipPrevLenByteDiff e ?zl ?p pl = Some nd"
    using decode_prevlensize [of ?p "a @ ?D" l n B T m ?R] assms(3)
    unfolding zipPrevLenByteDiff_def zipPrevEncodeLength_zprev [OF assms(5)] by (simp add: d_def assms(8))
  define u where "u = nat (int (length ?D) - nd)"
  have u: "int u = int (length ?D) - nd" using assms(6,8) by (auto simp: u_def zprevsize_def)
  have uq: "u + zprevsize (254 \<le> pl) = length ?D + zprevsize l" using u assms(8) by simp
  define U where "U = take u (?D @ zprev l n)"
  define V where "V = drop u (?D @ zprev l n)"
  have UV: "?D @ zprev l n = U @ V" unfolding U_def V_def by (rule append_take_drop_id [symmetric])
  have lU: "length U = u" and lV: "length V = zprevsize (254 \<le> pl)"
    using uq by (simp_all add: U_def V_def del: take_append drop_append)
  have q: "nat (int ?p - nd) = 10 + length a + u" using u by simp
  let ?W = "zents (d' # r)"
  have wr: "mem_write ?zl (10 + length a + u) ?new = Some (zl_blob B T m (a @ U @ ?W @ [255]))"
    using zl_write_mid [of "10 + length a + u" "a @ U" ?new V B T m ?R] UV lU lV by (simp add: d_def d'_def) (metis append_assoc)
  have T: "T < 2 ^ 32" and B: "B < 2 ^ 32"
    using assms(7,9,10) tailpos_le [of "d # r"] length_zents_le [of "d # r"] by simp_all
  define T1 where "T1 = 10 + length a + tailpos (d # r)"
  have T1: "T1 < 2 ^ 32" using T assms(9) by (simp add: T1_def)
  have st: "set_tail e (zl_blob B T m x) (int T - int (length ?D)) = Some (zl_blob B T1 m x)" for x
    by (rule zl_set_tail_nat) (use T1 assms(9) in \<open>simp_all add: T1_def\<close>)
  let ?z2 = "zl_blob B T1 m (a @ U @ ?W @ [255])"
  have e2: "zipEntry e ?z2 (10 + length a + u) = Some (zentry_of (10 + length a + u) d')"
    using zipEntry_ent [of "10 + length a + u" "a @ U" d' e B T1 m "zents r @ [255]"] d' lU by simp
  have hl: "10 + length a + u + headersize (zentry_of (10 + length a + u) d') + len (zentry_of (10 + length a + u) d') = 10 + length a + u + rawlen d'"
    by (simp add: d'_def)
  define T2 where "T2 = 10 + length a + tailpos (d' # r)"
  have Bd: "int B = int (11 + length a + u + length ?W)" using u assms(10) by (simp add: d_def d'_def assms(8))
  have "\<exists>b. mem_byte ?z2 (10 + length a + u + rawlen d') = Some b \<and>
      (if b \<noteq> 255 then set_tail e ?z2 (int T1 + nd) else Some ?z2) = Some (zl_blob B T2 m (a @ U @ ?W @ [255]))"
  proof (cases r)
    case Nil
    then show ?thesis using byte_end [of "10 + length a + u + rawlen d'" "a @ U @ ent d'" B T1 m] lU
      by (simp add: T1_def T2_def)
  next
    case (Cons x xs)
    obtain b where b: "mem_byte ?z2 (10 + length a + u + rawlen d') = Some b" "b \<noteq> 255"
      using byte_ent [of "10 + length a + u + rawlen d'" "a @ U @ ent d'" x B T1 m "zents xs @ [255]"] lU assms(4) Cons by auto
    have "set_tail e ?z2 (int T1 + nd) = Some (zl_blob B T2 m (a @ U @ ?W @ [255]))"
    proof (rule zl_set_tail_nat)
      show "int T1 + nd = int T2" using Cons by (simp add: T1_def T2_def d_def d'_def assms(8))
      show "T2 < 2 ^ 32" using Bd B tailpos_le [of "d' # r"] unfolding T2_def by linarith
    qed
    with b show ?thesis by simp
  qed
  then obtain b2 where b2: "mem_byte ?z2 (10 + length a + u + rawlen d') = Some b2"
    "(if b2 \<noteq> 255 then set_tail e ?z2 (int T1 + nd) else Some ?z2) = Some (zl_blob B T2 m (a @ U @ ?W @ [255]))" by blast
  obtain X where X: "length X = u + 1" and mv: "memmove (zl_blob B T2 m (a @ U @ ?W @ [255])) (10 + length a) (10 + length a + u) (length ?W) =
      Some (zl_blob B T2 m (a @ ?W @ X))"
    using zl_move_down [of U B T2 m a ?W] lU by auto
  have cnt: "B - (10 + length a + u) - 1 = length ?W" using Bd by linarith
  have "delete_move e ?zl ?p first (length ?D) = Some (zl_blob B T2 m (a @ ?W @ X), nd)"
    unfolding delete_move_def b(1) bind.bind_lunit assms(11,12) diff Let_def q zipPrevEncodeLength_zprev [OF assms(5)] wr zl_tail [OF T] st e2 hl b2(1)
      zl_tail [OF T1] ZIP_END_def b2(2) zl_bytes [OF B] cnt mv if_P [OF b(2)] ..
  moreover have "int (length X) = int (length ?D) - nd + 1" using X u by simp
  ultimately show ?thesis unfolding T2_def by blast
qed

lemma tailpos_lastlen:
  assumes "consistent 0 As"
  shows "int (10 + length (zents As)) - int (lastlen 0 As) = int (10 + tailpos As)"
  by (cases As rule: rev_cases) (simp_all add: lastlen_append tailpos_snoc)

text \<open>The parts of a deletion that do not depend on what is behind the deleted entries.\<close>

lemma delete_start:
  fixes As D ds m
  defines "zl \<equiv> zl_of m [] (As @ D @ ds)"
  assumes "consistent 0 (As @ D @ ds)" and "\<forall>x \<in> set (As @ D @ ds). entok x" and "D \<noteq> []"
    and "ds = [] \<and> length D \<le> num \<or> num = length D"
  shows "\<exists>first. zipEntry e zl (10 + length (zents As)) = Some first \<and> entry_p first = 10 + length (zents As) \<and>
           prevrawlen first = lastlen 0 As" (is ?first)
    and "delete_loop zl (10 + length (zents As)) 0 num = Some (10 + length (zents As) + length (zents D), length D)" (is ?loop)
    and "254 \<le> lastlen 0 As \<longrightarrow> 4 \<le> length (zents D)" (is ?room) and "0 < length (zents D)"
proof -
  obtain x D' where D: "D = x # D'" using assms(4) by (cases D) auto
  obtain l n s where x: "x = (l, n, s)" by (cases x)
  obtain B T where zl: "zl = zl_blob B T m (zents As @ zents D @ zents ds @ [255])" by (auto simp: zl_def zl_of_def)
  have n: "n = lastlen 0 As" "\<not> l \<longrightarrow> n < 254" using assms(2) by (auto simp: D x consistent_append)
  show ?first
    using zipEntry_ent [OF refl, of x e B T m "zents As" "zents D' @ zents ds @ [255]"] assms(3) n(1) unfolding zl by (simp add: D x)
  show ?loop
    using delete_loop_spec [OF _ refl, of D "zents ds @ [255]" num B T m "zents As" 0] assms(3,5) unfolding zl by auto
  show ?room using n by (auto simp: D x zprevsize_def)
  show "0 < length (zents D)" by (simp add: D)
qed

theorem ziplistDelete_spec:
  fixes As D ds m
  assumes "consistent 0 (As @ D @ ds)" and "\<forall>x \<in> set (As @ D @ ds). entok x" and "11 + zbound (As @ D @ ds) < 2 ^ 32" and "D \<noteq> []"
    and "ds = [] \<and> length D \<le> num \<or> num = length D" and "m < 2 ^ 16"
  shows "us_ziplistDelete e g (zl_of m [] (As @ D @ ds)) (10 + length (zents As)) num =
           Some (zl_of (zincr m (- int (length D))) [] (As @ relink (lastlen 0 As) ds))"
proof -
  let ?a = "zents As" and ?D = "zents D" and ?pl = "lastlen 0 As"
  let ?zl = "zl_of m [] (As @ D @ ds)"
  note start = delete_start [OF assms(1,2,4,5)]
  obtain first where f: "zipEntry e ?zl (10 + length ?a) = Some first" "entry_p first = 10 + length ?a" "prevrawlen first = ?pl"
    using start(1) by blast
  have cons: "consistent 0 As" "consistent (lastlen ?pl D) ds" using assms(1) by (simp_all add: consistent_append)
  have la: "length ?a \<le> zbound As" "length ?D \<le> zbound D" by (rule length_zents_le)+
  show ?thesis
  proof (cases ds)
    case Nil
    let ?B = "11 + length ?a + length ?D"
    obtain T where zl: "?zl = zl_blob ?B T m (?a @ ?D @ [255])" by (auto simp: zl_of_def Nil add.assoc)
    have B: "?B < 2 ^ 32" using assms(3) la Nil by simp
    have b: "mem_byte ?zl (10 + length ?a + length ?D) = Some 255"
      using byte_end [of "10 + length ?a + length ?D" "?a @ ?D" ?B T m] unfolding zl by simp
    have st: "set_tail e ?zl (int (10 + length ?a) - int ?pl) = Some (zl_blob ?B (10 + tailpos As) m (?a @ ?D @ [255]))"
      unfolding zl tailpos_lastlen [OF cons(1)] by (rule zl_set_tail_nat) (use B tailpos_le [of As] in simp_all)
    have mv: "delete_move e ?zl (10 + length ?a + length ?D) first (length ?D) = Some (zl_blob ?B (10 + tailpos As) m (?a @ ?D @ [255]), 0)"
      unfolding delete_move_def b bind.bind_lunit f st by (simp add: ZIP_END_def)
    have rs: "ziplistResize e g (zl_blob ?B (10 + tailpos As) m (?a @ ?D @ [255])) (int ?B - int (length ?D) + 0) = Some (zl_of m [] As)"
      using ziplistResize_shrink [of "?a @ ?D @ [255]" "length ?a" "length ?D" "int ?B - int (length ?D) + 0" e g ?B "10 + tailpos As" m] B
      by (simp add: zl_of_def)
    show ?thesis
      unfolding us_ziplistDelete_def f(1) bind.bind_lunit start(2) split_conv f(2) add_diff_cancel_left' Let_def if_P [OF start(4)] mv
        zl_bytes [OF B] rs incr_length_of [OF assms(6)] by (simp add: Nil)
  next
    case (Cons d r)
    obtain l n t where d: "d = (l, n, t)" by (cases d)
    define d' where "d' = (254 \<le> ?pl, ?pl, t)"
    define nd where "nd = int (zprevsize (254 \<le> ?pl)) - int (zprevsize l)"
    let ?B = "11 + length ?a + length ?D + length (zents (d # r))"
    let ?T = "10 + length ?a + length ?D + tailpos (d # r)"
    have zl: "?zl = zl_blob ?B ?T m (?a @ ?D @ zents (d # r) @ [255])"
      using zl_of_shifts [of "d # r" m "[]" "As @ D"] by (simp add: zl_of_def Cons add.assoc)
    have bound: "11 + length ?a + length ?D + zbound (d # r) < 2 ^ 32" using assms(3) la Cons by simp
    have B: "?B < 2 ^ 32" using bound length_zents_le [of "d # r"] by linarith
    have ok: "entok d" "\<forall>x \<in> set r. entok x" using assms(2) Cons by simp_all
    obtain x D' where D: "D = x # D'" using assms(4) by (cases D) auto
    have pl: "?pl < 2 ^ 32" using assms(1,2) D by (cases x) (auto simp: consistent_append)
    obtain V where V: "int (length V) = int (length ?D) - nd + 1" and
      mv: "delete_move e ?zl (10 + length ?a + length ?D) first (length ?D) = Some (zl_blob ?B (10 + length ?a + tailpos (d' # r)) m (?a @ zents (d' # r) @ V), nd)"
      using delete_move_spec [where l = l and n = n and t = t and pl = ?pl and D = D and a = ?a and r = r and nd = nd and e = e and m = m,
          OF _ ok(2) pl start(3) _ nd_def refl refl f(2,3)] ok(1) bound
      unfolding zl d d'_def by blast
    have rd': "int (rawlen d') = int (rawlen d) + nd" by (simp add: d d'_def nd_def)
    have L': "11 + (length ?a + length (zents (d' # r))) < 2 ^ 32" using bound length_zents_le [of "d' # r"] by (simp add: d d'_def)
    have rs: "ziplistResize e g (zl_blob ?B (10 + length ?a + tailpos (d' # r)) m (?a @ zents (d' # r) @ V)) (int ?B - int (length ?D) + nd) = Some (zl_of m ?a (d' # r))"
    proof -
      have "length V \<noteq> 0" using V start(3,4) unfolding nd_def by (auto simp: zprevsize_def split: if_splits)
      then have len: "length (?a @ zents (d' # r) @ V) = Suc (length ?a + length (zents (d' # r))) + (length V - 1)" by simp
      have "int ?B - int (length ?D) + nd = int (11 + (length ?a + length (zents (d' # r))))" using rd' by simp
      from ziplistResize_shrink [OF len L' this, of e g ?B "10 + length ?a + tailpos (d' # r)" m] show ?thesis
        by (simp add: zl_of_def add.assoc)
    qed
    have r0: "consistent (rawlen d) r" using cons(2) by (simp add: Cons d)
    have ca: "(if nd \<noteq> 0 then us_ziplistCascadeUpdate e g (zl_of i ?a (d' # r)) (10 + length ?a) else Some (zl_of i ?a (d' # r))) =
        Some (zl_of i ?a (d' # casc (rawlen d') r))" for i
    proof (rule cascade_if)
      show "\<forall>x \<in> set (d' # r). entok x" using ok pl by (simp add: d d'_def)
      show "11 + length ?a + zbound (d' # r) < 2 ^ 32" using bound by (simp add: d d'_def)
      show "consistent (rawlen d') r" if "nd = 0" using r0 rd' that by simp
    qed simp
    have res: "zl_of i ?a (d' # casc (rawlen d') r) = zl_of i [] (As @ relink ?pl ds)" for i
      using zl_of_shifts [of "d' # casc (rawlen d') r" i "[]" As] by (simp add: d d'_def Cons)
    show ?thesis
      unfolding us_ziplistDelete_def f(1) bind.bind_lunit start(2) split_conv f(2) add_diff_cancel_left' Let_def if_P [OF start(4)] mv
        zl_bytes [OF B] rs incr_length_of [OF assms(6)] ca res ..
  qed
qed

end
