(* ===== verification/Ziplist_Seq.thy ===== *)
theory Ziplist_Seq
  imports Ziplist_Ops
begin

text \<open>
  Ziplists as sequences of strings. \<open>zl_rep\<close> relates a block to the list of strings it stores; a string
  that is the decimal notation of a 64-bit integer is stored in binary and read back as the same string. The
  block satisfies the contract of a sequence changed at its ends (\<open>Seq_Spec.ends\<close>). Insertion in the middle
  is right except in the case proved here to read past the end of the block.
\<close>

section \<open>The representation\<close>

definition zl_inv :: "zent list \<Rightarrow> bool" where
  "zl_inv es \<longleftrightarrow> consistent 0 es \<and> (es \<noteq> [] \<longrightarrow> \<not> fst (hd es))"

text \<open>The length field is exact, or saturated.\<close>

definition count_ok :: "nat \<Rightarrow> nat \<Rightarrow> bool" where
  "count_ok m n \<longleftrightarrow> m = n \<and> n < UINT16_MAX \<or> m = UINT16_MAX"

definition zl_rep :: "bytes \<Rightarrow> bytes list \<Rightarrow> bool" where
  "zl_rep zl xs \<longleftrightarrow> (\<exists>m es. zl = zl_of m [] es \<and> map zstr es = xs \<and> zl_inv es \<and> count_ok m (length es))"

text \<open>The strings fit if the block stays below 4 GiB even when every length field takes five bytes.\<close>

definition zl_fits :: "bytes list \<Rightarrow> bool" where
  "zl_fits xs \<longleftrightarrow> 11 + (\<Sum>s \<leftarrow> xs. 5 + length (zhdr s) + length (zpay s)) < 2 ^ 32"

lemma zbound_strs_sum: "zbound es = (\<Sum>s \<leftarrow> map zstr es. 5 + length (zhdr s) + length (zpay s))"
  unfolding zbound_def by (induction es) (auto simp: zstr_def)

lemma zl_fits_bound: "zl_fits (map zstr es) \<longleftrightarrow> 11 + zbound es < 2 ^ 32"
  by (simp add: zl_fits_def zbound_strs_sum)

lemma count_ok_bound: "count_ok m n \<Longrightarrow> m < 2 ^ 16"
  by (auto simp: count_ok_def UINT16_MAX_def)

lemma count_ok_incr: "count_ok m n \<Longrightarrow> count_ok (zincr m 1) (n + 1)"
  by (auto simp: count_ok_def UINT16_MAX_def zincr_def nat_add_distrib)

lemma count_ok_decr: "count_ok m n \<Longrightarrow> k \<le> n \<Longrightarrow> count_ok (zincr m (- int k)) (n - k)"
  by (auto simp: count_ok_def UINT16_MAX_def zincr_def nat_diff_distrib)

lemma fits_entok:
  assumes "consistent 0 es" and "11 + zbound es < 2 ^ 32"
  shows "\<forall>x \<in> set es. entok x"
proof (rule consistent_entok [OF assms(1)])
  show "0 + zbound es < 2 ^ 32" using assms(2) by simp
  show "\<forall>x \<in> set es. length (zstr x) < 2 ^ 32"
  proof
    fix x assume "x \<in> set es"
    then have "length (zpay (zstr x)) \<le> zbound es"
      unfolding zbound_strs_sum by (induction es) auto
    with assms(2) have "length (zpay (zstr x)) < 2 ^ 32" by linarith
    then show "length (zstr x) < 2 ^ 32" by (rule zpay_length)
  qed
qed

lemma entok_self:
  assumes "\<forall>x \<in> set es. entok x" and "consistent k es"
  shows "consistent j (relink j es)"
  using relink_consistent [OF consistent_self [OF assms(2)] assms(1)] .

lemma length_relink [simp]: "length (relink k es) = length es"
  using relink_strs [of k es] by (metis length_map)

lemma zl_rep_new: "ziplistNew e g = Some (zl_of 0 [] [])" "zl_rep (zl_of 0 [] []) []"
  by (auto simp: ziplistNew_spec zl_of_def zl_rep_def zl_inv_def count_ok_def UINT16_MAX_def)

section \<open>The operations\<close>

text \<open>Insertion at a position, on the entries.\<close>

lemma insert_rep:
  fixes As ds s
  defines "pl \<equiv> lastlen 0 As"
  defines "es \<equiv> As @ (254 \<le> pl, pl, s) # relink (rawlen (254 \<le> pl, pl, s)) ds"
  assumes "zl_inv (As @ ds)" and "count_ok m (length (As @ ds))" and "zl_fits (map zstr As @ s # map zstr ds)"
    and "ds \<noteq> [] \<longrightarrow> fst (hd ds) \<longrightarrow> 4 \<le> rawlen (254 \<le> pl, pl, s)"
  shows "us_ziplistInsert e g (zl_of m [] (As @ ds)) (10 + length (zents As)) s (length s) = Some (zl_of (zincr m 1) [] es)"
    and "zl_rep (zl_of (zincr m 1) [] es) (map zstr As @ s # map zstr ds)"
proof -
  let ?new = "(254 \<le> pl, pl, s)"
  have cons: "consistent 0 (As @ ds)" using assms(3) by (simp add: zl_inv_def)
  have b: "11 + zbound (As @ ?new # ds) < 2 ^ 32" using zl_fits_bound [of "As @ ?new # ds"] assms(5) by simp
  have ok: "\<forall>x \<in> set (As @ ds). entok x" using fits_entok [OF cons] b by simp
  have m: "m < 2 ^ 16" using assms(4) by (rule count_ok_bound)
  show "us_ziplistInsert e g (zl_of m [] (As @ ds)) (10 + length (zents As)) s (length s) = Some (zl_of (zincr m 1) [] es)"
  proof (cases ds)
    case Nil
    have "pl < 2 ^ 32"
    proof (cases As rule: rev_cases)
      case (snoc Bs x)
      then have "pl \<le> zbound (As @ ds)" using rawlen_le_zbound [of x "[]"] by (simp add: pl_def lastlen_append Nil)
      with b show ?thesis by simp
    qed (simp add: pl_def)
    then show ?thesis
      using ziplistInsert_tail [of As s m e g] cons ok b m Nil by (auto simp: es_def pl_def)
  next
    case (Cons d r)
    then show ?thesis
      using ziplistInsert_before [of As "fst d" "fst (snd d)" "snd (snd d)" r s m e g] cons ok b m assms(6) by (auto simp: es_def pl_def)
  qed
  have self: "consistent k (relink k ds)" for k using entok_self [of ds] ok cons by (auto simp: consistent_append)
  have "consistent 0 es" using cons self by (simp add: es_def consistent_append pl_def)
  moreover have "\<not> fst (hd es)" using assms(3) by (cases As) (auto simp: es_def zl_inv_def pl_def)
  moreover have "length es = length (As @ ds) + 1" by (simp add: es_def)
  ultimately show "zl_rep (zl_of (zincr m 1) [] es) (map zstr As @ s # map zstr ds)"
    using count_ok_incr [OF assms(4)] unfolding zl_rep_def zl_inv_def
    by (intro exI [of _ "zincr m 1"] exI [of _ es]) (simp add: es_def)
qed

lemma delete_rep:
  fixes As D ds
  defines "es \<equiv> As @ relink (lastlen 0 As) ds"
  assumes "zl_inv (As @ D @ ds)" and "count_ok m (length (As @ D @ ds))" and "zl_fits (map zstr (As @ D @ ds))" and "D \<noteq> []"
    and "ds = [] \<and> length D \<le> num \<or> num = length D"
  shows "us_ziplistDelete e g (zl_of m [] (As @ D @ ds)) (10 + length (zents As)) num = Some (zl_of (zincr m (- int (length D))) [] es)"
    and "zl_rep (zl_of (zincr m (- int (length D))) [] es) (map zstr (As @ ds))"
proof -
  have cons: "consistent 0 (As @ D @ ds)" using assms(2) by (simp add: zl_inv_def)
  have b: "11 + zbound (As @ D @ ds) < 2 ^ 32" using zl_fits_bound [of "As @ D @ ds"] assms(4) by simp
  have ok: "\<forall>x \<in> set (As @ D @ ds). entok x" using fits_entok [OF cons] b by simp
  show "us_ziplistDelete e g (zl_of m [] (As @ D @ ds)) (10 + length (zents As)) num = Some (zl_of (zincr m (- int (length D))) [] es)"
    unfolding es_def by (rule ziplistDelete_spec [OF cons ok b assms(5,6) count_ok_bound [OF assms(3)]])
  have self: "consistent k (relink k ds)" for k using entok_self [of ds] ok cons by (auto simp: consistent_append)
  have "consistent 0 es" using cons self by (simp add: es_def consistent_append)
  moreover have "es \<noteq> [] \<longrightarrow> \<not> fst (hd es)"
  proof (cases As)
    case Nil
    then show ?thesis by (cases "(lastlen 0 As, ds)" rule: relink.cases) (auto simp: es_def)
  qed (use assms(2) in \<open>auto simp: es_def zl_inv_def\<close>)
  moreover have "length es = length (As @ D @ ds) - length D" by (simp add: es_def)
  ultimately show "zl_rep (zl_of (zincr m (- int (length D))) [] es) (map zstr (As @ ds))"
    using count_ok_decr [OF assms(3), of "length D"] unfolding zl_rep_def zl_inv_def
    by (intro exI [of _ "zincr m (- int (length D))"] exI [of _ es]) (simp add: es_def)
qed

section \<open>Positions\<close>

text \<open>Reading at the position of an entry, and at the end.\<close>

lemma at_ent:
  fixes es m
  defines "zl \<equiv> zl_of m [] es"
  assumes "\<forall>x \<in> set es. entok x" and "es = As @ x # ds" and "p = 10 + length (zents As)"
  shows "\<exists>b. mem_byte zl p = Some b \<and> b \<noteq> ZIP_END" and "zipEntry e zl p = Some (zentry_of p x)" and "zipRawEntryLength zl p = Some (rawlen x)"
proof -
  obtain B T where zl: "zl = zl_blob B T m (zents As @ ent x @ zents ds @ [255])" by (auto simp: zl_def zl_of_def assms(3))
  have x: "entok x" using assms(2,3) by simp
  show "\<exists>b. mem_byte zl p = Some b \<and> b \<noteq> ZIP_END" using byte_ent [OF assms(4) x] unfolding zl ZIP_END_def by blast
  show "zipEntry e zl p = Some (zentry_of p x)" unfolding zl by (rule zipEntry_ent [OF assms(4) x])
  show "zipRawEntryLength zl p = Some (rawlen x)" unfolding zl by (rule zipRaw_ent [OF assms(4) x])
qed

lemma at_end: "p = 10 + length (zents es) \<Longrightarrow> mem_byte (zl_of m [] es) p = Some ZIP_END"
  unfolding zl_of_def ZIP_END_def append_Nil by (rule byte_end) simp

lemma index_forw_spec:
  assumes "\<forall>x \<in> set es. entok x" and "es = As @ ds" and "p = 10 + length (zents As)"
  shows "index_forw (zl_of m [] es) p (int i) =
     (if i < length ds then Some (10 + length (zents (As @ take i ds)), - 1) else Some (10 + length (zents es), int (i - length ds)))"
  using assms
proof (induction ds arbitrary: As p i)
  case Nil
  then show ?case using at_end [of p es m] by (subst index_forw.simps) simp
next
  case (Cons d ds)
  note at = at_ent [OF Cons.prems, where m = m]
  obtain b where b: "mem_byte (zl_of m [] es) p = Some b" "b \<noteq> ZIP_END" using at(1) by blast
  show ?case
  proof (cases i)
    case 0
    with b Cons.prems(3) show ?thesis by (subst index_forw.simps) simp
  next
    case (Suc j)
    have "index_forw (zl_of m [] es) (p + rawlen d) (int j) =
       (if j < length ds then Some (10 + length (zents ((As @ [d]) @ take j ds)), - 1) else Some (10 + length (zents es), int (j - length ds)))"
      by (rule Cons.IH) (use Cons.prems in simp_all)
    with b at(3) Suc show ?thesis by (subst index_forw.simps) simp
  qed
qed

lemma consistent_prev_pos: "consistent k (As @ (l, n, s) # ds) \<Longrightarrow> n = lastlen k As"
  by (simp add: consistent_append)

lemma index_back_spec:
  assumes "\<forall>x \<in> set es. entok x" and "es = As @ x # ds" and "consistent 0 es" and "p = 10 + length (zents As)"
  shows "index_back e (zl_of m [] es) p (zentry_of p x) (int i) =
     (if i < length As then Some (10 + length (zents (take (length As - i) As)), - 1)
      else Some (10, int (i - length As)))"
  using assms
proof (induction As arbitrary: x ds p i rule: rev_induct)
  case Nil
  then have "prevrawlen (zentry_of p x) = 0" using consistent_prev_pos [of 0 "[]"] by (cases x) auto
  with Nil show ?case by (subst index_back.simps) simp
next
  case (snoc y As)
  have pr: "prevrawlen (zentry_of p x) = rawlen y"
    using snoc.prems(2,3) consistent_prev_pos [of 0 "As @ [y]"] by (cases x) (auto simp: lastlen_append)
  show ?case
  proof (cases i)
    case 0
    with pr snoc.prems show ?thesis by (subst index_back.simps) simp
  next
    case (Suc j)
    have p': "p - rawlen y = 10 + length (zents As)" "rawlen y \<le> p" using snoc.prems(4) by simp_all
    have "index_back e (zl_of m [] es) (p - rawlen y) (zentry_of (p - rawlen y) y) (int j) =
       (if j < length As then Some (10 + length (zents (take (length As - j) As)), - 1) else Some (10, int (j - length As)))"
      by (rule snoc.IH) (use snoc.prems p' in simp_all)
    moreover have "zipEntry e (zl_of m [] es) (p - rawlen y) = Some (zentry_of (p - rawlen y) y)"
      by (rule at_ent(2) [OF snoc.prems(1)]) (use snoc.prems p' in simp_all)
    ultimately show ?thesis using pr p' Suc by (subst index_back.simps) simp
  qed
qed

lemma zl_tail_of: "11 + zbound es < 2 ^ 32 \<Longrightarrow> ZIPLIST_TAIL_OFFSET e (zl_of m [] es) = Some (10 + tailpos es)"
  using tailpos_le [of es] length_zents_le [of es] unfolding zl_of_def by (subst zl_tail) simp_all

theorem ziplistIndex_spec:
  assumes "consistent 0 es" and "11 + zbound es < 2 ^ 32"
  shows "ziplistIndex e (zl_of m [] es) i = Some (map_option (\<lambda>k. 10 + length (zents (take k es))) (position (length es) i))"
proof (cases "i < 0")
  case False
  note ok = fits_entok [OF assms]
  have "index_forw (zl_of m [] es) ZIPLIST_HEADER_SIZE i =
     (if nat i < length es then Some (10 + length (zents (take (nat i) es)), - 1) else Some (10 + length (zents es), int (nat i - length es)))"
    using index_forw_spec [OF ok, of "[]" es ZIPLIST_HEADER_SIZE m "nat i"] False by (simp add: ZIPLIST_HEADER_SIZE_def)
  moreover have "\<exists>b. mem_byte (zl_of m [] es) (10 + length (zents (take (nat i) es))) = Some b \<and> b \<noteq> ZIP_END" if "nat i < length es"
    by (rule at_ent(1) [OF ok, of "take (nat i) es" "es ! nat i" "drop (Suc (nat i)) es"]) (use that in \<open>simp_all add: id_take_nth_drop\<close>)
  ultimately show ?thesis using False at_end [OF refl, of m es]
    by (auto simp: ziplistIndex_def position_def)
next
  case True
  note ok = fits_entok [OF assms]
  define j where "j = nat (- i - 1)"
  have j: "- i - 1 = int j" "nat (- i) = Suc j" using True by (simp_all add: j_def)
  show ?thesis
  proof (cases es rule: rev_cases)
    case Nil
    then have "mem_byte (zl_of m [] es) (10 + tailpos es) = Some ZIP_END" using at_end [of "10 + tailpos es" es m] by simp
    then show ?thesis using True zl_tail_of [OF assms(2)] j Nil by (simp add: ziplistIndex_def position_def)
  next
    case (snoc Bs x)
    have tp: "10 + tailpos es = 10 + length (zents Bs)" by (simp add: snoc tailpos_snoc)
    obtain b where b: "mem_byte (zl_of m [] es) (10 + tailpos es) = Some b" "b \<noteq> ZIP_END"
      using at_ent(1) [OF ok _ tp, of x "[]" m] snoc by auto
    have en: "zipEntry e (zl_of m [] es) (10 + tailpos es) = Some (zentry_of (10 + tailpos es) x)"
      by (rule at_ent(2) [OF ok _ tp]) (simp add: snoc)
    have ib: "index_back e (zl_of m [] es) (10 + tailpos es) (zentry_of (10 + tailpos es) x) (int j) =
       (if j < length Bs then Some (10 + length (zents (take (length Bs - j) Bs)), - 1) else Some (10, int (j - length Bs)))"
      by (rule index_back_spec [OF ok _ assms(1) tp]) (simp add: snoc)
    have at: "\<exists>b. mem_byte (zl_of m [] es) (10 + length (zents (take k es))) = Some b \<and> b \<noteq> ZIP_END" if "k < length es" for k
      by (rule at_ent(1) [OF ok, of "take k es" "es ! k" "drop (Suc k) es"]) (use that in \<open>simp_all add: id_take_nth_drop\<close>)
    have r: "ziplistIndex e (zl_of m [] es) i =
        (index_back e (zl_of m [] es) (10 + tailpos es) (zentry_of (10 + tailpos es) x) (int j) \<bind>
          (\<lambda>(p, index). mem_byte (zl_of m [] es) p \<bind> (\<lambda>b. Some (if b = ZIP_END \<or> index > 0 then None else Some p))))"
      unfolding ziplistIndex_def if_P [OF True] Let_def zl_tail_of [OF assms(2)] bind.bind_lunit b(1) if_P [OF b(2)] en j(1) ..
    have pos: "position (length es) i = (if j \<le> length Bs then Some (length Bs - j) else None)"
      using True j(2) by (simp add: position_def snoc)
    show ?thesis
    proof (cases "j < length Bs")
      case less: True
      have "take (length Bs - j) es = take (length Bs - j) Bs" using less by (simp add: snoc)
      moreover have "length Bs - j < length es" using less by (simp add: snoc)
      ultimately show ?thesis using at [of "length Bs - j"] less unfolding r ib pos by auto
    next
      case False
      then show ?thesis using at [of 0] unfolding r ib pos by (auto simp: snoc)
    qed
  qed
qed

section \<open>Values\<close>

lemma le_sdec_24: "length bs = 3 \<Longrightarrow> le_sdec (0 # bs) div 2 ^ 8 = le_sdec bs"
  by (auto simp: le_sdec_def Let_def)

lemma sfits_zint:
  assumes "LLONG_MIN \<le> v" and "v \<le> LLONG_MAX" and "\<not> (0 \<le> v \<and> v \<le> 12)"
  shows "sfits (zipIntSize (zint_enc v)) v"
  using assms unfolding zint_enc_def if_not_P [OF assms(3)]
  by (simp add: zip_consts zipIntSize_def sfits_def LLONG_MIN_def LLONG_MAX_def)

lemma zipLoadInteger_zint:
  assumes "LLONG_MIN \<le> v" and "v \<le> LLONG_MAX" and "p = 10 + length a"
  shows "zipLoadInteger e (zl_blob B T m (a @ le_senc (zipIntSize (zint_enc v)) v @ c)) p (zint_enc v) = Some v"
proof (cases "0 \<le> v \<and> v \<le> 12")
  case True
  then have "v \<in> {0, 1, 2, 3, 4, 5, 6, 7, 8, 9, 10, 11, 12}" using zint_imm by blast
  then show ?thesis by (elim insertE) (simp_all add: zint_enc_def zipLoadInteger_def zip_consts)
next
  case False
  let ?n = "zipIntSize (zint_enc v)"
  have rd: "mem_read (zl_blob B T m (a @ le_senc ?n v @ c)) p ?n = Some (le_senc ?n v)"
    by (rule zl_read_mid [OF assms(3)]) simp
  have dec: "le_sdec (le_senc ?n v) = v" using sfits_zint [OF assms(1,2) False] by simp
  have "zint_enc v \<in> {0xfe, 0xc0, 0xf0, 0xd0, 0xe0}"
    unfolding zint_enc_def if_not_P [OF False] by (simp add: zip_consts)
  then show ?thesis
    using rd dec
    by (elim insertE) (simp_all add: zipLoadInteger_def zipIntSize_def zip_consts le_sdec_24 [simplified])
qed

definition zget_of :: "bytes \<Rightarrow> zget" where
  "zget_of s = (case zval s of Some v \<Rightarrow> GetInt v | None \<Rightarrow> GetStr s)"

text \<open>What a client makes of a value: the string, or the decimal notation of the integer.\<close>

fun zget_bytes :: "zget \<Rightarrow> bytes" where
  "zget_bytes (GetStr s) = s"
| "zget_bytes (GetInt v) = int_dec v"

lemma zget_bytes_of [simp]: "zget_bytes (zget_of s) = s"
  by (auto simp: zget_of_def zval_iff split: option.split)

lemma zenc_str: "ZIP_IS_STR (zenc s) \<longleftrightarrow> zval s = None"
  by (cases "zval s") (simp_all add: zenc_def, simp add: ZIP_IS_STR_def zip_consts)

text \<open>Reading the payload of an entry.\<close>

lemma payload:
  fixes es m
  defines "zl \<equiv> zl_of m [] es"
  assumes "es = As @ (l, n, s) # ds" and "p = 10 + length (zents As) + zprevsize l + length (zhdr s)"
  shows "zval s = None \<Longrightarrow> mem_read zl p (length s) = Some s" and "zval s = Some v \<Longrightarrow> zipLoadInteger e zl p (zenc s) = Some v"
proof -
  obtain B T where zl: "zl = zl_blob B T m ((zents As @ zprev l n @ zhdr s) @ zpay s @ zents ds @ [255])" by (auto simp: zl_def zl_of_def assms(2))
  show "mem_read zl p (length s) = Some s" if "zval s = None"
    using zl_read_mid [of p "zents As @ zprev l n @ zhdr s" "length s" s B T m "zents ds @ [255]"] assms(3) that unfolding zl by (simp add: zpay_def)
  show "zipLoadInteger e zl p (zenc s) = Some v" if "zval s = Some v"
    using zipLoadInteger_zint [of v p "zents As @ zprev l n @ zhdr s" e B T m "zents ds @ [255]"] assms(3) that zval_iff [of s v] unfolding zl
    by (simp add: zpay_def zenc_def)
qed

lemma ziplistGet_spec:
  assumes "\<forall>x \<in> set es. entok x" and "es = As @ x # ds" and "p = 10 + length (zents As)"
  shows "ziplistGet e (zl_of m [] es) (Some p) = Some (Some (zget_of (zstr x)))"
proof -
  obtain l n s where x: "x = (l, n, s)" by (cases x)
  obtain b where "mem_byte (zl_of m [] es) p = Some b" "b \<noteq> ZIP_END" using at_ent(1) [OF assms] by blast
  then show ?thesis
    using payload [OF assms(2) [unfolded x], where p = "p + (zprevsize l + length (zhdr s))" and m = m] assms(3) zenc_str [of s] at_ent(2) [OF assms, of e m]
    by (cases "zval s") (simp_all add: ziplistGet_def x zget_of_def zpay_def)
qed

lemma ziplistCompare_spec:
  assumes "\<forall>x \<in> set es. entok x" and "es = As @ x # ds" and "p = 10 + length (zents As)"
  shows "ziplistCompare e (zl_of m [] es) p v (length v) = Some (zstr x = v)"
proof -
  obtain l n s where x: "x = (l, n, s)" by (cases x)
  obtain b where b: "mem_byte (zl_of m [] es) p = Some b" "b \<noteq> ZIP_END" using at_ent(1) [OF assms] by blast
  note pay = payload [OF assms(2) [unfolded x], where p = "p + (zprevsize l + length (zhdr s))" and m = m]
  show ?thesis
  proof (cases "zval s")
    case None
    have rd: "length s = length v \<Longrightarrow> mem_read (zl_of m [] es) (p + (zprevsize l + length (zhdr s))) (length v) = Some s"
      using pay(1) assms(3) None by simp
    have "mem_read v 0 (length v) = Some v" by (simp add: mem_read_def)
    then show ?thesis
      using b None by (simp add: ziplistCompare_def at_ent(2) [OF assms] x zpay_def zenc_str rd) auto
  next
    case (Some i)
    have ld: "zipLoadInteger e (zl_of m [] es) (p + (zprevsize l + length (zhdr s))) (zenc s) = Some i"
      using pay(2) assms(3) Some by simp
    have "s = v \<longleftrightarrow> zval v = Some i" using Some by (auto simp: zval_iff)
    then show ?thesis
      using b Some by (cases "zval v") (simp_all add: ziplistCompare_def at_ent(2) [OF assms] x zenc_str ld zipTryEncoding_zval, auto)
  qed
qed

section \<open>Searching and counting\<close>

fun find_from :: "bytes \<Rightarrow> nat \<Rightarrow> nat \<Rightarrow> bytes list \<Rightarrow> nat option" where
  "find_from v skip c [] = None"
| "find_from v skip 0 (s # xs) = (if s = v then Some 0 else map_option Suc (find_from v skip skip xs))"
| "find_from v skip (Suc c) (s # xs) = map_option Suc (find_from v skip c xs)"

text \<open>The value the loop keeps of the searched string.\<close>

definition find_state :: "bytes \<Rightarrow> byte \<Rightarrow> int \<Rightarrow> bool" where
  "find_state v venc vll \<longleftrightarrow> venc = 0 \<or> (case zval v of None \<Rightarrow> venc = 255 | Some i \<Rightarrow> venc = zint_enc i \<and> vll = i)"

lemma find_encoding_spec:
  assumes "find_state v venc vll"
  obtains venc' vll' where "find_encoding v (length v) venc vll = Some (venc', vll')" and "find_state v venc' vll'" and "venc' \<noteq> 0"
proof (cases "venc = 0")
  case True
  then show ?thesis
    using that by (cases "zval v") (auto simp: find_encoding_def zipTryEncoding_zval find_state_def)
next
  case False
  with assms that show ?thesis by (auto simp: find_encoding_def)
qed

lemma find_from_map: "map_option (\<lambda>k. f k) (map_option Suc x) = map_option (\<lambda>k. f (Suc k)) x"
  by (cases x) auto

lemma find_loop_spec:
  assumes "\<forall>x \<in> set es. entok x" and "es = As @ ds" and "p = 10 + length (zents As)" and "find_state v venc vll"
  shows "find_loop e (zl_of m [] es) p v (length v) skip c venc vll =
     Some (map_option (\<lambda>k. 10 + length (zents (As @ take k ds))) (find_from v skip c (map zstr ds)))"
  using assms
proof (induction ds arbitrary: As p c venc vll)
  case Nil
  then show ?case using at_end [of p es m] by (subst find_loop.simps) simp
next
  case (Cons x ds)
  obtain l n s where x: "x = (l, n, s)" by (cases x)
  let ?zl = "zl_of m [] es"
  obtain B T where zl: "?zl = zl_blob B T m (zents As @ ent (l, n, s) @ zents ds @ [255])" by (auto simp: zl_of_def Cons.prems(2) x)
  have xok: "entok (l, n, s)" using Cons.prems(1,2) x by simp
  obtain b where b: "mem_byte ?zl p = Some b" "b \<noteq> ZIP_END" using at_ent(1) [OF Cons.prems(1-3)] by blast
  have ps: "ZIP_DECODE_PREVLENSIZE ?zl p = Some (zprevsize l)"
    using decode_prevlensize [OF Cons.prems(3), of l n B T m "zhdr s @ zpay s @ zents ds @ [255]"] xok unfolding zl by simp
  have dl: "ZIP_DECODE_LENGTH ?zl (p + zprevsize l) = Some (zenc s, length (zhdr s), length (zpay s))"
    using decode_length_ent [of "p + zprevsize l" "zents As" l s B T m n "zents ds @ [255]"] Cons.prems(3) xok unfolding zl by simp
  let ?q = "p + zprevsize l + length (zhdr s)"
  have q: "?q + length (zpay s) = 10 + length (zents (As @ [x]))" using Cons.prems(3) x by simp
  note pay = payload [OF Cons.prems(2) [unfolded x], where p = ?q and m = m]
  have IH: "find_loop e ?zl (?q + length (zpay s)) v (length v) skip c' venc' vll' =
      Some (map_option (\<lambda>k. 10 + length (zents (As @ take (Suc k) (x # ds)))) (find_from v skip c' (map zstr ds)))"
    if "find_state v venc' vll'" for c' venc' vll'
    using Cons.IH [OF Cons.prems(1) _ q that, of c'] Cons.prems(2) by simp
  show ?case
  proof (cases c)
    case (Suc c')
    then show ?thesis
      using b IH [OF Cons.prems(4), of c'] by (subst find_loop.simps) (simp add: ps dl x option.map_comp comp_def)
  next
    case 0
    show ?thesis
    proof (cases "zval s")
      case None
      then have eq: "(if length (zpay s) = length v then do { x \<leftarrow> mem_read ?zl ?q (length v); y \<leftarrow> mem_read v 0 (length v); Some (x = y) } else Some False) =
          Some (s = v)"
        using pay(1) Cons.prems(3) by (auto simp: zpay_def mem_read_def [of v])
      have "find_loop e ?zl p v (length v) skip 0 venc vll =
          (if s = v then Some (Some p) else find_loop e ?zl (?q + length (zpay s)) v (length v) skip skip venc vll)"
        by (subst find_loop.simps) (simp only: b ps dl bind.bind_lunit split_conv Let_def None eq zenc_str if_True if_False simp_thms)
      then show ?thesis
        using 0 IH [OF Cons.prems(4), of skip] Cons.prems(3) by (simp add: x option.map_comp comp_def)
    next
      case (Some i)
      obtain venc' vll' where fe: "find_encoding v (length v) venc vll = Some (venc', vll')" "find_state v venc' vll'" "venc' \<noteq> 0"
        using find_encoding_spec [OF Cons.prems(4)] .
      have "s = v \<longleftrightarrow> zval v = Some i" using Some by (auto simp: zval_iff)
      then have eq: "(if venc' \<noteq> 255 then do { ll \<leftarrow> zipLoadInteger e ?zl ?q (zenc s); Some (ll = vll') } else Some False) = Some (s = v)"
        using pay(2) [OF _ Some, of e] Cons.prems(3) fe(2,3) by (cases "zval v") (auto simp: find_state_def)
      have "find_loop e ?zl p v (length v) skip 0 venc vll =
          (if s = v then Some (Some p) else find_loop e ?zl (?q + length (zpay s)) v (length v) skip skip venc' vll')"
        by (subst find_loop.simps) (simp only: b ps dl fe(1) bind.bind_lunit split_conv Let_def Some eq zenc_str option.simps if_True if_False simp_thms)
      then show ?thesis
        using 0 IH [OF fe(2), of skip] Cons.prems(3) by (simp add: x option.map_comp comp_def)
    qed
  qed
qed

lemma count_loop_spec:
  assumes "\<forall>x \<in> set es. entok x" and "es = As @ ds" and "p = 10 + length (zents As)"
  shows "count_loop (zl_of m [] es) p n = Some (n + length ds)"
  using assms
proof (induction ds arbitrary: As p n)
  case Nil
  then show ?case using at_end [of p es m] by (subst count_loop.simps) simp
next
  case (Cons x ds)
  obtain b where b: "mem_byte (zl_of m [] es) p = Some b" "b \<noteq> ZIP_END" using at_ent(1) [OF Cons.prems] by blast
  have "count_loop (zl_of m [] es) (p + rawlen x) (n + 1) = Some (n + 1 + length ds)"
    by (rule Cons.IH [of "As @ [x]"]) (use Cons.prems in simp_all)
  then show ?case using b at_ent(3) [OF Cons.prems, of m] by (subst count_loop.simps) simp
qed

section \<open>The contract\<close>

definition zl_push_head :: "host \<Rightarrow> fresh_mem \<Rightarrow> bytes \<Rightarrow> bytes \<Rightarrow> bytes option" where
  "zl_push_head e g v zl = ziplistPush e g zl v (length v) True"

definition zl_push_tail :: "host \<Rightarrow> fresh_mem \<Rightarrow> bytes \<Rightarrow> bytes \<Rightarrow> bytes option" where
  "zl_push_tail e g v zl = ziplistPush e g zl v (length v) False"

definition zl_insert_at :: "host \<Rightarrow> fresh_mem \<Rightarrow> int \<Rightarrow> bytes \<Rightarrow> bytes \<Rightarrow> bytes option" where
  "zl_insert_at e g i v zl = do {
     p \<leftarrow> ziplistIndex e zl i;
     (case p of None \<Rightarrow> Some zl | Some p \<Rightarrow> ziplistInsert e g zl p v (length v))
   }"

definition zl_delete_at :: "host \<Rightarrow> fresh_mem \<Rightarrow> int \<Rightarrow> bytes \<Rightarrow> bytes option" where
  "zl_delete_at e g i zl = do {
     p \<leftarrow> ziplistIndex e zl i;
     (case p of None \<Rightarrow> Some zl | Some p \<Rightarrow> map_option fst (ziplistDelete e g zl p))
   }"

definition zl_read_at :: "host \<Rightarrow> int \<Rightarrow> bytes \<Rightarrow> bytes option option" where
  "zl_read_at e i zl = do {
     p \<leftarrow> ziplistIndex e zl i;
     r \<leftarrow> ziplistGet e zl p;
     Some (map_option zget_bytes r)
   }"

lemma push_tail_spec:
  fixes es v
  defines "pl \<equiv> lastlen 0 es"
  assumes "zl_inv es" and "count_ok m (length es)" and "zl_fits (map zstr es @ [v])"
  shows "zl_push_tail e g v (zl_of m [] es) = Some (zl_of (zincr m 1) [] (es @ [(254 \<le> pl, pl, v)]))"
proof -
  have "11 + zbound es < 2 ^ 32" using zl_fits_bound [of "es @ [(False, 0, v)]"] assms(4) by simp
  then have "ZIPLIST_BYTES e (zl_of m [] es) = Some (11 + length (zents es))" using zl_bytes_of [of "[]" es e m] by simp
  then show ?thesis
    using insert_rep(1) [of es "[]" m v e g] assms by (simp add: zl_push_tail_def ziplistPush_def)
qed

lemma drop_nth: "k < length es \<Longrightarrow> es = take k es @ es ! k # drop (Suc k) es"
  by (rule id_take_nth_drop)

lemma index_rep:
  assumes "zl_inv es" and "zl_fits (map zstr es)"
  shows "ziplistIndex e (zl_of m [] es) i = Some (map_option (\<lambda>k. 10 + length (zents (take k es))) (position (length es) i))"
  using ziplistIndex_spec assms by (simp add: zl_inv_def zl_fits_bound)

lemma insert_at_rep:
  assumes "zl_inv es" and "count_ok m (length es)" and "zl_fits (map zstr es)" and "position (length es) i = Some k"
    and "zl_fits (insert_spec i v (map zstr es))"
    and "fst (es ! k) \<longrightarrow> 3 \<le> length (zhdr v) + length (zpay v)"
  shows "\<exists>zl'. zl_insert_at e g i v (zl_of m [] es) = Some zl' \<and> zl_rep zl' (insert_spec i v (map zstr es))"
proof -
  have k: "k < length es" using assms(4) by (rule position_less)
  let ?A = "take k es" and ?d = "drop k es"
  let ?pl = "lastlen 0 ?A"
  have spec: "insert_spec i v (map zstr es) = map zstr ?A @ v # map zstr ?d"
    using assms(4) by (simp add: insert_spec_def take_map drop_map)
  have "fst (hd ?d) \<longrightarrow> 4 \<le> rawlen (254 \<le> ?pl, ?pl, v)"
    using assms(6) k by (simp add: hd_drop_conv_nth zprevsize_def)
  then show ?thesis
    using insert_rep(1) [of ?A ?d m v e g] insert_rep(2) [of ?A ?d m v] assms k unfolding spec
    by (simp add: zl_insert_at_def index_rep ziplistInsert_def)
qed

interpretation zlseq: ends zl_rep zl_fits "zl_push_head e g" "zl_push_tail e g" "zl_delete_at e g" "zl_read_at e"
  for e :: host and g :: fresh_mem
proof
  fix s xs v i
  assume "zl_rep s xs"
  then obtain m es where s: "s = zl_of m [] es" and xs: "map zstr es = xs" and inv: "zl_inv es" and cnt: "count_ok m (length es)"
    by (auto simp: zl_rep_def)
  have len: "length es = length xs" using xs by auto
  { assume f: "zl_fits (v # xs)"
    have "ZIPLIST_BYTES e s = Some (11 + length (zents es))"
      using zl_bytes_of [of "[]" es e m] zl_fits_bound [of "(False, 0, v) # es"] f xs by (simp add: s)
    moreover have "es \<noteq> [] \<longrightarrow> \<not> fst (hd es)" using inv by (simp add: zl_inv_def)
    ultimately show "\<exists>s'. zl_push_head e g v s = Some s' \<and> zl_rep s' (v # xs)"
      using insert_rep(1) [of "[]" es m v e g] insert_rep(2) [of "[]" es m v] inv cnt f xs by (simp add: zl_push_head_def ziplistPush_def s ZIPLIST_HEADER_SIZE_def) }
  { assume f: "zl_fits (xs @ [v])"
    show "\<exists>s'. zl_push_tail e g v s = Some s' \<and> zl_rep s' (xs @ [v])"
      using push_tail_spec [of es m v e g] insert_rep(2) [of es "[]" m v] inv cnt f xs by (simp add: s) }
  { assume f: "zl_fits xs"
    note idx = index_rep [OF inv f [folded xs], of e m i]
    show "\<exists>s'. zl_delete_at e g i s = Some s' \<and> zl_rep s' (delete_spec i xs)"
    proof (cases "position (length es) i")
      case None
      then show ?thesis using idx len \<open>zl_rep s xs\<close> by (simp add: zl_delete_at_def s delete_spec_def)
    next
      case (Some k)
      then have k: "k < length es" by (rule position_less)
      have sp: "take k es @ [es ! k] @ drop (Suc k) es = es" using drop_nth [OF k] by simp
      have del: "map zstr (take k es @ drop (Suc k) es) = delete_spec i xs"
        unfolding xs [symmetric] using Some by (simp add: delete_spec_def take_map drop_map)
      note d = delete_rep [where As = "take k es" and D = "[es ! k]" and ds = "drop (Suc k) es" and num = 1, unfolded sp del,
          OF inv cnt f [folded xs]]
      show ?thesis using d(1) [of e g] d(2) idx Some by (simp add: zl_delete_at_def s ziplistDelete_def)
    qed
    show "zl_read_at e i s = Some (read_spec i xs)"
    proof (cases "position (length es) i")
      case None
      then show ?thesis using idx len by (simp add: zl_read_at_def s read_spec_def ziplistGet_def)
    next
      case (Some k)
      then have k: "k < length es" by (rule position_less)
      have ok: "\<forall>x \<in> set es. entok x" using fits_entok [of es] inv f zl_fits_bound [of es] xs by (simp add: zl_inv_def)
      have "ziplistGet e s (Some (10 + length (zents (take k es)))) = Some (Some (zget_of (zstr (es ! k))))"
        unfolding s by (rule ziplistGet_spec [OF ok drop_nth [OF k]]) simp
      then show ?thesis unfolding xs [symmetric] using idx Some k by (simp add: zl_read_at_def s read_spec_def)
    qed }
qed

section \<open>Traversal, ranges and the length\<close>

lemma rep_cases:
  assumes "zl_rep zl xs" and "zl_fits xs"
  obtains m es where "zl = zl_of m [] es" and "map zstr es = xs" and "zl_inv es" and "count_ok m (length es)"
    and "consistent 0 es" and "11 + zbound es < 2 ^ 32" and "\<forall>x \<in> set es. entok x"
  using assms fits_entok zl_fits_bound unfolding zl_rep_def zl_inv_def by blast

lemma ziplistNext_spec:
  assumes "\<forall>x \<in> set es. entok x" and "k < length es"
  shows "ziplistNext (zl_of m [] es) (10 + length (zents (take k es))) =
           Some (if Suc k < length es then Some (10 + length (zents (take (Suc k) es))) else None)"
proof -
  note sp = drop_nth [OF assms(2)]
  let ?p = "10 + length (zents (take k es))"
  obtain b where b: "mem_byte (zl_of m [] es) ?p = Some b" "b \<noteq> ZIP_END" using at_ent(1) [OF assms(1) sp refl] by blast
  have n: "zipRawEntryLength (zl_of m [] es) ?p = Some (rawlen (es ! k))" by (rule at_ent(3) [OF assms(1) sp refl])
  have q: "?p + rawlen (es ! k) = 10 + length (zents (take (Suc k) es))" using assms(2) by (simp add: take_Suc_conv_app_nth)
  have at: "\<exists>b. mem_byte (zl_of m [] es) (10 + length (zents (take (Suc k) es))) = Some b \<and> (b = ZIP_END \<longleftrightarrow> \<not> Suc k < length es)"
  proof (cases "Suc k < length es")
    case True
    then show ?thesis using at_ent(1) [OF assms(1) drop_nth [OF True] refl, of m] by auto
  next
    case False
    then show ?thesis using at_end [OF refl, of m es] by simp
  qed
  then obtain b2 where "mem_byte (zl_of m [] es) (10 + length (zents (take (Suc k) es))) = Some b2" "b2 = ZIP_END \<longleftrightarrow> \<not> Suc k < length es" by blast
  then show ?thesis unfolding ziplistNext_def b(1) bind.bind_lunit if_not_P [OF b(2)] n q by simp
qed

lemma ziplistPrev_spec:
  assumes "\<forall>x \<in> set es. entok x" and "consistent 0 es" and "k < length es"
  shows "ziplistPrev e (zl_of m [] es) (10 + length (zents (take k es))) =
           Some (if k = 0 then None else Some (10 + length (zents (take (k - 1) es))))"
proof -
  note sp = drop_nth [OF assms(3)]
  let ?p = "10 + length (zents (take k es))"
  obtain b where b: "mem_byte (zl_of m [] es) ?p = Some b" "b \<noteq> ZIP_END" using at_ent(1) [OF assms(1) sp refl] by blast
  have n: "zipEntry e (zl_of m [] es) ?p = Some (zentry_of ?p (es ! k))" by (rule at_ent(2) [OF assms(1) sp refl])
  show ?thesis
  proof (cases k)
    case 0
    then show ?thesis using b by (simp add: ziplistPrev_def ZIPLIST_HEADER_SIZE_def)
  next
    case (Suc j)
    have t: "take k es = take j es @ [es ! j]" using assms(3) Suc by (simp add: take_Suc_conv_app_nth)
    have "prevrawlen (zentry_of ?p (es ! k)) = rawlen (es ! j)"
      using assms(2) sp t consistent_prev_pos [of 0 "take j es @ [es ! j]"] by (cases "es ! k") (metis lastlen.simps lastlen_append zentry_of_simps(2))
    moreover have "?p \<noteq> ZIPLIST_HEADER_SIZE" using t rawlen_pos [of "es ! j"] by (simp add: ZIPLIST_HEADER_SIZE_def)
    ultimately show ?thesis using b n by (simp add: ziplistPrev_def t [unfolded Suc] Suc)
  qed
qed

lemma ziplistPrev_end:
  assumes "\<forall>x \<in> set es. entok x" and "11 + zbound es < 2 ^ 32"
  shows "ziplistPrev e (zl_of m [] es) (10 + length (zents es)) =
           Some (if es = [] then None else Some (10 + length (zents (take (length es - 1) es))))"
proof (cases es rule: rev_cases)
  case Nil
  then show ?thesis using at_end [OF refl, of m es] zl_tail_of [OF assms(2)] by (simp add: ziplistPrev_def)
next
  case (snoc Bs x)
  have tp: "10 + tailpos es = 10 + length (zents Bs)" by (simp add: snoc tailpos_snoc)
  obtain b where "mem_byte (zl_of m [] es) (10 + tailpos es) = Some b" "b \<noteq> ZIP_END"
    using at_ent(1) [OF assms(1) _ tp, of x "[]" m] snoc by auto
  then show ?thesis using at_end [OF refl, of m es] zl_tail_of [OF assms(2), of e m] tp
    by (simp add: ziplistPrev_def) (simp add: snoc)
qed

text \<open>The entries the search looks at: every \<open>skip + 1\<close>st one, from the \<open>c\<close>th on.\<close>

definition hit :: "nat \<Rightarrow> nat \<Rightarrow> nat \<Rightarrow> bool" where
  "hit skip c j \<longleftrightarrow> c \<le> j \<and> (j - c) mod Suc skip = 0"

lemma hit_simps [simp]: "hit skip 0 0" "\<not> hit skip (Suc c) 0" "hit skip (Suc c) (Suc j) = hit skip c j" "hit skip 0 (Suc j) = hit skip skip j"
proof -
  show "hit skip 0 (Suc j) = hit skip skip j"
  proof (cases "skip \<le> j")
    case True
    then have "Suc j = (j - skip) + Suc skip" by simp
    then have "Suc j mod Suc skip = (j - skip) mod Suc skip" by (metis mod_add_self2)
    with True show ?thesis by (simp add: hit_def)
  qed (simp add: hit_def)
qed (auto simp: hit_def)

lemma find_from_Some:
  "find_from v skip c xs = Some i \<longleftrightarrow> i < length xs \<and> hit skip c i \<and> xs ! i = v \<and> (\<forall>j < i. hit skip c j \<longrightarrow> xs ! j \<noteq> v)"
proof (induction v skip c xs arbitrary: i rule: find_from.induct)
  case (2 v skip s xs)
  then show ?case by (cases i) (auto simp: less_Suc_eq_0_disj)
next
  case (3 v skip c s xs)
  then show ?case by (cases i) (auto simp: less_Suc_eq_0_disj)
qed simp

lemma find_from_None: "find_from v skip c xs = None \<longleftrightarrow> (\<forall>j < length xs. hit skip c j \<longrightarrow> xs ! j \<noteq> v)"
proof (induction v skip c xs rule: find_from.induct)
  case (2 v skip s xs)
  then show ?case by (auto simp: less_Suc_eq_0_disj)
next
  case (3 v skip c s xs)
  then show ?case by (auto simp: less_Suc_eq_0_disj)
qed simp

section \<open>Properties\<close>

lemma zl_fits_small:
  assumes "11 + (\<Sum>s \<leftarrow> xs. 18 + length s) < 2 ^ 32"
  shows "zl_fits xs"
proof -
  have "5 + length (zhdr s) + length (zpay s) \<le> 18 + length s" for s
    by (auto simp: zhdr_def zpay_def zipEncodeLength_def zipIntSize_def split: option.split)
  then have "(\<Sum>s \<leftarrow> xs. 5 + length (zhdr s) + length (zpay s)) \<le> (\<Sum>s \<leftarrow> xs. 18 + length s)"
    by (rule sum_list_mono)
  with assms show ?thesis by (simp add: zl_fits_def)
qed

lemma zval_long: "20 < length s \<Longrightarrow> zval s = None"
  using zval_length [of s] by (cases "zval s") auto

lemma zval_one: "zval [49] = Some 1"
  by (simp add: zval_iff LLONG_MIN_def LLONG_MAX_def int_dec_def nat_dec.simps)

text \<open>
  C8: A ziplist behaves as a sequence of strings changed at its ends. Any sequence of pushes at the head and at the tail, of
  deletions and of reads at an index (negative indices from the tail), started from a new ziplist, stays inside the
  block on a host of either byte order, ends with the contents of the list and returns its replies, as long as the contents fit in
  4 GiB; integers come back in the notation they were pushed in. The lengths stored in the entries are updated in
  cascade, and every loop ends.
\<close>

theorem ziplist_refines_list:
  assumes "list_all at_ends ps" and "seq_fits zl_fits ps []"
  shows "\<exists>zl zl'. ziplistNew e g = Some zl \<and>
           exec_seqops (zl_push_head e g) (zl_push_tail e g) (zl_insert_at e g) (zl_delete_at e g) (zl_read_at e) ps zl =
             Some (zl', snd (seq_run ps [])) \<and>
           zl_rep zl' (fst (seq_run ps []))"
  using zlseq.run_ends [OF assms(1) zl_rep_new(2) assms(2), of e g] zl_rep_new(1) by blast

theorem ziplist_refines_list_witness:
  "\<exists>zl zl'. ziplistNew Big (\<lambda>_. 7) = Some zl \<and>
     exec_seqops (zl_push_head Big (\<lambda>_. 7)) (zl_push_tail Big (\<lambda>_. 7)) (zl_insert_at Big (\<lambda>_. 7)) (zl_delete_at Big (\<lambda>_. 7)) (zl_read_at Big)
       [PushTail [49], PushHead [97, 98], PushTail [45, 53], ReadAt (- 1), DeleteAt 0, ReadAt 0] zl =
       Some (zl', [None, None, None, Some [45, 53], None, Some [49]]) \<and>
     zl_rep zl' [[49], [45, 53]]"
  using ziplist_refines_list [of "[PushTail [49], PushHead [97, 98], PushTail [45, 53], ReadAt (- 1), DeleteAt 0, ReadAt 0]" Big "\<lambda>_. 7"]
  by (simp add: zl_fits_small delete_spec_def read_spec_def position_def)

text \<open>
  C24: Insertion in front of any entry is right when the new entry takes at least three bytes besides the length
  of the previous one (every string of two bytes or more that is not a small integer): the new string is
  in front of the entry at the index and all other entries are kept.
\<close>

theorem ziplistInsert_middle:
  assumes "zl_rep zl xs" and "zl_fits xs" and "position (length xs) i = Some k" and "zl_fits (insert_spec i v xs)"
    and "3 \<le> length (zhdr v) + length (zpay v)"
  shows "\<exists>zl'. zl_insert_at e g i v zl = Some zl' \<and> zl_rep zl' (insert_spec i v xs)"
proof -
  obtain m es where es: "zl = zl_of m [] es" "map zstr es = xs" "zl_inv es" "count_ok m (length es)"
    using rep_cases [OF assms(1,2)] by metis
  then have "length es = length xs" by auto
  with insert_at_rep [of es m i k v e g] es assms(2-5) show ?thesis by auto
qed

theorem ziplistInsert_middle_witness:
  "zl_rep (zl_of 1 [] [(False, 0, [97])]) [[97]] \<and>
   (\<exists>zl'. zl_insert_at Little (\<lambda>_. 7) 0 (replicate 30 98) (zl_of 1 [] [(False, 0, [97])]) = Some zl' \<and> zl_rep zl' [replicate 30 98, [97]])"
proof -
  have r: "zl_rep (zl_of 1 [] [(False, 0, [97])]) [[97]]"
    unfolding zl_rep_def by (intro exI [of _ 1] exI [of _ "[(False, 0, [97])]"]) (simp add: zl_inv_def count_ok_def UINT16_MAX_def)
  have "3 \<le> length (zhdr (replicate 30 98)) + length (zpay (replicate 30 98))"
    using zval_long [of "replicate 30 98"] zhdr_nonempty [of "replicate 30 98"] by (simp add: zpay_def)
  moreover have "insert_spec 0 (replicate 30 98) [[97]] = [replicate 30 98, [97 :: byte]]" by (simp add: insert_spec_def position_def)
  ultimately have "\<exists>zl'. zl_insert_at Little (\<lambda>_. 7) 0 (replicate 30 98) (zl_of 1 [] [(False, 0, [97])]) = Some zl' \<and> zl_rep zl' [replicate 30 98, [97]]"
    using ziplistInsert_middle [OF r, of 0 0 "replicate 30 98" Little "\<lambda>_. 7"] by (simp add: zl_fits_small position_def)
  with r show ?thesis by blast
qed

text \<open>
  C25: Insertion in front of an entry can read past the end of the block. After pushing strings of 300, 247 and 21
  bytes and deleting the first, the length field of the last entry keeps five bytes; inserting the string 1 in front of that
  entry shrinks the block before its bytes are moved.
\<close>

theorem ziplistInsert_overreads:
  "(\<exists>zl. (ziplistNew e g \<bind> (\<lambda>zl. exec_seqops (zl_push_head e g) (zl_push_tail e g) (zl_insert_at e g) (zl_delete_at e g) (zl_read_at e)
       [PushTail (replicate 300 120), PushTail (replicate 247 120), PushTail (replicate 21 120), DeleteAt 0] zl)) =
       Some (zl, [None, None, None, None]) \<and>
     zl_rep zl [replicate 247 120, replicate 21 120] \<and>
     zl_insert_at e g 1 [49] zl = None)"
proof -
  let ?X = "replicate 300 120 :: bytes" and ?Y = "replicate 247 120 :: bytes" and ?Z = "replicate 21 120 :: bytes"
  have str: "ZIP_IS_STR 0" by (simp add: ZIP_IS_STR_def zip_consts)
  have h: "length (zhdr ?X) = 2" "length (zhdr ?Y) = 2" "length (zhdr ?Z) = 1" "zpay ?X = ?X" "zpay ?Y = ?Y" "zpay ?Z = ?Z"
    "length (zhdr [49]) = 1" "zpay [49] = []"
    using zval_long [of ?X] zval_long [of ?Y] zval_long [of ?Z] str
    by (simp_all add: zhdr_def zpay_def zipEncodeLength_def zval_one zint_enc_def zipIntSize_def zip_consts le_senc_def)
  have f: "zl_fits [?X, ?Y, ?Z]" "zl_fits [?X, ?Y]" "zl_fits [?X]" "zl_fits [?Y, ?Z]" "zl_fits []" by (rule zl_fits_small; simp)+
  note simps = zl_inv_def count_ok_def UINT16_MAX_def h zprevsize_def zincr_def
  let ?e3 = "[(False, 0, ?X), (True, 303, ?Y), (True, 254, ?Z)]" and ?e2 = "[(False, 0, ?Y), (True, 250, ?Z)]"
  have p: "zl_push_tail e g ?X (zl_of 0 [] []) = Some (zl_of 1 [] [(False, 0, ?X)])"
    "zl_push_tail e g ?Y (zl_of 1 [] [(False, 0, ?X)]) = Some (zl_of 2 [] [(False, 0, ?X), (True, 303, ?Y)])"
    "zl_push_tail e g ?Z (zl_of 2 [] [(False, 0, ?X), (True, 303, ?Y)]) = Some (zl_of 3 [] ?e3)"
    using push_tail_spec [of "[]" 0 ?X e g] push_tail_spec [of "[(False, 0, ?X)]" 1 ?Y e g]
      push_tail_spec [of "[(False, 0, ?X), (True, 303, ?Y)]" 2 ?Z e g] f
    by (simp_all add: simps)
  have i3: "zl_inv ?e3" "count_ok 3 (length ?e3)" and i2: "zl_inv ?e2" by (simp_all add: simps)
  have d: "zl_delete_at e g 0 (zl_of 3 [] ?e3) = Some (zl_of 2 [] ?e2)" and r: "zl_rep (zl_of 2 [] ?e2) [?Y, ?Z]"
    using delete_rep(1) [of "[]" "[(False, 0, ?X)]" "[(True, 303, ?Y), (True, 254, ?Z)]" 3 1 e g]
      delete_rep(2) [of "[]" "[(False, 0, ?X)]" "[(True, 303, ?Y), (True, 254, ?Z)]" 3 1] i3 f
      index_rep [of ?e3 e 3 0]
    by (simp_all add: zl_delete_at_def ziplistDelete_def position_def simps)
  have "zl_insert_at e g 1 [49] (zl_of 2 [] ?e2) = None"
  proof -
    have b: "11 + zbound (?e2 @ [(False, 250, [49])]) < 2 ^ 32" by (simp add: h)
    have "us_ziplistInsert e g (zl_of 2 [] ([(False, 0, ?Y)] @ (True, 250, ?Z) # [])) (10 + length (zents [(False, 0, ?Y)])) [49] (length [49 :: byte]) = None"
      by (rule ziplistInsert_overread) (simp_all add: h zprevsize_def)
    then show ?thesis
      using index_rep [of ?e2 e 2 1] i2 f by (simp add: zl_insert_at_def ziplistInsert_def position_def)
  qed
  with p d r show ?thesis by (intro exI [of _ "zl_of 2 [] ?e2"]) (simp add: zl_rep_new(1))
qed

lemma one_rep: "zl_rep (zl_of 2 [] [(False, 0, [97]), (False, 3, [98])]) [[97], [98]]" "zl_fits [[97], [98]]"
proof -
  have str: "ZIP_IS_STR 0" by (simp add: ZIP_IS_STR_def zip_consts)
  have none: "zval [97] = None"
    using string2ll_cases [of "[97]" "[]"] by (simp add: zval_def digits_result_def isdigit_def)
  have "rawlen (False, 0, [97]) = 3" using none str by (simp add: zhdr_def zpay_def zipEncodeLength_def zprevsize_def)
  then show "zl_rep (zl_of 2 [] [(False, 0, [97]), (False, 3, [98])]) [[97], [98]]"
    unfolding zl_rep_def
    by (intro exI [of _ 2] exI [of _ "[(False, 0, [97]), (False, 3, [98])]"]) (simp add: zl_inv_def count_ok_def UINT16_MAX_def)
  show "zl_fits [[97], [98]]" by (rule zl_fits_small) simp
qed



text \<open>
  The cursor operations at the entry of index \<open>k\<close>. \<open>ziplistNext\<close> and \<open>ziplistPrev\<close> move to the entries of the
  neighbouring indices and return NULL at the ends, \<open>ziplistGet\<close> returns the stored string or integer, and \<open>ziplistCompare\<close> decides
  equality with any string whatever the encoding of the entry.
\<close>

theorem ziplist_cursor:
  assumes "zl_rep zl xs" and "zl_fits xs" and "k < length xs"
  shows "\<exists>p. ziplistIndex e zl (int k) = Some (Some p) \<and> ziplistNext zl p = ziplistIndex e zl (int k + 1) \<and>
           ziplistPrev e zl p = (if k = 0 then Some None else ziplistIndex e zl (int k - 1)) \<and>
           map_option (map_option zget_bytes) (ziplistGet e zl (Some p)) = Some (Some (xs ! k)) \<and>
           ziplistCompare e zl p v (length v) = Some (xs ! k = v)"
proof -
  obtain m es where es: "zl = zl_of m [] es" "map zstr es = xs" "11 + zbound es < 2 ^ 32" "consistent 0 es" "\<forall>x \<in> set es. entok x"
    using rep_cases [OF assms(1,2)] by metis
  have k: "k < length es" and x: "zstr (es ! k) = xs ! k" using assms(3) es(2) by auto
  let ?p = "10 + length (zents (take k es))"
  have idx: "ziplistIndex e zl i = Some (map_option (\<lambda>k. 10 + length (zents (take k es))) (position (length es) i))" for i
    unfolding es(1) by (rule ziplistIndex_spec [OF es(4,3)])
  have "ziplistIndex e zl (int k) = Some (Some ?p)" using k by (simp add: idx position_def)
  moreover have "nat (int k + 1) = Suc k" by simp
  then have "ziplistNext zl ?p = ziplistIndex e zl (int k + 1)"
    unfolding idx using ziplistNext_spec [OF es(5) k, of m] by (simp add: position_def es(1))
  moreover have "ziplistPrev e zl ?p = (if k = 0 then Some None else ziplistIndex e zl (int k - 1))"
    unfolding idx using ziplistPrev_spec [OF es(5,4) k, of e m] k by (auto simp: position_def es(1) nat_diff_distrib)
  moreover have "map_option (map_option zget_bytes) (ziplistGet e zl (Some ?p)) = Some (Some (xs ! k))"
    unfolding es(1) ziplistGet_spec [OF es(5) drop_nth [OF k] refl] by (simp add: x)
  moreover have "ziplistCompare e zl ?p v (length v) = Some (xs ! k = v)"
    unfolding es(1) ziplistCompare_spec [OF es(5) drop_nth [OF k] refl] by (simp add: x)
  ultimately show ?thesis by blast
qed

theorem ziplist_cursor_witness:
  "\<exists>p. ziplistIndex Big (zl_of 2 [] [(False, 0, [97]), (False, 3, [98])]) 1 = Some (Some p) \<and>
     ziplistCompare Big (zl_of 2 [] [(False, 0, [97]), (False, 3, [98])]) p [98] (length [98 :: byte]) = Some True"
  using ziplist_cursor [OF one_rep, of 1 Big "[98]"] by auto

text \<open>
  \<open>ZiplistFind\<close> from the head returns the entry of the least index that is a multiple of \<open>skip + 1\<close> and holds the string, and
  NULL when there is none; string and integer encodings of the entries are both found.
\<close>

theorem ziplistFind_first:
  assumes "zl_rep zl xs" and "zl_fits xs"
  shows "\<exists>r. ziplistFind e zl ZIPLIST_HEADER_SIZE v (length v) skip = Some r \<and>
           (case r of
              None \<Rightarrow> \<forall>j < length xs. j mod (skip + 1) = 0 \<longrightarrow> xs ! j \<noteq> v
            | Some p \<Rightarrow> \<exists>i < length xs. i mod (skip + 1) = 0 \<and> xs ! i = v \<and> (\<forall>j < i. j mod (skip + 1) = 0 \<longrightarrow> xs ! j \<noteq> v) \<and>
                          ziplistIndex e zl (int i) = Some (Some p))"
proof -
  obtain m es where es: "zl = zl_of m [] es" "map zstr es = xs" "11 + zbound es < 2 ^ 32" "consistent 0 es" "\<forall>x \<in> set es. entok x"
    using rep_cases [OF assms(1,2)] by metis
  have len: "length es = length xs" using es(2) by auto
  have hit0: "hit skip 0 j \<longleftrightarrow> j mod (skip + 1) = 0" for j by (simp add: hit_def)
  have "ziplistFind e zl ZIPLIST_HEADER_SIZE v (length v) skip =
      Some (map_option (\<lambda>k. 10 + length (zents ([] @ take k es))) (find_from v skip 0 (map zstr es)))"
    unfolding ziplistFind_def es(1) by (rule find_loop_spec [OF es(5)]) (simp_all add: ZIPLIST_HEADER_SIZE_def find_state_def)
  moreover have "ziplistIndex e zl (int i) = Some (Some (10 + length (zents ([] @ take i es))))" if "i < length xs" for i
    unfolding es(1) ziplistIndex_spec [OF es(4,3)] using that len by (simp add: position_def)
  ultimately show ?thesis
  proof (cases "find_from v skip 0 xs")
    case None
    with \<open>ziplistFind e zl _ _ _ _ = _\<close> show ?thesis using find_from_None [of v skip 0 xs] unfolding es(2) hit0 by simp
  next
    case (Some i)
    then have "i < length xs \<and> i mod (skip + 1) = 0 \<and> xs ! i = v \<and> (\<forall>j < i. j mod (skip + 1) = 0 \<longrightarrow> xs ! j \<noteq> v)"
      using find_from_Some [of v skip 0 xs i] unfolding hit0 by simp
    with Some show ?thesis
      using \<open>ziplistFind e zl _ _ _ _ = _\<close> \<open>\<And>i. i < length xs \<Longrightarrow> _\<close> unfolding es(2) by auto
  qed
qed

theorem ziplistFind_first_witness:
  "\<exists>p. ziplistFind Little (zl_of 2 [] [(False, 0, [97]), (False, 3, [98])]) ZIPLIST_HEADER_SIZE [98] (length [98 :: byte]) 0 = Some (Some p)"
proof -
  obtain r where r: "ziplistFind Little (zl_of 2 [] [(False, 0, [97]), (False, 3, [98])]) ZIPLIST_HEADER_SIZE [98] (length [98 :: byte]) 0 = Some r"
    "r = None \<Longrightarrow> [[97], [98 :: byte]] ! 1 \<noteq> [98]"
    using ziplistFind_first [OF one_rep, of Little "[98]" 0] by (auto split: option.splits)
  then show ?thesis by (cases r) auto
qed

text \<open>
  \<open>ZiplistLen\<close> returns the number of entries, also when the 16-bit field is saturated, and keeps the contents.
\<close>

theorem ziplistLen_correct:
  assumes "zl_rep zl xs" and "zl_fits xs"
  shows "\<exists>zl'. ziplistLen e zl = Some (zl', length xs) \<and> zl_rep zl' xs"
proof -
  obtain m es where es: "zl = zl_of m [] es" "map zstr es = xs" "zl_inv es" "count_ok m (length es)" "\<forall>x \<in> set es. entok x"
    using rep_cases [OF assms(1,2)] by metis
  have len: "length es = length xs" using es(2) by auto
  have m: "ZIPLIST_LENGTH e zl = Some m" using count_ok_bound [OF es(4)] by (simp add: es(1) zl_of_def)
  have c: "count_loop zl ZIPLIST_HEADER_SIZE 0 = Some (length xs)"
    using count_loop_spec [OF es(5), of "[]" es ZIPLIST_HEADER_SIZE m 0] len by (simp add: es(1) ZIPLIST_HEADER_SIZE_def)
  have "zl_rep (zl_of (length es) [] es) xs" if "length es < UINT16_MAX"
    unfolding zl_rep_def using es(2,3) that by (intro exI [of _ "length es"] exI [of _ es]) (simp add: count_ok_def)
  moreover have "set_length e zl (length es) = Some (zl_of (length es) [] es)" by (simp add: es(1) zl_of_def)
  ultimately show ?thesis
    using m c es(4) assms(1) len unfolding ziplistLen_def count_ok_def by auto
qed

theorem ziplistLen_correct_witness:
  "\<exists>zl'. ziplistLen Little (zl_of 2 [] [(False, 0, [97]), (False, 3, [98])]) = Some (zl', 2) \<and> zl_rep zl' [[97], [98]]"
  using ziplistLen_correct [OF one_rep, of Little] by (simp add: numeral_2_eq_2)

text \<open>
  C26: \<open>ziplistDeleteRange\<close> removes \<open>num\<close> entries from an index on, or as many as there are; the index is the two's
  complement reading of the unsigned argument, so that callers count from the tail with negative numbers.
\<close>

theorem ziplistDeleteRange_correct:
  assumes "zl_rep zl xs" and "zl_fits xs" and "- (2 ^ 31) \<le> i" and "i < 2 ^ 31"
  shows "\<exists>zl'. ziplistDeleteRange e g zl (nat (i mod 2 ^ 32)) num = Some zl' \<and>
           zl_rep zl' (case position (length xs) i of None \<Rightarrow> xs | Some k \<Rightarrow> take k xs @ drop (k + num) xs)"
proof -
  obtain m es where es: "zl = zl_of m [] es" "map zstr es = xs" "zl_inv es" "count_ok m (length es)"
      "consistent 0 es" "11 + zbound es < 2 ^ 32" "\<forall>x \<in> set es. entok x"
    using rep_cases [OF assms(1,2)] by metis
  have len: "length es = length xs" using es(2) by auto
  have "i mod 2 ^ 32 = (if i < 0 then i + 2 ^ 32 else i)"
    using assms(3,4) mod_pos_pos_trivial [of "i + 2 ^ 32" "2 ^ 32"] by auto
  then have arg: "(if nat (i mod 2 ^ 32) < 2 ^ 31 then int (nat (i mod 2 ^ 32)) else int (nat (i mod 2 ^ 32)) - 2 ^ 32) = i"
    using assms(3,4) by auto
  have idx: "ziplistIndex e zl i = Some (map_option (\<lambda>k. 10 + length (zents (take k es))) (position (length xs) i))"
    using ziplistIndex_spec [OF es(5,6), of e m i] len by (simp add: es(1))
  have call: "ziplistDeleteRange e g zl (nat (i mod 2 ^ 32)) num =
      (case position (length xs) i of None \<Rightarrow> Some zl | Some k \<Rightarrow> us_ziplistDelete e g zl (10 + length (zents (take k es))) num)"
    unfolding ziplistDeleteRange_def arg idx by (simp split: option.split)
  show ?thesis
  proof (cases "position (length xs) i")
    case None
    with call assms(1) show ?thesis by simp
  next
    case (Some k)
    then have k: "k < length es" using position_less len by metis
    show ?thesis
    proof (cases num)
      case 0
      obtain b where "mem_byte zl (10 + length (zents (take k es))) = Some b"
        using at_ent(1) [OF es(7) drop_nth [OF k] refl, of m] es(1) by blast
      moreover have "zipEntry e zl (10 + length (zents (take k es))) = Some (zentry_of (10 + length (zents (take k es))) (es ! k))"
        unfolding es(1) by (rule at_ent(2) [OF es(7) drop_nth [OF k] refl])
      ultimately show ?thesis using call Some assms(1) 0 by (simp add: us_ziplistDelete_def)
    next
      case (Suc n)
      let ?D = "take num (drop k es)" and ?ds = "drop (k + num) es"
      have sp: "take k es @ ?D @ ?ds = es" by (metis append_take_drop_id drop_drop add.commute)
      have D: "?D \<noteq> []" using k Suc by simp
      have lD: "?ds = [] \<and> length ?D \<le> num \<or> num = length ?D" by auto
      have del: "map zstr (take k es @ ?ds) = take k xs @ drop (k + num) xs" using es(2) by (auto simp: take_map drop_map)
      note d = delete_rep [where As = "take k es" and D = ?D and ds = ?ds and num = num, unfolded sp del, OF es(3,4) _ D lD]
      show ?thesis using d(1) [of e g] d(2) call Some assms(2) es(1,2) by auto
    qed
  qed
qed

theorem ziplistDeleteRange_correct_witness:
  "\<exists>zl'. ziplistDeleteRange Little (\<lambda>_. 7) (zl_of 2 [] [(False, 0, [97]), (False, 3, [98])]) (nat (- 1 mod 2 ^ 32)) 5 = Some zl' \<and> zl_rep zl' [[97]]"
  using ziplistDeleteRange_correct [OF one_rep, of "- 1" Little "\<lambda>_. 7" 5] by (simp add: position_def)

end
