(* ===== verification/Server.thy ===== *)
theory Server
  imports Numconv "HOL-Library.AList"
begin

text \<open>
  The key space of the server, \<open>db.c\<close>, with the part of \<open>object.c\<close> and \<open>multi.c\<close> it calls. The state of the server
  is a record. A dictionary is an association list with its keys once each; that the hash table of
  \<open>dict.c\<close> behaves as a map is shown in \<open>Dict\<close>. A client is its index in the list of clients and a database its index in
  the array, as in the field \<open>id\<close>. Strings are \<open>StrObj\<close> or, when integer encoded, \<open>IntObj\<close>; of the other types
  of objects only their existence matters here.

  A failed assertion and a signed overflow, which is undefined behaviour in C, are the value \<open>None\<close>. The clock is a
  parameter of the state: \<open>clock n\<close> is what the \<open>n\<close>th call of \<open>mstime\<close> returns. What is sent to the append only file
  and to the slaves is the list \<open>propagated\<close>. Keyspace notifications, access times and the slot index of the cluster
  are not modelled.
\<close>

unbundle bit_operations_syntax

section \<open>Objects and replies\<close>

datatype robj = StrObj bytes | IntObj int | OtherObj nat

datatype err =
  WrongType | SyntaxErr | NotAnInteger | OutOfRange | InvalidExpire | OffsetOutOfRange | StringTooLong | MsetArity | IncrOverflow |
  InvalidDb | SelectInCluster | MoveInCluster | SameObject | NoKey | MultiNested | DiscardWithoutMulti | ExecWithoutMulti | ExecAbort | WatchInsideMulti | UnknownCommand | WrongArity |
  NoAuth | ClusterDown | CrossSlot | TryAgain | Redirect | Oom | Bgsave | NoReplicas | ReadOnlySlave | PubsubContext | MasterDown |
  Loading | SlowScript | ProtocolError

datatype reply = Ok | Queued | Pong | Status bytes | NullBulk | NullMultiBulk | Integer int | Bulk bytes | MultiBulkLen nat | Error err

text \<open>What a string object stands for, and \<open>tryObjectEncoding\<close>. The sharing of small integers and the packing of short
  strings change where the bytes are and not what they are.\<close>

fun obj_bytes :: "robj \<Rightarrow> bytes" where
  "obj_bytes (StrObj s) = s"
| "obj_bytes (IntObj v) = int_dec v"
| "obj_bytes (OtherObj n) = []"

definition tryObjectEncoding :: "bytes \<Rightarrow> robj option" where
  "tryObjectEncoding s =
     (if length s > 21 then Some (StrObj s)
      else do {
        r \<leftarrow> string2l s (length s);
        Some (case r of Some v \<Rightarrow> IntObj v | None \<Rightarrow> StrObj s)
      })"

fun is_string :: "robj \<Rightarrow> bool" where
  "is_string (OtherObj n) = False"
| "is_string _ = True"

definition stringObjectLen :: "robj \<Rightarrow> nat" where
  "stringObjectLen o' = length (obj_bytes o')"

definition createStringObjectFromLongLong :: "int \<Rightarrow> robj" where
  "createStringObjectFromLongLong v = (if LLONG_MIN \<le> v \<and> v \<le> LLONG_MAX then IntObj v else StrObj (int_dec v))"

text \<open>\<open>strtoll\<close> in base 10: the value, what follows the number in the C string, and whether it is out of range.\<close>

definition c_strtoll :: "bytes \<Rightarrow> int \<times> bytes \<times> bool" where
  "c_strtoll s =
     (let s = takeWhile (\<lambda>c. c \<noteq> 0) s;
          t = dropWhile isspace s;
          (neg, u) = (case t of [] \<Rightarrow> (False, []) | c # u \<Rightarrow> if c = 45 then (True, u) else if c = 43 then (False, u) else (False, t));
          ds = takeWhile isdigit u;
          v = (if neg then - int (dec_val 0 ds) else int (dec_val 0 ds))
      in if ds = [] then (0, s, False)
         else if v < LLONG_MIN then (LLONG_MIN, dropWhile isdigit u, True)
         else if v > LLONG_MAX then (LLONG_MAX, dropWhile isdigit u, True)
         else (v, dropWhile isdigit u, False))"

text \<open>\<open>None\<close> is the return value \<open>REDIS_ERR\<close>.\<close>

definition string_ll :: "bytes \<Rightarrow> int option" where
  "string_ll s =
     (let (v, rest, erange) = c_strtoll s in
      if s \<noteq> [] \<and> isspace (hd s) \<or> rest \<noteq> [] \<or> erange then None else Some v)"

definition getLongLongFromObject :: "robj option \<Rightarrow> int option option" where
  "getLongLongFromObject o' =
     (case o' of
        None \<Rightarrow> Some (Some 0)
      | Some (StrObj s) \<Rightarrow> Some (string_ll s)
      | Some (IntObj v) \<Rightarrow> Some (Some v)
      | Some (OtherObj n) \<Rightarrow> None)"

text \<open>Signed arithmetic.\<close>

definition ll :: "int \<Rightarrow> int option" where
  "ll v = (if LLONG_MIN \<le> v \<and> v \<le> LLONG_MAX then Some v else None)"

section \<open>The state\<close>

datatype proc =
  GetCommand | SetCommand | SetnxCommand | SetexCommand | PsetexCommand | AppendCommand | StrlenCommand | DelCommand | ExistsCommand |
  SetrangeCommand | GetrangeCommand | IncrCommand | DecrCommand | MgetCommand | IncrbyCommand | DecrbyCommand | GetsetCommand |
  MsetCommand | MsetnxCommand | SelectCommand | MoveCommand | RenameCommand | RenamenxCommand | DbsizeCommand | TypeCommand | PingCommand |
  EchoCommand | ExpireCommand | ExpireatCommand | PexpireCommand | PexpireatCommand |
  TtlCommand | PttlCommand | PersistCommand | FlushdbCommand | FlushallCommand |
  MultiCommand | ExecCommand | DiscardCommand | WatchCommand | UnwatchCommand

record redisCommand =
  cname :: bytes
  cproc :: proc
  arity :: int
  cflags :: "32 word"

record multiCmd =
  mc_argv :: "bytes list"
  mc_cmd :: redisCommand

record redisDb =
  dict :: "(bytes \<times> robj) list"
  expires :: "(bytes \<times> int) list"
  watched_keys :: "(bytes \<times> nat list) list"

record client =
  c_db :: nat
  argv :: "bytes list"
  cmd :: "redisCommand option"
  replies :: "reply list"
  flags :: "32 word"
  authenticated :: bool
  mstate :: "multiCmd list"
  watching :: "(bytes \<times> nat) list"
  subscribed :: bool

record server =
  dbs :: "redisDb list"
  clients :: "client list"
  dirty :: int
  clock :: "nat \<Rightarrow> int"
  ticks :: nat
  loading :: bool
  masterhost :: bool
  cluster_enabled :: bool
  propagated :: "(nat \<times> bytes list) list"
  stat_expiredkeys :: nat
  stat_evictedkeys :: nat
  stat_keyspace_hits :: nat
  stat_keyspace_misses :: nat

definition REDIS_MASTER :: "32 word" where "REDIS_MASTER = push_bit 1 1"
definition REDIS_MULTI :: "32 word" where "REDIS_MULTI = push_bit 3 1"
definition REDIS_DIRTY_CAS :: "32 word" where "REDIS_DIRTY_CAS = push_bit 5 1"
definition REDIS_CLOSE_AFTER_REPLY :: "32 word" where "REDIS_CLOSE_AFTER_REPLY = push_bit 6 1"
definition REDIS_DIRTY_EXEC :: "32 word" where "REDIS_DIRTY_EXEC = push_bit 12 1"

definition REDIS_CMD_WRITE :: "32 word" where "REDIS_CMD_WRITE = 1"
definition REDIS_CMD_READONLY :: "32 word" where "REDIS_CMD_READONLY = 2"
definition REDIS_CMD_DENYOOM :: "32 word" where "REDIS_CMD_DENYOOM = 4"
definition REDIS_CMD_LOADING :: "32 word" where "REDIS_CMD_LOADING = 512"
definition REDIS_CMD_STALE :: "32 word" where "REDIS_CMD_STALE = 1024"

text \<open>Accesses through the pointers.\<close>

definition upd_db :: "nat \<Rightarrow> (redisDb \<Rightarrow> redisDb) \<Rightarrow> server \<Rightarrow> server" where
  "upd_db i f s = s\<lparr>dbs := (dbs s)[i := f (dbs s ! i)]\<rparr>"

definition upd_client :: "nat \<Rightarrow> (client \<Rightarrow> client) \<Rightarrow> server \<Rightarrow> server" where
  "upd_client c f s = s\<lparr>clients := (clients s)[c := f (clients s ! c)]\<rparr>"

abbreviation client_db :: "server \<Rightarrow> nat \<Rightarrow> nat" where
  "client_db s c \<equiv> c_db (clients s ! c)"

abbreviation client_argv :: "server \<Rightarrow> nat \<Rightarrow> bytes list" where
  "client_argv s c \<equiv> argv (clients s ! c)"

definition arg :: "server \<Rightarrow> nat \<Rightarrow> nat \<Rightarrow> bytes option" where
  "arg s c j = (if j < length (client_argv s c) then Some (client_argv s c ! j) else None)"

definition addReply :: "nat \<Rightarrow> reply \<Rightarrow> server \<Rightarrow> server" where
  "addReply c r = upd_client c (\<lambda>cl. cl\<lparr>replies := replies cl @ [r]\<rparr>)"

definition mstime :: "server \<Rightarrow> int \<times> server" where
  "mstime s = (clock s (ticks s), s\<lparr>ticks := ticks s + 1\<rparr>)"

definition add_dirty :: "int \<Rightarrow> server \<Rightarrow> server" where
  "add_dirty n s = s\<lparr>dirty := dirty s + n\<rparr>"

definition propagate :: "nat \<Rightarrow> bytes list \<Rightarrow> server \<Rightarrow> server" where
  "propagate i av s = s\<lparr>propagated := propagated s @ [(i, av)]\<rparr>"

section \<open>Watched keys\<close>

text \<open>\<open>touchWatchedKey\<close>: all the clients in the list of the key are marked. A table without the key is left at once.\<close>

definition mark_dirty :: "nat \<Rightarrow> server \<Rightarrow> server" where
  "mark_dirty c = upd_client c (\<lambda>cl. cl\<lparr>flags := flags cl OR REDIS_DIRTY_CAS\<rparr>)"

definition touchWatchedKey :: "nat \<Rightarrow> bytes \<Rightarrow> server \<Rightarrow> server" where
  "touchWatchedKey i key s =
     (case map_of (watched_keys (dbs s ! i)) key of
        None \<Rightarrow> s
      | Some cs \<Rightarrow> fold mark_dirty cs s)"

text \<open>\<open>touchWatchedKeysOnFlush\<close>; \<open>None\<close> is the argument -1, all databases.\<close>

definition flush_touches :: "nat option \<Rightarrow> server \<Rightarrow> client \<Rightarrow> bool" where
  "flush_touches dbid s cl \<longleftrightarrow>
     list_ex (\<lambda>(key, i). (dbid = None \<or> dbid = Some i) \<and> map_of (dict (dbs s ! i)) key \<noteq> None) (watching cl)"

definition touchWatchedKeysOnFlush :: "nat option \<Rightarrow> server \<Rightarrow> server" where
  "touchWatchedKeysOnFlush dbid s =
     s\<lparr>clients := map (\<lambda>cl. if flush_touches dbid s cl then cl\<lparr>flags := flags cl OR REDIS_DIRTY_CAS\<rparr> else cl) (clients s)\<rparr>"

definition signalModifiedKey :: "nat \<Rightarrow> bytes \<Rightarrow> server \<Rightarrow> server" where
  "signalModifiedKey i key = touchWatchedKey i key"

definition signalFlushedDb :: "nat option \<Rightarrow> server \<Rightarrow> server" where
  "signalFlushedDb dbid = touchWatchedKeysOnFlush dbid"

section \<open>The key space\<close>

definition dbExists :: "nat \<Rightarrow> bytes \<Rightarrow> server \<Rightarrow> bool" where
  "dbExists i key s \<longleftrightarrow> map_of (dict (dbs s ! i)) key \<noteq> None"

definition dbDelete :: "nat \<Rightarrow> bytes \<Rightarrow> server \<Rightarrow> bool \<times> server" where
  "dbDelete i key s =
     (let s1 = upd_db i (\<lambda>d. d\<lparr>expires := AList.delete key (expires d)\<rparr>) s
      in if dbExists i key s1 then (True, upd_db i (\<lambda>d. d\<lparr>dict := AList.delete key (dict d)\<rparr>) s1) else (False, s1))"

definition getExpire :: "nat \<Rightarrow> bytes \<Rightarrow> server \<Rightarrow> int option" where
  "getExpire i key s =
     (case map_of (expires (dbs s ! i)) key of
        None \<Rightarrow> Some (- 1)
      | Some t \<Rightarrow> do { ensure (dbExists i key s); Some t })"

definition removeExpire :: "nat \<Rightarrow> bytes \<Rightarrow> server \<Rightarrow> (bool \<times> server) option" where
  "removeExpire i key s = do {
     ensure (dbExists i key s);
     Some (map_of (expires (dbs s ! i)) key \<noteq> None, upd_db i (\<lambda>d. d\<lparr>expires := AList.delete key (expires d)\<rparr>) s)
   }"

definition setExpire :: "nat \<Rightarrow> bytes \<Rightarrow> int \<Rightarrow> server \<Rightarrow> server option" where
  "setExpire i key when' s = do {
     ensure (dbExists i key s);
     Some (upd_db i (\<lambda>d. d\<lparr>expires := AList.update key when' (expires d)\<rparr>) s)
   }"

definition propagateExpire :: "nat \<Rightarrow> bytes \<Rightarrow> server \<Rightarrow> server" where
  "propagateExpire i key = propagate i [bstr ''DEL'', key]"

text \<open>Outside of a script the time is read from the clock.\<close>

definition expireIfNeeded :: "nat \<Rightarrow> bytes \<Rightarrow> server \<Rightarrow> (bool \<times> server) option" where
  "expireIfNeeded i key s = do {
     when' \<leftarrow> getExpire i key s;
     if when' < 0 then Some (False, s)
     else if loading s then Some (False, s)
     else do {
       let (now, s) = mstime s;
       if masterhost s then Some (now > when', s)
       else if now \<le> when' then Some (False, s)
       else do {
         let s = s\<lparr>stat_expiredkeys := stat_expiredkeys s + 1\<rparr>;
         let s = propagateExpire i key s;
         Some (dbDelete i key s)
       }
     }
   }"

definition lookupKey :: "nat \<Rightarrow> bytes \<Rightarrow> server \<Rightarrow> robj option" where
  "lookupKey i key s = map_of (dict (dbs s ! i)) key"

definition lookupKeyRead :: "nat \<Rightarrow> bytes \<Rightarrow> server \<Rightarrow> (robj option \<times> server) option" where
  "lookupKeyRead i key s = do {
     (_, s) \<leftarrow> expireIfNeeded i key s;
     let val = lookupKey i key s;
     Some (val, if val = None then s\<lparr>stat_keyspace_misses := stat_keyspace_misses s + 1\<rparr>
                else s\<lparr>stat_keyspace_hits := stat_keyspace_hits s + 1\<rparr>)
   }"

definition lookupKeyWrite :: "nat \<Rightarrow> bytes \<Rightarrow> server \<Rightarrow> (robj option \<times> server) option" where
  "lookupKeyWrite i key s = do {
     (_, s) \<leftarrow> expireIfNeeded i key s;
     Some (lookupKey i key s, s)
   }"

definition lookupKeyReadOrReply :: "nat \<Rightarrow> bytes \<Rightarrow> reply \<Rightarrow> server \<Rightarrow> (robj option \<times> server) option" where
  "lookupKeyReadOrReply c key r s = do {
     (o', s) \<leftarrow> lookupKeyRead (client_db s c) key s;
     Some (o', if o' = None then addReply c r s else s)
   }"

definition lookupKeyWriteOrReply :: "nat \<Rightarrow> bytes \<Rightarrow> reply \<Rightarrow> server \<Rightarrow> (robj option \<times> server) option" where
  "lookupKeyWriteOrReply c key r s = do {
     (o', s) \<leftarrow> lookupKeyWrite (client_db s c) key s;
     Some (o', if o' = None then addReply c r s else s)
   }"

definition dbAdd :: "nat \<Rightarrow> bytes \<Rightarrow> robj \<Rightarrow> server \<Rightarrow> server option" where
  "dbAdd i key val s = do {
     ensure (\<not> dbExists i key s);
     Some (upd_db i (\<lambda>d. d\<lparr>dict := AList.update key val (dict d)\<rparr>) s)
   }"

definition dbOverwrite :: "nat \<Rightarrow> bytes \<Rightarrow> robj \<Rightarrow> server \<Rightarrow> server option" where
  "dbOverwrite i key val s = do {
     ensure (dbExists i key s);
     Some (upd_db i (\<lambda>d. d\<lparr>dict := AList.update key val (dict d)\<rparr>) s)
   }"

definition setKey :: "nat \<Rightarrow> bytes \<Rightarrow> robj \<Rightarrow> server \<Rightarrow> server option" where
  "setKey i key val s = do {
     (o', s) \<leftarrow> lookupKeyWrite i key s;
     s \<leftarrow> (if o' = None then dbAdd i key val s else dbOverwrite i key val s);
     (_, s) \<leftarrow> removeExpire i key s;
     Some (signalModifiedKey i key s)
   }"

definition emptyDb :: "server \<Rightarrow> nat \<times> server" where
  "emptyDb s = (sum_list (map (\<lambda>d. length (dict d)) (dbs s)), s\<lparr>dbs := map (\<lambda>d. d\<lparr>dict := [], expires := []\<rparr>) (dbs s)\<rparr>)"

definition selectDb :: "nat \<Rightarrow> int \<Rightarrow> server \<Rightarrow> server option" where
  "selectDb c i s =
     (if i < 0 \<or> i \<ge> int (length (dbs s)) then None else Some (upd_client c (\<lambda>cl. cl\<lparr>c_db := nat i\<rparr>) s))"

section \<open>Commands on the key space\<close>

text \<open>The number of an argument, or the error reply: \<open>getLongLongFromObjectOrReply\<close> and \<open>getLongFromObjectOrReply\<close>, which are
  the same on a platform where \<open>long\<close> has 64 bits. The second component is \<open>None\<close> when the error has been sent.\<close>

definition getLongLongFromObjectOrReply :: "nat \<Rightarrow> robj option \<Rightarrow> err \<Rightarrow> server \<Rightarrow> (int option \<times> server) option" where
  "getLongLongFromObjectOrReply c o' msg s = do {
     r \<leftarrow> getLongLongFromObject o';
     Some (r, if r = None then addReply c (Error msg) s else s)
   }"

definition flushdbCommand :: "nat \<Rightarrow> server \<Rightarrow> server option" where
  "flushdbCommand c s = do {
     let i = client_db s c;
     let s = add_dirty (int (length (dict (dbs s ! i)))) s;
     let s = signalFlushedDb (Some i) s;
     let s = upd_db i (\<lambda>d. d\<lparr>dict := [], expires := []\<rparr>) s;
     Some (addReply c Ok s)
   }"

text \<open>The rest of \<open>flushallCommand\<close> writes the empty dump to disk and restores the counter.\<close>

definition flushallCommand :: "nat \<Rightarrow> server \<Rightarrow> server option" where
  "flushallCommand c s = do {
     let s = signalFlushedDb None s;
     let (n, s) = emptyDb s;
     let s = add_dirty (int n) s;
     let s = addReply c Ok s;
     Some (add_dirty 1 s)
   }"

fun del_loop :: "nat \<Rightarrow> bytes list \<Rightarrow> nat \<Rightarrow> server \<Rightarrow> nat \<times> server" where
  "del_loop i [] deleted s = (deleted, s)"
| "del_loop i (key # keys) deleted s =
     (let (b, s) = dbDelete i key s
      in if b then del_loop i keys (deleted + 1) (add_dirty 1 (signalModifiedKey i key s)) else del_loop i keys deleted s)"

definition delCommand :: "nat \<Rightarrow> server \<Rightarrow> server option" where
  "delCommand c s = do {
     let (deleted, s) = del_loop (client_db s c) (tl (client_argv s c)) 0 s;
     Some (addReply c (Integer (int deleted)) s)
   }"

definition existsCommand :: "nat \<Rightarrow> server \<Rightarrow> server option" where
  "existsCommand c s = do {
     key \<leftarrow> arg s c 1;
     (_, s) \<leftarrow> expireIfNeeded (client_db s c) key s;
     Some (addReply c (Integer (if dbExists (client_db s c) key s then 1 else 0)) s)
   }"

text \<open>The index is a \<open>long\<close>; \<open>selectDb\<close> takes an \<open>int\<close>.\<close>

definition selectCommand :: "nat \<Rightarrow> server \<Rightarrow> server option" where
  "selectCommand c s = do {
     a \<leftarrow> arg s c 1;
     (r, s) \<leftarrow> getLongLongFromObjectOrReply c (Some (StrObj a)) InvalidDb s;
     (case r of
        None \<Rightarrow> Some s
      | Some i \<Rightarrow>
          if cluster_enabled s \<and> i \<noteq> 0 then Some (addReply c (Error SelectInCluster) s)
          else (case selectDb c (sint (word_of_int i :: 32 word)) s of
             None \<Rightarrow> Some (addReply c (Error InvalidDb) s)
           | Some s \<Rightarrow> Some (addReply c Ok s)))
   }"

definition dbsizeCommand :: "nat \<Rightarrow> server \<Rightarrow> server option" where
  "dbsizeCommand c s = Some (addReply c (Integer (int (length (dict (dbs s ! client_db s c))))) s)"

text \<open>The names of the types by their numbers, \<open>REDIS_LIST\<close> to \<open>REDIS_HASH\<close>.\<close>

fun type_name :: "robj \<Rightarrow> bytes" where
  "type_name (OtherObj n) =
     (if n = 1 then bstr ''list'' else if n = 2 then bstr ''set'' else if n = 3 then bstr ''zset''
      else if n = 4 then bstr ''hash'' else bstr ''unknown'')"
| "type_name _ = bstr ''string''"

definition typeCommand :: "nat \<Rightarrow> server \<Rightarrow> server option" where
  "typeCommand c s = do {
     key \<leftarrow> arg s c 1;
     (o', s) \<leftarrow> lookupKeyRead (client_db s c) key s;
     Some (addReply c (Status (case o' of None \<Rightarrow> bstr ''none'' | Some v \<Rightarrow> type_name v)) s)
   }"

definition renameGenericCommand :: "nat \<Rightarrow> bool \<Rightarrow> server \<Rightarrow> server option" where
  "renameGenericCommand c nx s = do {
     key \<leftarrow> arg s c 1;
     newkey \<leftarrow> arg s c 2;
     let i = client_db s c;
     if key = newkey then Some (addReply c (Error SameObject) s)
     else do {
       (o', s) \<leftarrow> lookupKeyWriteOrReply c key (Error NoKey) s;
       (case o' of
          None \<Rightarrow> Some s
        | Some v \<Rightarrow> do {
            expire \<leftarrow> getExpire i key s;
            (o2, s) \<leftarrow> lookupKeyWrite i newkey s;
            if o2 \<noteq> None \<and> nx then Some (addReply c (Integer 0) s)
            else do {
              let s = (if o2 \<noteq> None then snd (dbDelete i newkey s) else s);
              s \<leftarrow> dbAdd i newkey v s;
              s \<leftarrow> (if expire \<noteq> - 1 then setExpire i newkey expire s else Some s);
              let (b, s) = dbDelete i key s;
              let s = signalModifiedKey i key s;
              let s = signalModifiedKey i newkey s;
              let s = add_dirty 1 s;
              Some (addReply c (if nx then Integer 1 else Ok) s)
            }
          })
     }
   }"

definition renameCommand :: "nat \<Rightarrow> server \<Rightarrow> server option" where
  "renameCommand c s = renameGenericCommand c False s"

definition renamenxCommand :: "nat \<Rightarrow> server \<Rightarrow> server option" where
  "renamenxCommand c s = renameGenericCommand c True s"

text \<open>The conversion of \<open>atoi\<close> is the one of \<open>strtol\<close>, kept in 32 bits.\<close>

definition c_atoi :: "bytes \<Rightarrow> int" where
  "c_atoi s = sint (word_of_int (fst (c_strtoll s)) :: 32 word)"

definition moveCommand :: "nat \<Rightarrow> server \<Rightarrow> server option" where
  "moveCommand c s =
     (if cluster_enabled s then Some (addReply c (Error MoveInCluster) s)
      else do {
        key \<leftarrow> arg s c 1;
        a \<leftarrow> arg s c 2;
        let src = client_db s c;
        (case selectDb c (c_atoi a) s of
           None \<Rightarrow> Some (addReply c (Error OutOfRange) s)
         | Some s \<Rightarrow> do {
             let dst = client_db s c;
             s \<leftarrow> selectDb c (int src) s;
             if src = dst then Some (addReply c (Error SameObject) s)
             else do {
               (o', s) \<leftarrow> lookupKeyWrite src key s;
               (case o' of
                  None \<Rightarrow> Some (addReply c (Integer 0) s)
                | Some v \<Rightarrow> do {
                    (o2, s) \<leftarrow> lookupKeyWrite dst key s;
                    if o2 \<noteq> None then Some (addReply c (Integer 0) s)
                    else do {
                      s \<leftarrow> dbAdd dst key v s;
                      let (b, s) = dbDelete src key s;
                      let s = add_dirty 1 s;
                      Some (addReply c (Integer 1) s)
                    }
                  })
             }
           })
      })"

definition pingCommand :: "nat \<Rightarrow> server \<Rightarrow> server option" where
  "pingCommand c s = Some (addReply c Pong s)"

definition echoCommand :: "nat \<Rightarrow> server \<Rightarrow> server option" where
  "echoCommand c s = do { a \<leftarrow> arg s c 1; Some (addReply c (Bulk a) s) }"

text \<open>The field \<open>cmd\<close> is also set to the command of the new name; nothing that is modelled reads it before the next command sets it, but for the
  queue of \<open>EXEC\<close>, which is discarded.\<close>

definition rewriteClientCommandVector :: "nat \<Rightarrow> bytes list \<Rightarrow> server \<Rightarrow> server" where
  "rewriteClientCommandVector c av = upd_client c (\<lambda>cl. cl\<lparr>argv := av\<rparr>)"

definition expireGenericCommand :: "nat \<Rightarrow> int \<Rightarrow> bool \<Rightarrow> server \<Rightarrow> server option" where
  "expireGenericCommand c basetime seconds s = do {
     key \<leftarrow> arg s c 1;
     param \<leftarrow> arg s c 2;
     (r, s) \<leftarrow> getLongLongFromObjectOrReply c (Some (StrObj param)) NotAnInteger s;
     (case r of
        None \<Rightarrow> Some s
      | Some when' \<Rightarrow> do {
          when' \<leftarrow> (if seconds then ll (when' * 1000) else Some when');
          when' \<leftarrow> ll (when' + basetime);
          let i = client_db s c;
          (o', s) \<leftarrow> lookupKeyRead i key s;
          if o' = None then Some (addReply c (Integer 0) s)
          else do {
            let (now, s) = mstime s;
            if when' \<le> now \<and> \<not> loading s \<and> \<not> masterhost s then do {
              let (b, s) = dbDelete i key s;
              ensure b;
              let s = add_dirty 1 s;
              let s = rewriteClientCommandVector c [bstr ''DEL'', key] s;
              let s = signalModifiedKey i key s;
              Some (addReply c (Integer 1) s)
            }
            else do {
              s \<leftarrow> setExpire i key when' s;
              let s = addReply c (Integer 1) s;
              let s = signalModifiedKey i key s;
              Some (add_dirty 1 s)
            }
          }
        })
   }"

definition expireCommand :: "nat \<Rightarrow> server \<Rightarrow> server option" where
  "expireCommand c s = do { let (now, s) = mstime s; expireGenericCommand c now True s }"

definition expireatCommand :: "nat \<Rightarrow> server \<Rightarrow> server option" where
  "expireatCommand c s = expireGenericCommand c 0 True s"

definition pexpireCommand :: "nat \<Rightarrow> server \<Rightarrow> server option" where
  "pexpireCommand c s = do { let (now, s) = mstime s; expireGenericCommand c now False s }"

definition pexpireatCommand :: "nat \<Rightarrow> server \<Rightarrow> server option" where
  "pexpireatCommand c s = expireGenericCommand c 0 False s"

definition ttlGenericCommand :: "nat \<Rightarrow> bool \<Rightarrow> server \<Rightarrow> server option" where
  "ttlGenericCommand c output_ms s = do {
     key \<leftarrow> arg s c 1;
     let i = client_db s c;
     (o', s) \<leftarrow> lookupKeyRead i key s;
     if o' = None then Some (addReply c (Integer (- 2)) s)
     else do {
       expire \<leftarrow> getExpire i key s;
       (ttl, s) \<leftarrow>
         (if expire \<noteq> - 1 then do {
            let (now, s) = mstime s;
            d \<leftarrow> ll (expire - now);
            Some (max 0 d, s)
          } else Some (- 1, s));
       if ttl = - 1 then Some (addReply c (Integer (- 1)) s)
       else do {
         r \<leftarrow> (if output_ms then Some ttl else map_option (\<lambda>t. t div 1000) (ll (ttl + 500)));
         Some (addReply c (Integer r) s)
       }
     }
   }"

definition ttlCommand :: "nat \<Rightarrow> server \<Rightarrow> server option" where
  "ttlCommand c s = ttlGenericCommand c False s"

definition pttlCommand :: "nat \<Rightarrow> server \<Rightarrow> server option" where
  "pttlCommand c s = ttlGenericCommand c True s"

definition persistCommand :: "nat \<Rightarrow> server \<Rightarrow> server option" where
  "persistCommand c s = do {
     key \<leftarrow> arg s c 1;
     let i = client_db s c;
     if \<not> dbExists i key s then Some (addReply c (Integer 0) s)
     else do {
       (b, s) \<leftarrow> removeExpire i key s;
       Some (if b then add_dirty 1 (addReply c (Integer 1) s) else addReply c (Integer 0) s)
     }
   }"

end
