(* ===== verification/Strings.thy ===== *)
theory Strings
  imports Server
begin

text \<open>
  The string commands, \<open>t_string.c\<close>. Each is a function of the client that sent it and of the state; it sends one
  reply (\<open>MGET\<close> a header and one reply for each key). \<open>INCRBYFLOAT\<close> computes with \<open>long double\<close> and is not modelled.
  What is written to a string object is written to the value in the database.
\<close>

definition checkStringLength :: "nat \<Rightarrow> int \<Rightarrow> server \<Rightarrow> bool \<times> server" where
  "checkStringLength c sz s =
     (if sz > 512 * 1024 * 1024 then (False, addReply c (Error StringTooLong) s) else (True, s))"

definition REDIS_SET_NX :: "32 word" where "REDIS_SET_NX = 1"
definition REDIS_SET_XX :: "32 word" where "REDIS_SET_XX = 2"

text \<open>The two tests of the existence of the key, the second only if the first is not decisive.\<close>

definition set_aborts :: "32 word \<Rightarrow> nat \<Rightarrow> bytes \<Rightarrow> server \<Rightarrow> (bool \<times> server) option" where
  "set_aborts fl i key s = do {
     (a, s) \<leftarrow> (if fl AND REDIS_SET_NX \<noteq> 0 then do { (o', s) \<leftarrow> lookupKeyWrite i key s; Some (o' \<noteq> None, s) } else Some (False, s));
     if a then Some (True, s)
     else if fl AND REDIS_SET_XX \<noteq> 0 then do { (o', s) \<leftarrow> lookupKeyWrite i key s; Some (o' = None, s) }
     else Some (False, s)
   }"

text \<open>The expire time in milliseconds; the outer \<open>None\<close> of the first component is no expire, the inner one an error that has been sent.\<close>

definition set_expire_ms :: "nat \<Rightarrow> bytes option \<Rightarrow> bool \<Rightarrow> server \<Rightarrow> (int option option \<times> server) option" where
  "set_expire_ms c expire seconds s =
     (case expire of
        None \<Rightarrow> Some (None, s)
      | Some e \<Rightarrow> do {
          (r, s) \<leftarrow> getLongLongFromObjectOrReply c (Some (StrObj e)) NotAnInteger s;
          (case r of
             None \<Rightarrow> Some (Some None, s)
           | Some ms \<Rightarrow>
               if ms \<le> 0 then Some (Some None, addReply c (Error InvalidExpire) s)
               else do { ms \<leftarrow> (if seconds then ll (ms * 1000) else Some ms); Some (Some (Some ms), s) })
        })"

definition setGenericCommand ::
    "nat \<Rightarrow> 32 word \<Rightarrow> bytes \<Rightarrow> robj \<Rightarrow> bytes option \<Rightarrow> bool \<Rightarrow> reply \<Rightarrow> reply \<Rightarrow> server \<Rightarrow> server option" where
  "setGenericCommand c fl key val expire seconds ok_reply abort_reply s = do {
     (ex, s) \<leftarrow> set_expire_ms c expire seconds s;
     if ex = Some None then Some s
     else do {
       let i = client_db s c;
       (abort, s) \<leftarrow> set_aborts fl i key s;
       if abort then Some (addReply c abort_reply s)
       else do {
         s \<leftarrow> setKey i key val s;
         let s = add_dirty 1 s;
         s \<leftarrow> (case ex of
                Some (Some ms) \<Rightarrow> do { let (now, s) = mstime s; t \<leftarrow> ll (now + ms); setExpire i key t s }
              | _ \<Rightarrow> Some s);
         Some (addReply c ok_reply s)
       }
     }
   }"

text \<open>The options of \<open>SET\<close>: two letters in either case and the end of the C string.\<close>

definition opt_is :: "byte \<Rightarrow> byte \<Rightarrow> bytes \<Rightarrow> bool" where
  "opt_is x y a = (case a of p # q # r \<Rightarrow> tolower p = x \<and> tolower q = y \<and> (r = [] \<or> hd r = 0) | _ \<Rightarrow> False)"

text \<open>\<open>None\<close> is the syntax error; the result is the flags, the expire argument and whether it is in seconds.\<close>

fun set_options :: "bytes list \<Rightarrow> 32 word \<Rightarrow> bytes option \<Rightarrow> bool \<Rightarrow> (32 word \<times> bytes option \<times> bool) option" where
  "set_options [] fl expire seconds = Some (fl, expire, seconds)"
| "set_options (a # as) fl expire seconds =
     (if opt_is 110 120 a then set_options as (fl OR REDIS_SET_NX) expire seconds
      else if opt_is 120 120 a then set_options as (fl OR REDIS_SET_XX) expire seconds
      else if opt_is 101 120 a \<and> as \<noteq> [] then set_options (tl as) fl (Some (hd as)) True
      else if opt_is 112 120 a \<and> as \<noteq> [] then set_options (tl as) fl (Some (hd as)) False
      else None)"

definition setCommand :: "nat \<Rightarrow> server \<Rightarrow> server option" where
  "setCommand c s =
     (case set_options (drop 3 (client_argv s c)) 0 None True of
        None \<Rightarrow> Some (addReply c (Error SyntaxErr) s)
      | Some (fl, expire, seconds) \<Rightarrow> do {
          key \<leftarrow> arg s c 1;
          a \<leftarrow> arg s c 2;
          val \<leftarrow> tryObjectEncoding a;
          setGenericCommand c fl key val expire seconds Ok NullBulk s
        })"

definition setnxCommand :: "nat \<Rightarrow> server \<Rightarrow> server option" where
  "setnxCommand c s = do {
     key \<leftarrow> arg s c 1;
     a \<leftarrow> arg s c 2;
     val \<leftarrow> tryObjectEncoding a;
     setGenericCommand c REDIS_SET_NX key val None False (Integer 1) (Integer 0) s
   }"

definition setexCommand :: "nat \<Rightarrow> server \<Rightarrow> server option" where
  "setexCommand c s = do {
     key \<leftarrow> arg s c 1;
     e \<leftarrow> arg s c 2;
     a \<leftarrow> arg s c 3;
     val \<leftarrow> tryObjectEncoding a;
     setGenericCommand c 0 key val (Some e) True Ok NullBulk s
   }"

definition psetexCommand :: "nat \<Rightarrow> server \<Rightarrow> server option" where
  "psetexCommand c s = do {
     key \<leftarrow> arg s c 1;
     e \<leftarrow> arg s c 2;
     a \<leftarrow> arg s c 3;
     val \<leftarrow> tryObjectEncoding a;
     setGenericCommand c 0 key val (Some e) False Ok NullBulk s
   }"

text \<open>The first component is the return value \<open>REDIS_OK\<close>.\<close>

definition getGenericCommand :: "nat \<Rightarrow> server \<Rightarrow> (bool \<times> server) option" where
  "getGenericCommand c s = do {
     key \<leftarrow> arg s c 1;
     (o', s) \<leftarrow> lookupKeyReadOrReply c key NullBulk s;
     (case o' of
        None \<Rightarrow> Some (True, s)
      | Some v \<Rightarrow>
          if \<not> is_string v then Some (False, addReply c (Error WrongType) s)
          else Some (True, addReply c (Bulk (obj_bytes v)) s))
   }"

definition getCommand :: "nat \<Rightarrow> server \<Rightarrow> server option" where
  "getCommand c s = map_option snd (getGenericCommand c s)"

definition getsetCommand :: "nat \<Rightarrow> server \<Rightarrow> server option" where
  "getsetCommand c s = do {
     (ok, s) \<leftarrow> getGenericCommand c s;
     if \<not> ok then Some s
     else do {
       key \<leftarrow> arg s c 1;
       a \<leftarrow> arg s c 2;
       val \<leftarrow> tryObjectEncoding a;
       s \<leftarrow> setKey (client_db s c) key val s;
       Some (add_dirty 1 s)
     }
   }"

text \<open>\<open>sdsgrowzero\<close> and the copy of the value into the string.\<close>

definition write_range :: "bytes \<Rightarrow> nat \<Rightarrow> bytes \<Rightarrow> bytes" where
  "write_range b offset value =
     (let b = b @ replicate (offset + length value - length b) 0
      in take offset b @ value @ drop (offset + length value) b)"

text \<open>The sum of the offset and the length is computed in \<open>size_t\<close> and passed on as a \<open>long long\<close>. A sum of \<open>2 ^ 63\<close> or more
  passes the check as a negative number; \<open>sdsgrowzero\<close> then asks for that many bytes, which cannot be allocated, and the server exits.\<close>

definition setrangeCommand :: "nat \<Rightarrow> server \<Rightarrow> server option" where
  "setrangeCommand c s = do {
     key \<leftarrow> arg s c 1;
     a \<leftarrow> arg s c 2;
     value \<leftarrow> arg s c 3;
     (r, s) \<leftarrow> getLongLongFromObjectOrReply c (Some (StrObj a)) NotAnInteger s;
     (case r of
        None \<Rightarrow> Some s
      | Some offset \<Rightarrow>
          if offset < 0 then Some (addReply c (Error OffsetOutOfRange) s)
          else do {
            let i = client_db s c;
            let sz = to_int64 ((nat offset + length value) mod 2 ^ 64);
            (o', s) \<leftarrow> lookupKeyWrite i key s;
            (case o' of
               None \<Rightarrow>
                 if value = [] then Some (addReply c (Integer 0) s)
                 else do {
                   let (ok, s) = checkStringLength c sz s;
                   if \<not> ok then Some s
                   else do {
                     ensure (sz \<ge> 0);
                     let new = write_range [] (nat offset) value;
                     s \<leftarrow> dbAdd i key (StrObj new) s;
                     let s = signalModifiedKey i key s;
                     Some (addReply c (Integer (int (length new))) (add_dirty 1 s))
                   }
                 }
             | Some v \<Rightarrow>
                 if \<not> is_string v then Some (addReply c (Error WrongType) s)
                 else if value = [] then Some (addReply c (Integer (int (stringObjectLen v))) s)
                 else do {
                   let (ok, s) = checkStringLength c sz s;
                   if \<not> ok then Some s
                   else do {
                     ensure (sz \<ge> 0);
                     let new = write_range (obj_bytes v) (nat offset) value;
                     s \<leftarrow> dbOverwrite i key (StrObj new) s;
                     let s = signalModifiedKey i key s;
                     Some (addReply c (Integer (int (length new))) (add_dirty 1 s))
                   }
                 })
          })
   }"

text \<open>The bounds of \<open>GETRANGE\<close>: \<open>end\<close> is compared with the length after a conversion to 32 bits.\<close>

definition range_bounds :: "nat \<Rightarrow> int \<Rightarrow> int \<Rightarrow> int \<times> int" where
  "range_bounds len start end' =
     (let start = (if start < 0 then int len + start else start);
          end' = (if end' < 0 then int len + end' else end');
          start = (if start < 0 then 0 else start);
          end' = (if end' < 0 then 0 else end');
          end' = (if end' mod 2 ^ 32 \<ge> int len then int len - 1 else end')
      in (start, end'))"

definition getrangeCommand :: "nat \<Rightarrow> server \<Rightarrow> server option" where
  "getrangeCommand c s = do {
     key \<leftarrow> arg s c 1;
     a \<leftarrow> arg s c 2;
     b \<leftarrow> arg s c 3;
     (r1, s) \<leftarrow> getLongLongFromObjectOrReply c (Some (StrObj a)) NotAnInteger s;
     (case r1 of
        None \<Rightarrow> Some s
      | Some start \<Rightarrow> do {
          (r2, s) \<leftarrow> getLongLongFromObjectOrReply c (Some (StrObj b)) NotAnInteger s;
          (case r2 of
             None \<Rightarrow> Some s
           | Some end' \<Rightarrow> do {
               (o', s) \<leftarrow> lookupKeyReadOrReply c key (Bulk []) s;
               (case o' of
                  None \<Rightarrow> Some s
                | Some v \<Rightarrow>
                    if \<not> is_string v then Some (addReply c (Error WrongType) s)
                    else do {
                      let str = obj_bytes v;
                      let (start, end') = range_bounds (length str) start end';
                      if start > end' then Some (addReply c (Bulk []) s)
                      else do {
                        xs \<leftarrow> mem_read str (nat start) (nat (end' - start + 1));
                        Some (addReply c (Bulk xs) s)
                      }
                    })
             })
        })
   }"

fun mget_loop :: "nat \<Rightarrow> bytes list \<Rightarrow> server \<Rightarrow> server option" where
  "mget_loop c [] s = Some s"
| "mget_loop c (key # keys) s = do {
     (o', s) \<leftarrow> lookupKeyRead (client_db s c) key s;
     let r = (case o' of None \<Rightarrow> NullBulk | Some v \<Rightarrow> if is_string v then Bulk (obj_bytes v) else NullBulk);
     mget_loop c keys (addReply c r s)
   }"

definition mgetCommand :: "nat \<Rightarrow> server \<Rightarrow> server option" where
  "mgetCommand c s = do {
     let keys = tl (client_argv s c);
     mget_loop c keys (addReply c (MultiBulkLen (length keys)) s)
   }"

text \<open>The loops over the pairs of keys and values.\<close>

fun busy_loop :: "nat \<Rightarrow> bytes list \<Rightarrow> nat \<Rightarrow> server \<Rightarrow> (nat \<times> server) option" where
  "busy_loop i (key # val # kvs) busykeys s = do {
     (o', s) \<leftarrow> lookupKeyWrite i key s;
     busy_loop i kvs (if o' \<noteq> None then busykeys + 1 else busykeys) s
   }"
| "busy_loop i _ busykeys s = Some (busykeys, s)"

fun mset_loop :: "nat \<Rightarrow> bytes list \<Rightarrow> server \<Rightarrow> server option" where
  "mset_loop i (key # val # kvs) s = do {
     v \<leftarrow> tryObjectEncoding val;
     s \<leftarrow> setKey i key v s;
     mset_loop i kvs s
   }"
| "mset_loop i _ s = Some s"

definition msetGenericCommand :: "nat \<Rightarrow> bool \<Rightarrow> server \<Rightarrow> server option" where
  "msetGenericCommand c nx s = do {
     let kvs = tl (client_argv s c);
     let i = client_db s c;
     if length (client_argv s c) mod 2 = 0 then Some (addReply c (Error MsetArity) s)
     else do {
       (busykeys, s) \<leftarrow> (if nx then busy_loop i kvs 0 s else Some (0, s));
       if busykeys \<noteq> 0 then Some (addReply c (Integer 0) s)
       else do {
         s \<leftarrow> mset_loop i kvs s;
         let s = add_dirty (int (length kvs) div 2) s;
         Some (addReply c (if nx then Integer 1 else Ok) s)
       }
     }
   }"

definition msetCommand :: "nat \<Rightarrow> server \<Rightarrow> server option" where
  "msetCommand c s = msetGenericCommand c False s"

definition msetnxCommand :: "nat \<Rightarrow> server \<Rightarrow> server option" where
  "msetnxCommand c s = msetGenericCommand c True s"

definition incrDecrCommand :: "nat \<Rightarrow> int \<Rightarrow> server \<Rightarrow> server option" where
  "incrDecrCommand c incr s = do {
     key \<leftarrow> arg s c 1;
     let i = client_db s c;
     (o', s) \<leftarrow> lookupKeyWrite i key s;
     if o' \<noteq> None \<and> \<not> is_string (the o') then Some (addReply c (Error WrongType) s)
     else do {
       (r, s) \<leftarrow> getLongLongFromObjectOrReply c o' NotAnInteger s;
       (case r of
          None \<Rightarrow> Some s
        | Some oldvalue \<Rightarrow>
            if (incr < 0 \<and> oldvalue < 0 \<and> incr < LLONG_MIN - oldvalue) \<or> (incr > 0 \<and> oldvalue > 0 \<and> incr > LLONG_MAX - oldvalue)
            then Some (addReply c (Error IncrOverflow) s)
            else do {
              value \<leftarrow> ll (oldvalue + incr);
              let new = createStringObjectFromLongLong value;
              s \<leftarrow> (if o' \<noteq> None then dbOverwrite i key new s else dbAdd i key new s);
              let s = signalModifiedKey i key s;
              let s = add_dirty 1 s;
              Some (addReply c (Integer value) s)
            })
     }
   }"

definition incrCommand :: "nat \<Rightarrow> server \<Rightarrow> server option" where
  "incrCommand c s = incrDecrCommand c 1 s"

definition decrCommand :: "nat \<Rightarrow> server \<Rightarrow> server option" where
  "decrCommand c s = incrDecrCommand c (- 1) s"

definition incrbyCommand :: "nat \<Rightarrow> server \<Rightarrow> server option" where
  "incrbyCommand c s = do {
     a \<leftarrow> arg s c 2;
     (r, s) \<leftarrow> getLongLongFromObjectOrReply c (Some (StrObj a)) NotAnInteger s;
     (case r of None \<Rightarrow> Some s | Some incr \<Rightarrow> incrDecrCommand c incr s)
   }"

definition decrbyCommand :: "nat \<Rightarrow> server \<Rightarrow> server option" where
  "decrbyCommand c s = do {
     a \<leftarrow> arg s c 2;
     (r, s) \<leftarrow> getLongLongFromObjectOrReply c (Some (StrObj a)) NotAnInteger s;
     (case r of None \<Rightarrow> Some s | Some incr \<Rightarrow> do { d \<leftarrow> ll (- incr); incrDecrCommand c d s })
   }"

definition appendCommand :: "nat \<Rightarrow> server \<Rightarrow> server option" where
  "appendCommand c s = do {
     key \<leftarrow> arg s c 1;
     a \<leftarrow> arg s c 2;
     let i = client_db s c;
     (o', s) \<leftarrow> lookupKeyWrite i key s;
     (case o' of
        None \<Rightarrow> do {
          val \<leftarrow> tryObjectEncoding a;
          s \<leftarrow> dbAdd i key val s;
          let s = signalModifiedKey i key s;
          Some (addReply c (Integer (int (stringObjectLen val))) (add_dirty 1 s))
        }
      | Some v \<Rightarrow>
          if \<not> is_string v then Some (addReply c (Error WrongType) s)
          else do {
            let (ok, s) = checkStringLength c (int (stringObjectLen v + length a)) s;
            if \<not> ok then Some s
            else do {
              let new = obj_bytes v @ a;
              s \<leftarrow> dbOverwrite i key (StrObj new) s;
              let s = signalModifiedKey i key s;
              Some (addReply c (Integer (int (length new))) (add_dirty 1 s))
            }
          })
   }"

definition strlenCommand :: "nat \<Rightarrow> server \<Rightarrow> server option" where
  "strlenCommand c s = do {
     key \<leftarrow> arg s c 1;
     (o', s) \<leftarrow> lookupKeyReadOrReply c key (Integer 0) s;
     (case o' of
        None \<Rightarrow> Some s
      | Some v \<Rightarrow>
          if \<not> is_string v then Some (addReply c (Error WrongType) s)
          else Some (addReply c (Integer (int (stringObjectLen v))) s))
   }"

end
