(* ===== verification/Multi.thy ===== *)
theory Multi
  imports Strings
begin

text \<open>
  Transactions, \<open>multi.c\<close>, and the execution of commands, \<open>call\<close> and \<open>processCommand\<close> of \<open>redis.c\<close>. The command table
  is the one of \<open>redis.c\<close> restricted to the commands of \<open>Server\<close> and \<open>Strings\<close> and to those of this theory. The record \<open>config\<close>
  holds the settings and the state of the other subsystems that \<open>processCommand\<close> looks at; the node of the cluster that serves a query, the
  readings of the allocator and the random choices are functions in it. Monitors, the slow log, statistics and scripts are not modelled.
\<close>

section \<open>Watching keys\<close>

definition watchForKey :: "nat \<Rightarrow> bytes \<Rightarrow> server \<Rightarrow> server" where
  "watchForKey c key s =
     (let i = client_db s c
      in if (key, i) \<in> set (watching (clients s ! c)) then s
         else let cs = (case map_of (watched_keys (dbs s ! i)) key of None \<Rightarrow> [] | Some cs \<Rightarrow> cs);
                  s = upd_db i (\<lambda>d. d\<lparr>watched_keys := AList.update key (cs @ [c]) (watched_keys d)\<rparr>) s
              in upd_client c (\<lambda>cl. cl\<lparr>watching := watching cl @ [(key, i)]\<rparr>) s)"

text \<open>One step of the loop of \<open>unwatchAllKeys\<close>: the client is taken from the list of the key and the key from the list of the client.\<close>

definition unwatch_key :: "nat \<Rightarrow> bytes \<Rightarrow> nat \<Rightarrow> server \<Rightarrow> server option" where
  "unwatch_key c key i s = do {
     cs \<leftarrow> map_of (watched_keys (dbs s ! i)) key;
     ensure (c \<in> set cs);
     let cs = remove1 c cs;
     let s = upd_db i (\<lambda>d. d\<lparr>watched_keys := if cs = [] then AList.delete key (watched_keys d) else AList.update key cs (watched_keys d)\<rparr>) s;
     Some (upd_client c (\<lambda>cl. cl\<lparr>watching := tl (watching cl)\<rparr>) s)
   }"

fun unwatch_loop :: "nat \<Rightarrow> (bytes \<times> nat) list \<Rightarrow> server \<Rightarrow> server option" where
  "unwatch_loop c [] s = Some s"
| "unwatch_loop c ((key, i) # wks) s = do { s \<leftarrow> unwatch_key c key i s; unwatch_loop c wks s }"

definition unwatchAllKeys :: "nat \<Rightarrow> server \<Rightarrow> server option" where
  "unwatchAllKeys c s = unwatch_loop c (watching (clients s ! c)) s"

section \<open>Transactions\<close>

definition set_flags :: "nat \<Rightarrow> 32 word \<Rightarrow> server \<Rightarrow> server" where
  "set_flags c m = upd_client c (\<lambda>cl. cl\<lparr>flags := flags cl OR m\<rparr>)"

definition clear_flags :: "nat \<Rightarrow> 32 word \<Rightarrow> server \<Rightarrow> server" where
  "clear_flags c m = upd_client c (\<lambda>cl. cl\<lparr>flags := flags cl AND NOT m\<rparr>)"

definition has_flag :: "server \<Rightarrow> nat \<Rightarrow> 32 word \<Rightarrow> bool" where
  "has_flag s c m \<longleftrightarrow> flags (clients s ! c) AND m \<noteq> 0"

definition initClientMultiState :: "nat \<Rightarrow> server \<Rightarrow> server" where
  "initClientMultiState c = upd_client c (\<lambda>cl. cl\<lparr>mstate := []\<rparr>)"

definition queueMultiCommand :: "nat \<Rightarrow> server \<Rightarrow> server option" where
  "queueMultiCommand c s = do {
     cm \<leftarrow> cmd (clients s ! c);
     Some (upd_client c (\<lambda>cl. cl\<lparr>mstate := mstate cl @ [\<lparr>mc_argv = argv cl, mc_cmd = cm\<rparr>]\<rparr>) s)
   }"

definition discardTransaction :: "nat \<Rightarrow> server \<Rightarrow> server option" where
  "discardTransaction c s = do {
     let s = initClientMultiState c s;
     let s = clear_flags c (REDIS_MULTI OR REDIS_DIRTY_CAS OR REDIS_DIRTY_EXEC) s;
     unwatchAllKeys c s
   }"

definition flagTransaction :: "nat \<Rightarrow> server \<Rightarrow> server" where
  "flagTransaction c s = (if has_flag s c REDIS_MULTI then set_flags c REDIS_DIRTY_EXEC s else s)"

definition multiCommand :: "nat \<Rightarrow> server \<Rightarrow> server option" where
  "multiCommand c s =
     (if has_flag s c REDIS_MULTI then Some (addReply c (Error MultiNested) s)
      else Some (addReply c Ok (set_flags c REDIS_MULTI s)))"

definition discardCommand :: "nat \<Rightarrow> server \<Rightarrow> server option" where
  "discardCommand c s =
     (if \<not> has_flag s c REDIS_MULTI then Some (addReply c (Error DiscardWithoutMulti) s)
      else do { s \<leftarrow> discardTransaction c s; Some (addReply c Ok s) })"

definition watchCommand :: "nat \<Rightarrow> server \<Rightarrow> server option" where
  "watchCommand c s =
     (if has_flag s c REDIS_MULTI then Some (addReply c (Error WatchInsideMulti) s)
      else Some (addReply c Ok (fold (watchForKey c) (tl (client_argv s c)) s)))"

definition unwatchCommand :: "nat \<Rightarrow> server \<Rightarrow> server option" where
  "unwatchCommand c s = do {
     s \<leftarrow> unwatchAllKeys c s;
     let s = clear_flags c REDIS_DIRTY_CAS s;
     Some (addReply c Ok s)
   }"

definition execCommandPropagateMulti :: "nat \<Rightarrow> server \<Rightarrow> server" where
  "execCommandPropagateMulti c s = propagate (client_db s c) [bstr ''MULTI''] s"

section \<open>Calling a command\<close>

text \<open>The procedure of a command, for all commands but \<open>EXEC\<close>: that one is never queued, so it is not reached from itself.\<close>

fun run_proc :: "proc \<Rightarrow> nat \<Rightarrow> server \<Rightarrow> server option" where
  "run_proc GetCommand c s = getCommand c s"
| "run_proc SetCommand c s = setCommand c s"
| "run_proc SetnxCommand c s = setnxCommand c s"
| "run_proc SetexCommand c s = setexCommand c s"
| "run_proc PsetexCommand c s = psetexCommand c s"
| "run_proc AppendCommand c s = appendCommand c s"
| "run_proc StrlenCommand c s = strlenCommand c s"
| "run_proc DelCommand c s = delCommand c s"
| "run_proc ExistsCommand c s = existsCommand c s"
| "run_proc SetrangeCommand c s = setrangeCommand c s"
| "run_proc GetrangeCommand c s = getrangeCommand c s"
| "run_proc IncrCommand c s = incrCommand c s"
| "run_proc DecrCommand c s = decrCommand c s"
| "run_proc MgetCommand c s = mgetCommand c s"
| "run_proc IncrbyCommand c s = incrbyCommand c s"
| "run_proc DecrbyCommand c s = decrbyCommand c s"
| "run_proc GetsetCommand c s = getsetCommand c s"
| "run_proc MsetCommand c s = msetCommand c s"
| "run_proc MsetnxCommand c s = msetnxCommand c s"
| "run_proc SelectCommand c s = selectCommand c s"
| "run_proc MoveCommand c s = moveCommand c s"
| "run_proc RenameCommand c s = renameCommand c s"
| "run_proc RenamenxCommand c s = renamenxCommand c s"
| "run_proc DbsizeCommand c s = dbsizeCommand c s"
| "run_proc TypeCommand c s = typeCommand c s"
| "run_proc PingCommand c s = pingCommand c s"
| "run_proc EchoCommand c s = echoCommand c s"
| "run_proc ExpireCommand c s = expireCommand c s"
| "run_proc ExpireatCommand c s = expireatCommand c s"
| "run_proc PexpireCommand c s = pexpireCommand c s"
| "run_proc PexpireatCommand c s = pexpireatCommand c s"
| "run_proc TtlCommand c s = ttlCommand c s"
| "run_proc PttlCommand c s = pttlCommand c s"
| "run_proc PersistCommand c s = persistCommand c s"
| "run_proc FlushdbCommand c s = flushdbCommand c s"
| "run_proc FlushallCommand c s = flushallCommand c s"
| "run_proc MultiCommand c s = multiCommand c s"
| "run_proc ExecCommand c s = None"
| "run_proc DiscardCommand c s = discardCommand c s"
| "run_proc WatchCommand c s = watchCommand c s"
| "run_proc UnwatchCommand c s = unwatchCommand c s"

text \<open>\<open>call\<close> with the procedure as an argument: the command is propagated when it has changed \<open>server.dirty\<close>.\<close>

definition call_with :: "(nat \<Rightarrow> server \<Rightarrow> server option) \<Rightarrow> nat \<Rightarrow> server \<Rightarrow> server option" where
  "call_with p c s = do {
     let dirty0 = dirty s;
     s \<leftarrow> p c s;
     Some (if dirty s \<noteq> dirty0 then propagate (client_db s c) (client_argv s c) s else s)
   }"

definition call_queued :: "nat \<Rightarrow> server \<Rightarrow> server option" where
  "call_queued c s = do {
     cm \<leftarrow> cmd (clients s ! c);
     call_with (run_proc (cproc cm)) c s
   }"

text \<open>The loop over the queued commands from the \<open>j\<close>th on; the first argument is their number.\<close>

fun exec_loop :: "nat \<Rightarrow> nat \<Rightarrow> nat \<Rightarrow> bool \<Rightarrow> server \<Rightarrow> (bool \<times> server) option" where
  "exec_loop 0 c j must_propagate s = Some (must_propagate, s)"
| "exec_loop (Suc n) c j must_propagate s = do {
     let mc = mstate (clients s ! c) ! j;
     let s = upd_client c (\<lambda>cl. cl\<lparr>argv := mc_argv mc, cmd := Some (mc_cmd mc)\<rparr>) s;
     let first_write = (\<not> must_propagate \<and> cflags (mc_cmd mc) AND REDIS_CMD_READONLY = 0);
     let s = (if first_write then execCommandPropagateMulti c s else s);
     s \<leftarrow> call_queued c s;
     cm \<leftarrow> cmd (clients s ! c);
     let s = upd_client c (\<lambda>cl. cl\<lparr>mstate := (mstate cl)[j := \<lparr>mc_argv = argv cl, mc_cmd = cm\<rparr>]\<rparr>) s;
     exec_loop n c (j + 1) (must_propagate \<or> first_write) s
   }"

definition execCommand :: "nat \<Rightarrow> server \<Rightarrow> server option" where
  "execCommand c s =
     (if \<not> has_flag s c REDIS_MULTI then Some (addReply c (Error ExecWithoutMulti) s)
      else if has_flag s c (REDIS_DIRTY_CAS OR REDIS_DIRTY_EXEC) then
        discardTransaction c (addReply c (if has_flag s c REDIS_DIRTY_EXEC then Error ExecAbort else NullMultiBulk) s)
      else do {
        s \<leftarrow> unwatchAllKeys c s;
        let orig_argv = client_argv s c;
        let orig_cmd = cmd (clients s ! c);
        let n = length (mstate (clients s ! c));
        let s = addReply c (MultiBulkLen n) s;
        (must_propagate, s) \<leftarrow> exec_loop n c 0 False s;
        let s = upd_client c (\<lambda>cl. cl\<lparr>argv := orig_argv, cmd := orig_cmd\<rparr>) s;
        s \<leftarrow> discardTransaction c s;
        Some (if must_propagate then add_dirty 1 s else s)
      })"

definition call :: "nat \<Rightarrow> server \<Rightarrow> server option" where
  "call c s = do {
     cm \<leftarrow> cmd (clients s ! c);
     call_with (if cproc cm = ExecCommand then execCommand else run_proc (cproc cm)) c s
   }"

section \<open>Processing a command\<close>

abbreviation "CF_r \<equiv> REDIS_CMD_READONLY"
abbreviation "CF_w \<equiv> REDIS_CMD_WRITE"
abbreviation "CF_wm \<equiv> REDIS_CMD_WRITE OR REDIS_CMD_DENYOOM"

text \<open>The rows of the modelled commands. The flags that only concern scripts and monitors are left out.\<close>

definition redisCommandTable :: "redisCommand list" where
  "redisCommandTable = map (\<lambda>(n, p, a, f). \<lparr>cname = bstr n, cproc = p, arity = a, cflags = f\<rparr>)
     [(''get'', GetCommand, 2, CF_r), (''set'', SetCommand, - 3, CF_wm), (''setnx'', SetnxCommand, 3, CF_wm),
      (''setex'', SetexCommand, 4, CF_wm), (''psetex'', PsetexCommand, 4, CF_wm), (''append'', AppendCommand, 3, CF_wm),
      (''strlen'', StrlenCommand, 2, CF_r), (''del'', DelCommand, - 2, CF_w), (''exists'', ExistsCommand, 2, CF_r),
      (''setrange'', SetrangeCommand, 4, CF_wm), (''getrange'', GetrangeCommand, 4, CF_r), (''substr'', GetrangeCommand, 4, CF_r),
      (''incr'', IncrCommand, 2, CF_wm), (''decr'', DecrCommand, 2, CF_wm), (''mget'', MgetCommand, - 2, CF_r),
      (''incrby'', IncrbyCommand, 3, CF_wm), (''decrby'', DecrbyCommand, 3, CF_wm), (''getset'', GetsetCommand, 3, CF_wm),
      (''mset'', MsetCommand, - 3, CF_wm), (''msetnx'', MsetnxCommand, - 3, CF_wm), (''select'', SelectCommand, 2, CF_r OR REDIS_CMD_LOADING),
      (''move'', MoveCommand, 3, CF_w), (''rename'', RenameCommand, 3, CF_w), (''renamenx'', RenamenxCommand, 3, CF_w),
      (''dbsize'', DbsizeCommand, 1, CF_r), (''ping'', PingCommand, 1, CF_r OR REDIS_CMD_STALE), (''echo'', EchoCommand, 2, CF_r),
      (''type'', TypeCommand, 2, CF_r),
      (''expire'', ExpireCommand, 3, CF_w), (''expireat'', ExpireatCommand, 3, CF_w), (''pexpire'', PexpireCommand, 3, CF_w),
      (''pexpireat'', PexpireatCommand, 3, CF_w), (''ttl'', TtlCommand, 2, CF_r), (''pttl'', PttlCommand, 2, CF_r),
      (''persist'', PersistCommand, 2, CF_w), (''flushdb'', FlushdbCommand, 1, CF_w), (''flushall'', FlushallCommand, 1, CF_w),
      (''multi'', MultiCommand, 1, CF_r), (''exec'', ExecCommand, 1, 0), (''discard'', DiscardCommand, 1, CF_r),
      (''watch'', WatchCommand, - 2, CF_r), (''unwatch'', UnwatchCommand, 1, CF_r)]"

text \<open>A name with a NUL byte is hashed with all its bytes and compared up to the NUL; here all bytes are compared.\<close>

definition lookupCommand :: "bytes \<Rightarrow> redisCommand option" where
  "lookupCommand name = List.find (\<lambda>cm. strcasecmp_eq (cname cm) name) redisCommandTable"

datatype node_result = Myself | CrossSlotQuery | UnstableSlot | OtherNode

datatype policy = VolatileLru | VolatileTtl | VolatileRandom | AllkeysLru | AllkeysRandom | NoEviction

text \<open>The configuration, and what the state of the server does not determine: the node that serves a query, the memory in use
  (without the output buffers of slaves and the AOF buffers), the change of the allocated memory by a deletion, the random choices and the idle times of keys.\<close>

record config =
  requirepass :: bool
  cluster_ok :: bool
  getNodeByQuery :: "server \<Rightarrow> nat \<Rightarrow> node_result"
  maxmemory :: nat
  maxmemory_policy :: policy
  maxmemory_samples :: nat
  mem_used :: "server \<Rightarrow> nat"
  mem_delta :: "server \<Rightarrow> nat \<Rightarrow> bytes \<Rightarrow> int"
  random_entry :: "server \<Rightarrow> nat \<Rightarrow> nat \<Rightarrow> nat"
  idle_time :: "server \<Rightarrow> nat \<Rightarrow> bytes \<Rightarrow> int"
  stop_writes_on_bgsave_err :: bool
  saveparamslen :: nat
  lastbgsave_err :: bool
  aof_last_write_err :: bool
  repl_min_slaves_to_write :: nat
  repl_min_slaves_max_lag :: nat
  repl_good_slaves_count :: nat
  repl_slave_ro :: bool
  repl_connected :: bool
  repl_serve_stale_data :: bool
  lua_timedout :: bool

subsection \<open>The memory limit\<close>

text \<open>The keys among which a policy chooses, and the \<open>k\<close>th random one of them.\<close>

definition eviction_pool :: "config \<Rightarrow> nat \<Rightarrow> server \<Rightarrow> bytes list" where
  "eviction_pool cf j s =
     (if maxmemory_policy cf \<in> {AllkeysLru, AllkeysRandom} then map fst (dict (dbs s ! j)) else map fst (expires (dbs s ! j)))"

definition random_key :: "config \<Rightarrow> nat \<Rightarrow> nat \<Rightarrow> server \<Rightarrow> bytes" where
  "random_key cf j k s = (let ks = eviction_pool cf j s in ks ! (random_entry cf s j k mod length ks))"

text \<open>The samples: the best key so far with its value is replaced when the new one is better.\<close>

fun sample_loop :: "nat \<Rightarrow> nat \<Rightarrow> (nat \<Rightarrow> bytes) \<Rightarrow> (bytes \<Rightarrow> int option) \<Rightarrow> (int \<Rightarrow> int \<Rightarrow> bool) \<Rightarrow> (bytes \<times> int) option \<Rightarrow> (bytes \<times> int) option option" where
  "sample_loop 0 k key val better best = Some best"
| "sample_loop (Suc n) k key val better best = do {
     let thiskey = key k;
     thisval \<leftarrow> val thiskey;
     sample_loop n (k + 1) key val better
       (case best of
          None \<Rightarrow> Some (thiskey, thisval)
        | Some (bestkey, bestval) \<Rightarrow> if better thisval bestval then Some (thiskey, thisval) else best)
   }"

text \<open>The key of a database that is evicted. The volatile LRU policy looks up the object of the key and would dereference NULL without one.\<close>

definition best_key :: "config \<Rightarrow> nat \<Rightarrow> server \<Rightarrow> bytes option option" where
  "best_key cf j s =
     (case maxmemory_policy cf of
        AllkeysRandom \<Rightarrow> Some (Some (random_key cf j 0 s))
      | VolatileRandom \<Rightarrow> Some (Some (random_key cf j 0 s))
      | AllkeysLru \<Rightarrow>
          map_option (map_option fst)
            (sample_loop (maxmemory_samples cf) 0 (\<lambda>k. random_key cf j k s) (\<lambda>key. Some (idle_time cf s j key)) (\<lambda>v b. v > b) None)
      | VolatileLru \<Rightarrow>
          map_option (map_option fst)
            (sample_loop (maxmemory_samples cf) 0 (\<lambda>k. random_key cf j k s)
               (\<lambda>key. do { ensure (dbExists j key s); Some (idle_time cf s j key) }) (\<lambda>v b. v > b) None)
      | VolatileTtl \<Rightarrow>
          map_option (map_option fst)
            (sample_loop (maxmemory_samples cf) 0 (\<lambda>k. random_key cf j k s) (\<lambda>key. map_of (expires (dbs s ! j)) key) (\<lambda>v b. v < b) None)
      | NoEviction \<Rightarrow> Some None)"

definition evict_key :: "nat \<Rightarrow> bytes \<Rightarrow> server \<Rightarrow> server" where
  "evict_key i key s =
     (let s = propagateExpire i key s;
          s = snd (dbDelete i key s)
      in s\<lparr>stat_evictedkeys := stat_evictedkeys s + 1\<rparr>)"

text \<open>One round over the databases, with the memory and the number of keys freed. The memory is a \<open>size_t\<close>.\<close>

fun evict_round :: "config \<Rightarrow> nat list \<Rightarrow> nat \<Rightarrow> nat \<Rightarrow> server \<Rightarrow> (nat \<times> nat \<times> server) option" where
  "evict_round cf [] mem_freed keys_freed s = Some (mem_freed, keys_freed, s)"
| "evict_round cf (j # js) mem_freed keys_freed s =
     (if eviction_pool cf j s = [] then evict_round cf js mem_freed keys_freed s
      else do {
        best \<leftarrow> best_key cf j s;
        (case best of
           None \<Rightarrow> evict_round cf js mem_freed keys_freed s
         | Some key \<Rightarrow> evict_round cf js (nat ((int mem_freed + mem_delta cf s j key) mod 2 ^ 64)) (keys_freed + 1) (evict_key j key s))
      })"

text \<open>Each round removes an entry or is the last one.\<close>

definition entries_left :: "server \<Rightarrow> nat" where
  "entries_left s = sum_list (map (\<lambda>d. length (dict d) + length (expires d)) (dbs s))"

lemma sum_list_update_less:
  "j < length xs \<Longrightarrow> f y < f (xs ! j) \<Longrightarrow> sum_list (map f (xs[j := y])) < sum_list (map f xs)" for f :: "'a \<Rightarrow> nat"
proof (induction xs arbitrary: j)
  case (Cons x xs)
  then show ?case by (cases j) auto
qed simp

lemma sum_list_update_le:
  "f y \<le> f (xs ! j) \<Longrightarrow> sum_list (map f (xs[j := y])) \<le> sum_list (map f xs)" for f :: "'a \<Rightarrow> nat"
proof (induction xs arbitrary: j)
  case (Cons x xs)
  then show ?case by (cases j) (auto simp: add_mono)
qed simp

lemma length_delete_less: "k \<in> set (map fst xs) \<Longrightarrow> length (AList.delete k xs) < length xs"
  by (auto simp: AList.delete_eq intro!: length_filter_less)

lemma length_delete_le: "length (AList.delete k xs) \<le> length xs"
  by (simp add: AList.delete_eq)

lemma entries_left_evict:
  assumes "j < length (dbs s)" "key \<in> set (eviction_pool cf j s)"
  shows "entries_left (evict_key j key s) < entries_left s" "length (dbs (evict_key j key s)) = length (dbs s)"
proof -
  let ?d = "dbs s ! j"
  let ?x = "?d\<lparr>expires := AList.delete key (expires ?d)\<rparr>"
  let ?y = "?x\<lparr>dict := AList.delete key (dict ?d)\<rparr>"
  have e: "dbs (evict_key j key s) = (dbs s)[j := if map_of (dict ?d) key = None then ?x else ?y]"
    using assms(1) by (simp add: evict_key_def propagateExpire_def propagate_def dbDelete_def dbExists_def upd_db_def Let_def)
  then show "length (dbs (evict_key j key s)) = length (dbs s)" by simp
  have pool: "key \<in> fst ` set (dict ?d) \<or> key \<in> fst ` set (expires ?d)"
    using assms(2) by (auto simp: eviction_pool_def split: if_splits)
  let ?z = "if map_of (dict ?d) key = None then ?x else ?y"
  have "length (dict ?z) + length (expires ?z) < length (dict ?d) + length (expires ?d)"
    using pool length_delete_less [of key "dict ?d"] length_delete_less [of key "expires ?d"] length_delete_le [of key "dict ?d"]
      length_delete_le [of key "expires ?d"]
    by (auto simp: map_of_eq_None_iff intro: add_less_le_mono add_le_less_mono)
  then show "entries_left (evict_key j key s) < entries_left s"
    unfolding entries_left_def e by (intro sum_list_update_less assms(1))
qed

lemma sample_loop_mem:
  assumes "sample_loop n k key val better best = Some (Some (bestkey, v))" "\<And>k. key k \<in> X" "\<And>x v. best = Some (x, v) \<Longrightarrow> x \<in> X"
  shows "bestkey \<in> X"
  using assms(1,3)
proof (induction n arbitrary: k best)
  case (Suc n)
  then obtain w where "sample_loop n (k + 1) key val better (case best of None \<Rightarrow> Some (key k, w)
      | Some (bk, bv) \<Rightarrow> if better w bv then Some (key k, w) else best) = Some (Some (bestkey, v))"
    by (auto simp: Let_def split: bind_splits)
  then show ?case by (rule Suc.IH) (use Suc.prems(2) assms(2) in \<open>auto split: option.splits if_splits\<close>)
qed auto

lemma random_key_mem: "eviction_pool cf j s \<noteq> [] \<Longrightarrow> random_key cf j k s \<in> set (eviction_pool cf j s)"
  by (simp add: random_key_def Let_def)

lemma best_key_mem:
  assumes "best_key cf j s = Some (Some key)" "eviction_pool cf j s \<noteq> []"
  shows "key \<in> set (eviction_pool cf j s)"
  using assms by (auto simp: best_key_def random_key_mem split: policy.splits elim!: sample_loop_mem)

lemma evict_round_left:
  assumes "evict_round cf js m n s = Some (m', n', s')" "\<And>j. j \<in> set js \<Longrightarrow> j < length (dbs s)"
  shows "n' + entries_left s' \<le> n + entries_left s"
  using assms
proof (induction cf js m n s rule: evict_round.induct)
  case (2 cf j js m n s)
  show ?case
  proof (cases "eviction_pool cf j s = []")
    case True
    then show ?thesis using 2 by simp
  next
    case False
    then obtain best where b: "best_key cf j s = Some best" using "2.prems"(1) by (auto split: bind_splits)
    show ?thesis
    proof (cases best)
      case None
      then show ?thesis using 2 b False by simp
    next
      case (Some key)
      have e: "entries_left (evict_key j key s) < entries_left s" "length (dbs (evict_key j key s)) = length (dbs s)"
        using entries_left_evict [OF _ best_key_mem [OF b [unfolded Some] False]] "2.prems"(2) by simp_all
      have "n' + entries_left s' \<le> (n + 1) + entries_left (evict_key j key s)"
        by (rule "2.IH"(3) [OF False b Some]) (use "2.prems" b Some False e(2) in auto)
      then show ?thesis using e(1) by simp
    qed
  qed
qed simp

function evict_loop :: "config \<Rightarrow> nat \<Rightarrow> nat \<Rightarrow> server \<Rightarrow> (bool \<times> server) option" where
  "evict_loop cf mem_tofree mem_freed s =
     (if mem_freed < mem_tofree then do {
        (mem_freed, keys_freed, s) \<leftarrow> evict_round cf [0..<length (dbs s)] mem_freed 0 s;
        if keys_freed = 0 then Some (False, s) else evict_loop cf mem_tofree mem_freed s
      } else Some (True, s))"
  by auto

termination
  by (relation "measure (\<lambda>(cf, t, m, s). entries_left s)") (auto dest!: evict_round_left)

declare evict_loop.simps [simp del]

definition freeMemoryIfNeeded :: "config \<Rightarrow> server \<Rightarrow> (bool \<times> server) option" where
  "freeMemoryIfNeeded cf s =
     (if mem_used cf s \<le> maxmemory cf then Some (True, s)
      else if maxmemory_policy cf = NoEviction then Some (False, s)
      else evict_loop cf (mem_used cf s - maxmemory cf) 0 s)"

text \<open>An error reply to a command that is not executed, with and without \<open>flagTransaction\<close>.\<close>

definition reject :: "nat \<Rightarrow> err \<Rightarrow> server \<Rightarrow> server" where
  "reject c e s = addReply c (Error e) (flagTransaction c s)"

text \<open>The redirection of the cluster: \<open>None\<close> when the command is executed here.\<close>

definition cluster_check :: "config \<Rightarrow> nat \<Rightarrow> redisCommand \<Rightarrow> server \<Rightarrow> err option" where
  "cluster_check cf c cm s =
     (if cluster_enabled s \<and> \<not> has_flag s c REDIS_MASTER \<and>
         \<not> (cproc cm \<in> {SelectCommand, DbsizeCommand, PingCommand, EchoCommand, FlushdbCommand, FlushallCommand, MultiCommand, ExecCommand, DiscardCommand, UnwatchCommand}) then
        if \<not> cluster_ok cf then Some ClusterDown
        else (case getNodeByQuery cf s c of
                Myself \<Rightarrow> None | CrossSlotQuery \<Rightarrow> Some CrossSlot | UnstableSlot \<Rightarrow> Some TryAgain | OtherNode \<Rightarrow> Some Redirect)
      else None)"

text \<open>The tests after the memory limit: an error and whether the transaction is flagged.\<close>

definition state_check :: "config \<Rightarrow> nat \<Rightarrow> redisCommand \<Rightarrow> server \<Rightarrow> (err \<times> bool) option" where
  "state_check cf c cm s =
     (let write = cflags cm AND REDIS_CMD_WRITE \<noteq> 0 in
      if (stop_writes_on_bgsave_err cf \<and> saveparamslen cf > 0 \<and> lastbgsave_err cf \<or> aof_last_write_err cf) \<and> \<not> masterhost s \<and> (write \<or> cproc cm = PingCommand)
      then Some (Bgsave, True)
      else if repl_min_slaves_to_write cf \<noteq> 0 \<and> repl_min_slaves_max_lag cf \<noteq> 0 \<and> write \<and>
              repl_good_slaves_count cf < repl_min_slaves_to_write cf
      then Some (NoReplicas, True)
      else if masterhost s \<and> repl_slave_ro cf \<and> \<not> has_flag s c REDIS_MASTER \<and> write then Some (ReadOnlySlave, False)
      else if subscribed (clients s ! c) then Some (PubsubContext, False)
      else if masterhost s \<and> \<not> repl_connected cf \<and> \<not> repl_serve_stale_data cf \<and> cflags cm AND REDIS_CMD_STALE = 0 then Some (MasterDown, True)
      else if loading s \<and> cflags cm AND REDIS_CMD_LOADING = 0 then Some (Loading, False)
      else if lua_timedout cf then Some (SlowScript, True)
      else None)"

text \<open>Queueing or executing the command.\<close>

definition exec_or_queue :: "nat \<Rightarrow> redisCommand \<Rightarrow> server \<Rightarrow> server option" where
  "exec_or_queue c cm s =
     (if has_flag s c REDIS_MULTI \<and> cproc cm \<notin> {ExecCommand, DiscardCommand, MultiCommand, WatchCommand}
      then do { s \<leftarrow> queueMultiCommand c s; Some (addReply c Queued s) }
      else call c s)"

definition is_quit :: "bytes \<Rightarrow> bool" where
  "is_quit name \<longleftrightarrow> strcasecmp_eq (takeWhile (\<lambda>c. c \<noteq> 0) name) (bstr ''quit'')"

definition processCommand :: "config \<Rightarrow> nat \<Rightarrow> server \<Rightarrow> server option" where
  "processCommand cf c s = do {
     name \<leftarrow> arg s c 0;
     if is_quit name then Some (set_flags c REDIS_CLOSE_AFTER_REPLY (addReply c Ok s))
     else do {
       let s = upd_client c (\<lambda>cl. cl\<lparr>cmd := lookupCommand name\<rparr>) s;
       let argc = int (length (client_argv s c));
       (case lookupCommand name of
          None \<Rightarrow> Some (reject c UnknownCommand s)
        | Some cm \<Rightarrow>
            if arity cm > 0 \<and> arity cm \<noteq> argc \<or> argc < - arity cm then Some (reject c WrongArity s)
            else if requirepass cf \<and> \<not> authenticated (clients s ! c) then Some (reject c NoAuth s)
            else
              (case cluster_check cf c cm s of
                 Some e \<Rightarrow> Some (reject c e s)
               | None \<Rightarrow> do {
                   (ok, s) \<leftarrow> (if maxmemory cf \<noteq> 0 then freeMemoryIfNeeded cf s else Some (True, s));
                   if cflags cm AND REDIS_CMD_DENYOOM \<noteq> 0 \<and> \<not> ok then Some (reject c Oom s)
                   else
                     (case state_check cf c cm s of
                        Some (e, flagged) \<Rightarrow> Some (if flagged then reject c e s else addReply c (Error e) s)
                      | None \<Rightarrow> exec_or_queue c cm s)
                 }))
     }
   }"

section \<open>Start and connections\<close>

definition createClient :: "server \<Rightarrow> server" where
  "createClient s =
     s\<lparr>clients := clients s @ [\<lparr>c_db = 0, argv = [], cmd = None, replies = [], flags = 0, authenticated = False, mstate = [], watching = [],
        subscribed = False\<rparr>]\<rparr>"

definition initServer :: "nat \<Rightarrow> (nat \<Rightarrow> int) \<Rightarrow> bool \<Rightarrow> server" where
  "initServer dbnum clk cluster =
     \<lparr>dbs = replicate dbnum \<lparr>dict = [], expires = [], watched_keys = []\<rparr>, clients = [], dirty = 0, clock = clk, ticks = 0, loading = False,
      masterhost = False, cluster_enabled = cluster, propagated = [], stat_expiredkeys = 0, stat_evictedkeys = 0, stat_keyspace_hits = 0,
      stat_keyspace_misses = 0\<rparr>"

text \<open>A command has been read from the connection: its arguments are set and it is processed.\<close>

definition handle_command :: "config \<Rightarrow> nat \<Rightarrow> bytes list \<Rightarrow> server \<Rightarrow> server option" where
  "handle_command cf c av s = processCommand cf c (upd_client c (\<lambda>cl. cl\<lparr>argv := av\<rparr>) s)"

end
