(* ===== verification/Server_Frame.thy ===== *)
theory Server_Frame
  imports Multi
begin

text \<open>
  What every command on the data set keeps. \<open>hold b m Q\<close> is a weakest precondition in the option monad: the result of \<open>m\<close> satisfies
  \<open>Q\<close>, and there is one when \<open>b\<close> holds. The relation \<open>keeps\<close> between the state before a command and a later one says that the databases
  are well formed, that the watch tables, the queues and the other clients are unchanged but for \<open>REDIS_DIRTY_CAS\<close>, and that the watchers of
  a changed key are marked, up to a set of keys that are still to be signalled. Each operation of \<open>db.c\<close> has a rule that
  carries \<open>keeps\<close> along, and each command a lemma that composes the rules.
\<close>

section \<open>Weakest preconditions\<close>

definition hold :: "bool \<Rightarrow> 'a option \<Rightarrow> ('a \<Rightarrow> bool) \<Rightarrow> bool" where
  "hold b m Q \<longleftrightarrow> (case m of None \<Rightarrow> \<not> b | Some x \<Rightarrow> Q x)"

lemma hold_simps [simp]:
  "hold b (Some x) Q \<longleftrightarrow> Q x"
  "hold b None Q \<longleftrightarrow> \<not> b"
  "hold b (m \<bind> f) Q \<longleftrightarrow> hold b m (\<lambda>x. hold b (f x) Q)"
  "hold b (map_option g m) Q \<longleftrightarrow> hold b m (\<lambda>x. Q (g x))"
  by (auto simp: hold_def split: option.splits bind_splits)

lemma hold_mono: "hold b m Q \<Longrightarrow> (\<And>x. Q x \<Longrightarrow> Q' x) \<Longrightarrow> hold b m Q'"
  by (auto simp: hold_def split: option.splits)

lemma hold_ll: "(b \<Longrightarrow> LLONG_MIN \<le> v \<and> v \<le> LLONG_MAX) \<Longrightarrow> (LLONG_MIN \<le> v \<Longrightarrow> v \<le> LLONG_MAX \<Longrightarrow> Q v) \<Longrightarrow> hold b (ll v) Q"
  by (auto simp: ll_def)

lemma hold_arg: "(b \<Longrightarrow> j < length (client_argv s c)) \<Longrightarrow> (j < length (client_argv s c) \<Longrightarrow> Q (client_argv s c ! j)) \<Longrightarrow> hold b (arg s c j) Q"
  by (auto simp: arg_def)

section \<open>Well-formed databases\<close>

declare map_of_eq_Some_iff [simp del] Some_eq_map_of_iff [simp del]

fun val_ok :: "robj \<Rightarrow> bool" where
  "val_ok (IntObj v) \<longleftrightarrow> LLONG_MIN \<le> v \<and> v \<le> LLONG_MAX"
| "val_ok _ \<longleftrightarrow> True"

definition db_inv :: "redisDb \<Rightarrow> bool" where
  "db_inv d \<longleftrightarrow>
     distinct (map fst (dict d)) \<and> distinct (map fst (expires d)) \<and>
     (\<forall>k v. map_of (dict d) k = Some v \<longrightarrow> val_ok v) \<and>
     (\<forall>k t. map_of (expires d) k = Some t \<longrightarrow> map_of (dict d) k \<noteq> None)"

text \<open>Times so far from the limits of \<open>long long\<close> that the arithmetic of the commands cannot overflow.\<close>

definition times_ok :: "redisDb \<Rightarrow> bool" where
  "times_ok d \<longleftrightarrow> (\<forall>k t. map_of (expires d) k = Some t \<longrightarrow> \<bar>t\<bar> < 2 ^ 62)"

definition clock_ok :: "server \<Rightarrow> bool" where
  "clock_ok s \<longleftrightarrow> (\<forall>n. 0 \<le> clock s n \<and> clock s n < 2 ^ 61)"

text \<open>An argument that is not too long, as the protocol demands, and not a huge number.\<close>

definition small_arg :: "bytes \<Rightarrow> bool" where
  "small_arg a \<longleftrightarrow> length a < 2 ^ 30 \<and> (case string_ll a of None \<Rightarrow> True | Some v \<Rightarrow> \<bar>v\<bar> < 2 ^ 32)"

lemma tryObjectEncoding_spec:
  obtains v where "tryObjectEncoding s = Some v" "val_ok v" "is_string v" "obj_bytes v = s"
proof (cases "length s > 21")
  case True
  then show ?thesis using that [of "StrObj s"] by (simp add: tryObjectEncoding_def)
next
  case False
  obtain r where r: "string2ll (s @ []) (length s) = Some r" using string2ll_cases [of s "[]"] by blast
  show ?thesis
  proof (cases r)
    case None
    then show ?thesis using that [of "StrObj s"] False r by (simp add: tryObjectEncoding_def string2l_def)
  next
    case (Some x)
    then have "LLONG_MIN \<le> x" "x \<le> LLONG_MAX" "s = int_dec x" using string2ll_iff [of s "[]" x] r by auto
    then show ?thesis using that [of "IntObj x"] False r Some by (simp add: tryObjectEncoding_def string2l_def)
  qed
qed

lemma hold_tryObjectEncoding:
  "(\<And>v. val_ok v \<Longrightarrow> is_string v \<Longrightarrow> obj_bytes v = s \<Longrightarrow> Q v) \<Longrightarrow> hold b (tryObjectEncoding s) Q"
  by (rule tryObjectEncoding_spec [of s]) auto

lemma string_ll_range: "string_ll s = Some v \<Longrightarrow> LLONG_MIN \<le> v \<and> v \<le> LLONG_MAX"
  by (auto simp: string_ll_def c_strtoll_def Let_def LLONG_MIN_def LLONG_MAX_def split: if_splits list.splits)

lemma db_inv_empty: "db_inv (d\<lparr>dict := [], expires := []\<rparr>)"
  by (simp add: db_inv_def)

lemma db_inv_insert:
  "db_inv d \<Longrightarrow> val_ok v \<Longrightarrow> db_inv (d\<lparr>dict := AList.update k v (dict d)\<rparr>)"
  unfolding db_inv_def by (simp add: update_conv' distinct_update)

lemma db_inv_delete:
  "db_inv d \<Longrightarrow> db_inv (d\<lparr>expires := AList.delete k (expires d), dict := AList.delete k (dict d)\<rparr>)"
  unfolding db_inv_def by (simp add: delete_conv' distinct_delete restrict_map_def)

lemma db_inv_delete_expires:
  "db_inv d \<Longrightarrow> db_inv (d\<lparr>expires := AList.delete k (expires d)\<rparr>)"
  unfolding db_inv_def by (simp add: delete_conv' distinct_delete)

lemma db_inv_expire:
  "db_inv d \<Longrightarrow> map_of (dict d) k \<noteq> None \<Longrightarrow> db_inv (d\<lparr>expires := AList.update k t (expires d)\<rparr>)"
  unfolding db_inv_def by (simp add: update_conv' distinct_update)

section \<open>The relation kept by the commands\<close>

definition client_frame :: "client \<Rightarrow> client \<Rightarrow> bool" where
  "client_frame a b \<longleftrightarrow>
     watching b = watching a \<and> mstate b = mstate a \<and> cmd b = cmd a \<and> authenticated b = authenticated a \<and> subscribed b = subscribed a \<and>
     (\<forall>n. n \<noteq> 5 \<longrightarrow> bit (flags b) n = bit (flags a) n) \<and> (bit (flags a) 5 \<longrightarrow> bit (flags b) 5)"

definition same_session :: "client \<Rightarrow> client \<Rightarrow> bool" where
  "same_session a b \<longleftrightarrow> c_db b = c_db a \<and> argv b = argv a \<and> replies b = replies a"

text \<open>All watchers of the key in the table are marked.\<close>

definition marked :: "nat \<Rightarrow> bytes \<Rightarrow> server \<Rightarrow> bool" where
  "marked i k s \<longleftrightarrow>
     (\<forall>cs. map_of (watched_keys (dbs s ! i)) k = Some cs \<longrightarrow> (\<forall>x\<in>set cs. x < length (clients s) \<longrightarrow> bit (flags (clients s ! x)) 5))"

definition touched :: "(nat \<times> bytes) set \<Rightarrow> server \<Rightarrow> server \<Rightarrow> bool" where
  "touched P s0 s \<longleftrightarrow>
     (\<forall>i k. i < length (dbs s0) \<and> (i, k) \<notin> P \<and> map_of (expires (dbs s0 ! i)) k = None \<longrightarrow>
        marked i k s \<or> map_of (dict (dbs s ! i)) k = map_of (dict (dbs s0 ! i)) k \<and> map_of (expires (dbs s ! i)) k = None)"

definition same_globals :: "server \<Rightarrow> server \<Rightarrow> bool" where
  "same_globals s0 s \<longleftrightarrow>
     length (dbs s) = length (dbs s0) \<and> length (clients s) = length (clients s0) \<and> clock s = clock s0 \<and> loading s = loading s0 \<and>
     masterhost s = masterhost s0 \<and> cluster_enabled s = cluster_enabled s0"

definition dbs_frame :: "bool \<Rightarrow> server \<Rightarrow> server \<Rightarrow> bool" where
  "dbs_frame b s0 s \<longleftrightarrow>
     (\<forall>i<length (dbs s0). watched_keys (dbs s ! i) = watched_keys (dbs s0 ! i) \<and> db_inv (dbs s ! i) \<and> (b \<longrightarrow> times_ok (dbs s ! i)))"

definition clients_frame :: "nat \<Rightarrow> server \<Rightarrow> server \<Rightarrow> bool" where
  "clients_frame c s0 s \<longleftrightarrow>
     (\<forall>k<length (clients s0). client_frame (clients s0 ! k) (clients s ! k) \<and> (k \<noteq> c \<longrightarrow> same_session (clients s0 ! k) (clients s ! k)))"

definition session :: "reply list \<Rightarrow> nat \<Rightarrow> nat \<Rightarrow> server \<Rightarrow> server \<Rightarrow> bool" where
  "session rs D c s0 s \<longleftrightarrow>
     c < length (clients s0) \<and> D < length (dbs s0) \<and> client_db s c = D \<and> replies (clients s ! c) = replies (clients s0 ! c) @ rs"

definition keeps :: "bool \<Rightarrow> (nat \<times> bytes) set \<Rightarrow> reply list \<Rightarrow> nat \<Rightarrow> nat \<Rightarrow> server \<Rightarrow> server \<Rightarrow> bool" where
  "keeps b P rs D c s0 s \<longleftrightarrow>
     same_globals s0 s \<and> dbs_frame b s0 s \<and> clients_frame c s0 s \<and> session rs D c s0 s \<and> touched P s0 s"

lemmas keeps_defs = keeps_def same_globals_def dbs_frame_def clients_frame_def session_def touched_def marked_def

lemma keepsD:
  assumes "keeps b P rs D c s0 s"
  shows "length (dbs s) = length (dbs s0)" "length (clients s) = length (clients s0)" "client_db s c = D" "D < length (dbs s)"
    "c < length (clients s)" "\<And>i. i < length (dbs s) \<Longrightarrow> db_inv (dbs s ! i)" "clock s = clock s0"
    "\<And>i. b \<Longrightarrow> i < length (dbs s) \<Longrightarrow> times_ok (dbs s ! i)" "cluster_enabled s = cluster_enabled s0"
  using assms by (simp_all add: keeps_defs)

lemma keeps_refl:
  assumes "\<And>i. i < length (dbs s) \<Longrightarrow> db_inv (dbs s ! i)" "\<And>i. b \<Longrightarrow> i < length (dbs s) \<Longrightarrow> times_ok (dbs s ! i)"
    and "c < length (clients s)" "client_db s c < length (dbs s)"
  shows "keeps b {} [] (client_db s c) c s s"
  using assms by (auto simp: keeps_defs client_frame_def same_session_def)

lemma keeps_fields [simp]:
  "keeps b P rs D c s0 (s\<lparr>ticks := n\<rparr>) \<longleftrightarrow> keeps b P rs D c s0 s"
  "keeps b P rs D c s0 (s\<lparr>dirty := d\<rparr>) \<longleftrightarrow> keeps b P rs D c s0 s"
  "keeps b P rs D c s0 (s\<lparr>propagated := p\<rparr>) \<longleftrightarrow> keeps b P rs D c s0 s"
  "keeps b P rs D c s0 (s\<lparr>stat_expiredkeys := n\<rparr>) \<longleftrightarrow> keeps b P rs D c s0 s"
  "keeps b P rs D c s0 (s\<lparr>stat_keyspace_hits := n\<rparr>) \<longleftrightarrow> keeps b P rs D c s0 s"
  "keeps b P rs D c s0 (s\<lparr>stat_keyspace_misses := n\<rparr>) \<longleftrightarrow> keeps b P rs D c s0 s"
  by (simp_all add: keeps_defs)

lemma keeps_pending: "keeps b P rs D c s0 s \<Longrightarrow> P \<subseteq> P' \<Longrightarrow> keeps b P' rs D c s0 s"
  by (auto simp: keeps_def touched_def)

lemma keeps_marked: "keeps b (insert (i, k) P) rs D c s0 s \<Longrightarrow> marked i k s \<Longrightarrow> keeps b P rs D c s0 s"
  by (auto simp: keeps_def touched_def)

subsection \<open>Updates of a client\<close>

lemma upd_client_simps [simp]:
  "dbs (upd_client c f s) = dbs s" "length (clients (upd_client c f s)) = length (clients s)" "clock (upd_client c f s) = clock s"
  "loading (upd_client c f s) = loading s" "masterhost (upd_client c f s) = masterhost s" "ticks (upd_client c f s) = ticks s"
  "cluster_enabled (upd_client c f s) = cluster_enabled s"
  by (simp_all add: upd_client_def)

lemma upd_client_nth [simp]:
  "k < length (clients s) \<Longrightarrow> clients (upd_client c f s) ! k = (if k = c then f (clients s ! c) else clients s ! k)"
  by (auto simp: upd_client_def)

text \<open>An update of the fields of the session.\<close>

definition session_update :: "(client \<Rightarrow> client) \<Rightarrow> bool" where
  "session_update f \<longleftrightarrow>
     (\<forall>a. flags (f a) = flags a \<and> watching (f a) = watching a \<and> mstate (f a) = mstate a \<and> cmd (f a) = cmd a \<and>
          authenticated (f a) = authenticated a \<and> subscribed (f a) = subscribed a)"

lemma marked_upd_client: "session_update f \<Longrightarrow> marked i k (upd_client c f s) \<longleftrightarrow> marked i k s"
  by (auto simp: marked_def session_update_def)

lemma keeps_upd_client:
  assumes k: "keeps b P rs D c s0 s" and f: "session_update f"
    and "replies (f (clients s ! c)) = replies (clients s ! c) @ rs'" "c_db (f (clients s ! c)) = D'" "D' < length (dbs s0)"
  shows "keeps b P (rs @ rs') D' c s0 (upd_client c f s)"
  unfolding keeps_def
proof (intro conjI)
  have cf: "client_frame a (f a') \<longleftrightarrow> client_frame a a'" for a a' using f by (simp add: client_frame_def session_update_def)
  show "clients_frame c s0 (upd_client c f s)"
    using k by (auto simp: keeps_def clients_frame_def same_globals_def cf)
  show "touched P s0 (upd_client c f s)" using k by (simp add: keeps_def touched_def marked_upd_client [OF f])
qed (use assms in \<open>auto simp: keeps_def same_globals_def dbs_frame_def session_def\<close>)

lemma keeps_addReply: "keeps b P rs D c s0 s \<Longrightarrow> keeps b P (rs @ [r]) D c s0 (addReply c r s)"
  using keeps_upd_client [of b P rs D c s0 s "\<lambda>cl. cl\<lparr>replies := replies cl @ [r]\<rparr>" "[r]" D]
  by (auto simp: addReply_def session_update_def keeps_def session_def)

lemma keeps_rewrite: "keeps b P rs D c s0 s \<Longrightarrow> keeps b P rs D c s0 (rewriteClientCommandVector c av s)"
  using keeps_upd_client [of b P rs D c s0 s "\<lambda>cl. cl\<lparr>argv := av\<rparr>" "[]" D]
  by (auto simp: rewriteClientCommandVector_def session_update_def keeps_def session_def)

lemma keeps_select: "keeps b P rs D c s0 s \<Longrightarrow> D' < length (dbs s0) \<Longrightarrow> keeps b P rs D' c s0 (upd_client c (\<lambda>cl. cl\<lparr>c_db := D'\<rparr>) s)"
  using keeps_upd_client [of b P rs D c s0 s "\<lambda>cl. cl\<lparr>c_db := D'\<rparr>" "[]" D'] by (auto simp: session_update_def)

lemma marked_session [simp]:
  "marked i k (addReply c r s) \<longleftrightarrow> marked i k s" "marked i k (rewriteClientCommandVector c av s) \<longleftrightarrow> marked i k s"
  by (simp_all add: addReply_def rewriteClientCommandVector_def marked_upd_client session_update_def)

subsection \<open>Marking the watchers\<close>

lemma bit_DIRTY_CAS [simp]: "bit REDIS_DIRTY_CAS n \<longleftrightarrow> n = 5"
  unfolding REDIS_DIRTY_CAS_def bit_push_bit_iff bit_1_iff by auto

definition dirtied :: "client \<Rightarrow> client" where
  "dirtied cl = cl\<lparr>flags := flags cl OR REDIS_DIRTY_CAS\<rparr>"

lemma dirtied_simps [simp]:
  "watching (dirtied cl) = watching cl" "mstate (dirtied cl) = mstate cl" "cmd (dirtied cl) = cmd cl" "c_db (dirtied cl) = c_db cl"
  "authenticated (dirtied cl) = authenticated cl" "subscribed (dirtied cl) = subscribed cl" "argv (dirtied cl) = argv cl"
  "replies (dirtied cl) = replies cl" "bit (flags (dirtied cl)) n \<longleftrightarrow> bit (flags cl) n \<or> n = 5" "dirtied (dirtied cl) = dirtied cl"
  by (auto simp: dirtied_def bit_simps)

definition marks :: "nat set \<Rightarrow> server \<Rightarrow> server \<Rightarrow> bool" where
  "marks X s s' \<longleftrightarrow>
     s'\<lparr>clients := []\<rparr> = s\<lparr>clients := []\<rparr> \<and> length (clients s') = length (clients s) \<and>
     (\<forall>k<length (clients s). clients s' ! k = (if k \<in> X then dirtied (clients s ! k) else clients s ! k))"

lemma marks_other:
  assumes "marks X s s'"
  shows "dbs s' = dbs s" "clock s' = clock s" "loading s' = loading s" "masterhost s' = masterhost s" "cluster_enabled s' = cluster_enabled s"
    "length (clients s') = length (clients s)"
    "dirty s' = dirty s" "ticks s' = ticks s" "propagated s' = propagated s"
proof -
  have e: "s'\<lparr>clients := []\<rparr> = s\<lparr>clients := []\<rparr>" using assms by (simp add: marks_def)
  show "dbs s' = dbs s" "clock s' = clock s" "loading s' = loading s" "masterhost s' = masterhost s" "cluster_enabled s' = cluster_enabled s"
    "dirty s' = dirty s" "ticks s' = ticks s" "propagated s' = propagated s"
    using arg_cong [OF e, of dbs] arg_cong [OF e, of clock] arg_cong [OF e, of loading] arg_cong [OF e, of masterhost]
      arg_cong [OF e, of cluster_enabled] arg_cong [OF e, of dirty] arg_cong [OF e, of ticks] arg_cong [OF e, of propagated]
    by simp_all
qed (use assms in \<open>simp add: marks_def\<close>)

lemma marks_fold: "marks (set cs) s (fold mark_dirty cs s)"
proof (induction cs arbitrary: s)
  case Nil
  show ?case by (simp add: marks_def)
next
  case (Cons x cs)
  let ?s = "mark_dirty x s"
  have m: "marks (set cs) ?s (fold mark_dirty cs ?s)" by (rule Cons.IH)
  have "?s\<lparr>clients := []\<rparr> = s\<lparr>clients := []\<rparr>" by (simp add: mark_dirty_def upd_client_def)
  moreover have "clients ?s ! k = (if k = x then dirtied (clients s ! k) else clients s ! k)" if "k < length (clients s)" for k
    using that by (simp add: mark_dirty_def dirtied_def)
  moreover have "length (clients ?s) = length (clients s)" by (simp add: mark_dirty_def)
  ultimately show ?case using m by (auto simp: marks_def)
qed

lemma marks_touchWatchedKey:
  "marks (case map_of (watched_keys (dbs s ! i)) key of None \<Rightarrow> {} | Some cs \<Rightarrow> set cs) s (signalModifiedKey i key s)"
  by (simp add: signalModifiedKey_def touchWatchedKey_def marks_fold marks_def [of "{}"] split: option.split)

lemma marks_flush: "marks {k. k < length (clients s) \<and> flush_touches dbid s (clients s ! k)} s (signalFlushedDb dbid s)"
  by (simp add: marks_def signalFlushedDb_def touchWatchedKeysOnFlush_def dirtied_def)

lemma marked_marks:
  assumes m: "marks X s s'" and k: "marked i k s"
  shows "marked i k s'"
  unfolding marked_def marks_other [OF m]
proof (intro allI impI ballI)
  fix cs x
  assume "map_of (watched_keys (dbs s ! i)) k = Some cs" "x \<in> set cs" "x < length (clients s)"
  then show "bit (flags (clients s' ! x)) 5" using k m by (auto simp: marked_def marks_def)
qed

lemma keeps_marks:
  assumes k: "keeps b P rs D c s0 s" and m: "marks X s s'"
  shows "keeps b P rs D c s0 s'"
  unfolding keeps_def
proof (intro conjI)
  have cl: "clients s' ! j = (if j \<in> X then dirtied (clients s ! j) else clients s ! j)" if "j < length (clients s0)" for j
    using that m k by (simp add: marks_def keeps_def same_globals_def)
  have "client_frame a (dirtied a')" if "client_frame a a'" for a a' using that by (simp add: client_frame_def)
  then show "clients_frame c s0 s'" using k by (auto simp: keeps_def clients_frame_def cl same_session_def)
  show "touched P s0 s'" using k marked_marks [OF m] by (auto simp: keeps_def touched_def marks_other [OF m])
  show "session rs D c s0 s'" using k by (auto simp: keeps_def session_def cl)
qed (use k in \<open>simp_all add: keeps_def same_globals_def dbs_frame_def marks_other [OF m]\<close>)

lemma marked_signal: "marked i key (signalModifiedKey i key s)"
  using marks_touchWatchedKey [of s i key] marks_other(1) [OF marks_touchWatchedKey [of s i key]]
  by (auto simp: marked_def marks_def)

lemma keeps_signal:
  assumes "keeps b P rs D c s0 s"
  shows "keeps b (P - {(i, key)}) rs D c s0 (signalModifiedKey i key s)"
  by (rule keeps_marked [OF keeps_pending [OF keeps_marks [OF assms marks_touchWatchedKey]] marked_signal]) auto

lemma signal_simps [simp]: "dbs (signalModifiedKey i key s) = dbs s" "ticks (signalModifiedKey i key s) = ticks s"
  by (simp_all add: marks_other [OF marks_touchWatchedKey])

lemma marked_signal_mono: "marked i k s \<Longrightarrow> marked i k (signalModifiedKey j key s)"
  by (rule marked_marks [OF marks_touchWatchedKey])

subsection \<open>Updates of a database\<close>

lemma upd_db_simps [simp]:
  "clients (upd_db i f s) = clients s" "length (dbs (upd_db i f s)) = length (dbs s)" "clock (upd_db i f s) = clock s"
  "loading (upd_db i f s) = loading s" "masterhost (upd_db i f s) = masterhost s" "ticks (upd_db i f s) = ticks s"
  "cluster_enabled (upd_db i f s) = cluster_enabled s"
  "j < length (dbs s) \<Longrightarrow> dbs (upd_db i f s) ! j = (if j = i then f (dbs s ! i) else dbs s ! j)"
  by (auto simp: upd_db_def)

definition only_key :: "bytes \<Rightarrow> redisDb \<Rightarrow> redisDb \<Rightarrow> bool" where
  "only_key key d d' \<longleftrightarrow>
     watched_keys d' = watched_keys d \<and>
     (\<forall>k. k \<noteq> key \<longrightarrow> map_of (dict d') k = map_of (dict d) k \<and> map_of (expires d') k = map_of (expires d) k)"

lemma marked_upd_db:
  assumes "watched_keys (f (dbs s ! i)) = watched_keys (dbs s ! i)" "j < length (dbs s)"
  shows "marked j k (upd_db i f s) \<longleftrightarrow> marked j k s"
  using assms by (auto simp: marked_def)

lemma keeps_upd_db:
  assumes k: "keeps b P rs D c s0 s" and i: "i < length (dbs s0)"
    and f: "only_key key (dbs s ! i) (f (dbs s ! i))" "db_inv (f (dbs s ! i))" "b \<Longrightarrow> times_ok (f (dbs s ! i))"
  shows "keeps b (insert (i, key) P) rs D c s0 (upd_db i f s)"
  unfolding keeps_def
proof (intro conjI)
  have w: "watched_keys (f (dbs s ! i)) = watched_keys (dbs s ! i)" using f(1) by (simp add: only_key_def)
  have l: "length (dbs s) = length (dbs s0)" by (rule keepsD(1) [OF k])
  show "dbs_frame b s0 (upd_db i f s)" using k i f(2,3) by (auto simp: keeps_def dbs_frame_def l w)
  show "touched (insert (i, key) P) s0 (upd_db i f s)"
    unfolding touched_def
  proof (intro allI impI)
    fix j k'
    assume "j < length (dbs s0) \<and> (j, k') \<notin> insert (i, key) P \<and> map_of (expires (dbs s0 ! j)) k' = None"
    moreover then have "map_of (dict (dbs (upd_db i f s) ! j)) k' = map_of (dict (dbs s ! j)) k'"
      "map_of (expires (dbs (upd_db i f s) ! j)) k' = map_of (expires (dbs s ! j)) k'"
      using f(1) by (auto simp: only_key_def l)
    ultimately show "marked j k' (upd_db i f s) \<or>
        map_of (dict (dbs (upd_db i f s) ! j)) k' = map_of (dict (dbs s0 ! j)) k' \<and> map_of (expires (dbs (upd_db i f s) ! j)) k' = None"
      using k w by (simp add: keeps_def touched_def marked_upd_db l)
  qed
qed (use k in \<open>simp_all add: keeps_def same_globals_def clients_frame_def session_def\<close>)

lemma keeps_volatile:
  "keeps b (insert (i, key) P) rs D c s0 s \<Longrightarrow> map_of (expires (dbs s0 ! i)) key \<noteq> None \<Longrightarrow> keeps b P rs D c s0 s"
  unfolding keeps_def touched_def by (metis insert_iff prod.inject)

lemma dbDelete_eq:
  assumes "i < length (dbs s)"
  shows "dbDelete i key s =
           (dbExists i key s, upd_db i (\<lambda>d. d\<lparr>expires := AList.delete key (expires d), dict := AList.delete key (dict d)\<rparr>) s)"
proof -
  have "map_of (dict (dbs s ! i)) key = None \<Longrightarrow> AList.delete key (dict (dbs s ! i)) = dict (dbs s ! i)"
    by (simp add: delete_id map_of_eq_None_iff)
  then show ?thesis using assms by (simp add: dbDelete_def dbExists_def Let_def upd_db_def)
qed

lemma dbDelete_absent:
  assumes "i < length (dbs s)" "db_inv (dbs s ! i)" "\<not> dbExists i key s"
  shows "dbDelete i key s = (False, s)"
proof -
  have d: "map_of (dict (dbs s ! i)) key = None" using assms by (simp add: dbExists_def)
  then have "map_of (expires (dbs s ! i)) key = None" using assms(2) unfolding db_inv_def by (metis option.exhaust)
  with d have "upd_db i (\<lambda>d. d\<lparr>expires := AList.delete key (expires d), dict := AList.delete key (dict d)\<rparr>) s = s"
    by (simp add: upd_db_def delete_id map_of_eq_None_iff)
  then show ?thesis using assms by (simp add: dbDelete_eq)
qed

lemma times_ok_delete: "times_ok d \<Longrightarrow> times_ok (d\<lparr>expires := AList.delete k (expires d), dict := x\<rparr>)"
  by (auto simp: times_ok_def delete_conv')

lemma keeps_dbDelete:
  assumes "keeps b P rs D c s0 s" "i < length (dbs s0)"
  shows "keeps b (insert (i, key) P) rs D c s0 (snd (dbDelete i key s))"
  using assms by (auto simp: dbDelete_eq keepsD(1) only_key_def delete_conv' db_inv_delete times_ok_delete keepsD intro!: keeps_upd_db)

lemma marked_dbDelete: "i < length (dbs s) \<Longrightarrow> j < length (dbs s) \<Longrightarrow> marked j k (snd (dbDelete i key s)) \<longleftrightarrow> marked j k s"
  by (simp add: dbDelete_eq marked_upd_db)

text \<open>The deletion of a key that has an expire time.\<close>

lemma keeps_expired:
  assumes k: "keeps b P rs D c s0 s" and i: "i < length (dbs s0)" and e: "map_of (expires (dbs s ! i)) key \<noteq> None"
  shows "keeps b P rs D c s0 (snd (dbDelete i key s))"
proof -
  have k': "keeps b (insert (i, key) P) rs D c s0 (snd (dbDelete i key s))" by (rule keeps_dbDelete [OF k i])
  consider "(i, key) \<in> P" | "map_of (expires (dbs s0 ! i)) key \<noteq> None" | "marked i key s"
    using k i e unfolding keeps_def touched_def by metis
  then show ?thesis
  proof cases
    case 1
    then show ?thesis using k' by (simp add: insert_absorb)
  next
    case 2
    then show ?thesis by (rule keeps_volatile [OF k'])
  next
    case 3
    then show ?thesis using i by (intro keeps_marked [OF k']) (simp add: marked_dbDelete keepsD(1) [OF k])
  qed
qed

section \<open>Rules for the operations of the key space\<close>

named_theorems wp

declare hold_ll [wp] hold_arg [wp] hold_tryObjectEncoding [wp]

lemma keepsD0:
  assumes "keeps b P rs D c s0 s"
  shows "client_db s c = D" "D < length (dbs s0)" "c < length (clients s0)" "i < length (dbs s0) \<Longrightarrow> i < length (dbs s)"
    "i < length (dbs s0) \<Longrightarrow> db_inv (dbs s ! i)" "b \<Longrightarrow> i < length (dbs s0) \<Longrightarrow> times_ok (dbs s ! i)"
  using assms by (simp_all add: keeps_defs)

lemma hold_getExpire [wp]:
  assumes "keeps b P rs D c s0 s" "i < length (dbs s0)"
    and "Q (case map_of (expires (dbs s ! i)) key of None \<Rightarrow> - 1 | Some t \<Rightarrow> t)"
  shows "hold b (getExpire i key s) Q"
  using assms keepsD0(5) [OF assms(1,2)] by (auto simp: getExpire_def dbExists_def db_inv_def split: option.splits)

lemma hold_expireIfNeeded [wp]:
  assumes k: "keeps b P rs D c s0 s" and i: "i < length (dbs s0)"
    and q: "\<And>r s'. keeps b P rs D c s0 s' \<Longrightarrow> Q (r, s')"
  shows "hold b (expireIfNeeded i key s) Q"
proof -
  have q': "Q x" if "keeps b P rs D c s0 (snd x)" for x using that q [of "snd x" "fst x"] by simp
  have "Q (dbDelete i key (propagateExpire i key (s\<lparr>ticks := n, stat_expiredkeys := m\<rparr>)))"
    if "map_of (expires (dbs s ! i)) key \<noteq> None" for n m
    using k i that by (intro q' keeps_expired) (auto simp: propagateExpire_def propagate_def)
  then show ?thesis
    unfolding expireIfNeeded_def mstime_def
    using k i by (auto simp: Let_def split: option.splits prod.splits intro!: q hold_getExpire [OF k])
qed

lemma hold_lookupKeyWrite [wp]:
  assumes "keeps b P rs D c s0 s" "i < length (dbs s0)" "\<And>s'. keeps b P rs D c s0 s' \<Longrightarrow> Q (lookupKey i key s', s')"
  shows "hold b (lookupKeyWrite i key s) Q"
  using assms by (auto simp: lookupKeyWrite_def intro!: hold_expireIfNeeded)

lemma lookupKey_stat [simp]:
  "lookupKey i key (s\<lparr>stat_keyspace_misses := n\<rparr>) = lookupKey i key s" "lookupKey i key (s\<lparr>stat_keyspace_hits := n\<rparr>) = lookupKey i key s"
  "lookupKey i key (s\<lparr>ticks := n\<rparr>) = lookupKey i key s" "lookupKey i key (s\<lparr>dirty := d\<rparr>) = lookupKey i key s"
  "lookupKey i key (upd_client c f s) = lookupKey i key s" "lookupKey i key (signalModifiedKey j k s) = lookupKey i key s"
  by (simp_all add: lookupKey_def)

lemma hold_lookupKeyRead [wp]:
  assumes "keeps b P rs D c s0 s" "i < length (dbs s0)" and q: "\<And>s'. keeps b P rs D c s0 s' \<Longrightarrow> Q (lookupKey i key s', s')"
  shows "hold b (lookupKeyRead i key s) Q"
proof -
  have "Q (lookupKey i key s', if lookupKey i key s' = None then s'\<lparr>stat_keyspace_misses := n\<rparr> else s'\<lparr>stat_keyspace_hits := m\<rparr>)"
    if "keeps b P rs D c s0 s'" for s' n m
    using that q [of "s'\<lparr>stat_keyspace_misses := n\<rparr>"] q [of "s'\<lparr>stat_keyspace_hits := m\<rparr>"] by (cases "lookupKey i key s'") simp_all
  then show ?thesis
    unfolding lookupKeyRead_def hold_simps by (intro hold_expireIfNeeded [OF assms(1,2)]) (simp add: Let_def del: not_None_eq)
qed

lemma hold_lookupKeyReadOrReply [wp]:
  assumes k: "keeps b P rs D c s0 s"
    and "\<And>s'. keeps b P (rs @ [r]) D c s0 s' \<Longrightarrow> Q (None, s')"
    and "\<And>v s'. keeps b P rs D c s0 s' \<Longrightarrow> lookupKey D key s' = Some v \<Longrightarrow> Q (Some v, s')"
  shows "hold b (lookupKeyReadOrReply c key r s) Q"
  unfolding lookupKeyReadOrReply_def keepsD0(1) [OF k] hold_simps
  by (rule hold_lookupKeyRead [OF k keepsD0(2) [OF k]]) (use assms in \<open>auto intro: keeps_addReply\<close>)

lemma hold_lookupKeyWriteOrReply [wp]:
  assumes k: "keeps b P rs D c s0 s"
    and "\<And>s'. keeps b P (rs @ [r]) D c s0 s' \<Longrightarrow> Q (None, s')"
    and "\<And>v s'. keeps b P rs D c s0 s' \<Longrightarrow> lookupKey D key s' = Some v \<Longrightarrow> Q (Some v, s')"
  shows "hold b (lookupKeyWriteOrReply c key r s) Q"
  unfolding lookupKeyWriteOrReply_def keepsD0(1) [OF k] hold_simps
  by (rule hold_lookupKeyWrite [OF k keepsD0(2) [OF k]]) (use assms in \<open>auto intro: keeps_addReply\<close>)

lemma keeps_insert:
  assumes k: "keeps b P rs D c s0 s" and i: "i < length (dbs s0)" and v: "val_ok v"
  shows "keeps b (insert (i, key) P) rs D c s0 (upd_db i (\<lambda>d. d\<lparr>dict := AList.update key v (dict d)\<rparr>) s)"
  using keepsD0(6) [OF k _ i] db_inv_insert [OF keepsD0(5) [OF k i] v]
  by (auto simp: only_key_def update_conv' times_ok_def intro!: keeps_upd_db [OF k i])

lemma hold_dbAdd [wp]:
  assumes k: "keeps b P rs D c s0 s" and i: "i < length (dbs s0)" and "val_ok v" "lookupKey i key s = None"
    and q: "\<And>s'. keeps b (insert (i, key) P) rs D c s0 s' \<Longrightarrow> lookupKey i key s' = Some v \<Longrightarrow> Q s'"
  shows "hold b (dbAdd i key v s) Q"
  using assms keepsD0(4) [OF k i] by (auto simp: dbAdd_def dbExists_def lookupKey_def update_conv' intro!: q keeps_insert)

lemma hold_dbOverwrite [wp]:
  assumes k: "keeps b P rs D c s0 s" and i: "i < length (dbs s0)" and "val_ok v" "lookupKey i key s \<noteq> None"
    and q: "\<And>s'. keeps b (insert (i, key) P) rs D c s0 s' \<Longrightarrow> lookupKey i key s' = Some v \<Longrightarrow> Q s'"
  shows "hold b (dbOverwrite i key v s) Q"
  using assms keepsD0(4) [OF k i] by (auto simp: dbOverwrite_def dbExists_def lookupKey_def update_conv' intro!: q keeps_insert)

lemma hold_removeExpire [wp]:
  assumes k: "keeps b P rs D c s0 s" and i: "i < length (dbs s0)" and "lookupKey i key s \<noteq> None"
    and q: "\<And>r s'. keeps b (insert (i, key) P) rs D c s0 s' \<Longrightarrow> lookupKey i key s' = lookupKey i key s \<Longrightarrow>
              map_of (expires (dbs s' ! i)) key = None \<Longrightarrow> Q (r, s')"
  shows "hold b (removeExpire i key s) Q"
proof -
  have "keeps b (insert (i, key) P) rs D c s0 (upd_db i (\<lambda>d. d\<lparr>expires := AList.delete key (expires d)\<rparr>) s)"
    using keepsD0(6) [OF k _ i] db_inv_delete_expires [OF keepsD0(5) [OF k i]]
    by (auto simp: only_key_def delete_conv' times_ok_def intro!: keeps_upd_db [OF k i])
  then show ?thesis using assms keepsD0(4) [OF k i] by (auto simp: removeExpire_def dbExists_def lookupKey_def delete_conv' intro!: q)
qed

lemma hold_setExpire [wp]:
  assumes k: "keeps b P rs D c s0 s" and i: "i < length (dbs s0)" and l: "lookupKey i key s \<noteq> None" and t: "b \<Longrightarrow> \<bar>t\<bar> < 2 ^ 62"
    and q: "\<And>s'. keeps b (insert (i, key) P) rs D c s0 s' \<Longrightarrow> lookupKey i key s' = lookupKey i key s \<Longrightarrow>
              (marked i key s \<Longrightarrow> keeps b P rs D c s0 s') \<Longrightarrow> Q s'"
  shows "hold b (setExpire i key t s) Q"
proof -
  let ?s = "upd_db i (\<lambda>d. d\<lparr>expires := AList.update key t (expires d)\<rparr>) s"
  have "db_inv ((dbs s ! i)\<lparr>expires := AList.update key t (expires (dbs s ! i))\<rparr>)"
    using l by (intro db_inv_expire keepsD0(5) [OF k i]) (simp add: lookupKey_def)
  then have *: "keeps b (insert (i, key) P) rs D c s0 ?s"
    using t keepsD0(6) [OF k _ i] by (auto simp: only_key_def update_conv' times_ok_def intro!: keeps_upd_db [OF k i])
  moreover have "marked i key s \<Longrightarrow> keeps b P rs D c s0 ?s"
    by (intro keeps_marked [OF *]) (simp add: marked_upd_db keepsD0(4) [OF k i])
  ultimately show ?thesis using l keepsD0(4) [OF k i] by (auto simp: setExpire_def dbExists_def lookupKey_def intro!: q)
qed

lemma hold_setKey [wp]:
  assumes k: "keeps b P rs D c s0 s" and i: "i < length (dbs s0)" and v: "val_ok v"
    and q: "\<And>s'. keeps b (P - {(i, key)}) rs D c s0 s' \<Longrightarrow> lookupKey i key s' = Some v \<Longrightarrow> marked i key s' \<Longrightarrow>
              map_of (expires (dbs s' ! i)) key = None \<Longrightarrow> Q s'"
  shows "hold b (setKey i key v s) Q"
proof -
  have Q: "Q (signalModifiedKey i key s')" if "keeps b (insert (i, key) (insert (i, key) P)) rs D c s0 s'" "lookupKey i key s' = Some v"
    "map_of (expires (dbs s' ! i)) key = None" for s'
    using keeps_signal [OF that(1), of i key] that(2,3) by (auto intro!: q marked_signal)
  show ?thesis
    unfolding setKey_def hold_simps
    by (rule hold_lookupKeyWrite [OF k i])
       (use i v in \<open>auto intro!: hold_dbAdd hold_dbOverwrite hold_removeExpire Q\<close>)
qed

lemma hold_getLongLong [wp]:
  assumes k: "keeps b P rs D c s0 s" and "\<And>n. o' \<noteq> Some (OtherObj n)" "\<And>v. o' = Some v \<Longrightarrow> val_ok v"
    and "\<And>s'. keeps b P (rs @ [Error msg]) D c s0 s' \<Longrightarrow> Q (None, s')"
    and "\<And>v. LLONG_MIN \<le> v \<Longrightarrow> v \<le> LLONG_MAX \<Longrightarrow> (\<And>a. o' = Some (StrObj a) \<Longrightarrow> string_ll a = Some v) \<Longrightarrow> Q (Some v, s)"
  shows "hold b (getLongLongFromObjectOrReply c o' msg s) Q"
proof -
  have "LLONG_MIN \<le> 0" "0 \<le> LLONG_MAX" by (simp_all add: LLONG_MIN_def LLONG_MAX_def)
  moreover have "Q (string_ll a, if string_ll a = None then addReply c (Error msg) s else s)" if "o' = Some (StrObj a)" for a
    using that assms(4) [OF keeps_addReply [OF k]] string_ll_range [of a] assms(5) by (cases "string_ll a") auto
  ultimately show ?thesis
    using assms(2,3,5) by (auto simp: getLongLongFromObjectOrReply_def getLongLongFromObject_def split: option.splits robj.splits)
qed

end
