(* ===== verification/Server_Cmds.thy ===== *)
theory Server_Cmds
  imports Server_Frame
begin

text \<open>
  Each command on the data set keeps the relation of \<open>Server_Frame\<close> and sends exactly one complete reply.
\<close>

section \<open>Complete replies\<close>

text \<open>How many replies are still to come when \<open>n\<close> were expected; a multi bulk header announces more of them.\<close>

fun awaiting :: "nat \<Rightarrow> reply list \<Rightarrow> nat option" where
  "awaiting n [] = Some n"
| "awaiting 0 (r # rs) = None"
| "awaiting (Suc n) (MultiBulkLen m # rs) = awaiting (n + m) rs"
| "awaiting (Suc n) (r # rs) = awaiting n rs"

definition one_reply :: "reply list \<Rightarrow> bool" where
  "one_reply rs \<longleftrightarrow> awaiting 1 rs = Some 0"

lemma awaiting_append: "awaiting n (xs @ ys) = awaiting n xs \<bind> (\<lambda>m. awaiting m ys)"
  by (induction n xs rule: awaiting.induct) simp_all

lemma awaiting_add: "awaiting n xs = Some m \<Longrightarrow> awaiting (n + k) xs = Some (m + k)"
proof (induction n xs arbitrary: m rule: awaiting.induct)
  case (3 n m' rs)
  then show ?case using "3.IH" [of m] by (simp add: ac_simps)
qed simp_all

lemma one_reply_single: "(\<And>n. r \<noteq> MultiBulkLen n) \<Longrightarrow> one_reply [r]"
  by (cases r) (auto simp: one_reply_def)

definition served :: "bool \<Rightarrow> nat \<Rightarrow> server \<Rightarrow> server \<Rightarrow> bool" where
  "served b c s0 s \<longleftrightarrow> (\<exists>rs D. one_reply rs \<and> keeps b {} rs D c s0 s)"

lemma served_reply: "keeps b {} [] D c s0 s \<Longrightarrow> (\<And>n. r \<noteq> MultiBulkLen n) \<Longrightarrow> served b c s0 (addReply c r s)"
  using keeps_addReply [of b "{}" "[]" D c s0 s r] by (auto simp: served_def intro!: exI [of _ "[r]"] one_reply_single)

lemma served_replied: "keeps b {} [r] D c s0 s \<Longrightarrow> (\<And>n. r \<noteq> MultiBulkLen n) \<Longrightarrow> served b c s0 s"
  by (auto simp: served_def intro!: exI [of _ "[r]"] one_reply_single)

lemma lookup_val_ok: "keeps b P rs D c s0 s \<Longrightarrow> i < length (dbs s0) \<Longrightarrow> lookupKey i key s = Some v \<Longrightarrow> val_ok v"
  using keepsD0(5) [of b P rs D c s0 s i] by (auto simp: db_inv_def lookupKey_def)

lemma served_replied': "keeps b {} ([] @ [r]) D c s0 s \<Longrightarrow> (\<And>n. r \<noteq> MultiBulkLen n) \<Longrightarrow> served b c s0 s"
  by (simp add: served_replied)

lemma served_error: "keeps b {} ([] @ [Error e]) D c s0 s \<Longrightarrow> served b c s0 s" "keeps b {} ([] @ [Bulk x]) D c s0 s \<Longrightarrow> served b c s0 s"
  "keeps b {} [Error e] D c s0 s \<Longrightarrow> served b c s0 s" "keeps b {} [Bulk x] D c s0 s \<Longrightarrow> served b c s0 s"
  by (auto intro: served_replied')

lemmas served_intros = served_reply served_replied served_replied'

text \<open>The conditions under which a command with \<open>n\<close> arguments cannot fail.\<close>

definition args_ok :: "nat \<Rightarrow> nat \<Rightarrow> server \<Rightarrow> bool" where
  "args_ok n c s \<longleftrightarrow> n \<le> length (client_argv s c) \<and> (\<forall>a\<in>set (client_argv s c). small_arg a) \<and> clock_ok s"

lemma args_okD: "args_ok n c s \<Longrightarrow> n \<le> length (client_argv s c)"
  by (simp add: args_ok_def)

lemma args_ok_ll:
  "args_ok n c s \<Longrightarrow> j < length (client_argv s c) \<Longrightarrow> string_ll (client_argv s c ! j) = Some v \<Longrightarrow> \<bar>v\<bar> < 2 ^ 32"
  by (auto simp: args_ok_def small_arg_def dest!: bspec [OF _ nth_mem] split: option.splits)

lemma args_ok_clock: "args_ok n c s \<Longrightarrow> 0 \<le> clock s m \<and> clock s m < 2 ^ 61"
  by (simp add: args_ok_def clock_ok_def)

section \<open>The string commands\<close>

lemma get_served:
  assumes "keeps b {} [] D c s s" "b \<Longrightarrow> args_ok 2 c s"
  shows "hold b (getCommand c s) (served b c s)"
  using assms
  by (auto simp: getCommand_def getGenericCommand_def dest!: args_okD split: option.splits intro!: wp intro: served_intros)

lemma strlen_served:
  assumes "keeps b {} [] D c s s" "b \<Longrightarrow> args_ok 2 c s"
  shows "hold b (strlenCommand c s) (served b c s)"
  using assms by (auto simp: strlenCommand_def dest!: args_okD split: option.splits intro!: wp intro: served_intros)

lemma hold_set_aborts [wp]:
  assumes "keeps b P rs D c s0 s" "i < length (dbs s0)" "\<And>a s'. keeps b P rs D c s0 s' \<Longrightarrow> Q (a, s')"
  shows "hold b (set_aborts fl i key s) Q"
  using assms by (auto simp: set_aborts_def split: if_splits intro!: hold_lookupKeyWrite)

lemma hold_set_expire_ms:
  assumes k: "keeps b P rs D c s0 s"
    and small: "\<And>e v. b \<Longrightarrow> expire = Some e \<Longrightarrow> string_ll e = Some v \<Longrightarrow> \<bar>v\<bar> < 2 ^ 32"
    and "expire = None \<Longrightarrow> Q (None, s)"
    and "\<And>s' r. (\<And>n. r \<noteq> MultiBulkLen n) \<Longrightarrow> keeps b P (rs @ [r]) D c s0 s' \<Longrightarrow> Q (Some None, s')"
    and "\<And>ms. (b \<Longrightarrow> \<bar>ms\<bar> < 2 ^ 60) \<Longrightarrow> Q (Some (Some ms), s)"
  shows "hold b (set_expire_ms c expire seconds s) Q"
proof (cases expire)
  case None
  then show ?thesis using assms by (simp add: set_expire_ms_def)
next
  case (Some e)
  have Q: "Q (Some None, s')" if "keeps b P (rs @ [Error x]) D c s0 s'" for s' x using that assms(4) by blast
  show ?thesis
    unfolding set_expire_ms_def Some option.case hold_simps
  proof (rule hold_getLongLong [OF k])
    fix v assume v: "LLONG_MIN \<le> v" "v \<le> LLONG_MAX" "\<And>a. Some (StrObj e) = Some (StrObj a) \<Longrightarrow> string_ll a = Some v"
    have "\<bar>v\<bar> < 2 ^ 32" if b using small [OF that Some] v by simp
    then have "b \<Longrightarrow> \<bar>v * 1000\<bar> < 2 ^ 60 \<and> \<bar>v\<bar> < 2 ^ 60" by (simp add: abs_mult)
    then show "hold b (case (Some v, s) of (r, s) \<Rightarrow> case r of None \<Rightarrow> Some (Some None, s) | Some ms \<Rightarrow>
        if ms \<le> 0 then Some (Some None, addReply c (Error InvalidExpire) s)
        else do { ms \<leftarrow> (if seconds then ll (ms * 1000) else Some ms); Some (Some (Some ms), s) }) Q"
      by (auto simp: LLONG_MIN_def LLONG_MAX_def intro!: wp assms(5) Q keeps_addReply [OF k])
  qed (auto intro: Q)
qed

lemma hold_setGeneric:
  assumes k: "keeps b {} [] D c s s" and v: "val_ok val"
    and small: "\<And>e v. b \<Longrightarrow> expire = Some e \<Longrightarrow> string_ll e = Some v \<Longrightarrow> \<bar>v\<bar> < 2 ^ 32" and clk: "b \<Longrightarrow> clock_ok s"
    and r: "\<And>n. ok_reply \<noteq> MultiBulkLen n" "\<And>n. abort_reply \<noteq> MultiBulkLen n"
  shows "hold b (setGenericCommand c fl key val expire seconds ok_reply abort_reply s) (served b c s)"
proof -
  have i: "client_db s c = D" "D < length (dbs s)" using keepsD0 [OF k] by auto
  have t: "\<bar>clock s n + ms\<bar> < 2 ^ 62" if "\<bar>ms\<bar> < 2 ^ 60" b for n ms
    using clk [OF that(2)] that(1) by (simp add: clock_ok_def) (smt (verit))
  have stored: "hold b (case ex of None \<Rightarrow> Some x | Some None \<Rightarrow> Some x
        | Some (Some ms) \<Rightarrow> do { let (now, s) = mstime x; t \<leftarrow> ll (now + ms); setExpire D key t s }) (\<lambda>s'. served b c s (addReply c ok_reply s'))"
    if x: "keeps b {} [] D c s x" "marked D key x" "lookupKey D key x = Some val" and ex: "\<And>ms. ex = Some (Some ms) \<Longrightarrow> b \<Longrightarrow> \<bar>ms\<bar> < 2 ^ 60"
    for x ex
  proof -
    have cl: "clock x = clock s" by (rule keepsD(7) [OF x(1)])
    have m: "marked D key (x\<lparr>ticks := n\<rparr>)" for n using x(2) by (simp add: marked_def)
    show ?thesis
      using x ex t [of _ "ticks x"] i m
      by (auto simp: mstime_def cl LLONG_MIN_def LLONG_MAX_def split: option.splits intro!: wp served_reply r abs_leI) (smt (verit))+
  qed
  have dirty: "keeps b {} [] D c s (add_dirty 1 x)" "marked D key (add_dirty 1 x)" "lookupKey D key (add_dirty 1 x) = Some val"
    if "keeps b {} [] D c s x" "marked D key x" "lookupKey D key x = Some val" for x
    using that by (simp_all add: add_dirty_def marked_def)
  have main: "hold b (do {
       (abort, s) \<leftarrow> set_aborts fl D key s;
       if abort then Some (addReply c abort_reply s)
       else do {
         s \<leftarrow> setKey D key val s;
         let s = add_dirty 1 s;
         s \<leftarrow> (case ex of
                Some (Some ms) \<Rightarrow> do { let (now, s) = mstime s; t \<leftarrow> ll (now + ms); setExpire D key t s }
              | _ \<Rightarrow> Some s);
         Some (addReply c ok_reply s)
       }
     }) (served b c s)" if "\<And>ms. ex = Some (Some ms) \<Longrightarrow> b \<Longrightarrow> \<bar>ms\<bar> < 2 ^ 60" for ex
    unfolding hold_simps
    by (rule hold_set_aborts [OF k i(2)])
       (use that i(2) v in \<open>auto simp: Let_def [of "add_dirty _ _"] intro!: hold_setKey stored dirty served_reply [OF _ r(2)]\<close>)
  show ?thesis
    unfolding setGenericCommand_def hold_simps
    apply (rule hold_set_expire_ms [OF k])
    subgoal using small by blast
    subgoal using main [of None] by (simp add: i(1) Let_def [of D])
    subgoal by (auto intro: served_intros)
    subgoal for ms using main [of "Some (Some ms)"] by (simp add: i(1) Let_def [of D])
    done
qed

lemma set_options_mem:
  "set_options as fl expire seconds = Some (fl', expire', seconds') \<Longrightarrow> (\<And>e. expire = Some e \<Longrightarrow> e \<in> X) \<Longrightarrow> set as \<subseteq> X \<Longrightarrow>
     expire' = Some e' \<Longrightarrow> e' \<in> X"
proof (induction as fl expire seconds rule: set_options.induct)
  case (2 a as fl expire seconds)
  have t: "set (tl as) \<subseteq> X" "as \<noteq> [] \<Longrightarrow> hd as \<in> X" using "2.prems"(3) by (cases as; simp)+
  show ?case using "2.prems" "2.IH" t by (auto split: if_splits)
qed simp

lemma small_mem: "args_ok n c s \<Longrightarrow> e \<in> set (client_argv s c) \<Longrightarrow> string_ll e = Some v \<Longrightarrow> \<bar>v\<bar> < 2 ^ 32"
  by (auto simp: args_ok_def small_arg_def dest!: bspec)

lemma set_served:
  assumes k: "keeps b {} [] D c s s" and a: "b \<Longrightarrow> args_ok 3 c s"
  shows "hold b (setCommand c s) (served b c s)"
proof (cases "set_options (drop 3 (client_argv s c)) 0 None True")
  case None
  then show ?thesis using k by (auto simp: setCommand_def intro: served_intros)
next
  case (Some x)
  obtain fl expire seconds where x: "x = (fl, expire, seconds)" by (cases x)
  have "\<bar>v\<bar> < 2 ^ 32" if b "expire = Some e" "string_ll e = Some v" for e v
    using small_mem [OF a [OF that(1)] _ that(3)] set_options_mem [OF Some [unfolded x] _ set_drop_subset that(2)] by simp
  then show ?thesis
    using Some x a by (auto simp: setCommand_def args_ok_def intro!: wp hold_setGeneric [OF k])
qed

lemma setnx_served:
  assumes k: "keeps b {} [] D c s s" and a: "b \<Longrightarrow> args_ok 3 c s"
  shows "hold b (setnxCommand c s) (served b c s)"
  using a by (auto simp: setnxCommand_def args_ok_def intro!: wp hold_setGeneric [OF k])

lemma setex_served:
  assumes k: "keeps b {} [] D c s s" and a: "b \<Longrightarrow> args_ok 4 c s"
  shows "hold b (setexCommand c s) (served b c s)" "hold b (psetexCommand c s) (served b c s)"
proof -
  have l: "3 < length (client_argv s c)" if b using args_okD [OF a [OF that]] by simp
  have "\<bar>v\<bar> < 2 ^ 32" if b "string_ll (client_argv s c ! 2) = Some v" for v
    using small_mem [OF a [OF that(1)] nth_mem that(2)] l [OF that(1)] by simp
  then show "hold b (setexCommand c s) (served b c s)" "hold b (psetexCommand c s) (served b c s)"
    using a l by (auto simp: setexCommand_def psetexCommand_def args_ok_def intro!: wp hold_setGeneric [OF k])
qed

lemma served_dirty [simp]: "served b c s0 (add_dirty n s) \<longleftrightarrow> served b c s0 s"
  by (simp add: served_def add_dirty_def)

lemma add_dirty_keeps [simp]: "keeps b P rs D c s0 (add_dirty n s) \<longleftrightarrow> keeps b P rs D c s0 s"
  by (simp add: add_dirty_def)

lemma add_dirty_marked [simp]: "marked i k (add_dirty n s) \<longleftrightarrow> marked i k s" "lookupKey i k (add_dirty n s) = lookupKey i k s"
  by (simp_all add: add_dirty_def marked_def)

lemma keeps_signal1: "keeps b {(i, key)} rs D c s0 s \<Longrightarrow> keeps b {} rs D c s0 (signalModifiedKey i key s)"
  using keeps_signal [of b "{(i, key)}" rs D c s0 s i key] by simp

lemma served_modified:
  "keeps b {(i, key)} [] D c s0 s \<Longrightarrow> (\<And>n. r \<noteq> MultiBulkLen n) \<Longrightarrow> served b c s0 (addReply c r (add_dirty n (signalModifiedKey i key s)))"
  by (rule served_reply [of b D]) (simp_all add: keeps_signal1)

lemma hold_Some: "hold b m Q \<Longrightarrow> hold b m (\<lambda>x. m = Some x \<and> Q x)"
  by (auto simp: hold_def split: option.splits)

lemma dbDelete_clients: "dbDelete i key s = (r, s') \<Longrightarrow> clients s' = clients s"
  by (auto simp: dbDelete_def Let_def split: if_splits)

lemma expireIfNeeded_clients: "expireIfNeeded i key s = Some (r, s') \<Longrightarrow> clients s' = clients s"
  by (auto simp: expireIfNeeded_def Let_def mstime_def propagateExpire_def propagate_def bind_eq_Some_conv
      dest!: dbDelete_clients split: if_splits)

lemma getGeneric_argv:
  "getGenericCommand c s = Some (r, s') \<Longrightarrow> c < length (clients s) \<Longrightarrow> client_argv s' c = client_argv s c \<and> client_db s' c = client_db s c"
  by (auto simp: getGenericCommand_def lookupKeyReadOrReply_def lookupKeyRead_def Let_def addReply_def bind_eq_Some_conv upd_client_def
      nth_list_update dest!: expireIfNeeded_clients split: if_splits option.splits)

lemma getset_served:
  assumes k: "keeps b {} [] D c s s" and a: "b \<Longrightarrow> args_ok 3 c s"
  shows "hold b (getsetCommand c s) (served b c s)"
proof -
  have l: "2 < length (client_argv s c)" if b using args_okD [OF a [OF that]] by simp
  have g: "hold b (getGenericCommand c s) (\<lambda>(ok, s'). \<exists>r. (\<forall>n. r \<noteq> MultiBulkLen n) \<and> keeps b {} [r] D c s s')"
    unfolding getGenericCommand_def using k l by (auto split: option.splits intro!: wp exI keeps_addReply [of _ _ "[]", simplified])
  have "hold b (if \<not> ok then Some s' else do {
       key \<leftarrow> arg s' c 1;
       a \<leftarrow> arg s' c 2;
       val \<leftarrow> tryObjectEncoding a;
       s' \<leftarrow> setKey (client_db s' c) key val s';
       Some (add_dirty 1 s')
     }) (served b c s)"
    if g: "getGenericCommand c s = Some (ok, s')" and ex: "\<exists>r. (\<forall>n. r \<noteq> MultiBulkLen n) \<and> keeps b {} [r] D c s s'" for ok s'
  proof -
    obtain r where r: "\<And>n. r \<noteq> MultiBulkLen n" and k': "keeps b {} [r] D c s s'" using ex by blast
    have av: "arg s' c j = arg s c j" and db: "client_db s' c = D" for j
      using getGeneric_argv [OF g keepsD0(3) [OF k]] keepsD0(1) [OF k] by (simp_all add: arg_def)
    show ?thesis
      using l served_replied [of b r D c s s'] r k'
      by (auto simp: av db intro!: hold_arg hold_tryObjectEncoding hold_setKey [OF k' keepsD0(2) [OF k]] served_replied [of b r D])
  qed
  then show ?thesis
    unfolding getsetCommand_def hold_simps by (intro hold_mono [OF hold_Some [OF g]]) (auto simp only: split_paired_all prod.case)
qed

lemma hold_checkStringLength:
  "hold b (case checkStringLength c sz s of (ok, s) \<Rightarrow> if \<not> ok then Some s else f s) Q \<longleftrightarrow>
     (if sz > 512 * 1024 * 1024 then Q (addReply c (Error StringTooLong) s) else hold b (f s) Q)"
  by (simp add: checkStringLength_def)

lemma append_served:
  assumes k: "keeps b {} [] D c s s" and a: "b \<Longrightarrow> args_ok 3 c s"
  shows "hold b (appendCommand c s) (served b c s)"
proof -
  have l: "2 < length (client_argv s c)" if b using args_okD [OF a [OF that]] by simp
  show ?thesis
    unfolding appendCommand_def
    using k l keepsD0(2) [OF k]
    by (auto simp: keepsD0(1) [OF k] hold_checkStringLength Let_def
        split: option.splits intro!: wp keeps_signal1 served_reply [of _ D])
qed

lemma setrange_served:
  assumes k: "keeps b {} [] D c s s" and a: "b \<Longrightarrow> args_ok 4 c s"
  shows "hold b (setrangeCommand c s) (served b c s)"
proof -
  have l: "3 < length (client_argv s c)" if b using args_okD [OF a [OF that]] by simp
  have sz: "0 \<le> to_int64 ((nat v + length (client_argv s c ! 3)) mod 2 ^ 64)"
    if b "string_ll (client_argv s c ! 2) = Some v" for v
  proof -
    have "\<bar>v\<bar> < 2 ^ 32" using small_mem [OF a [OF that(1)] nth_mem that(2)] l [OF that(1)] by simp
    then have "nat v < 2 ^ 32" by (cases "0 \<le> v") (auto simp: nat_less_iff)
    moreover have "small_arg (client_argv s c ! 3)" using a [OF that(1)] l [OF that(1)] by (auto simp: args_ok_def)
    ultimately have "nat v + length (client_argv s c ! 3) < 2 ^ 63" by (simp add: small_arg_def)
    then show ?thesis by (simp add: to_int64_def)
  qed
  show ?thesis
    unfolding setrangeCommand_def
    using k l sz keepsD0(2) [OF k]
    by (auto simp: keepsD0(1) [OF k] hold_checkStringLength Let_def
        split: option.split intro!: wp keeps_signal1 served_reply [of _ D] dest: served_error)
qed

lemma range_bounds_read:
  assumes "range_bounds (length xs) start end' = (p, q)" "p \<le> q" "end' < 2 ^ 32"
  shows "\<exists>ys. mem_read xs (nat p) (nat (q - p + 1)) = Some ys"
proof -
  have "0 \<le> p" "q < int (length xs)"
    using assms by (auto simp: range_bounds_def Let_def split: if_splits)
  then have "nat p + nat (q - p + 1) \<le> length xs" using assms(2) by linarith
  then show ?thesis by (simp add: mem_read_def)
qed

lemma getrange_served:
  assumes k: "keeps b {} [] D c s s" and a: "b \<Longrightarrow> args_ok 4 c s"
  shows "hold b (getrangeCommand c s) (served b c s)"
proof -
  have l: "3 < length (client_argv s c)" if b using args_okD [OF a [OF that]] by simp
  have small: "v < 2 ^ 32" if b "string_ll (client_argv s c ! 3) = Some v" for v
    using small_mem [OF a [OF that(1)] nth_mem that(2)] l [OF that(1)] by simp
  have read: "hold b (case range_bounds (length xs) start end' of (p, q) \<Rightarrow>
      if p > q then Some (addReply c (Bulk []) s') else do { ys \<leftarrow> mem_read xs (nat p) (nat (q - p + 1)); Some (addReply c (Bulk ys) s') }) (served b c s)"
    if "keeps b {} [] D c s s'" "b \<Longrightarrow> end' < 2 ^ 32" for xs start end' s'
  proof -
    obtain p q where pq: "range_bounds (length xs) start end' = (p, q)" by fastforce
    show ?thesis
      using that range_bounds_read [OF pq]
      by (cases "mem_read xs (nat p) (nat (q - p + 1))") (auto simp: pq intro!: served_reply [of _ D])
  qed
  show ?thesis
    unfolding getrangeCommand_def
    using k l small by (auto simp: Let_def [of "obj_bytes _"] Let_def [of "range_bounds _ _ _"] split: option.split
      intro!: hold_arg hold_getLongLong [OF k] hold_lookupKeyReadOrReply [OF k] served_reply [of _ D] read dest!: served_error)
qed

lemma mget_loop_keeps:
  assumes "keeps b {} rs D c s0 s"
  shows "hold b (mget_loop c keys s) (\<lambda>s'. \<exists>rs'. awaiting (length keys) rs' = Some 0 \<and> keeps b {} (rs @ rs') D c s0 s')"
  using assms
proof (induction keys arbitrary: s rs)
  case Nil
  then show ?case by (auto intro!: exI [of _ "[]"])
next
  case (Cons key keys)
  have "hold b (mget_loop c keys (addReply c r x)) (\<lambda>s'. \<exists>rs'. awaiting (length (key # keys)) rs' = Some 0 \<and> keeps b {} (rs @ rs') D c s0 s')"
    if "keeps b {} rs D c s0 x" "\<And>n. r \<noteq> MultiBulkLen n" for x r
  proof (rule hold_mono [OF Cons.IH [OF keeps_addReply [OF that(1)]]], elim exE conjE)
    fix s' rs'
    assume "awaiting (length keys) rs' = Some 0" "keeps b {} ((rs @ [r]) @ rs') D c s0 s'"
    then show "\<exists>rs'. awaiting (length (key # keys)) rs' = Some 0 \<and> keeps b {} (rs @ rs') D c s0 s'"
      using that(2) by (cases r) (auto intro!: exI [of _ "r # rs'"])
  qed
  then show ?case
    using Cons.prems keepsD0(1,2) [OF Cons.prems] by (auto simp: Let_def split: option.split intro!: hold_lookupKeyRead)
qed

lemma mget_served:
  assumes k: "keeps b {} [] D c s s"
  shows "hold b (mgetCommand c s) (served b c s)"
  unfolding mgetCommand_def Let_def
proof (rule hold_mono [OF mget_loop_keeps [OF keeps_addReply [OF k]]], elim exE conjE)
  fix s' rs'
  let ?keys = "tl (client_argv s c)"
  assume "awaiting (length ?keys) rs' = Some 0" "keeps b {} (([] @ [MultiBulkLen (length ?keys)]) @ rs') D c s s'"
  then show "served b c s s'" unfolding served_def one_reply_def by (intro exI [of _ "MultiBulkLen (length ?keys) # rs'"]) auto
qed

lemma busy_loop_keeps:
  assumes "keeps b P rs D c s0 s" "i < length (dbs s0)" "\<And>n s'. keeps b P rs D c s0 s' \<Longrightarrow> Q (n, s')"
  shows "hold b (busy_loop i kvs n s) Q"
  using assms
proof (induction kvs arbitrary: n s rule: induct_list012)
  case (3 key val kvs)
  show ?case using "3.prems" by (auto intro!: hold_lookupKeyWrite "3.IH")
qed auto

lemma mset_loop_keeps:
  assumes "keeps b {} rs D c s0 s" "i < length (dbs s0)" "\<And>s'. keeps b {} rs D c s0 s' \<Longrightarrow> Q s'"
  shows "hold b (mset_loop i kvs s) Q"
  using assms
proof (induction kvs arbitrary: s rule: induct_list012)
  case (3 key val kvs)
  show ?case using "3.prems" by (auto intro!: hold_setKey hold_tryObjectEncoding "3.IH")
qed auto

lemma mset_served:
  assumes k: "keeps b {} [] D c s s"
  shows "hold b (msetCommand c s) (served b c s)" "hold b (msetnxCommand c s) (served b c s)"
  using k keepsD0(2) [OF k]
  by (auto simp: msetCommand_def msetnxCommand_def msetGenericCommand_def Let_def keepsD0(1) [OF k]
      intro!: busy_loop_keeps mset_loop_keeps served_reply [of _ D])

lemma is_string_iff: "is_string v \<longleftrightarrow> (\<forall>n. v \<noteq> OtherObj n)"
  by (cases v) auto

text \<open>The guard of \<open>incrDecrCommand\<close> rejects exactly the sums that overflow.\<close>

lemma incr_guard:
  assumes "LLONG_MIN \<le> oldv" "oldv \<le> LLONG_MAX" "LLONG_MIN \<le> incr" "incr \<le> LLONG_MAX"
  shows "incr < 0 \<and> oldv < 0 \<and> incr < LLONG_MIN - oldv \<or> incr > 0 \<and> oldv > 0 \<and> incr > LLONG_MAX - oldv \<longleftrightarrow>
           oldv + incr < LLONG_MIN \<or> oldv + incr > LLONG_MAX"
  using assms by (auto simp: LLONG_MIN_def LLONG_MAX_def)

lemma incrDecr_served:
  assumes k: "keeps b {} [] D c s s" and a: "b \<Longrightarrow> 1 < length (client_argv s c)" and r: "LLONG_MIN \<le> incr" "incr \<le> LLONG_MAX"
  shows "hold b (incrDecrCommand c incr s) (served b c s)"
proof -
  have v: "val_ok (createStringObjectFromLongLong v)" if "LLONG_MIN \<le> v" "v \<le> LLONG_MAX" for v
    using that by (simp add: createStringObjectFromLongLong_def)
  have g: "LLONG_MIN \<le> oldv + incr \<and> oldv + incr \<le> LLONG_MAX"
    if "LLONG_MIN \<le> oldv" "oldv \<le> LLONG_MAX" "\<not> (incr < 0 \<and> oldv < 0 \<and> incr < LLONG_MIN - oldv \<or> incr > 0 \<and> oldv > 0 \<and> incr > LLONG_MAX - oldv)"
    for oldv using incr_guard [OF that(1,2) r] that(3) by linarith
  have i: "D < length (dbs s)" by (rule keepsD0(2) [OF k])
  have store: "hold b (do {
      s' \<leftarrow> (if o' \<noteq> None then dbOverwrite D key (createStringObjectFromLongLong w) x else dbAdd D key (createStringObjectFromLongLong w) x);
      Some (addReply c (Integer w) (add_dirty 1 (signalModifiedKey D key s')))
    }) (served b c s)" if x: "keeps b {} [] D c s x" and o: "o' = lookupKey D key x" and w: "LLONG_MIN \<le> w" "w \<le> LLONG_MAX" for o' key w x
    using o i v [OF w]
    by (auto intro!: hold_dbAdd [OF x] hold_dbOverwrite [OF x] served_reply [of _ D] keeps_signal1)
  have main: "hold b (case (lookupKey D key x, x) of (o', s) \<Rightarrow>
      if o' \<noteq> None \<and> \<not> is_string (the o') then Some (addReply c (Error WrongType) s)
      else do {
        (r, s) \<leftarrow> getLongLongFromObjectOrReply c o' NotAnInteger s;
        (case r of
           None \<Rightarrow> Some s
         | Some oldvalue \<Rightarrow>
             if (incr < 0 \<and> oldvalue < 0 \<and> incr < LLONG_MIN - oldvalue) \<or> (incr > 0 \<and> oldvalue > 0 \<and> incr > LLONG_MAX - oldvalue)
             then Some (addReply c (Error IncrOverflow) s)
             else do {
               value \<leftarrow> ll (oldvalue + incr);
               s \<leftarrow> (if o' \<noteq> None then dbOverwrite D key (createStringObjectFromLongLong value) s
                    else dbAdd D key (createStringObjectFromLongLong value) s);
               Some (addReply c (Integer value) (add_dirty 1 (signalModifiedKey D key s)))
             })
      }) (served b c s)" if x: "keeps b {} [] D c s x" for key x
  proof (cases "lookupKey D key x \<noteq> None \<and> \<not> is_string (the (lookupKey D key x))")
    case True
    then show ?thesis using x by (auto intro: served_intros)
  next
    case False
    have o: "\<And>n. lookupKey D key x \<noteq> Some (OtherObj n)" "\<And>v. lookupKey D key x = Some v \<Longrightarrow> val_ok v"
      using False lookup_val_ok [OF x i] by auto
    show ?thesis
      unfolding prod.case if_not_P [OF False] hold_simps
    proof (rule hold_getLongLong [OF x o])
      fix oldv
      assume r: "LLONG_MIN \<le> oldv" "oldv \<le> LLONG_MAX"
      let ?guard = "incr < 0 \<and> oldv < 0 \<and> incr < LLONG_MIN - oldv \<or> incr > 0 \<and> oldv > 0 \<and> incr > LLONG_MAX - oldv"
      show "hold b (case (Some oldv, x) of (r, s) \<Rightarrow> case r of None \<Rightarrow> Some s
         | Some oldvalue \<Rightarrow>
             if (incr < 0 \<and> oldvalue < 0 \<and> incr < LLONG_MIN - oldvalue) \<or> (incr > 0 \<and> oldvalue > 0 \<and> incr > LLONG_MAX - oldvalue)
             then Some (addReply c (Error IncrOverflow) s)
             else do {
               value \<leftarrow> ll (oldvalue + incr);
               s \<leftarrow> (if lookupKey D key x \<noteq> None then dbOverwrite D key (createStringObjectFromLongLong value) s
                    else dbAdd D key (createStringObjectFromLongLong value) s);
               Some (addReply c (Integer value) (add_dirty 1 (signalModifiedKey D key s)))
             }) (served b c s)"
      proof (cases ?guard)
        case True
        then show ?thesis unfolding prod.case option.case if_P [OF True] by (simp add: served_reply [OF x])
      next
        case False
        have w: "LLONG_MIN \<le> oldv + incr" "oldv + incr \<le> LLONG_MAX" using g [OF r False] by auto
        show ?thesis
          unfolding prod.case option.case if_not_P [OF False] hold_simps(3) [of _ "ll _"]
          by (rule hold_ll) (use w in blast, rule store [OF x refl w])
      qed
    qed (simp_all add: served_error)
  qed
  show ?thesis
    unfolding incrDecrCommand_def hold_simps Let_def keepsD0(1) [OF k]
    by (rule hold_arg [OF a], assumption, rule hold_lookupKeyWrite [OF k i], rule main)
qed

lemma incr_served:
  assumes k: "keeps b {} [] D c s s" and a: "b \<Longrightarrow> args_ok 2 c s"
  shows "hold b (incrCommand c s) (served b c s)" "hold b (decrCommand c s) (served b c s)"
  unfolding incrCommand_def decrCommand_def
  by (rule incrDecr_served [OF k]; use args_okD [OF a] in \<open>force simp: LLONG_MIN_def LLONG_MAX_def\<close>)+

lemma incrby_served:
  assumes k: "keeps b {} [] D c s s" and a: "b \<Longrightarrow> args_ok 3 c s"
  shows "hold b (incrbyCommand c s) (served b c s)" "hold b (decrbyCommand c s) (served b c s)"
proof -
  have l: "1 < length (client_argv s c) \<and> 2 < length (client_argv s c)" if b using args_okD [OF a [OF that]] by simp
  have small: "\<bar>v\<bar> < 2 ^ 32" if b "string_ll (client_argv s c ! 2) = Some v" for v
    using small_mem [OF a [OF that(1)] nth_mem that(2)] l [OF that(1)] by simp
  show "hold b (incrbyCommand c s) (served b c s)" "hold b (decrbyCommand c s) (served b c s)"
    unfolding incrbyCommand_def decrbyCommand_def
    using l small
    by (auto intro!: hold_arg hold_getLongLong [OF k] hold_ll incrDecr_served [OF k] dest!: served_error simp: LLONG_MIN_def LLONG_MAX_def)
qed

end
