(* ===== verification/Server_Keys.thy ===== *)
theory Server_Keys
  imports Server_Cmds
begin

text \<open>
  The commands on the key space keep the relation of \<open>Server_Frame\<close> and send exactly one complete reply; \<open>MOVE\<close>
  does so but for the marks of the watchers.
\<close>

lemma simple_served:
  assumes k: "keeps b {} [] D c s s"
  shows "hold b (pingCommand c s) (served b c s)" "hold b (dbsizeCommand c s) (served b c s)"
  using k by (auto simp: pingCommand_def dbsizeCommand_def intro: served_intros)

lemma key_served:
  assumes k: "keeps b {} [] D c s s" and a: "b \<Longrightarrow> args_ok 2 c s"
  shows "hold b (echoCommand c s) (served b c s)" "hold b (typeCommand c s) (served b c s)" "hold b (existsCommand c s) (served b c s)"
proof -
  have l: "1 < length (client_argv s c)" if b using args_okD [OF a [OF that]] by simp
  show "hold b (echoCommand c s) (served b c s)" "hold b (typeCommand c s) (served b c s)" "hold b (existsCommand c s) (served b c s)"
    using k l keepsD0(2) [OF k]
    by (auto simp: echoCommand_def typeCommand_def existsCommand_def keepsD0(1) [OF k]
      intro!: hold_arg hold_lookupKeyRead [OF k] hold_expireIfNeeded [OF k] served_reply [of _ D])
qed

lemma select_served:
  assumes k: "keeps b {} [] D c s s" and a: "b \<Longrightarrow> args_ok 2 c s"
  shows "hold b (selectCommand c s) (served b c s)"
proof -
  have l: "1 < length (client_argv s c)" if b using args_okD [OF a [OF that]] by simp
  show ?thesis
    using k l by (auto simp: selectCommand_def selectDb_def nat_less_iff dest!: served_error
      intro!: hold_arg hold_getLongLong [OF k] served_reply [OF k] served_reply [OF keeps_select [OF k]])
qed

lemma del_loop_keeps:
  assumes "keeps b {} [] D c s0 s" "i < length (dbs s0)"
  shows "keeps b {} [] D c s0 (snd (del_loop i keys n s))"
  using assms
proof (induction keys arbitrary: n s)
  case (Cons key keys)
  show ?case
  proof (cases "dbExists i key s")
    case True
    have "fst (dbDelete i key s)" using True keepsD0(4) [OF Cons.prems] by (simp add: dbDelete_eq)
    then show ?thesis
      using keeps_signal1 [OF keeps_dbDelete [OF Cons.prems]] Cons.prems(2) by (auto simp: Let_def split_beta intro!: Cons.IH)
  next
    case False
    then have "dbDelete i key s = (False, s)"
      using keepsD0(4,5) [OF Cons.prems] by (intro dbDelete_absent)
    then show ?thesis using Cons by simp
  qed
qed simp

lemma del_served:
  assumes k: "keeps b {} [] D c s s"
  shows "hold b (delCommand c s) (served b c s)"
  using del_loop_keeps [OF k keepsD0(2) [OF k]]
  by (auto simp: delCommand_def Let_def keepsD0(1) [OF k] split_beta intro!: served_reply [of _ D])

lemma lookup_dbDelete: "i < length (dbs s) \<Longrightarrow> lookupKey i k (snd (dbDelete i key s)) = (if k = key then None else lookupKey i k s)"
  by (auto simp: dbDelete_eq lookupKey_def delete_conv')

lemma rename_served:
  assumes k: "keeps b {} [] D c s s" and a: "b \<Longrightarrow> args_ok 3 c s"
  shows "hold b (renameGenericCommand c nx s) (served b c s)"
proof -
  have l: "1 < length (client_argv s c) \<and> 2 < length (client_argv s c)" if b using args_okD [OF a [OF that]] by simp
  have i: "D < length (dbs s)" by (rule keepsD0(2) [OF k])
  define R where "R = (if nx then Integer 1 else Ok)"
  have r: "R \<noteq> MultiBulkLen n" for n by (simp add: R_def)
  have fin: "served b c s (addReply c R
        (add_dirty 1 (signalModifiedKey D newkey (signalModifiedKey D key (snd (dbDelete D key y))))))"
    if "keeps b {(D, newkey)} [] D c s y" for y key newkey
  proof -
    have "keeps b {} [] D c s (signalModifiedKey D newkey (signalModifiedKey D key (snd (dbDelete D key y))))"
      by (rule keeps_pending [OF keeps_signal [OF keeps_signal [OF keeps_dbDelete [OF that i]]]]) auto
    then show ?thesis by (intro served_reply [of _ D]) (simp_all add: r)
  qed
  have store: "hold b (do {
      s' \<leftarrow> dbAdd D newkey v y;
      s' \<leftarrow> (if expire \<noteq> - 1 then setExpire D newkey expire s' else Some s');
      Some (addReply c R
        (add_dirty 1 (signalModifiedKey D newkey (signalModifiedKey D key (snd (dbDelete D key s'))))))
    }) (served b c s)"
    if y: "keeps b P [] D c s y" "P \<subseteq> {(D, newkey)}" and "val_ok v" "lookupKey D newkey y = None" "b \<Longrightarrow> \<bar>expire\<bar> < 2 ^ 62" for y P v expire key newkey
  proof -
    have y': "keeps b {(D, newkey)} [] D c s y" by (rule keeps_pending [OF y])
    show ?thesis
      using that(3-5) i by (auto intro!: hold_dbAdd [OF y'] hold_setExpire [of b "{(D, newkey)}" "[]" D c s] fin simp del: insert_iff)
  qed
  have main: "hold b (do {
      expire \<leftarrow> getExpire D key x;
      (o2, s') \<leftarrow> lookupKeyWrite D newkey x;
      if o2 \<noteq> None \<and> nx then Some (addReply c (Integer 0) s')
      else do {
        let s' = (if o2 \<noteq> None then snd (dbDelete D newkey s') else s');
        s' \<leftarrow> dbAdd D newkey v s';
        s' \<leftarrow> (if expire \<noteq> - 1 then setExpire D newkey expire s' else Some s');
        Some (addReply c R
          (add_dirty 1 (signalModifiedKey D newkey (signalModifiedKey D key (snd (dbDelete D key s'))))))
      }
    }) (served b c s)" if x: "keeps b {} [] D c s x" and v: "val_ok v" for x v key newkey
  proof -
    let ?e = "case map_of (expires (dbs x ! D)) key of None \<Rightarrow> - 1 | Some t \<Rightarrow> t"
    have e: "b \<Longrightarrow> \<bar>?e\<bar> < 2 ^ 62"
      using keepsD0(6) [OF x _ i] by (auto simp: times_ok_def split: option.splits)
    have del: "keeps b {(D, newkey)} [] D c s (snd (dbDelete D newkey y))" "lookupKey D newkey (snd (dbDelete D newkey y)) = None"
      if "keeps b {} [] D c s y" for y
      using keeps_dbDelete [OF that i] keepsD0(4) [OF that i] by (auto simp: lookup_dbDelete)
    show ?thesis
      unfolding hold_simps(3) [of _ "getExpire _ _ _"] hold_simps(3) [of _ "lookupKeyWrite _ _ _"]
    proof (intro hold_getExpire [OF x i] hold_lookupKeyWrite [OF x i], unfold prod.case Let_def)
      fix y assume y: "keeps b {} [] D c s y"
      show "hold b (if lookupKey D newkey y \<noteq> None \<and> nx then Some (addReply c (Integer 0) y)
        else do {
          s' \<leftarrow> dbAdd D newkey v (if lookupKey D newkey y \<noteq> None then snd (dbDelete D newkey y) else y);
          s' \<leftarrow> (if ?e \<noteq> - 1 then setExpire D newkey ?e s' else Some s');
          Some (addReply c R (add_dirty 1 (signalModifiedKey D newkey (signalModifiedKey D key (snd (dbDelete D key s'))))))
        }) (served b c s)"
      proof (cases "lookupKey D newkey y")
        case None
        show ?thesis unfolding None using store [OF y _ v None e] by simp
      next
        case (Some z)
        show ?thesis
          unfolding Some using store [OF del(1) [OF y] _ v del(2) [OF y] e] served_reply [OF y] by (cases nx) simp_all
      qed
    qed
  qed
  show ?thesis
    unfolding renameGenericCommand_def hold_simps(3) [of _ "arg _ _ _"] keepsD0(1) [OF k] Let_def [of D]
  proof (intro hold_arg)
    let ?key = "client_argv s c ! 1" and ?newkey = "client_argv s c ! 2"
    show "hold b (if ?key = ?newkey then Some (addReply c (Error SameObject) s)
        else do {
          (o', s) \<leftarrow> lookupKeyWriteOrReply c ?key (Error NoKey) s;
          (case o' of
             None \<Rightarrow> Some s
           | Some v \<Rightarrow> do {
               expire \<leftarrow> getExpire D ?key s;
               (o2, s) \<leftarrow> lookupKeyWrite D ?newkey s;
               if o2 \<noteq> None \<and> nx then Some (addReply c (Integer 0) s)
               else do {
                 let s = (if o2 \<noteq> None then snd (dbDelete D ?newkey s) else s);
                 s \<leftarrow> dbAdd D ?newkey v s;
                 s \<leftarrow> (if expire \<noteq> - 1 then setExpire D ?newkey expire s else Some s);
                 let (b, s) = dbDelete D ?key s;
                 let s = signalModifiedKey D ?key s;
                 let s = signalModifiedKey D ?newkey s;
                 let s = add_dirty 1 s;
                 Some (addReply c (if nx then Integer 1 else Ok) s)
               }
             })
        }) (served b c s)"
    proof (cases "?key = ?newkey")
      case True
      then show ?thesis by (simp add: served_reply [OF k])
    next
      case False
      show ?thesis
        unfolding if_not_P [OF False] hold_simps(3) [of _ "lookupKeyWriteOrReply _ _ _ _"]
      proof (rule hold_lookupKeyWriteOrReply [OF k])
        fix v x assume x: "keeps b {} [] D c s x" and v: "lookupKey D ?key x = Some v"
        from main [OF x lookup_val_ok [OF x i v], where key = ?key and newkey = ?newkey]
        show "hold b (case (Some v, x) of (o', s) \<Rightarrow> case o' of
             None \<Rightarrow> Some s
           | Some v \<Rightarrow> do {
               expire \<leftarrow> getExpire D ?key s;
               (o2, s) \<leftarrow> lookupKeyWrite D ?newkey s;
               if o2 \<noteq> None \<and> nx then Some (addReply c (Integer 0) s)
               else do {
                 let s = (if o2 \<noteq> None then snd (dbDelete D ?newkey s) else s);
                 s \<leftarrow> dbAdd D ?newkey v s;
                 s \<leftarrow> (if expire \<noteq> - 1 then setExpire D ?newkey expire s else Some s);
                 let (b, s) = dbDelete D ?key s;
                 let s = signalModifiedKey D ?key s;
                 let s = signalModifiedKey D ?newkey s;
                 let s = add_dirty 1 s;
                 Some (addReply c (if nx then Integer 1 else Ok) s)
               }
             }) (served b c s)"
          unfolding R_def Let_def split_beta fst_conv snd_conv option.case .
      qed (simp add: served_error)
    qed
  qed (use l in blast)+
qed

lemma persist_served:
  assumes k: "keeps b {} [] D c s s" and a: "b \<Longrightarrow> args_ok 2 c s"
  shows "hold b (persistCommand c s) (served b c s)"
proof -
  have l: "1 < length (client_argv s c)" if b using args_okD [OF a [OF that]] by simp
  have i: "D < length (dbs s)" by (rule keepsD0(2) [OF k])
  have remove: "hold b (removeExpire D key s) (\<lambda>(r, s'). keeps b {} [] D c s s')" if "dbExists D key s" for key
  proof (cases "map_of (expires (dbs s ! D)) key")
    case None
    then have "AList.delete key (expires (dbs s ! D)) = expires (dbs s ! D)" by (simp add: delete_id map_of_eq_None_iff)
    then have "upd_db D (\<lambda>d. d\<lparr>expires := AList.delete key (expires d)\<rparr>) s = s" by (simp add: upd_db_def)
    then show ?thesis using that k by (simp add: removeExpire_def)
  next
    case (Some t)
    then show ?thesis
      using that by (intro hold_removeExpire [OF k i]) (auto simp: dbExists_def lookupKey_def intro: keeps_volatile [where P = "{}"])
  qed
  have "hold b (if \<not> dbExists D key s then Some (addReply c (Integer 0) s)
     else do {
       (b, s) \<leftarrow> removeExpire D key s;
       Some (if b then add_dirty 1 (addReply c (Integer 1) s) else addReply c (Integer 0) s)
     }) (served b c s)" for key
  proof (cases "dbExists D key s")
    case True
    then show ?thesis by (auto intro!: hold_mono [OF remove [OF True]] served_reply [of _ D])
  qed (simp add: served_reply [OF k])
  then show ?thesis
    unfolding persistCommand_def hold_simps(3) [of _ "arg _ _ _"] keepsD0(1) [OF k] Let_def [of D] by (intro hold_arg l)
qed

text \<open>\<open>MOVE\<close> leaves the two keys unsignalled.\<close>

definition replied :: "bool \<Rightarrow> nat \<Rightarrow> server \<Rightarrow> server \<Rightarrow> bool" where
  "replied b c s0 s \<longleftrightarrow> (\<exists>P rs D. one_reply rs \<and> keeps b P rs D c s0 s)"

lemma served_replied_rel: "served b c s0 s \<Longrightarrow> replied b c s0 s"
  by (auto simp: served_def replied_def)

lemma repliedI: "keeps b P [] D c s0 s \<Longrightarrow> (\<And>n. r \<noteq> MultiBulkLen n) \<Longrightarrow> replied b c s0 (addReply c r s)"
  using keeps_addReply [of b P "[]" D c s0 s r] by (auto simp: replied_def intro!: one_reply_single)

lemma move_replied:
  assumes k: "keeps b {} [] D c s s" and a: "b \<Longrightarrow> args_ok 3 c s"
  shows "hold b (moveCommand c s) (replied b c s)"
proof -
  have l: "1 < length (client_argv s c)" "2 < length (client_argv s c)" if b using args_okD [OF a [OF that]] by simp_all
  have i: "D < length (dbs s)" and c: "c < length (clients s)" by (rule keepsD0(2,3) [OF k])+
  have store: "hold b (do {
      (o', s) \<leftarrow> lookupKeyWrite D key x;
      (case o' of
         None \<Rightarrow> Some (addReply c (Integer 0) s)
       | Some v \<Rightarrow> do {
           (o2, s) \<leftarrow> lookupKeyWrite j key s;
           if o2 \<noteq> None then Some (addReply c (Integer 0) s)
           else do {
             s \<leftarrow> dbAdd j key v s;
             let (b, s) = dbDelete D key s;
             let s = add_dirty 1 s;
             Some (addReply c (Integer 1) s)
           }
         })
    }) (replied b c s)" if x: "keeps b {} [] D c s x" and j: "j < length (dbs s)" for x j key
    unfolding hold_simps(3) [of _ "lookupKeyWrite D _ _"]
  proof (rule hold_lookupKeyWrite [OF x i], unfold prod.case)
    fix y assume y: "keeps b {} [] D c s y"
    show "hold b (case lookupKey D key y of None \<Rightarrow> Some (addReply c (Integer 0) y)
       | Some v \<Rightarrow> do {
           (o2, s) \<leftarrow> lookupKeyWrite j key y;
           if o2 \<noteq> None then Some (addReply c (Integer 0) s)
           else do {
             s \<leftarrow> dbAdd j key v s;
             let (b, s) = dbDelete D key s;
             let s = add_dirty 1 s;
             Some (addReply c (Integer 1) s)
           }
         }) (replied b c s)"
    proof (cases "lookupKey D key y")
      case None
      then show ?thesis by (simp add: repliedI [OF y])
    next
      case (Some v)
      have "hold b (if lookupKey j key z \<noteq> None then Some (addReply c (Integer 0) z)
           else do {
             s \<leftarrow> dbAdd j key v z;
             let (b, s) = dbDelete D key s;
             let s = add_dirty 1 s;
             Some (addReply c (Integer 1) s)
           }) (replied b c s)" if z: "keeps b {} [] D c s z" for z
        by (cases "lookupKey j key z")
           (auto simp: Let_def split_beta repliedI [OF z] intro!: hold_dbAdd [OF z j lookup_val_ok [OF y i Some]] repliedI [of b "{(D, key), (j, key)}" D]
             keeps_dbDelete i)
      then show ?thesis
        unfolding Some option.case hold_simps(3) [of _ "lookupKeyWrite j _ _"] by (intro hold_lookupKeyWrite [OF y j]) (simp only: prod.case)
    qed
  qed
  have main: "hold b (case selectDb c n s of
           None \<Rightarrow> Some (addReply c (Error OutOfRange) s)
         | Some s \<Rightarrow> do {
             let dst = client_db s c;
             s \<leftarrow> selectDb c (int D) s;
             if D = dst then Some (addReply c (Error SameObject) s)
             else do {
               (o', s) \<leftarrow> lookupKeyWrite D key s;
               (case o' of
                  None \<Rightarrow> Some (addReply c (Integer 0) s)
                | Some v \<Rightarrow> do {
                    (o2, s) \<leftarrow> lookupKeyWrite dst key s;
                    if o2 \<noteq> None then Some (addReply c (Integer 0) s)
                    else do {
                      s \<leftarrow> dbAdd dst key v s;
                      let (b, s) = dbDelete D key s;
                      let s = add_dirty 1 s;
                      Some (addReply c (Integer 1) s)
                    }
                  })
             }
           }) (replied b c s)" for n key
  proof (cases "n < 0 \<or> n \<ge> int (length (dbs s))")
    case True
    then show ?thesis by (simp add: selectDb_def repliedI [OF k])
  next
    case False
    define x where "x = upd_client c (\<lambda>cl. cl\<lparr>c_db := nat n\<rparr>) s"
    have n: "nat n < length (dbs s)" using False by linarith
    have x: "selectDb c n s = Some x" "client_db x c = nat n" using False c by (simp_all add: selectDb_def x_def)
    define y where "y = upd_client c (\<lambda>cl. cl\<lparr>c_db := D\<rparr>) x"
    have y: "selectDb c (int D) x = Some y" using i by (simp add: selectDb_def y_def x_def)
    have "keeps b {} [] D c s y" unfolding x_def y_def by (intro keeps_select [OF keeps_select [OF k n]] i)
    then show ?thesis
      using repliedI [of b "{}" D c s y "Error SameObject"] store [of y "nat n" key] n unfolding x(1) option.case y x(2) Let_def [of "nat n"] by simp
  qed
  show ?thesis
  proof (cases "cluster_enabled s")
    case True
    then show ?thesis by (simp add: moveCommand_def repliedI [OF k])
  next
    case False
    show ?thesis
      unfolding moveCommand_def if_not_P [OF False] hold_simps(3) [of _ "arg _ _ _"] keepsD0(1) [OF k] Let_def [of D]
      by (intro hold_arg l main)
  qed
qed

text \<open>The flushes mark through the lists of the clients, so the tables must agree with them.\<close>

definition watch_sound :: "server \<Rightarrow> bool" where
  "watch_sound s \<longleftrightarrow>
     (\<forall>i<length (dbs s). \<forall>k cs x. map_of (watched_keys (dbs s ! i)) k = Some cs \<and> x \<in> set cs \<and> x < length (clients s) \<longrightarrow>
        (k, i) \<in> set (watching (clients s ! x)))"

lemma keeps_flush:
  assumes k: "keeps b {} [] D c s s" and w: "watch_sound s" and l: "length ds = length (dbs s)"
    and ds: "\<And>i. i < length (dbs s) \<Longrightarrow> ds ! i = (if dbid = None \<or> dbid = Some i then (dbs s ! i)\<lparr>dict := [], expires := []\<rparr> else dbs s ! i)"
  shows "keeps b {} [] D c s ((signalFlushedDb dbid s)\<lparr>dbs := ds\<rparr>)"
proof -
  let ?s = "signalFlushedDb dbid s"
  have m: "marks {k. k < length (clients s) \<and> flush_touches dbid s (clients s ! k)} s ?s" by (rule marks_flush)
  have k': "keeps b {} [] D c s ?s" by (rule keeps_marks [OF k m])
  have "dbs_frame b s (?s\<lparr>dbs := ds\<rparr>)"
    using k by (auto simp: keeps_def dbs_frame_def ds db_inv_empty times_ok_def)
  moreover have "touched {} s (?s\<lparr>dbs := ds\<rparr>)"
    unfolding touched_def
  proof (intro allI impI)
    fix i key
    assume "i < length (dbs s) \<and> (i, key) \<notin> {} \<and> map_of (expires (dbs s ! i)) key = None"
    then have i: "i < length (dbs s)" and e: "map_of (expires (dbs s ! i)) key = None" by auto
    show "marked i key (?s\<lparr>dbs := ds\<rparr>) \<or>
      map_of (dict (dbs (?s\<lparr>dbs := ds\<rparr>) ! i)) key = map_of (dict (dbs s ! i)) key \<and> map_of (expires (dbs (?s\<lparr>dbs := ds\<rparr>) ! i)) key = None"
    proof (cases "(dbid = None \<or> dbid = Some i) \<and> map_of (dict (dbs s ! i)) key \<noteq> None")
      case True
      have "marked i key (?s\<lparr>dbs := ds\<rparr>)"
        unfolding marked_def
      proof (intro allI impI ballI)
        fix cs x
        assume a: "map_of (watched_keys (dbs (?s\<lparr>dbs := ds\<rparr>) ! i)) key = Some cs" "x \<in> set cs" "x < length (clients (?s\<lparr>dbs := ds\<rparr>))"
        have x: "x < length (clients s)" using a(3) by (simp add: marks_other(6) [OF m])
        have "map_of (watched_keys (dbs s ! i)) key = Some cs" using a(1) ds [OF i] by (auto split: if_splits)
        then have "(key, i) \<in> set (watching (clients s ! x))" using w i a(2) x by (auto simp: watch_sound_def)
        then have "flush_touches dbid s (clients s ! x)" using True by (auto simp: flush_touches_def list_ex_iff intro!: bexI [of _ "(key, i)"])
        then show "bit (flags (clients (?s\<lparr>dbs := ds\<rparr>) ! x)) 5" using m x by (simp add: marks_def)
      qed
      then show ?thesis ..
    next
      case False
      then show ?thesis using e ds [OF i] by auto
    qed
  qed
  ultimately show ?thesis using k' l by (simp add: keeps_def same_globals_def clients_frame_def session_def)
qed

lemma signalFlushedDb_dirty: "signalFlushedDb dbid (add_dirty n s) = add_dirty n (signalFlushedDb dbid s)"
  by (simp add: signalFlushedDb_def touchWatchedKeysOnFlush_def flush_touches_def add_dirty_def)

lemma signalFlushedDb_dbs: "dbs (signalFlushedDb dbid s) = dbs s"
  by (simp add: signalFlushedDb_def touchWatchedKeysOnFlush_def)

lemma flush_served:
  assumes k: "keeps b {} [] D c s s" and w: "watch_sound s"
  shows "hold b (flushdbCommand c s) (served b c s)" "hold b (flushallCommand c s) (served b c s)"
proof -
  have f: "keeps b {} [] D c s ((signalFlushedDb (Some D) s)\<lparr>dbs := (dbs s)[D := (dbs s ! D)\<lparr>dict := [], expires := []\<rparr>]\<rparr>)"
    by (rule keeps_flush [OF k w]) auto
  have e: "upd_db D (\<lambda>d. d\<lparr>dict := [], expires := []\<rparr>) (add_dirty n (signalFlushedDb (Some D) s)) =
      add_dirty n ((signalFlushedDb (Some D) s)\<lparr>dbs := (dbs s)[D := (dbs s ! D)\<lparr>dict := [], expires := []\<rparr>]\<rparr>)" for n
    by (simp add: upd_db_def add_dirty_def signalFlushedDb_dbs)
  show "hold b (flushdbCommand c s) (served b c s)"
    unfolding flushdbCommand_def Let_def keepsD0(1) [OF k] signalFlushedDb_dirty e hold_simps by (rule served_reply [of _ D]) (simp_all add: f)
  have "keeps b {} [] D c s ((signalFlushedDb None s)\<lparr>dbs := map (\<lambda>d. d\<lparr>dict := [], expires := []\<rparr>) (dbs s)\<rparr>)"
    by (rule keeps_flush [OF k w]) auto
  then show "hold b (flushallCommand c s) (served b c s)"
    by (auto simp: flushallCommand_def emptyDb_def signalFlushedDb_dbs intro!: served_reply [of _ D])
qed

lemma expireGeneric_served:
  assumes k: "keeps b {} [] D c s x" and a: "b \<Longrightarrow> args_ok 3 c x" and base: "b \<Longrightarrow> 0 \<le> basetime \<and> basetime < 2 ^ 61"
  shows "hold b (expireGenericCommand c basetime seconds x) (served b c s)"
proof -
  have l: "1 < length (client_argv x c)" "2 < length (client_argv x c)" if b using args_okD [OF a [OF that]] by simp_all
  have i: "D < length (dbs s)" by (rule keepsD0(2) [OF k])
  have tail: "hold b (do {
      (o', s) \<leftarrow> lookupKeyRead D key x;
      if o' = None then Some (addReply c (Integer 0) s)
      else do {
        let (now, s) = mstime s;
        if when' \<le> now \<and> \<not> loading s \<and> \<not> masterhost s then do {
          let (b, s) = dbDelete D key s;
          ensure b;
          let s = add_dirty 1 s;
          let s = rewriteClientCommandVector c [bstr ''DEL'', key] s;
          let s = signalModifiedKey D key s;
          Some (addReply c (Integer 1) s)
        }
        else do {
          s \<leftarrow> setExpire D key when' s;
          let s = addReply c (Integer 1) s;
          let s = signalModifiedKey D key s;
          Some (add_dirty 1 s)
        }
      }
    }) (served b c s)" if w: "b \<Longrightarrow> \<bar>when'\<bar> < 2 ^ 62" for when' key
    unfolding hold_simps(3) [of _ "lookupKeyRead _ _ _"]
  proof (rule hold_lookupKeyRead [OF k i], unfold prod.case)
    fix y assume y: "keeps b {} [] D c s y"
    define z where "z = y\<lparr>ticks := ticks y + 1\<rparr>"
    have z: "keeps b {} [] D c s z" "lookupKey D key z = lookupKey D key y" using y by (simp_all add: z_def)
    have del: "served b c s (addReply c (Integer 1) (signalModifiedKey D key
        (rewriteClientCommandVector c [bstr ''DEL'', key] (add_dirty 1 (snd (dbDelete D key z))))))"
      by (intro served_reply [of _ D] keeps_signal1 keeps_rewrite) (simp_all add: keeps_dbDelete [OF z(1) i])
    have set_: "served b c s (signalModifiedKey D key (addReply c (Integer 1) u))" if "keeps b {(D, key)} [] D c s u" for u
      using keeps_signal1 [OF keeps_addReply [OF that, of "Integer 1"]] by (auto intro: served_replied)
    show "hold b (if lookupKey D key y = None then Some (addReply c (Integer 0) y)
      else do {
        let (now, s) = mstime y;
        if when' \<le> now \<and> \<not> loading s \<and> \<not> masterhost s then do {
          let (b, s) = dbDelete D key s;
          ensure b;
          let s = add_dirty 1 s;
          let s = rewriteClientCommandVector c [bstr ''DEL'', key] s;
          let s = signalModifiedKey D key s;
          Some (addReply c (Integer 1) s)
        }
        else do {
          s \<leftarrow> setExpire D key when' s;
          let s = addReply c (Integer 1) s;
          let s = signalModifiedKey D key s;
          Some (add_dirty 1 s)
        }
      }) (served b c s)"
    proof (cases "lookupKey D key y")
      case None
      then show ?thesis by (simp add: served_reply [OF y])
    next
      case (Some v)
      have "fst (dbDelete D key z)" using Some z keepsD0(4) [OF z(1) i] by (simp add: dbDelete_eq dbExists_def lookupKey_def)
      moreover have "mstime y = (clock y (ticks y), z)" by (simp add: mstime_def z_def)
      ultimately show ?thesis
        using Some z(2) w del by (auto simp: Let_def split_beta intro!: hold_setExpire [OF z(1) i] set_)
    qed
  qed
  have small: "\<bar>v\<bar> < 2 ^ 32" if b "string_ll (client_argv x c ! 2) = Some v" for v
    using small_mem [OF a [OF that(1)] nth_mem [OF l(2) [OF that(1)]] that(2)] .
  have mid: "hold b (do {
      when' \<leftarrow> (if seconds then ll (v * 1000) else Some v);
      when' \<leftarrow> ll (when' + basetime);
      f when'
    }) (served b c s)" if v: "b \<Longrightarrow> \<bar>v\<bar> < 2 ^ 32" and f: "\<And>w. (b \<Longrightarrow> \<bar>w\<bar> < 2 ^ 62) \<Longrightarrow> hold b (f w) (served b c s)" for v f
    using v base by (auto simp: LLONG_MIN_def LLONG_MAX_def intro!: hold_ll f)
  show ?thesis
    unfolding expireGenericCommand_def hold_simps(3) [of _ "arg _ _ _"] hold_simps(3) [of _ "getLongLongFromObjectOrReply _ _ _ _"]
  proof (intro hold_arg l)
    show "hold b (getLongLongFromObjectOrReply c (Some (StrObj (client_argv x c ! 2))) NotAnInteger x)
       (\<lambda>r. hold b (case r of (r, s) \<Rightarrow> (case r of
        None \<Rightarrow> Some s
      | Some when' \<Rightarrow> do {
          when' \<leftarrow> (if seconds then ll (when' * 1000) else Some when');
          when' \<leftarrow> ll (when' + basetime);
          let i = client_db s c;
          (o', s) \<leftarrow> lookupKeyRead i (client_argv x c ! 1) s;
          if o' = None then Some (addReply c (Integer 0) s)
          else do {
            let (now, s) = mstime s;
            if when' \<le> now \<and> \<not> loading s \<and> \<not> masterhost s then do {
              let (b, s) = dbDelete i (client_argv x c ! 1) s;
              ensure b;
              let s = add_dirty 1 s;
              let s = rewriteClientCommandVector c [bstr ''DEL'', client_argv x c ! 1] s;
              let s = signalModifiedKey i (client_argv x c ! 1) s;
              Some (addReply c (Integer 1) s)
            }
            else do {
              s \<leftarrow> setExpire i (client_argv x c ! 1) when' s;
              let s = addReply c (Integer 1) s;
              let s = signalModifiedKey i (client_argv x c ! 1) s;
              Some (add_dirty 1 s)
            }
          }
        })) (served b c s))"
    proof (rule hold_getLongLong [OF k], goal_cases)
      case (4 v)
      then show ?case
        unfolding prod.case option.case keepsD0(1) [OF k] Let_def [of D] by (intro mid tail small) auto
    qed (auto dest: served_error)
  qed
qed

lemma expire_served:
  assumes k: "keeps b {} [] D c s s" and a: "b \<Longrightarrow> args_ok 3 c s"
  shows "hold b (expireCommand c s) (served b c s)" "hold b (pexpireCommand c s) (served b c s)"
    "hold b (expireatCommand c s) (served b c s)" "hold b (pexpireatCommand c s) (served b c s)"
proof -
  have a': "args_ok 3 c (s\<lparr>ticks := n\<rparr>)" if b for n using a [OF that] by (simp add: args_ok_def clock_ok_def)
  have base: "0 \<le> clock s n \<and> clock s n < 2 ^ 61" if b for n using args_ok_clock [OF a [OF that]] .
  have k': "keeps b {} [] D c s (s\<lparr>ticks := n\<rparr>)" for n using k by simp
  show "hold b (expireCommand c s) (served b c s)" "hold b (pexpireCommand c s) (served b c s)"
    unfolding expireCommand_def pexpireCommand_def mstime_def Let_def prod.case by (intro expireGeneric_served [OF k'] a' base; assumption)+
  show "hold b (expireatCommand c s) (served b c s)" "hold b (pexpireatCommand c s) (served b c s)"
    unfolding expireatCommand_def pexpireatCommand_def by (rule expireGeneric_served [OF k a]; simp)+
qed

lemma ttlGeneric_served:
  assumes k: "keeps b {} [] D c s s" and a: "b \<Longrightarrow> args_ok 2 c s"
  shows "hold b (ttlGenericCommand c output_ms s) (served b c s)"
proof -
  have l: "1 < length (client_argv s c)" if b using args_okD [OF a [OF that]] by simp
  have i: "D < length (dbs s)" by (rule keepsD0(2) [OF k])
  have clk: "0 \<le> clock s n \<and> clock s n < 2 ^ 61" if b for n using args_ok_clock [OF a [OF that]] .
  have tail: "hold b (do {
       (ttl, s) \<leftarrow>
         (if e \<noteq> - 1 then do {
            let (now, s) = mstime y;
            d \<leftarrow> ll (e - now);
            Some (max 0 d, s)
          } else Some (- 1, y));
       if ttl = - 1 then Some (addReply c (Integer (- 1)) s)
       else do {
         r \<leftarrow> (if output_ms then Some ttl else map_option (\<lambda>t. t div 1000) (ll (ttl + 500)));
         Some (addReply c (Integer r) s)
       }
     }) (served b c s)" if y: "keeps b {} [] D c s y" and e: "b \<Longrightarrow> \<bar>e\<bar> < 2 ^ 62" for y e
  proof -
    have now: "0 \<le> clock y n \<and> clock y n < 2 ^ 61" if b for n using clk [OF that] keepsD(7) [OF y] by simp
    have z: "keeps b {} [] D c s (y\<lparr>ticks := n\<rparr>)" for n using y by simp
    have d: "LLONG_MIN \<le> e - clock y (ticks y)" "e - clock y (ticks y) \<le> LLONG_MAX - 500" if b
      using e [OF that] now [OF that, of "ticks y"] by (auto simp: LLONG_MIN_def LLONG_MAX_def)
    have m: "LLONG_MIN \<le> 500" "500 \<le> LLONG_MAX" by (simp_all add: LLONG_MIN_def LLONG_MAX_def)
    show ?thesis
      using d m by (auto simp: mstime_def max_def intro!: hold_ll served_reply [OF z] served_reply [OF y])
  qed
  have main: "hold b (do {
      (o', s) \<leftarrow> lookupKeyRead D key s;
      if o' = None then Some (addReply c (Integer (- 2)) s)
      else do {
        expire \<leftarrow> getExpire D key s;
        (ttl, s) \<leftarrow>
          (if expire \<noteq> - 1 then do {
             let (now, s) = mstime s;
             d \<leftarrow> ll (expire - now);
             Some (max 0 d, s)
           } else Some (- 1, s));
        if ttl = - 1 then Some (addReply c (Integer (- 1)) s)
        else do {
          r \<leftarrow> (if output_ms then Some ttl else map_option (\<lambda>t. t div 1000) (ll (ttl + 500)));
          Some (addReply c (Integer r) s)
        }
      }
    }) (served b c s)" for key
    unfolding hold_simps(3) [of _ "lookupKeyRead _ _ _"]
  proof (rule hold_lookupKeyRead [OF k i], unfold prod.case)
    fix y assume y: "keeps b {} [] D c s y"
    let ?e = "case map_of (expires (dbs y ! D)) key of None \<Rightarrow> - 1 | Some t \<Rightarrow> t"
    have e: "\<bar>?e\<bar> < 2 ^ 62" if b using keepsD0(6) [OF y that i] by (auto simp: times_ok_def split: option.splits)
    show "hold b (if lookupKey D key y = None then Some (addReply c (Integer (- 2)) y)
      else do {
        expire \<leftarrow> getExpire D key y;
        (ttl, s) \<leftarrow>
          (if expire \<noteq> - 1 then do {
             let (now, s) = mstime y;
             d \<leftarrow> ll (expire - now);
             Some (max 0 d, s)
           } else Some (- 1, y));
        if ttl = - 1 then Some (addReply c (Integer (- 1)) s)
        else do {
          r \<leftarrow> (if output_ms then Some ttl else map_option (\<lambda>t. t div 1000) (ll (ttl + 500)));
          Some (addReply c (Integer r) s)
        }
      }) (served b c s)"
    proof (cases "lookupKey D key y = None")
      case True
      then show ?thesis by (simp add: served_reply [OF y])
    next
      case False
      show ?thesis
        unfolding if_not_P [OF False] hold_simps(3) [of _ "getExpire _ _ _"]
        by (rule hold_getExpire [OF y i]) (rule tail [OF y e])
    qed
  qed
  show ?thesis
    unfolding ttlGenericCommand_def hold_simps(3) [of _ "arg _ _ _"] keepsD0(1) [OF k] Let_def [of D] by (intro hold_arg l main)
qed

lemma ttl_served:
  assumes k: "keeps b {} [] D c s s" and a: "b \<Longrightarrow> args_ok 2 c s"
  shows "hold b (ttlCommand c s) (served b c s)" "hold b (pttlCommand c s) (served b c s)"
  unfolding ttlCommand_def pttlCommand_def by (rule ttlGeneric_served [OF k a], assumption)+

section \<open>All commands on the data set\<close>

definition data_proc :: "proc \<Rightarrow> bool" where
  "data_proc p \<longleftrightarrow> p \<notin> {MultiCommand, ExecCommand, DiscardCommand, WatchCommand, UnwatchCommand}"

definition min_argc :: "proc \<Rightarrow> nat" where
  "min_argc p =
     (if p \<in> {SetexCommand, PsetexCommand, SetrangeCommand, GetrangeCommand} then 4
      else if p \<in> {SetCommand, SetnxCommand, AppendCommand, IncrbyCommand, DecrbyCommand, GetsetCommand, MoveCommand, RenameCommand, RenamenxCommand,
                   ExpireCommand, ExpireatCommand, PexpireCommand, PexpireatCommand} then 3
      else if p \<in> {GetCommand, StrlenCommand, ExistsCommand, IncrCommand, DecrCommand, SelectCommand, TypeCommand, EchoCommand, TtlCommand,
                   PttlCommand, PersistCommand} then 2
      else 1)"

lemma run_proc_replied:
  assumes k: "keeps b {} [] D c s s" and a: "b \<Longrightarrow> args_ok (min_argc p) c s" and w: "watch_sound s" and p: "data_proc p"
  shows "hold b (run_proc p c s) (\<lambda>s'. replied b c s s' \<and> (p \<noteq> MoveCommand \<longrightarrow> served b c s s'))"
proof (cases "p = MoveCommand")
  case True
  then show ?thesis using move_replied [OF k] a by (simp add: min_argc_def)
next
  case False
  have "hold b (run_proc p c s) (served b c s)"
  proof (cases p)
  qed (use a p False in \<open>simp_all add: data_proc_def min_argc_def get_served [OF k] set_served [OF k] setnx_served [OF k] setex_served [OF k]
     append_served [OF k] strlen_served [OF k] del_served [OF k] key_served [OF k] setrange_served [OF k] getrange_served [OF k] incr_served [OF k]
     incrby_served [OF k] mget_served [OF k] getset_served [OF k] mset_served [OF k] select_served [OF k] simple_served [OF k] expire_served [OF k]
     ttl_served [OF k] persist_served [OF k] flush_served [OF k w] renameCommand_def renamenxCommand_def rename_served [OF k]\<close>)
  then show ?thesis by (rule hold_mono) (simp add: served_replied_rel)
qed

end
