(* ===== verification/Server_Inv.thy ===== *)
theory Server_Inv
  imports Server_Keys
begin

text \<open>
  The invariant of the server and its preservation by every command. \<open>watch_ok\<close> says that the watch tables of the databases and the
  lists of the clients are the same relation, \<open>queue_ok\<close> what the queue of a transaction holds. \<open>step_ok\<close> is what the steps of one
  client do to the rest: the other clients keep their sessions, and a watched key is unchanged or its watcher marked.
\<close>

section \<open>Flags\<close>

lemma and_bit_iff: "w AND push_bit n 1 \<noteq> 0 \<longleftrightarrow> bit w n" for w :: "32 word"
proof
  assume "w AND push_bit n 1 \<noteq> 0"
  then obtain m where "bit (w AND push_bit n 1) m" by (metis bit_eqI bit_0_eq bot_apply bot_bool_def)
  then have "bit w m" "m = n" unfolding bit_and_iff bit_push_bit_iff bit_1_iff by auto
  then show "bit w n" by simp
next
  assume "bit w n"
  then have "bit (w AND push_bit n 1) n" using bit_imp_le_length [of w n] unfolding bit_and_iff bit_push_bit_iff by simp
  then show "w AND push_bit n 1 \<noteq> 0" by auto
qed

lemma has_flag_simps [simp]:
  "has_flag s c REDIS_MULTI \<longleftrightarrow> bit (flags (clients s ! c)) 3"
  "has_flag s c REDIS_DIRTY_CAS \<longleftrightarrow> bit (flags (clients s ! c)) 5"
  "has_flag s c REDIS_DIRTY_EXEC \<longleftrightarrow> bit (flags (clients s ! c)) 12"
  "has_flag s c REDIS_MASTER \<longleftrightarrow> bit (flags (clients s ! c)) 1"
  unfolding has_flag_def REDIS_MULTI_def REDIS_DIRTY_CAS_def REDIS_DIRTY_EXEC_def REDIS_MASTER_def and_bit_iff by (rule refl)+

lemma bit_flags [simp]:
  "bit REDIS_MULTI n \<longleftrightarrow> n = 3" "bit REDIS_DIRTY_EXEC n \<longleftrightarrow> n = 12" "bit REDIS_CLOSE_AFTER_REPLY n \<longleftrightarrow> n = 6"
  unfolding REDIS_MULTI_def REDIS_DIRTY_EXEC_def REDIS_CLOSE_AFTER_REPLY_def bit_push_bit_iff bit_1_iff by auto

lemma has_flag_dirty [simp]:
  "has_flag s c (REDIS_DIRTY_CAS OR REDIS_DIRTY_EXEC) \<longleftrightarrow> bit (flags (clients s ! c)) 5 \<or> bit (flags (clients s ! c)) 12"
proof -
  have "w AND (REDIS_DIRTY_CAS OR REDIS_DIRTY_EXEC) = 0 \<longleftrightarrow> \<not> bit w 5 \<and> \<not> bit w 12" for w :: "32 word"
  proof
    assume z: "w AND (REDIS_DIRTY_CAS OR REDIS_DIRTY_EXEC) = 0"
    have "\<not> bit (w AND (REDIS_DIRTY_CAS OR REDIS_DIRTY_EXEC)) n" for n by (simp add: z)
    from this [of 5] this [of 12] show "\<not> bit w 5 \<and> \<not> bit w 12" by (simp add: bit_and_iff bit_or_iff)
  qed (rule bit_eqI, auto simp: bit_and_iff bit_or_iff)
  then show ?thesis by (auto simp: has_flag_def)
qed

section \<open>The invariant\<close>

definition watchers :: "server \<Rightarrow> nat \<Rightarrow> bytes \<Rightarrow> nat list" where
  "watchers s i k = (case map_of (watched_keys (dbs s ! i)) k of None \<Rightarrow> [] | Some cs \<Rightarrow> cs)"

definition watch_ok :: "server \<Rightarrow> bool" where
  "watch_ok s \<longleftrightarrow>
     (\<forall>i<length (dbs s). \<forall>k. distinct (watchers s i k) \<and> map_of (watched_keys (dbs s ! i)) k \<noteq> Some [] \<and>
        (\<forall>x. x \<in> set (watchers s i k) \<longleftrightarrow> x < length (clients s) \<and> (k, i) \<in> set (watching (clients s ! x)))) \<and>
     (\<forall>x<length (clients s). distinct (watching (clients s ! x)) \<and> (\<forall>(k, i)\<in>set (watching (clients s ! x)). i < length (dbs s)))"

definition core_inv :: "bool \<Rightarrow> server \<Rightarrow> bool" where
  "core_inv b s \<longleftrightarrow>
     (\<forall>i<length (dbs s). db_inv (dbs s ! i) \<and> (b \<longrightarrow> times_ok (dbs s ! i))) \<and>
     (\<forall>x<length (clients s). client_db s x < length (dbs s)) \<and> watch_ok s \<and> (b \<longrightarrow> clock_ok s)"

text \<open>A queued command; \<open>m\<close> says that it is not \<open>MOVE\<close>.\<close>

definition queued_ok :: "bool \<Rightarrow> bool \<Rightarrow> multiCmd \<Rightarrow> bool" where
  "queued_ok b m mc \<longleftrightarrow>
     cproc (mc_cmd mc) \<notin> {ExecCommand, DiscardCommand, MultiCommand, WatchCommand} \<and> (m \<longrightarrow> cproc (mc_cmd mc) \<noteq> MoveCommand) \<and>
     (b \<longrightarrow> min_argc (cproc (mc_cmd mc)) \<le> length (mc_argv mc) \<and> (\<forall>a\<in>set (mc_argv mc). small_arg a))"

definition client_queue_ok :: "bool \<Rightarrow> bool \<Rightarrow> client \<Rightarrow> bool" where
  "client_queue_ok b m cl \<longleftrightarrow> (\<forall>mc\<in>set (mstate cl). queued_ok b m mc) \<and> (mstate cl \<noteq> [] \<longrightarrow> bit (flags cl) 3)"

definition queue_ok :: "bool \<Rightarrow> bool \<Rightarrow> server \<Rightarrow> bool" where
  "queue_ok b m s \<longleftrightarrow> (\<forall>x<length (clients s). client_queue_ok b m (clients s ! x))"

text \<open>The watcher \<open>w\<close> of the key still watches it, and is marked unless the key is as before.\<close>

definition guards :: "nat \<Rightarrow> nat \<Rightarrow> bytes \<Rightarrow> server \<Rightarrow> server \<Rightarrow> bool" where
  "guards w i k s s' \<longleftrightarrow>
     (k, i) \<in> set (watching (clients s' ! w)) \<and> (bit (flags (clients s ! w)) 5 \<longrightarrow> bit (flags (clients s' ! w)) 5) \<and>
     (map_of (expires (dbs s ! i)) k = None \<longrightarrow>
        bit (flags (clients s' ! w)) 5 \<or> map_of (dict (dbs s' ! i)) k = map_of (dict (dbs s ! i)) k \<and> map_of (expires (dbs s' ! i)) k = None)"

definition step_ok :: "bool \<Rightarrow> bool \<Rightarrow> bool \<Rightarrow> reply list \<Rightarrow> nat \<Rightarrow> server \<Rightarrow> server \<Rightarrow> bool" where
  "step_ok b m free rs c s s' \<longleftrightarrow>
     core_inv b s' \<and> same_globals s s' \<and>
     (\<forall>x<length (clients s). x \<noteq> c \<longrightarrow> client_frame (clients s ! x) (clients s' ! x) \<and> same_session (clients s ! x) (clients s' ! x)) \<and>
     replies (clients s' ! c) = replies (clients s ! c) @ rs \<and>
     (m \<longrightarrow> (\<forall>w i k. w < length (clients s) \<and> (k, i) \<in> set (watching (clients s ! w)) \<and> (free \<longrightarrow> w \<noteq> c) \<longrightarrow> guards w i k s s'))"

lemma watch_okD:
  assumes "watch_ok s" "i < length (dbs s)"
  shows "distinct (watchers s i k)" "map_of (watched_keys (dbs s ! i)) k \<noteq> Some []"
    "x \<in> set (watchers s i k) \<longleftrightarrow> x < length (clients s) \<and> (k, i) \<in> set (watching (clients s ! x))"
  using assms by (auto simp: watch_ok_def)

lemma watch_okD2:
  assumes "watch_ok s" "x < length (clients s)"
  shows "distinct (watching (clients s ! x))" "(k, i) \<in> set (watching (clients s ! x)) \<Longrightarrow> i < length (dbs s)"
  using assms by (auto simp: watch_ok_def)

lemma watch_sound: "watch_ok s \<Longrightarrow> watch_sound s"
  unfolding watch_sound_def
proof (intro allI impI, elim conjE)
  fix i k cs x
  assume "watch_ok s" "i < length (dbs s)" "map_of (watched_keys (dbs s ! i)) k = Some cs" "x \<in> set cs"
  then show "(k, i) \<in> set (watching (clients s ! x))" using watch_okD(3) [of s i x k] by (simp add: watchers_def)
qed

lemma core_invD:
  assumes "core_inv b s"
  shows "watch_ok s" "i < length (dbs s) \<Longrightarrow> db_inv (dbs s ! i)" "x < length (clients s) \<Longrightarrow> client_db s x < length (dbs s)"
    "b \<Longrightarrow> i < length (dbs s) \<Longrightarrow> times_ok (dbs s ! i)" "b \<Longrightarrow> clock_ok s"
  using assms by (auto simp: core_inv_def)

lemma core_keeps: "core_inv b s \<Longrightarrow> c < length (clients s) \<Longrightarrow> keeps b {} [] (client_db s c) c s s"
  by (rule keeps_refl) (auto simp: core_inv_def)

lemma guards_refl: "(k, i) \<in> set (watching (clients s ! w)) \<Longrightarrow> guards w i k s s"
  by (simp add: guards_def)

lemma guards_trans: "guards w i k s s' \<Longrightarrow> guards w i k s' s'' \<Longrightarrow> guards w i k s s''"
  by (auto simp: guards_def)

lemma client_frame_trans: "client_frame a b \<Longrightarrow> client_frame b c \<Longrightarrow> client_frame a c"
  by (simp add: client_frame_def)

lemma same_session_trans: "same_session a b \<Longrightarrow> same_session b c \<Longrightarrow> same_session a c"
  by (simp add: same_session_def)

lemma step_ok_refl: "core_inv b s \<Longrightarrow> step_ok b m free [] c s s"
  by (auto simp: step_ok_def same_globals_def client_frame_def same_session_def guards_refl)

lemma step_ok_trans:
  assumes 1: "step_ok b m free rs c s s'" and 2: "step_ok b m free rs' c s' s''"
  shows "step_ok b m free (rs @ rs') c s s''"
proof -
  have l: "length (clients s') = length (clients s)" using 1 by (simp add: step_ok_def same_globals_def)
  have "guards w i k s s''" if "m" "w < length (clients s)" "(k, i) \<in> set (watching (clients s ! w))" "free \<longrightarrow> w \<noteq> c" for w i k
  proof -
    have g: "guards w i k s s'" using 1 that by (simp add: step_ok_def)
    then have "(k, i) \<in> set (watching (clients s' ! w))" by (simp add: guards_def)
    then have "guards w i k s' s''" using 2 that l by (simp add: step_ok_def)
    with g show ?thesis by (rule guards_trans)
  qed
  then show ?thesis
    using 1 2 l unfolding step_ok_def same_globals_def by (auto intro: client_frame_trans same_session_trans)
qed

lemma step_ok_free: "step_ok b m False rs c s s' \<Longrightarrow> step_ok b m free rs c s s'"
  by (auto simp: step_ok_def)

lemma step_ok_fields [simp]:
  "step_ok b m free rs c s (s'\<lparr>propagated := p\<rparr>) \<longleftrightarrow> step_ok b m free rs c s s'"
  "step_ok b m free rs c s (s'\<lparr>dirty := d\<rparr>) \<longleftrightarrow> step_ok b m free rs c s s'"
  by (simp_all add: step_ok_def core_inv_def watch_ok_def watchers_def clock_ok_def guards_def same_globals_def)

section \<open>Commands on the data set\<close>

lemma watchers_keeps: "keeps b P rs D c s s' \<Longrightarrow> i < length (dbs s) \<Longrightarrow> watchers s' i k = watchers s i k"
  by (simp add: watchers_def keeps_def dbs_frame_def)

lemma watching_keeps: "keeps b P rs D c s s' \<Longrightarrow> x < length (clients s) \<Longrightarrow> watching (clients s' ! x) = watching (clients s ! x)"
  by (simp add: keeps_def clients_frame_def client_frame_def)

lemma watch_ok_keeps:
  assumes k: "keeps b P rs D c s s'" and w: "watch_ok s"
  shows "watch_ok s'"
proof -
  have "watched_keys (dbs s' ! i) = watched_keys (dbs s ! i)" if "i < length (dbs s)" for i
    using k that by (simp add: keeps_def dbs_frame_def)
  then show ?thesis
    using w unfolding watch_ok_def keepsD(1,2) [OF k]
    by (simp add: watchers_keeps [OF k] watching_keeps [OF k] cong: conj_cong)
qed

lemma step_ok_keeps:
  assumes k: "keeps b P rs D c s s'" and s: "core_inv b s" and m: "m \<Longrightarrow> P = {}"
  shows "step_ok b m free rs c s s'"
proof -
  have w: "watch_ok s" by (rule core_invD(1) [OF s])
  have "client_db s' x < length (dbs s')" if "x < length (clients s)" for x
    using k s that by (cases "x = c") (auto simp: keeps_defs core_inv_def same_session_def)
  then have "core_inv b s'"
    using s watch_ok_keeps [OF k w] keepsD(6,8,7) [OF k] by (auto simp: core_inv_def keepsD(2) [OF k] clock_ok_def)
  moreover have "guards x i key s s'" if "m" and x: "x < length (clients s)" "(key, i) \<in> set (watching (clients s ! x))" for x i key
  proof -
    have i: "i < length (dbs s)" by (rule watch_okD2(2) [OF w x])
    have "x \<in> set (watchers s i key)" using x watch_okD(3) [OF w i] by blast
    then obtain cs where "map_of (watched_keys (dbs s ! i)) key = Some cs" "x \<in> set cs"
      by (cases "map_of (watched_keys (dbs s ! i)) key") (auto simp: watchers_def)
    moreover have "watched_keys (dbs s' ! i) = watched_keys (dbs s ! i)" using k i by (simp add: keeps_def dbs_frame_def)
    ultimately have "marked i key s' \<Longrightarrow> bit (flags (clients s' ! x)) 5"
      using x(1) keepsD(2) [OF k] by (simp add: marked_def)
    then show ?thesis
      using k i m [OF that(1)] x by (auto simp: guards_def keeps_def touched_def clients_frame_def client_frame_def)
  qed
  ultimately show ?thesis
    using k by (auto simp: step_ok_def keeps_def clients_frame_def session_def)
qed

lemma run_data_proc:
  assumes s: "core_inv b s" and c: "c < length (clients s)" and p: "data_proc p" "m \<Longrightarrow> p \<noteq> MoveCommand"
    and a: "b \<Longrightarrow> args_ok (min_argc p) c s"
  shows "hold b (run_proc p c s) (\<lambda>s'. \<exists>rs. one_reply rs \<and> step_ok b m free rs c s s' \<and> client_frame (clients s ! c) (clients s' ! c))"
proof (rule hold_mono [OF run_proc_replied [OF core_keeps [OF s c] a watch_sound [OF core_invD(1) [OF s]] p(1)]])
  fix s'
  assume r: "replied b c s s' \<and> (p \<noteq> MoveCommand \<longrightarrow> served b c s s')"
  then obtain P rs D where k: "one_reply rs" "keeps b P rs D c s s'" "m \<Longrightarrow> P = {}"
    using p(2) by (cases "p = MoveCommand") (auto simp: served_def replied_def)
  then have "client_frame (clients s ! c) (clients s' ! c)" using c by (simp add: keeps_def clients_frame_def)
  with k s show "\<exists>rs. one_reply rs \<and> step_ok b m free rs c s s' \<and> client_frame (clients s ! c) (clients s' ! c)"
    by (blast intro: step_ok_keeps)
qed

section \<open>The watch tables\<close>

lemma step_ok_client:
  assumes s: "core_inv b s" and c: "c < length (clients s)"
    and f: "watching (f (clients s ! c)) = watching (clients s ! c)" "c_db (f (clients s ! c)) = client_db s c"
      "replies (f (clients s ! c)) = replies (clients s ! c) @ rs"
      "free \<or> (bit (flags (clients s ! c)) 5 \<longrightarrow> bit (flags (f (clients s ! c))) 5)"
  shows "step_ok b m free rs c s (upd_client c f s)"
proof -
  let ?s = "upd_client c f s"
  have w: "watching (clients ?s ! x) = watching (clients s ! x)" "client_db ?s x = client_db s x" if "x < length (clients s)" for x
    using that f by auto
  have "watch_ok ?s"
    using core_invD(1) [OF s] by (simp add: watch_ok_def watchers_def f(1) if_distrib cong: conj_cong)
  then have "core_inv b ?s" using s by (auto simp: core_inv_def f(2) clock_ok_def)
  then show ?thesis
    using c f by (auto simp: step_ok_def same_globals_def guards_def f client_frame_def same_session_def)
qed

definition rewatched :: "nat \<Rightarrow> server \<Rightarrow> server \<Rightarrow> bool" where
  "rewatched c s s' \<longleftrightarrow>
     same_globals s s' \<and> (\<forall>i<length (dbs s). dict (dbs s' ! i) = dict (dbs s ! i) \<and> expires (dbs s' ! i) = expires (dbs s ! i)) \<and>
     (\<forall>x<length (clients s). x \<noteq> c \<longrightarrow> clients s' ! x = clients s ! x) \<and>
     (clients s' ! c)\<lparr>watching := []\<rparr> = (clients s ! c)\<lparr>watching := []\<rparr>"

lemma rewatched_own:
  assumes "rewatched c s s'"
  shows "replies (clients s' ! c) = replies (clients s ! c)" "client_db s' c = client_db s c" "flags (clients s' ! c) = flags (clients s ! c)"
    "mstate (clients s' ! c) = mstate (clients s ! c)" "cmd (clients s' ! c) = cmd (clients s ! c)" "client_argv s' c = client_argv s c"
proof -
  have e: "(clients s' ! c)\<lparr>watching := []\<rparr> = (clients s ! c)\<lparr>watching := []\<rparr>" using assms by (simp add: rewatched_def)
  show "replies (clients s' ! c) = replies (clients s ! c)" "client_db s' c = client_db s c" "flags (clients s' ! c) = flags (clients s ! c)"
    "mstate (clients s' ! c) = mstate (clients s ! c)" "cmd (clients s' ! c) = cmd (clients s ! c)" "client_argv s' c = client_argv s c"
    using arg_cong [OF e, of replies] arg_cong [OF e, of c_db] arg_cong [OF e, of flags] arg_cong [OF e, of mstate] arg_cong [OF e, of cmd]
      arg_cong [OF e, of argv] by simp_all
qed

lemma rewatched_trans: "rewatched c s s' \<Longrightarrow> rewatched c s' s'' \<Longrightarrow> rewatched c s s''"
  by (auto simp: rewatched_def same_globals_def)

lemma step_ok_rewatched:
  assumes s: "core_inv b s" and c: "c < length (clients s)" and r: "rewatched c s s'" and w: "watch_ok s'"
    and f: "free \<or> set (watching (clients s ! c)) \<subseteq> set (watching (clients s' ! c))"
  shows "step_ok b m free [] c s s'"
proof -
  note own = rewatched_own [OF r]
  have g: "same_globals s s'" and d: "\<And>i. i < length (dbs s) \<Longrightarrow> dict (dbs s' ! i) = dict (dbs s ! i) \<and> expires (dbs s' ! i) = expires (dbs s ! i)"
    and o: "\<And>x. x < length (clients s) \<Longrightarrow> x \<noteq> c \<Longrightarrow> clients s' ! x = clients s ! x"
    using r by (auto simp: rewatched_def)
  have "db_inv (dbs s' ! i) = db_inv (dbs s ! i)" "times_ok (dbs s' ! i) = times_ok (dbs s ! i)" if "i < length (dbs s)" for i
    using d [OF that] by (simp_all add: db_inv_def times_ok_def)
  moreover have "client_db s' x = client_db s x" if "x < length (clients s)" for x
    using that o own(2) by (cases "x = c") auto
  ultimately have "core_inv b s'" using s w g by (simp add: core_inv_def same_globals_def clock_ok_def)
  moreover have "guards x i k s s'"
    if x: "x < length (clients s)" "(k, i) \<in> set (watching (clients s ! x))" "free \<longrightarrow> x \<noteq> c" for x i k
  proof -
    have "i < length (dbs s)" by (rule watch_okD2(2) [OF core_invD(1) [OF s] x(1,2)])
    then show ?thesis using x f d [of i] o own(3) by (cases "x = c") (auto simp: guards_def)
  qed
  ultimately show ?thesis using g o own(1) by (auto simp: step_ok_def client_frame_def same_session_def)
qed

lemma watch_ok_update:
  assumes w: "watch_ok s" and c: "c < length (clients s)" and i: "i < length (dbs s)"
    and T: "\<And>k'. map_of T k' = (if k' = k then (if cs = [] then None else Some cs) else map_of (watched_keys (dbs s ! i)) k')"
    and cs: "distinct cs" "\<And>x. x \<in> set cs \<longleftrightarrow> x < length (clients s) \<and> (k, i) \<in> set (if x = c then W else watching (clients s ! x))"
    and W: "distinct W" "\<And>k' i'. (k', i') \<in> set W \<Longrightarrow> i' < length (dbs s)"
      "\<And>k' i'. (k', i') \<noteq> (k, i) \<Longrightarrow> (k', i') \<in> set W \<longleftrightarrow> (k', i') \<in> set (watching (clients s ! c))"
  defines "s' \<equiv> upd_client c (\<lambda>cl. cl\<lparr>watching := W\<rparr>) (upd_db i (\<lambda>d. d\<lparr>watched_keys := T\<rparr>) s)"
  shows "watch_ok s'" "rewatched c s s'"
proof -
  have ws: "watching (clients s' ! x) = (if x = c then W else watching (clients s ! x))" if "x < length (clients s)" for x
    using that by (simp add: s'_def)
  have l: "length (dbs s') = length (dbs s)" "length (clients s') = length (clients s)" by (simp_all add: s'_def)
  have tab: "map_of (watched_keys (dbs s' ! i')) k' =
      (if i' = i \<and> k' = k then (if cs = [] then None else Some cs) else map_of (watched_keys (dbs s ! i')) k')" if "i' < length (dbs s)" for i' k'
    using that T by (simp add: s'_def)
  have wt: "watchers s' i' k' = (if i' = i \<and> k' = k then cs else watchers s i' k')" if "i' < length (dbs s)" for i' k'
    using that by (simp add: watchers_def tab)
  show "watch_ok s'"
    unfolding watch_ok_def l
  proof (intro conjI allI impI)
    fix i' k' assume i': "i' < length (dbs s)"
    show "distinct (watchers s' i' k')" using i' cs(1) watch_okD(1) [OF w i'] by (simp add: wt)
    show "map_of (watched_keys (dbs s' ! i')) k' \<noteq> Some []" using watch_okD(2) [OF w i'] by (simp add: tab [OF i'])
    fix x
    show "x \<in> set (watchers s' i' k') \<longleftrightarrow> x < length (clients s) \<and> (k', i') \<in> set (watching (clients s' ! x))"
      using cs(2) [of x] W(3) [of k' i'] watch_okD(3) [OF w i', of x k'] by (auto simp: wt [OF i'] ws)
  next
    fix x assume "x < length (clients s)"
    then show "distinct (watching (clients s' ! x))" "\<forall>(k, i)\<in>set (watching (clients s' ! x)). i < length (dbs s)"
      using W(1,2) watch_okD2 [OF w] by (auto simp: ws)
  qed
  show "rewatched c s s'" using c by (simp add: rewatched_def same_globals_def s'_def)
qed

lemma unwatch_key_ok:
  assumes w: "watch_ok s" and c: "c < length (clients s)" and h: "watching (clients s ! c) = (k, i) # wks"
  obtains s' where "unwatch_key c k i s = Some s'" "watch_ok s'" "rewatched c s s'" "watching (clients s' ! c) = wks"
proof -
  have i: "i < length (dbs s)" using watch_okD2(2) [OF w c, of k i] h by simp
  have mem: "c \<in> set (watchers s i k)" using watch_okD(3) [OF w i] c h by simp
  then obtain cs where cs: "map_of (watched_keys (dbs s ! i)) k = Some cs" "watchers s i k = cs" "c \<in> set cs"
    by (cases "map_of (watched_keys (dbs s ! i)) k") (auto simp: watchers_def)
  have d: "distinct cs" using watch_okD(1) [OF w i, of k] cs(2) by simp
  have dw: "distinct ((k, i) # wks)" using watch_okD2(1) [OF w c] h by simp
  let ?cs = "remove1 c cs"
  let ?T = "if ?cs = [] then AList.delete k (watched_keys (dbs s ! i)) else AList.update k ?cs (watched_keys (dbs s ! i))"
  let ?s = "upd_client c (\<lambda>cl. cl\<lparr>watching := wks\<rparr>) (upd_db i (\<lambda>d. d\<lparr>watched_keys := ?T\<rparr>) s)"
  have u: "unwatch_key c k i s = Some ?s"
    using cs h by (simp add: unwatch_key_def upd_client_def upd_db_def Let_def)
  have T: "map_of ?T k' = (if k' = k then (if ?cs = [] then None else Some ?cs) else map_of (watched_keys (dbs s ! i)) k')" for k'
    by (simp add: delete_conv' update_conv')
  have mem': "x \<in> set ?cs \<longleftrightarrow> x < length (clients s) \<and> (k, i) \<in> set (if x = c then wks else watching (clients s ! x))" for x
    using watch_okD(3) [OF w i, of x k] cs(2) d dw by auto
  have W: "i' < length (dbs s)" if "(k', i') \<in> set wks" for k' i' using watch_okD2(2) [OF w c, of k' i'] that h by simp
  have ok: "watch_ok ?s" "rewatched c s ?s"
    by (rule watch_ok_update [OF w c i T _ mem' _ W]; use d dw h in auto)+
  show ?thesis by (rule that [OF u ok]) (use c in simp)
qed

lemma unwatch_loop_ok:
  assumes "watch_ok s" "c < length (clients s)" "watching (clients s ! c) = wks"
  shows "\<exists>s'. unwatch_loop c wks s = Some s' \<and> watch_ok s' \<and> rewatched c s s' \<and> watching (clients s' ! c) = []"
  using assms
proof (induction wks arbitrary: s)
  case Nil
  then show ?case by (simp add: rewatched_def same_globals_def)
next
  case (Cons wk wks)
  obtain k i where wk: "wk = (k, i)" by (cases wk)
  obtain s1 where s1: "unwatch_key c k i s = Some s1" "watch_ok s1" "rewatched c s s1" "watching (clients s1 ! c) = wks"
    by (rule unwatch_key_ok [OF Cons.prems(1,2)]) (use Cons.prems(3) wk in auto)
  have "c < length (clients s1)" using s1(3) Cons.prems(2) by (simp add: rewatched_def same_globals_def)
  from Cons.IH [OF s1(2) this s1(4)] show ?case using s1(1) rewatched_trans [OF s1(3)] wk by auto
qed

lemma unwatchAllKeys_ok:
  assumes s: "core_inv b s" and c: "c < length (clients s)"
  obtains s' where "unwatchAllKeys c s = Some s'" "step_ok b m True [] c s s'" "rewatched c s s'" "watching (clients s' ! c) = []"
proof -
  obtain s' where s': "unwatchAllKeys c s = Some s'" "watch_ok s'" "rewatched c s s'" "watching (clients s' ! c) = []"
    using unwatch_loop_ok [OF core_invD(1) [OF s] c refl] by (auto simp: unwatchAllKeys_def)
  show ?thesis by (rule that [OF s'(1) step_ok_rewatched [OF s c s'(3,2)] s'(3,4)]) simp
qed

lemma watchForKey_ok:
  assumes w: "watch_ok s" and c: "c < length (clients s)" and i: "client_db s c < length (dbs s)"
  shows "watch_ok (watchForKey c k s) \<and> rewatched c s (watchForKey c k s) \<and>
    set (watching (clients (watchForKey c k s) ! c)) = insert (k, client_db s c) (set (watching (clients s ! c)))"
proof (cases "(k, client_db s c) \<in> set (watching (clients s ! c))")
  case True
  then show ?thesis using w by (auto simp: watchForKey_def Let_def rewatched_def same_globals_def insert_absorb)
next
  case False
  let ?i = "client_db s c"
  let ?cs = "watchers s ?i k @ [c]"
  let ?W = "watching (clients s ! c) @ [(k, ?i)]"
  let ?T = "AList.update k ?cs (watched_keys (dbs s ! ?i))"
  let ?s = "upd_client c (\<lambda>cl. cl\<lparr>watching := ?W\<rparr>) (upd_db ?i (\<lambda>d. d\<lparr>watched_keys := ?T\<rparr>) s)"
  have e: "watchForKey c k s = ?s"
    using False by (simp add: watchForKey_def Let_def watchers_def upd_client_def upd_db_def)
  have T: "map_of ?T k' = (if k' = k then (if ?cs = [] then None else Some ?cs) else map_of (watched_keys (dbs s ! ?i)) k')" for k'
    by (simp add: update_conv')
  have mem: "x \<in> set ?cs \<longleftrightarrow> x < length (clients s) \<and> (k, ?i) \<in> set (if x = c then ?W else watching (clients s ! x))" for x
    using watch_okD(3) [OF w i, of x k] c by auto
  have d: "distinct ?cs" using watch_okD(1) [OF w i, of k] watch_okD(3) [OF w i, of c k] False by auto
  have W: "i' < length (dbs s)" if "(k', i') \<in> set ?W" for k' i' using watch_okD2(2) [OF w c, of k' i'] that i by auto
  have "watch_ok ?s" "rewatched c s ?s"
    by (rule watch_ok_update [OF w c i T d mem _ W]; use False watch_okD2(1) [OF w c] in auto)+
  then show ?thesis unfolding e using c by simp
qed

end
