(* ===== verification/Server_Step.thy ===== *)
theory Server_Step
  imports Server_Inv
begin

text \<open>
  The commands of transactions, \<open>call\<close> and \<open>processCommand\<close> preserve the invariant, send one complete reply, and respect the
  watches of all clients. The steps of the server are a relation, and the invariant holds in every reachable state.
\<close>

section \<open>Transactions\<close>

definition post :: "bool \<Rightarrow> bool \<Rightarrow> bool \<Rightarrow> nat \<Rightarrow> server \<Rightarrow> server \<Rightarrow> bool" where
  "post b m free c s s' \<longleftrightarrow> (\<exists>rs. one_reply rs \<and> step_ok b m free rs c s s') \<and> client_queue_ok b m (clients s' ! c)"

lemma postI: "one_reply rs \<Longrightarrow> step_ok b m free rs c s s' \<Longrightarrow> client_queue_ok b m (clients s' ! c) \<Longrightarrow> post b m free c s s'"
  by (auto simp: post_def)

lemma step_okD:
  assumes "step_ok b m free rs c s s'"
  shows "core_inv b s'" "length (clients s') = length (clients s)" "length (dbs s') = length (dbs s)"
  using assms by (simp_all add: step_ok_def same_globals_def)

lemma step_ok_addReply:
  "core_inv b s \<Longrightarrow> c < length (clients s) \<Longrightarrow> step_ok b m free [r] c s (addReply c r s)"
  unfolding addReply_def by (rule step_ok_client) simp_all

lemma step_ok_reply:
  assumes "step_ok b m free rs c s s'" "c < length (clients s)"
  shows "step_ok b m free (rs @ [r]) c s (addReply c r s')"
  by (rule step_ok_trans [OF assms(1) step_ok_addReply]) (use assms step_okD [OF assms(1)] in simp_all)

lemma step_ok_set_flags:
  "core_inv b s \<Longrightarrow> c < length (clients s) \<Longrightarrow> step_ok b m free [] c s (set_flags c x s)"
  unfolding set_flags_def by (rule step_ok_client) (simp_all add: bit_or_iff)

lemma step_ok_clear_flags:
  "core_inv b s \<Longrightarrow> c < length (clients s) \<Longrightarrow> step_ok b m True [] c s (clear_flags c x s)"
  unfolding clear_flags_def by (rule step_ok_client) simp_all

lemma post_reply:
  assumes "core_inv b s" "c < length (clients s)" "client_queue_ok b m (clients s ! c)" "\<And>n. r \<noteq> MultiBulkLen n"
  shows "post b m free c s (addReply c r s)"
  by (rule postI [OF one_reply_single step_ok_addReply]) (use assms in \<open>simp_all add: addReply_def client_queue_ok_def\<close>)

lemma multi_post:
  assumes s: "core_inv b s" and c: "c < length (clients s)" and q: "client_queue_ok b m (clients s ! c)"
  shows "hold b (multiCommand c s) (post b m False c s)"
proof (cases "bit (flags (clients s ! c)) 3")
  case True
  then show ?thesis using post_reply [OF s c q] by (simp add: multiCommand_def)
next
  case False
  have "step_ok b m False ([] @ [Ok]) c s (addReply c Ok (set_flags c REDIS_MULTI s))"
    by (intro step_ok_reply step_ok_set_flags s c)
  then have "post b m False c s (addReply c Ok (set_flags c REDIS_MULTI s))"
    using c q by (intro postI [of "[Ok]"] one_reply_single) (auto simp: addReply_def set_flags_def client_queue_ok_def bit_or_iff)
  then show ?thesis using False by (simp add: multiCommand_def)
qed

lemma discardTransaction_ok:
  assumes s: "core_inv b s" and c: "c < length (clients s)"
  obtains s' where "discardTransaction c s = Some s'" "step_ok b m True [] c s s'" "mstate (clients s' ! c) = []"
    "watching (clients s' ! c) = []" "\<And>n. bit (flags (clients s' ! c)) n \<longleftrightarrow> bit (flags (clients s ! c)) n \<and> n \<notin> {3, 5, 12}"
    "\<And>i. i < length (dbs s) \<Longrightarrow> dict (dbs s' ! i) = dict (dbs s ! i) \<and> expires (dbs s' ! i) = expires (dbs s ! i)"
proof -
  define s1 where "s1 = initClientMultiState c s"
  define s2 where "s2 = clear_flags c (REDIS_MULTI OR REDIS_DIRTY_CAS OR REDIS_DIRTY_EXEC) s1"
  have 1: "step_ok b m True [] c s s1" unfolding s1_def initClientMultiState_def by (rule step_ok_client [OF s c]) simp_all
  have "step_ok b m True [] c s1 s2"
    unfolding s2_def by (rule step_ok_clear_flags) (use step_okD [OF 1] c in simp_all)
  from step_ok_trans [OF 1 this] have 2: "step_ok b m True [] c s s2" by simp
  obtain s3 where 3: "unwatchAllKeys c s2 = Some s3" "step_ok b m True [] c s2 s3" "rewatched c s2 s3" "watching (clients s3 ! c) = []"
    by (rule unwatchAllKeys_ok [OF step_okD(1) [OF 2], of c m]) (use step_okD [OF 2] c in auto)
  note own = rewatched_own [OF 3(3)]
  have f: "bit (flags (clients s3 ! c)) n \<longleftrightarrow> bit (flags (clients s ! c)) n \<and> n \<notin> {3, 5, 12}" for n
    using c bit_imp_le_length [of "flags (clients s ! c)" n]
    by (auto simp: own(3) s2_def s1_def clear_flags_def initClientMultiState_def bit_and_iff bit_not_iff bit_or_iff)
  show ?thesis
  proof (rule that [of s3])
    show "discardTransaction c s = Some s3" using 3(1) by (simp add: discardTransaction_def s1_def s2_def)
    show "step_ok b m True [] c s s3" using step_ok_trans [OF 2 3(2)] by simp
    show "mstate (clients s3 ! c) = []"
      using c by (simp add: own(4) s2_def s1_def clear_flags_def initClientMultiState_def)
    show "dict (dbs s3 ! i) = dict (dbs s ! i) \<and> expires (dbs s3 ! i) = expires (dbs s ! i)" if "i < length (dbs s)" for i
      using 3(3) that by (simp add: rewatched_def s2_def s1_def clear_flags_def initClientMultiState_def)
  qed (use 3(4) f in simp_all)
qed

lemma discard_post:
  assumes s: "core_inv b s" and c: "c < length (clients s)" and q: "client_queue_ok b m (clients s ! c)"
  shows "hold b (discardCommand c s) (post b m True c s)"
proof (cases "bit (flags (clients s ! c)) 3")
  case False
  then show ?thesis using post_reply [OF s c q] by (simp add: discardCommand_def)
next
  case True
  obtain s' where d: "discardTransaction c s = Some s'" "step_ok b m True [] c s s'" "mstate (clients s' ! c) = []"
    by (rule discardTransaction_ok [OF s c])
  have "post b m True c s (addReply c Ok s')"
    using step_ok_reply [OF d(2) c, of Ok] step_okD(2) [OF d(2)] c d(3)
    by (intro postI [of "[Ok]"] one_reply_single) (auto simp: addReply_def client_queue_ok_def)
  then show ?thesis using True d(1) by (simp add: discardCommand_def)
qed

lemma unwatch_post:
  assumes s: "core_inv b s" and c: "c < length (clients s)" and q: "client_queue_ok b m (clients s ! c)"
  shows "hold b (unwatchCommand c s) (post b m True c s)"
proof -
  obtain s1 where 1: "unwatchAllKeys c s = Some s1" "step_ok b m True [] c s s1" "rewatched c s s1" "watching (clients s1 ! c) = []"
    by (rule unwatchAllKeys_ok [OF s c])
  have c1: "c < length (clients s1)" using c step_okD(2) [OF 1(2)] by simp
  have "step_ok b m True [] c s1 (clear_flags c REDIS_DIRTY_CAS s1)" by (rule step_ok_clear_flags [OF step_okD(1) [OF 1(2)] c1])
  from step_ok_reply [OF step_ok_trans [OF 1(2) this] c, of Ok]
  have "step_ok b m True [Ok] c s (addReply c Ok (clear_flags c REDIS_DIRTY_CAS s1))" by simp
  then have "post b m True c s (addReply c Ok (clear_flags c REDIS_DIRTY_CAS s1))"
    using c1 q by (intro postI [of "[Ok]"] one_reply_single)
      (auto simp: addReply_def clear_flags_def client_queue_ok_def rewatched_own [OF 1(3)] bit_and_iff bit_not_iff)
  then show ?thesis using 1(1) by (simp add: unwatchCommand_def)
qed

lemma watch_fold_ok:
  assumes "watch_ok s" "c < length (clients s)" "client_db s c < length (dbs s)"
  shows "watch_ok (fold (watchForKey c) ks s) \<and> rewatched c s (fold (watchForKey c) ks s) \<and>
    set (watching (clients (fold (watchForKey c) ks s) ! c)) = (\<lambda>k. (k, client_db s c)) ` set ks \<union> set (watching (clients s ! c))"
  using assms
proof (induction ks arbitrary: s)
  case Nil
  then show ?case by (simp add: rewatched_def same_globals_def)
next
  case (Cons k ks)
  note w = watchForKey_ok [OF Cons.prems, of k]
  let ?s = "watchForKey c k s"
  have c: "c < length (clients ?s)" "client_db ?s c < length (dbs ?s)" "client_db ?s c = client_db s c"
    using w Cons.prems rewatched_own(2) [of c s ?s] by (auto simp: rewatched_def same_globals_def)
  show ?case using Cons.IH [OF _ c(1,2)] w rewatched_trans [of c s ?s] c(3) by auto
qed

lemma watch_post:
  assumes s: "core_inv b s" and c: "c < length (clients s)" and q: "client_queue_ok b m (clients s ! c)"
  shows "hold b (watchCommand c s) (post b m False c s)"
proof (cases "bit (flags (clients s ! c)) 3")
  case True
  then show ?thesis using post_reply [OF s c q] by (simp add: watchCommand_def)
next
  case False
  let ?s = "fold (watchForKey c) (tl (client_argv s c)) s"
  note w = watch_fold_ok [OF core_invD(1) [OF s] c core_invD(3) [OF s c], of "tl (client_argv s c)"]
  have r: "rewatched c s ?s" using w by blast
  have 1: "step_ok b m False [] c s ?s" by (rule step_ok_rewatched [OF s c r]) (use w in auto)
  have "post b m False c s (addReply c Ok ?s)"
    using step_ok_reply [OF 1 c, of Ok] step_okD(2) [OF 1] c q
    by (intro postI [of "[Ok]"] one_reply_single) (auto simp: addReply_def client_queue_ok_def rewatched_own [OF r])
  then show ?thesis using False by (simp add: watchCommand_def)
qed

section \<open>\<open>EXEC\<close>\<close>

lemma call_with_hold:
  assumes "hold b (p c s) Q" "\<And>s' x. Q s' \<Longrightarrow> Q (s'\<lparr>propagated := x\<rparr>)"
  shows "hold b (call_with p c s) Q"
  using assms by (auto simp: call_with_def Let_def propagate_def intro: hold_mono)

lemma queued_args:
  "core_inv b s \<Longrightarrow> queued_ok b m \<lparr>mc_argv = client_argv s c, mc_cmd = cm\<rparr> \<Longrightarrow> b \<Longrightarrow> args_ok (min_argc (cproc cm)) c s"
  by (auto simp: queued_ok_def args_ok_def core_inv_def)

text \<open>What a queued command leaves for the rest of the queue.\<close>

definition queue_kept :: "client \<Rightarrow> client \<Rightarrow> bool" where
  "queue_kept a a' \<longleftrightarrow> watching a' = [] \<and> mstate a' = mstate a \<and> cmd a' = cmd a"

lemma call_queued_ok:
  assumes s: "core_inv b s" and c: "c < length (clients s)" and w: "watching (clients s ! c) = []"
    and cm: "cmd (clients s ! c) = Some cm" and q: "queued_ok b m \<lparr>mc_argv = client_argv s c, mc_cmd = cm\<rparr>"
  shows "hold b (call_queued c s) (\<lambda>s'. (\<exists>rs. one_reply rs \<and> step_ok b m True rs c s s') \<and> queue_kept (clients s ! c) (clients s' ! c))"
proof -
  have "hold b (run_proc (cproc cm) c s)
      (\<lambda>s'. (\<exists>rs. one_reply rs \<and> step_ok b m True rs c s s') \<and> queue_kept (clients s ! c) (clients s' ! c))"
  proof (cases "cproc cm = UnwatchCommand")
    case True
    let ?s = "addReply c Ok (clear_flags c REDIS_DIRTY_CAS s)"
    have "step_ok b m True [Ok] c s ?s" using step_ok_reply [OF step_ok_clear_flags [OF s c, of m REDIS_DIRTY_CAS] c, of Ok] by simp
    moreover have "queue_kept (clients s ! c) (clients ?s ! c)"
      using c w by (simp add: queue_kept_def addReply_def clear_flags_def)
    moreover have "one_reply [Ok]" by (simp add: one_reply_def)
    ultimately show ?thesis using True w by (auto simp: unwatchCommand_def unwatchAllKeys_def)
  next
    case False
    have "data_proc (cproc cm)" "m \<Longrightarrow> cproc cm \<noteq> MoveCommand" using False q by (auto simp: queued_ok_def data_proc_def)
    from run_data_proc [OF s c this queued_args [OF s q]] show ?thesis
      by (rule hold_mono) (use w in \<open>auto simp: queue_kept_def client_frame_def\<close>)
  qed
  then show ?thesis
    unfolding call_queued_def cm bind.bind_lunit by (rule call_with_hold) (auto simp: queue_kept_def)
qed

lemma exec_loop_ok:
  assumes "core_inv b s" "c < length (clients s)" "watching (clients s ! c) = []"
    and "j + n = length (mstate (clients s ! c))" "\<And>mc. mc \<in> set (drop j (mstate (clients s ! c))) \<Longrightarrow> queued_ok b m mc"
  shows "hold b (exec_loop n c j mp s) (\<lambda>(mp', s'). \<exists>rs. awaiting n rs = Some 0 \<and> step_ok b m True rs c s s')"
  using assms
proof (induction n arbitrary: j mp s)
  case 0
  then show ?case by (auto intro!: exI [of _ "[]"] step_ok_refl)
next
  case (Suc n)
  let ?q = "mstate (clients s ! c)"
  let ?mc = "?q ! j"
  let ?first = "\<not> mp \<and> cflags (mc_cmd ?mc) AND REDIS_CMD_READONLY = 0"
  let ?s1 = "upd_client c (\<lambda>cl. cl\<lparr>argv := mc_argv ?mc, cmd := Some (mc_cmd ?mc)\<rparr>) s"
  let ?s2 = "if ?first then execCommandPropagateMulti c ?s1 else ?s1"
  have j: "j < length ?q" using Suc.prems(4) by simp
  have drop: "drop j ?q = ?mc # drop (Suc j) ?q" by (rule Cons_nth_drop_Suc [OF j, symmetric])
  have "queued_ok b m ?mc" using Suc.prems(5) drop by simp
  then have q: "queued_ok b m \<lparr>mc_argv = mc_argv ?mc, mc_cmd = mc_cmd ?mc\<rparr>" by (auto simp: queued_ok_def)
  have 1: "step_ok b m True [] c s ?s1" by (rule step_ok_client [OF Suc.prems(1,2)]) simp_all
  then have 2: "step_ok b m True [] c s ?s2" by (simp add: execCommandPropagateMulti_def propagate_def)
  have cl: "clients ?s2 ! c = (clients s ! c)\<lparr>argv := mc_argv ?mc, cmd := Some (mc_cmd ?mc)\<rparr>"
    using Suc.prems(2) by (simp add: execCommandPropagateMulti_def propagate_def)
  have "hold b (call_queued c ?s2)
      (\<lambda>s'. (\<exists>rs. one_reply rs \<and> step_ok b m True rs c ?s2 s') \<and> queue_kept (clients ?s2 ! c) (clients s' ! c))"
    by (rule call_queued_ok [OF step_okD(1) [OF 2]]) (use Suc.prems(2,3) step_okD(2) [OF 2] q in \<open>simp_all add: cl\<close>)
  then have "hold b (call_queued c ?s2) (\<lambda>s3. hold b (do {
       cm \<leftarrow> cmd (clients s3 ! c);
       let s3 = upd_client c (\<lambda>cl. cl\<lparr>mstate := (mstate cl)[j := \<lparr>mc_argv = argv cl, mc_cmd = cm\<rparr>]\<rparr>) s3;
       exec_loop n c (j + 1) (mp \<or> ?first) s3
     }) (\<lambda>(mp', s'). \<exists>rs. awaiting (Suc n) rs = Some 0 \<and> step_ok b m True rs c s s'))"
  proof (rule hold_mono, elim conjE exE)
    fix s3 rs
    assume rs: "one_reply rs" and s3: "step_ok b m True rs c ?s2 s3" and kept: "queue_kept (clients ?s2 ! c) (clients s3 ! c)"
    let ?s4 = "upd_client c (\<lambda>cl. cl\<lparr>mstate := (mstate cl)[j := \<lparr>mc_argv = argv cl, mc_cmd = mc_cmd ?mc\<rparr>]\<rparr>) s3"
    have c3: "c < length (clients s3)" using step_okD(2) [OF s3] step_okD(2) [OF 2] Suc.prems(2) by simp
    have "step_ok b m True [] c s3 ?s4" by (rule step_ok_client [OF step_okD(1) [OF s3] c3]) simp_all
    from step_ok_trans [OF step_ok_trans [OF 2 s3] this] have 4: "step_ok b m True rs c s ?s4" by simp
    have m3: "mstate (clients s3 ! c) = ?q" "watching (clients s3 ! c) = []" "cmd (clients s3 ! c) = Some (mc_cmd ?mc)"
      using kept unfolding cl by (simp_all add: queue_kept_def)
    have "hold b (exec_loop n c (j + 1) (mp \<or> ?first) ?s4) (\<lambda>(mp', s'). \<exists>rs. awaiting n rs = Some 0 \<and> step_ok b m True rs c ?s4 s')"
      by (rule Suc.IH [OF step_okD(1) [OF 4]])
         (use c3 m3 Suc.prems(4,5) in \<open>auto simp: drop_update_swap in_set_dropD drop dest: in_set_dropD\<close>)
    then have "hold b (exec_loop n c (j + 1) (mp \<or> ?first) ?s4) (\<lambda>(mp', s'). \<exists>rs. awaiting (Suc n) rs = Some 0 \<and> step_ok b m True rs c s s')"
    proof (rule hold_mono, clarify)
      fix mp' s' rs'
      assume "awaiting n rs' = Some 0" "step_ok b m True rs' c ?s4 s'"
      moreover then have "awaiting (Suc n) (rs @ rs') = Some 0"
        using rs awaiting_add [of 1 rs 0 n] by (simp add: one_reply_def awaiting_append)
      ultimately show "\<exists>rs. awaiting (Suc n) rs = Some 0 \<and> step_ok b m True rs c s s'" using step_ok_trans [OF 4] by blast
    qed
    then show "hold b (do {
       cm \<leftarrow> cmd (clients s3 ! c);
       let s3 = upd_client c (\<lambda>cl. cl\<lparr>mstate := (mstate cl)[j := \<lparr>mc_argv = argv cl, mc_cmd = cm\<rparr>]\<rparr>) s3;
       exec_loop n c (j + 1) (mp \<or> ?first) s3
     }) (\<lambda>(mp', s'). \<exists>rs. awaiting (Suc n) rs = Some 0 \<and> step_ok b m True rs c s s')"
      by (simp only: m3(3) bind.bind_lunit Let_def)
  qed
  then show ?case by (simp only: exec_loop.simps Let_def hold_simps(3) [of _ "call_queued _ _"])
qed

lemma exec_run_hold:
  assumes s: "core_inv b s" and c: "c < length (clients s)" and q: "client_queue_ok b m (clients s ! c)"
    and f: "bit (flags (clients s ! c)) 3" "\<not> (bit (flags (clients s ! c)) 5 \<or> bit (flags (clients s ! c)) 12)"
  shows "hold b (execCommand c s) (\<lambda>s'. (\<exists>rs. awaiting (length (mstate (clients s ! c))) rs = Some 0 \<and>
      step_ok b m True (MultiBulkLen (length (mstate (clients s ! c))) # rs) c s s') \<and>
    mstate (clients s' ! c) = [] \<and> watching (clients s' ! c) = [] \<and> \<not> bit (flags (clients s' ! c)) 3)" (is "hold b _ ?Q")
proof -
  obtain s1 where 1: "unwatchAllKeys c s = Some s1" "step_ok b m True [] c s s1" "rewatched c s s1" "watching (clients s1 ! c) = []"
    by (rule unwatchAllKeys_ok [OF s c])
  let ?n = "length (mstate (clients s1 ! c))"
  let ?s2 = "addReply c (MultiBulkLen ?n) s1"
  have c1: "c < length (clients s1)" using c step_okD(2) [OF 1(2)] by simp
  have 2: "step_ok b m True [MultiBulkLen ?n] c s ?s2" using step_ok_reply [OF 1(2) c, of "MultiBulkLen ?n"] by simp
  have loop: "hold b (exec_loop ?n c 0 False ?s2) (\<lambda>(mp', s'). \<exists>rs. awaiting ?n rs = Some 0 \<and> step_ok b m True rs c ?s2 s')"
    by (rule exec_loop_ok [OF step_okD(1) [OF 2]])
       (use c1 1(4) q in \<open>auto simp: addReply_def rewatched_own [OF 1(3)] client_queue_ok_def\<close>)
  have rest: "hold b (do {
      let x = upd_client c (\<lambda>cl. cl\<lparr>argv := av, cmd := cm\<rparr>) x;
      x \<leftarrow> discardTransaction c x;
      Some (if mp then add_dirty 1 x else x)
    }) ?Q" if rs: "awaiting ?n rs = Some 0" and x: "step_ok b m True rs c ?s2 x" for rs x mp av cm
  proof -
    let ?x = "upd_client c (\<lambda>cl. cl\<lparr>argv := av, cmd := cm\<rparr>) x"
    have cx: "c < length (clients x)" using c1 step_okD(2) [OF x] by (simp add: addReply_def)
    have "step_ok b m True [] c x ?x" by (rule step_ok_client [OF step_okD(1) [OF x] cx]) simp_all
    from step_ok_trans [OF step_ok_trans [OF 2 x] this] have 3: "step_ok b m True (MultiBulkLen ?n # rs) c s ?x" by simp
    have cx': "c < length (clients ?x)" using cx by simp
    obtain y where d: "discardTransaction c ?x = Some y" "step_ok b m True [] c ?x y" "mstate (clients y ! c) = []"
      "watching (clients y ! c) = []" "\<And>n. bit (flags (clients y ! c)) n \<longleftrightarrow> bit (flags (clients ?x ! c)) n \<and> n \<notin> {3, 5, 12}"
      using discardTransaction_ok [OF step_okD(1) [OF 3] cx', of m] by metis
    have "step_ok b m True (MultiBulkLen ?n # rs) c s y" using step_ok_trans [OF 3 d(2)] by simp
    then show ?thesis using d rs by (auto simp: add_dirty_def rewatched_own(4) [OF 1(3)])
  qed
  have "hold b (exec_loop ?n c 0 False ?s2) (\<lambda>x. hold b (case x of (mp, x) \<Rightarrow> do {
      let x = upd_client c (\<lambda>cl. cl\<lparr>argv := client_argv s1 c, cmd := cmd (clients s1 ! c)\<rparr>) x;
      x \<leftarrow> discardTransaction c x;
      Some (if mp then add_dirty 1 x else x)
    }) ?Q)"
    by (rule hold_mono [OF loop]) (auto simp only: split_paired_all prod.case intro: rest)
  moreover have "\<not> \<not> has_flag s c REDIS_MULTI" "\<not> has_flag s c (REDIS_DIRTY_CAS OR REDIS_DIRTY_EXEC)" using f by simp_all
  ultimately show ?thesis
    unfolding execCommand_def by (simp only: if_False if_True not_not not_True_eq_False 1(1) bind.bind_lunit Let_def hold_simps(3) [of _ "exec_loop _ _ _ _ _"])
qed

lemma exec_post:
  assumes s: "core_inv b s" and c: "c < length (clients s)" and q: "client_queue_ok b m (clients s ! c)"
  shows "hold b (execCommand c s) (post b m True c s)"
proof -
  consider "\<not> bit (flags (clients s ! c)) 3" | "bit (flags (clients s ! c)) 3" "bit (flags (clients s ! c)) 5 \<or> bit (flags (clients s ! c)) 12"
    | "bit (flags (clients s ! c)) 3" "\<not> (bit (flags (clients s ! c)) 5 \<or> bit (flags (clients s ! c)) 12)"
    by blast
  then show ?thesis
  proof cases
    case 1
    then show ?thesis using post_reply [OF s c q] by (simp add: execCommand_def)
  next
    case 2
    let ?r = "if has_flag s c REDIS_DIRTY_EXEC then Error ExecAbort else NullMultiBulk"
    let ?s = "addReply c ?r s"
    have 1: "step_ok b m True [?r] c s ?s" by (rule step_ok_addReply [OF s c])
    obtain s' where d: "discardTransaction c ?s = Some s'" "step_ok b m True [] c ?s s'" "mstate (clients s' ! c) = []"
      by (rule discardTransaction_ok [OF step_okD(1) [OF 1], of c m]) (use c in \<open>auto simp: addReply_def\<close>)
    have "post b m True c s s'"
      using step_ok_trans [OF 1 d(2)] d(3) by (intro postI [of "[?r]"]) (auto simp: client_queue_ok_def one_reply_def)
    then show ?thesis using 2 d(1) by (simp add: execCommand_def)
  next
    case 3
    show ?thesis
    proof (rule hold_mono [OF exec_run_hold [OF s c q 3]], elim conjE exE)
      fix s' rs
      assume "awaiting (length (mstate (clients s ! c))) rs = Some 0"
        "step_ok b m True (MultiBulkLen (length (mstate (clients s ! c))) # rs) c s s'" "mstate (clients s' ! c) = []"
      then show "post b m True c s s'"
        by (intro postI [of "MultiBulkLen (length (mstate (clients s ! c))) # rs"]) (simp_all add: one_reply_def client_queue_ok_def)
    qed
  qed
qed

definition freeing :: "proc \<Rightarrow> bool" where
  "freeing p \<longleftrightarrow> p \<in> {ExecCommand, DiscardCommand, UnwatchCommand}"

lemma call_post:
  assumes s: "core_inv b s" and c: "c < length (clients s)" and q: "client_queue_ok b m (clients s ! c)"
    and cm: "cmd (clients s ! c) = Some cm" and p: "m \<Longrightarrow> cproc cm \<noteq> MoveCommand" and a: "b \<Longrightarrow> args_ok (min_argc (cproc cm)) c s"
  shows "hold b (call c s) (post b m (freeing (cproc cm)) c s)"
proof -
  let ?p = "if cproc cm = ExecCommand then execCommand else run_proc (cproc cm)"
  have "hold b (?p c s) (post b m (freeing (cproc cm)) c s)"
  proof (cases "data_proc (cproc cm)")
    case True
    have "hold b (run_proc (cproc cm) c s) (post b m (freeing (cproc cm)) c s)"
      by (rule hold_mono [OF run_data_proc [OF s c True p a, of m "freeing (cproc cm)"]])
         (use q in \<open>auto simp: post_def client_queue_ok_def client_frame_def\<close>)
    then show ?thesis using True by (auto simp: data_proc_def)
  next
    case False
    then show ?thesis
      using exec_post [OF s c q] multi_post [OF s c q] discard_post [OF s c q] watch_post [OF s c q] unwatch_post [OF s c q]
      by (auto simp: data_proc_def freeing_def)
  qed
  then show ?thesis
    unfolding call_def cm bind.bind_lunit by (rule call_with_hold) (auto simp: post_def)
qed

section \<open>\<open>processCommand\<close>\<close>

lemma table_arity: "cm \<in> set redisCommandTable \<Longrightarrow> int (min_argc (cproc cm)) \<le> \<bar>arity cm\<bar>"
proof -
  have "list_all (\<lambda>cm. int (min_argc (cproc cm)) \<le> \<bar>arity cm\<bar>) redisCommandTable"
    by (simp add: redisCommandTable_def min_argc_def)
  then show "cm \<in> set redisCommandTable \<Longrightarrow> int (min_argc (cproc cm)) \<le> \<bar>arity cm\<bar>" by (simp add: list_all_iff)
qed

lemma lookupCommand_arity:
  assumes "lookupCommand name = Some cm" "\<not> (arity cm > 0 \<and> arity cm \<noteq> int n \<or> int n < - arity cm)"
  shows "min_argc (cproc cm) \<le> n"
proof -
  have "cm \<in> set redisCommandTable" using assms(1) by (auto simp: lookupCommand_def find_Some_iff)
  from table_arity [OF this] assms(2) show ?thesis by linarith
qed

lemma step_ok_flag:
  assumes s: "core_inv b s" and c: "c < length (clients s)"
  shows "step_ok b m free [] c s (flagTransaction c s)"
  using step_ok_set_flags [OF s c] step_ok_refl [OF s] by (simp add: flagTransaction_def)

lemma reject_post:
  assumes s: "core_inv b s" and c: "c < length (clients s)" and q: "client_queue_ok b m (clients s ! c)"
  shows "post b m free c s (reject c e s)"
proof -
  have "step_ok b m free ([] @ [Error e]) c s (reject c e s)"
    unfolding reject_def by (intro step_ok_reply step_ok_flag s c)
  moreover have "client_queue_ok b m (clients (reject c e s) ! c)"
    using c q by (auto simp: reject_def flagTransaction_def set_flags_def addReply_def client_queue_ok_def bit_or_iff)
  ultimately show ?thesis by (intro postI [of "[Error e]"]) (simp_all add: one_reply_def)
qed

lemma queue_post:
  assumes s: "core_inv b s" and c: "c < length (clients s)" and q: "client_queue_ok b m (clients s ! c)"
    and cm: "cmd (clients s ! c) = Some cm" and f: "bit (flags (clients s ! c)) 3"
    and mc: "queued_ok b m \<lparr>mc_argv = client_argv s c, mc_cmd = cm\<rparr>"
  shows "hold b (do { s \<leftarrow> queueMultiCommand c s; Some (addReply c Queued s) }) (post b m free c s)"
proof -
  let ?s = "upd_client c (\<lambda>cl. cl\<lparr>mstate := mstate cl @ [\<lparr>mc_argv = argv cl, mc_cmd = cm\<rparr>]\<rparr>) s"
  have "step_ok b m free [] c s ?s" by (rule step_ok_client [OF s c]) simp_all
  from step_ok_reply [OF this c, of Queued] have "step_ok b m free [Queued] c s (addReply c Queued ?s)" by simp
  then have "post b m free c s (addReply c Queued ?s)"
    using c q f mc by (intro postI [of "[Queued]"]) (auto simp: one_reply_def addReply_def client_queue_ok_def)
  then show ?thesis by (simp add: queueMultiCommand_def cm)
qed

lemma exec_or_queue_post:
  assumes s: "core_inv b s" and c: "c < length (clients s)" and q: "client_queue_ok b m (clients s ! c)"
    and cm: "cmd (clients s ! c) = Some cm" and p: "m \<Longrightarrow> cproc cm \<noteq> MoveCommand" and a: "b \<Longrightarrow> args_ok (min_argc (cproc cm)) c s"
  shows "hold b (exec_or_queue c cm s) (post b m (freeing (cproc cm)) c s)"
proof (cases "has_flag s c REDIS_MULTI \<and> cproc cm \<notin> {ExecCommand, DiscardCommand, MultiCommand, WatchCommand}")
  case True
  have "queued_ok b m \<lparr>mc_argv = client_argv s c, mc_cmd = cm\<rparr>" using True p a by (auto simp: queued_ok_def args_ok_def)
  then show ?thesis unfolding exec_or_queue_def if_P [OF True] using True by (intro queue_post [OF s c q cm]) simp_all
next
  case False
  show ?thesis unfolding exec_or_queue_def if_not_P [OF False] by (rule call_post [OF s c q cm p a])
qed

text \<open>The eviction of keys, which does not look at the watch tables.\<close>

lemma keeps_stat [simp]: "keeps b P rs D c s0 (s\<lparr>stat_evictedkeys := n\<rparr>) \<longleftrightarrow> keeps b P rs D c s0 s"
  by (simp add: keeps_defs)

text \<open>The states during an eviction.\<close>

definition evicting :: "bool \<Rightarrow> nat \<Rightarrow> nat \<Rightarrow> server \<Rightarrow> server \<Rightarrow> bool" where
  "evicting b D c s0 s \<longleftrightarrow> (\<exists>P. keeps b P [] D c s0 s) \<and> clients s = clients s0"

lemma evicting_dbs: "evicting b D c s0 s \<Longrightarrow> length (dbs s) = length (dbs s0)"
  unfolding evicting_def using keepsD(1) by blast

lemma evicting_inv: "evicting b D c s0 s \<Longrightarrow> j < length (dbs s0) \<Longrightarrow> db_inv (dbs s ! j)"
  unfolding evicting_def using keepsD0(5) by blast

lemma evicting_step:
  assumes "evicting b D c s0 s" "j < length (dbs s0)"
  shows "evicting b D c s0 (evict_key j key s)"
proof -
  obtain P where k: "keeps b P [] D c s0 s" and cl: "clients s = clients s0" using assms(1) by (auto simp: evicting_def)
  let ?s = "propagateExpire j key s"
  have "keeps b P [] D c s0 ?s" using k by (simp add: propagateExpire_def propagate_def)
  from keeps_dbDelete [OF this assms(2)] have "keeps b (insert (j, key) P) [] D c s0 (evict_key j key s)" by (simp add: evict_key_def Let_def)
  moreover have "clients (evict_key j key s) = clients s0"
    using cl by (simp add: evict_key_def Let_def dbDelete_def propagateExpire_def propagate_def)
  ultimately show ?thesis by (auto simp: evicting_def)
qed

lemma sample_loop_total: "(\<And>k. val (key k) \<noteq> None) \<Longrightarrow> \<exists>r. sample_loop n k key val better best = Some r"
proof (induction n arbitrary: k best)
  case (Suc n)
  obtain v where "val (key k) = Some v" using Suc.prems [of k] by blast
  then show ?case using Suc.IH [OF Suc.prems] by (simp add: Let_def)
qed simp

text \<open>The key that is sampled has an object and an expire time where the policy looks at them.\<close>

lemma best_key_total:
  assumes d: "db_inv (dbs s ! j)" and pool: "eviction_pool cf j s \<noteq> []"
  shows "\<exists>r. best_key cf j s = Some r"
proof -
  have volatile: "map_of (expires (dbs s ! j)) (random_key cf j k s) \<noteq> None \<and> dbExists j (random_key cf j k s) s"
    if "maxmemory_policy cf \<in> {VolatileLru, VolatileTtl}" for k
  proof -
    have "random_key cf j k s \<in> fst ` set (expires (dbs s ! j))"
      using random_key_mem [OF pool, of k] that by (auto simp: eviction_pool_def)
    then obtain x where "map_of (expires (dbs s ! j)) (random_key cf j k s) = Some x" by (metis map_of_eq_None_iff not_None_eq)
    then show ?thesis using d by (auto simp: db_inv_def dbExists_def)
  qed
  have "\<exists>r. sample_loop n 0 (\<lambda>k. random_key cf j k s) (\<lambda>key. Some (idle_time cf s j key)) (\<lambda>v b. v > b) None = Some r" for n
    by (rule sample_loop_total) simp
  moreover have "\<exists>r. sample_loop n 0 (\<lambda>k. random_key cf j k s) (\<lambda>key. do { ensure (dbExists j key s); Some (idle_time cf s j key) }) (\<lambda>v b. v > b) None = Some r"
    if "maxmemory_policy cf = VolatileLru" for n by (rule sample_loop_total) (use volatile that in auto)
  moreover have "\<exists>r. sample_loop n 0 (\<lambda>k. random_key cf j k s) (\<lambda>key. map_of (expires (dbs s ! j)) key) (\<lambda>v b. v < b) None = Some r"
    if "maxmemory_policy cf = VolatileTtl" for n by (rule sample_loop_total) (use volatile that in auto)
  ultimately show ?thesis
    by (cases "maxmemory_policy cf") (auto simp: best_key_def)
qed

lemma evict_round_ok:
  assumes "evicting b D c s0 s" "\<And>j. j \<in> set js \<Longrightarrow> j < length (dbs s0)"
  shows "\<exists>m' n' s'. evict_round cf js m n s = Some (m', n', s') \<and> evicting b D c s0 s'"
  using assms
proof (induction js arbitrary: m n s)
  case (Cons j js)
  show ?case
  proof (cases "eviction_pool cf j s = []")
    case True
    then show ?thesis using Cons.IH [OF Cons.prems(1)] Cons.prems(2) by simp
  next
    case False
    obtain best where b: "best_key cf j s = Some best"
      using best_key_total [OF evicting_inv [OF Cons.prems(1)] False] Cons.prems(2) by auto
    show ?thesis
    proof (cases best)
      case None
      then show ?thesis using Cons.IH [OF Cons.prems(1)] Cons.prems(2) False b by simp
    next
      case (Some key)
      have "evicting b D c s0 (evict_key j key s)" using evicting_step [OF Cons.prems(1)] Cons.prems(2) by simp
      from Cons.IH [OF this] show ?thesis using Cons.prems(2) False b Some by simp
    qed
  qed
qed simp

lemma evict_loop_ok:
  "evicting b D c s0 s \<Longrightarrow> \<exists>ok s'. evict_loop cf t m s = Some (ok, s') \<and> evicting b D c s0 s'"
proof (induction cf t m s rule: evict_loop.induct)
  case (1 cf t m s)
  show ?case
  proof (cases "m < t")
    case True
    obtain m' n' s' where r: "evict_round cf [0..<length (dbs s)] m 0 s = Some (m', n', s')" "evicting b D c s0 s'"
      using evict_round_ok [OF "1.prems", of "[0..<length (dbs s)]" cf m 0] evicting_dbs [OF "1.prems"] by auto
    show ?thesis
    proof (cases "n' = 0")
      case True
      then show ?thesis using \<open>m < t\<close> r by (auto simp: evict_loop.simps)
    next
      case False
      then show ?thesis using "1.IH" [OF \<open>m < t\<close> r(1) refl refl False r(2)] \<open>m < t\<close> r(1) by (simp add: evict_loop.simps [of cf t m s])
    qed
  next
    case False
    then show ?thesis using "1.prems" by (auto simp: evict_loop.simps)
  qed
qed

lemma freeMemory_ok:
  assumes s: "core_inv b s" and c: "c < length (clients s)" and m: "m \<Longrightarrow> maxmemory cf = 0"
  obtains ok s' where "(if maxmemory cf \<noteq> 0 then freeMemoryIfNeeded cf s else Some (True, s)) = Some (ok, s')"
    "step_ok b m free [] c s s'" "clients s' = clients s"
proof -
  have e: "evicting b (client_db s c) c s s" using core_keeps [OF s c] by (auto simp: evicting_def)
  obtain ok s' where r: "(if maxmemory cf \<noteq> 0 then freeMemoryIfNeeded cf s else Some (True, s)) = Some (ok, s')"
      "evicting b (client_db s c) c s s'" "m \<Longrightarrow> s' = s"
    using e m evict_loop_ok [OF e, of cf "mem_used cf s - maxmemory cf" 0]
    by (cases "maxmemory cf = 0"; cases m; cases "mem_used cf s \<le> maxmemory cf"; cases "maxmemory_policy cf = NoEviction")
       (auto simp: freeMemoryIfNeeded_def)
  show ?thesis
  proof (rule that [OF r(1)])
    obtain P where k: "keeps b P [] (client_db s c) c s s'" using r(2) by (auto simp: evicting_def)
    show "step_ok b m free [] c s s'"
    proof (cases m)
      case True
      then show ?thesis using r(3) step_ok_refl [OF s] by simp
    next
      case False
      then show ?thesis by (intro step_ok_keeps [OF k s]) auto
    qed
  qed (use r(2) in \<open>simp add: evicting_def\<close>)
qed

text \<open>What a command may assume: its arguments are harmless, and it is not \<open>MOVE\<close>.\<close>

definition command_proc :: "bytes list \<Rightarrow> proc option" where
  "command_proc av = (if is_quit (hd av) then None else map_option cproc (lookupCommand (hd av)))"

definition frees :: "bytes list \<Rightarrow> bool" where
  "frees av \<longleftrightarrow> (case command_proc av of None \<Rightarrow> False | Some p \<Rightarrow> freeing p)"

lemma post_trans:
  assumes 1: "step_ok b m free [] c s s'" and 2: "post b m free c s' s''"
  shows "post b m free c s s''"
  using 2 step_ok_trans [OF 1] by (fastforce simp: post_def)

lemma processCommand_post:
  assumes s: "core_inv b s" and c: "c < length (clients s)" and q: "client_queue_ok b m (clients s ! c)"
    and av: "client_argv s c = av" "av \<noteq> []" and small: "b \<Longrightarrow> \<forall>a\<in>set av. small_arg a"
    and m: "m \<Longrightarrow> maxmemory cf = 0 \<and> command_proc av \<noteq> Some MoveCommand"
  shows "hold b (processCommand cf c s) (post b m (frees av) c s)"
proof -
  have name: "arg s c 0 = Some (hd av)" using av by (simp add: arg_def hd_conv_nth)
  show ?thesis
  proof (cases "is_quit (hd av)")
    case True
    have 1: "step_ok b m (frees av) [Ok] c s (addReply c Ok s)" by (rule step_ok_addReply [OF s c])
    have "step_ok b m (frees av) [] c (addReply c Ok s) (set_flags c REDIS_CLOSE_AFTER_REPLY (addReply c Ok s))"
      by (rule step_ok_set_flags [OF step_okD(1) [OF 1]]) (use c step_okD(2) [OF 1] in simp)
    from step_ok_trans [OF 1 this] have "post b m (frees av) c s (set_flags c REDIS_CLOSE_AFTER_REPLY (addReply c Ok s))"
      using c q by (intro postI [of "[Ok]"]) (auto simp: one_reply_def set_flags_def addReply_def client_queue_ok_def bit_or_iff)
    then show ?thesis using True by (simp add: processCommand_def name)
  next
    case False
    define s1 where "s1 = upd_client c (\<lambda>cl. cl\<lparr>cmd := lookupCommand (hd av)\<rparr>) s"
    have 1: "step_ok b m (frees av) [] c s s1" unfolding s1_def by (rule step_ok_client [OF s c]) simp_all
    have s1: "core_inv b s1" by (rule step_okD(1) [OF 1])
    have c1: "c < length (clients s1)" using c step_okD(2) [OF 1] by simp
    have q1: "client_queue_ok b m (clients s1 ! c)" and av1: "client_argv s1 c = av" and cm1: "cmd (clients s1 ! c) = lookupCommand (hd av)"
      using q c av(1) by (simp_all add: s1_def client_queue_ok_def)
    have rej: "post b m (frees av) c s (reject c e s1)" for e by (rule post_trans [OF 1 reject_post [OF s1 c1 q1]])
    have "hold b (case lookupCommand (hd av) of
          None \<Rightarrow> Some (reject c UnknownCommand s1)
        | Some cm \<Rightarrow>
            if arity cm > 0 \<and> arity cm \<noteq> int (length av) \<or> int (length av) < - arity cm then Some (reject c WrongArity s1)
            else if requirepass cf \<and> \<not> authenticated (clients s1 ! c) then Some (reject c NoAuth s1)
            else
              (case cluster_check cf c cm s1 of
                 Some e \<Rightarrow> Some (reject c e s1)
               | None \<Rightarrow> do {
                   (ok, s) \<leftarrow> (if maxmemory cf \<noteq> 0 then freeMemoryIfNeeded cf s1 else Some (True, s1));
                   if cflags cm AND REDIS_CMD_DENYOOM \<noteq> 0 \<and> \<not> ok then Some (reject c Oom s)
                   else
                     (case state_check cf c cm s of
                        Some (e, flagged) \<Rightarrow> Some (if flagged then reject c e s else addReply c (Error e) s)
                      | None \<Rightarrow> exec_or_queue c cm s)
                 })) (post b m (frees av) c s)"
    proof (cases "lookupCommand (hd av)")
      case None
      then show ?thesis by (simp add: rej)
    next
      case (Some cm)
      have fr: "frees av = freeing (cproc cm)" using Some False by (simp add: frees_def command_proc_def)
      have mv: "m \<Longrightarrow> cproc cm \<noteq> MoveCommand" using m Some False by (simp add: command_proc_def)
      have me: "m \<Longrightarrow> maxmemory cf = 0" using m by blast
      obtain ok s2 where r: "(if maxmemory cf \<noteq> 0 then freeMemoryIfNeeded cf s1 else Some (True, s1)) = Some (ok, s2)"
        and ev: "step_ok b m (frees av) [] c s1 s2" "clients s2 = clients s1"
        by (rule freeMemory_ok [OF s1 c1 me])
      have 2: "step_ok b m (frees av) [] c s s2" using step_ok_trans [OF 1 ev(1)] by simp
      have s2: "core_inv b s2" by (rule step_okD(1) [OF 2])
      have cl2: "c < length (clients s2)" "client_queue_ok b m (clients s2 ! c)" "cmd (clients s2 ! c) = Some cm"
        using c1 q1 cm1 Some by (simp_all add: ev(2))
      have rej2: "post b m (frees av) c s (reject c e s2)" "post b m (frees av) c s (addReply c (Error e) s2)" for e
        by (rule post_trans [OF 2 reject_post [OF s2 cl2(1,2)]], rule post_trans [OF 2 post_reply [OF s2 cl2(1,2)]]) simp
      have run: "hold b (exec_or_queue c cm s2) (post b m (frees av) c s)"
        if "\<not> (arity cm > 0 \<and> arity cm \<noteq> int (length av) \<or> int (length av) < - arity cm)"
      proof (rule hold_mono [OF exec_or_queue_post [OF s2 cl2 mv]])
        assume b
        then show "args_ok (min_argc (cproc cm)) c s2"
          using small core_invD(5) [OF s2] lookupCommand_arity [OF Some that] av1 by (simp add: args_ok_def ev(2))
      qed (use post_trans [OF 2] fr in auto)
      show ?thesis
        unfolding Some option.case r Let_def bind.bind_lunit prod.case
        using rej rej2 run by (auto split: option.split)
    qed
    then show ?thesis
      unfolding processCommand_def name bind.bind_lunit if_not_P [OF False] s1_def [symmetric] Let_def av1 .
  qed
qed

section \<open>Steps and reachable states\<close>

text \<open>A new connection or a command of a client. The commands are restricted by a predicate on the client and the arguments.\<close>

inductive server_step :: "config \<Rightarrow> (nat \<Rightarrow> bytes list \<Rightarrow> bool) \<Rightarrow> server \<Rightarrow> server \<Rightarrow> bool" for cf and P where
  connect: "server_step cf P s (createClient s)"
| command: "c < length (clients s) \<Longrightarrow> av \<noteq> [] \<Longrightarrow> P c av \<Longrightarrow> handle_command cf c av s = Some s' \<Longrightarrow> server_step cf P s s'"

inductive reachable :: "config \<Rightarrow> (nat \<Rightarrow> bytes list \<Rightarrow> bool) \<Rightarrow> server \<Rightarrow> server \<Rightarrow> bool" for cf and P and s0 where
  start: "reachable cf P s0 s0"
| step: "reachable cf P s0 s \<Longrightarrow> server_step cf P s s' \<Longrightarrow> reachable cf P s0 s'"

definition sys_inv :: "bool \<Rightarrow> bool \<Rightarrow> server \<Rightarrow> bool" where
  "sys_inv b m s \<longleftrightarrow> core_inv b s \<and> queue_ok b m s \<and> dbs s \<noteq> []"

text \<open>The commands that are harmless when \<open>b\<close> holds and not \<open>MOVE\<close> when \<open>m\<close> does.\<close>

definition allowed :: "bool \<Rightarrow> bool \<Rightarrow> bytes list \<Rightarrow> bool" where
  "allowed b m av \<longleftrightarrow> (b \<longrightarrow> (\<forall>a\<in>set av. small_arg a)) \<and> (m \<longrightarrow> command_proc av \<noteq> Some MoveCommand)"

lemma handle_command_post:
  assumes s: "sys_inv b m s" and c: "c < length (clients s)" and av: "av \<noteq> []" "allowed b m av" and m: "m \<Longrightarrow> maxmemory cf = 0"
  shows "hold b (handle_command cf c av s) (\<lambda>s'. (\<exists>rs. one_reply rs \<and> step_ok b m (frees av) rs c s s') \<and> sys_inv b m s')"
proof -
  let ?s = "upd_client c (\<lambda>cl. cl\<lparr>argv := av\<rparr>) s"
  have core: "core_inv b s" and q: "queue_ok b m s" using s by (simp_all add: sys_inv_def)
  have 1: "step_ok b m (frees av) [] c s ?s" by (rule step_ok_client [OF core c]) simp_all
  have "hold b (processCommand cf c ?s) (post b m (frees av) c ?s)"
    by (rule processCommand_post [OF step_okD(1) [OF 1]])
       (use c q av m in \<open>auto simp: queue_ok_def client_queue_ok_def allowed_def\<close>)
  then show ?thesis
    unfolding handle_command_def
  proof (rule hold_mono)
    fix s' assume "post b m (frees av) c ?s s'"
    then obtain rs where rs: "one_reply rs" "step_ok b m (frees av) rs c s s'" and own: "client_queue_ok b m (clients s' ! c)"
      using step_ok_trans [OF 1] by (fastforce simp: post_def)
    have "client_queue_ok b m (clients s' ! x)" if "x < length (clients s)" for x
      using rs(2) q own that by (cases "x = c") (auto simp: step_ok_def queue_ok_def client_queue_ok_def client_frame_def)
    then have "sys_inv b m s'" using step_okD [OF rs(2)] s by (auto simp: sys_inv_def queue_ok_def)
    then show "(\<exists>rs. one_reply rs \<and> step_ok b m (frees av) rs c s s') \<and> sys_inv b m s'" using rs by blast
  qed
qed

lemma sys_inv_createClient:
  assumes "sys_inv b m s"
  shows "sys_inv b m (createClient s)"
proof -
  have s: "core_inv b s" "queue_ok b m s" "dbs s \<noteq> []" using assms by (simp_all add: sys_inv_def)
  let ?s = "createClient s"
  have cl: "clients ?s ! x = clients s ! x" if "x < length (clients s)" for x using that by (simp add: createClient_def nth_append)
  have new: "watching (clients ?s ! length (clients s)) = []" "client_db ?s (length (clients s)) = 0" "mstate (clients ?s ! length (clients s)) = []"
    by (simp_all add: createClient_def nth_append)
  have l: "length (clients ?s) = Suc (length (clients s))" "dbs ?s = dbs s" "clock ?s = clock s" by (simp_all add: createClient_def)
  have wt: "watchers ?s i k = watchers s i k" for i k by (simp add: watchers_def l)
  have w: "watch_ok s" by (rule core_invD(1) [OF s(1)])
  have "watch_ok ?s"
    unfolding watch_ok_def l wt
  proof (intro conjI allI impI)
    fix i k assume i: "i < length (dbs s)"
    show "distinct (watchers s i k)" "map_of (watched_keys (dbs s ! i)) k \<noteq> Some []" by (rule watch_okD [OF w i])+
    fix x
    show "x \<in> set (watchers s i k) \<longleftrightarrow> x < Suc (length (clients s)) \<and> (k, i) \<in> set (watching (clients ?s ! x))"
      using watch_okD(3) [OF w i, of x k] cl [of x] new(1) by (auto simp: less_Suc_eq)
  next
    fix x assume "x < Suc (length (clients s))"
    then show "distinct (watching (clients ?s ! x))" "\<forall>(k, i)\<in>set (watching (clients ?s ! x)). i < length (dbs s)"
      using watch_okD2 [OF w, of x] cl [of x] new(1) by (auto simp: less_Suc_eq)
  qed
  moreover have "client_db ?s x < length (dbs s)" if "x < Suc (length (clients s))" for x
    using that core_invD(3) [OF s(1), of x] cl [of x] new(2) s(3) by (auto simp: less_Suc_eq)
  moreover have "client_queue_ok b m (clients ?s ! x)" if "x < Suc (length (clients s))" for x
    using that s(2) cl [of x] new(3) by (auto simp: less_Suc_eq queue_ok_def client_queue_ok_def)
  ultimately show ?thesis using s by (simp add: sys_inv_def core_inv_def queue_ok_def l clock_ok_def)
qed

lemma sys_inv_init:
  "0 < dbnum \<Longrightarrow> (b \<Longrightarrow> \<forall>n. 0 \<le> clk n \<and> clk n < 2 ^ 61) \<Longrightarrow> sys_inv b m (initServer dbnum clk cluster)"
  by (auto simp: sys_inv_def core_inv_def queue_ok_def initServer_def db_inv_def times_ok_def clock_ok_def watch_ok_def watchers_def)

lemma server_step_inv:
  assumes "server_step cf P s s'" "sys_inv b m s" "\<And>c av. P c av \<Longrightarrow> allowed b m av" "m \<Longrightarrow> maxmemory cf = 0"
  shows "sys_inv b m s'"
  using assms(1)
proof cases
  case connect
  then show ?thesis using sys_inv_createClient [OF assms(2)] by simp
next
  case (command c av)
  have "hold b (handle_command cf c av s) (\<lambda>s'. (\<exists>rs. one_reply rs \<and> step_ok b m (frees av) rs c s s') \<and> sys_inv b m s')"
    by (rule handle_command_post [OF assms(2) command(1,2) assms(3) [OF command(3)] assms(4)])
  then show ?thesis using command(4) by simp
qed

lemma reachable_inv:
  assumes "reachable cf P s0 s" "sys_inv b m s0" "\<And>c av. P c av \<Longrightarrow> allowed b m av" "m \<Longrightarrow> maxmemory cf = 0"
  shows "sys_inv b m s"
  using assms(1)
proof induction
  case (step s s')
  then show ?case using server_step_inv assms(3,4) by blast
qed (rule assms(2))

lemma command_ok:
  assumes "sys_inv b m s" "c < length (clients s)" "av \<noteq> []" "allowed b m av" "m \<Longrightarrow> maxmemory cf = 0" "handle_command cf c av s = Some s'"
  shows "\<exists>rs. one_reply rs \<and> step_ok b m (frees av) rs c s s'"
  using handle_command_post [OF assms(1-5)] assms(6) by auto

section \<open>Watched keys over a run\<close>

lemma guards_step:
  assumes s: "sys_inv False True s" and mm: "maxmemory cf = 0"
    and st: "server_step cf (\<lambda>c av. command_proc av \<noteq> Some MoveCommand \<and> (c = w \<longrightarrow> \<not> frees av)) s s'"
    and w: "w < length (clients s)" "(k, i) \<in> set (watching (clients s ! w))"
  shows "guards w i k s s'" "w < length (clients s')"
proof -
  have "guards w i k s s' \<and> w < length (clients s')"
    using st
  proof cases
    case connect
    then show ?thesis using w by (simp add: guards_def createClient_def nth_append)
  next
    case (command c av)
    have "allowed False True av" using command(3) by (simp add: allowed_def)
    from command_ok [OF s command(1,2) this _ command(4)] mm obtain rs where "step_ok False True (frees av) rs c s s'" by blast
    then show ?thesis using command(3) w by (auto simp: step_ok_def same_globals_def)
  qed
  then show "guards w i k s s'" "w < length (clients s')" by auto
qed

lemma guards_run:
  assumes run: "reachable cf (\<lambda>c av. command_proc av \<noteq> Some MoveCommand \<and> (c = w \<longrightarrow> \<not> frees av)) s s'"
    and s: "sys_inv False True s" and mm: "maxmemory cf = 0" and w: "w < length (clients s)" "(k, i) \<in> set (watching (clients s ! w))"
  shows "guards w i k s s' \<and> w < length (clients s') \<and> sys_inv False True s'"
  using run
proof induction
  case start
  then show ?case using w s by (simp add: guards_refl)
next
  case (step s1 s2)
  then have g: "guards w i k s s1" "w < length (clients s1)" "sys_inv False True s1" by auto
  have "(k, i) \<in> set (watching (clients s1 ! w))" using g(1) by (simp add: guards_def)
  note g2 = guards_step [OF g(3) mm step(2) g(2) this]
  moreover have "sys_inv False True s2" by (rule server_step_inv [OF step(2) g(3)]) (use mm in \<open>auto simp: allowed_def\<close>)
  ultimately show ?case using guards_trans [OF g(1)] by blast
qed

text \<open>\<open>EXEC\<close> of a transaction that is marked.\<close>

lemma exec_aborted:
  assumes s: "core_inv b s" and c: "c < length (clients s)"
    and f: "has_flag s c REDIS_MULTI" "has_flag s c (REDIS_DIRTY_CAS OR REDIS_DIRTY_EXEC)"
  obtains s' where "execCommand c s = Some s'"
    "replies (clients s' ! c) = replies (clients s ! c) @ [if has_flag s c REDIS_DIRTY_EXEC then Error ExecAbort else NullMultiBulk]"
    "\<And>i. i < length (dbs s) \<Longrightarrow> dict (dbs s' ! i) = dict (dbs s ! i) \<and> expires (dbs s' ! i) = expires (dbs s ! i)"
    "\<not> has_flag s' c REDIS_MULTI" "mstate (clients s' ! c) = []" "watching (clients s' ! c) = []"
proof -
  let ?r = "if has_flag s c REDIS_DIRTY_EXEC then Error ExecAbort else NullMultiBulk"
  let ?s = "addReply c ?r s"
  have 1: "step_ok b False True [?r] c s ?s" by (rule step_ok_addReply [OF s c])
  have c1: "c < length (clients ?s)" using c step_okD(2) [OF 1] by simp
  obtain s' where d: "discardTransaction c ?s = Some s'" "step_ok b False True [] c ?s s'" "mstate (clients s' ! c) = []"
    "watching (clients s' ! c) = []" "\<And>n. bit (flags (clients s' ! c)) n \<longleftrightarrow> bit (flags (clients ?s ! c)) n \<and> n \<notin> {3, 5, 12}"
    "\<And>i. i < length (dbs ?s) \<Longrightarrow> dict (dbs s' ! i) = dict (dbs ?s ! i) \<and> expires (dbs s' ! i) = expires (dbs ?s ! i)"
    using discardTransaction_ok [OF step_okD(1) [OF 1] c1, of False] by metis
  show ?thesis
  proof (rule that [of s'])
    show "execCommand c s = Some s'" unfolding execCommand_def using f d(1) by (simp only: not_True_eq_False if_False if_True)
    show "replies (clients s' ! c) = replies (clients s ! c) @ [?r]" using step_ok_trans [OF 1 d(2)] by (simp add: step_ok_def)
    show "dict (dbs s' ! i) = dict (dbs s ! i) \<and> expires (dbs s' ! i) = expires (dbs s ! i)" if "i < length (dbs s)" for i
      using d(6) [of i] that by (simp add: addReply_def)
    show "\<not> has_flag s' c REDIS_MULTI" using d(5) [of 3] by simp
  qed (use d in simp_all)
qed

end
