(* ===== verification/Server_Props.thy ===== *)
theory Server_Props
  imports Server_Step Dict
begin

text \<open>
  The properties of the server: its invariant, that no command fails, that each sends one reply, that a transaction
  is executed as a whole or not at all, and what single commands do.
\<close>

section \<open>Concrete runs\<close>

definition default_config :: config where
  "default_config =
     \<lparr>requirepass = False, cluster_ok = True, getNodeByQuery = (\<lambda>s c. Myself), maxmemory = 0, maxmemory_policy = VolatileLru,
      maxmemory_samples = 3, mem_used = (\<lambda>s. 0), mem_delta = (\<lambda>s j key. 0), random_entry = (\<lambda>s j k. 0), idle_time = (\<lambda>s j key. 0), stop_writes_on_bgsave_err = True, saveparamslen = 0, lastbgsave_err = False, aof_last_write_err = False,
      repl_min_slaves_to_write = 0, repl_min_slaves_max_lag = 10, repl_good_slaves_count = 0, repl_slave_ro = True, repl_connected = True,
      repl_serve_stale_data = True, lua_timedout = False\<rparr>"

fun run :: "config \<Rightarrow> (nat \<times> bytes list) list \<Rightarrow> server \<Rightarrow> server option" where
  "run cf [] s = Some s"
| "run cf ((c, av) # xs) s = (if c < length (clients s) \<and> av \<noteq> [] then do { s \<leftarrow> handle_command cf c av s; run cf xs s } else None)"

declare run.simps [simp del]

lemma run_reachable:
  assumes "run cf xs s = Some s'" "list_all (\<lambda>(c, av). P c av) xs" "reachable cf P s0 s"
  shows "reachable cf P s0 s'"
  using assms
proof (induction xs arbitrary: s)
  case (Cons x xs)
  obtain c av where x: "x = (c, av)" by (cases x)
  then obtain s1 where "c < length (clients s)" "av \<noteq> []" "handle_command cf c av s = Some s1" "run cf xs s1 = Some s'"
    using Cons.prems(1) by (auto simp: run.simps split: if_splits bind_splits)
  moreover then have "reachable cf P s0 s1"
    using Cons.prems(2,3) x by (intro reachable.step [OF Cons.prems(3)] server_step.command) auto
  ultimately show ?case using Cons x by auto
qed (simp add: run.simps)

text \<open>Two clients of a server with two databases.\<close>

definition demo :: server where
  "demo = createClient (createClient (initServer 2 (\<lambda>n. 0) False))"

lemma demo_reachable: "reachable cf P (initServer 2 (\<lambda>n. 0) False) demo"
  unfolding demo_def by (rule reachable.step [OF reachable.step [OF reachable.start server_step.connect] server_step.connect])

lemma demo_clients: "length (clients demo) = 2" "client_db demo 0 = 0" "client_db demo 1 = 0" "map_of (expires (dbs demo ! 0)) k = None" "lookupKey 0 k demo = None"
  by (simp_all add: demo_def createClient_def initServer_def lookupKey_def)

lemma demo_dbs: "length (dbs demo) = 2" "dict (dbs demo ! 0) = []"
  by (simp_all add: demo_def createClient_def initServer_def)

abbreviation any_command :: "nat \<Rightarrow> bytes list \<Rightarrow> bool" where
  "any_command c av \<equiv> True"

abbreviation small_command :: "nat \<Rightarrow> bytes list \<Rightarrow> bool" where
  "small_command c av \<equiv> \<forall>a\<in>set av. small_arg a"

abbreviation move_free :: "nat \<Rightarrow> bytes list \<Rightarrow> bool" where
  "move_free c av \<equiv> command_proc av \<noteq> Some MoveCommand"

lemma inv_any: "reachable cf any_command (initServer dbnum clk cluster) s \<Longrightarrow> 0 < dbnum \<Longrightarrow> sys_inv False False s"
  by (erule reachable_inv) (auto simp: sys_inv_init allowed_def)

lemma inv_small:
  "reachable cf small_command (initServer dbnum clk cluster) s \<Longrightarrow> 0 < dbnum \<Longrightarrow> \<forall>n. 0 \<le> clk n \<and> clk n < 2 ^ 61 \<Longrightarrow> sys_inv True False s"
  by (erule reachable_inv) (auto simp: sys_inv_init allowed_def)

lemma inv_move_free:
  "reachable cf move_free (initServer dbnum clk cluster) s \<Longrightarrow> 0 < dbnum \<Longrightarrow> maxmemory cf = 0 \<Longrightarrow> sys_inv False True s"
  by (erule reachable_inv) (auto simp: sys_inv_init allowed_def)

section \<open>The whole server\<close>

text \<open>
  C1: In every state that a server with at least one database reaches, whatever its clients send, the watch tables of the databases and the
  lists of the clients describe the same relation, without repetitions or empty entries; the databases have each key once, an expire time
  only for existing keys and integers in the range of \<open>long long\<close>; every client has selected an existing database; and a queue of
  commands belongs to a client in a transaction and holds no \<open>EXEC\<close>, \<open>DISCARD\<close>, \<open>MULTI\<close> or \<open>WATCH\<close>.
\<close>

theorem server_invariant:
  assumes "0 < dbnum" and "reachable cf any_command (initServer dbnum clk cluster) s"
  shows "watch_ok s \<and> (\<forall>i<length (dbs s). db_inv (dbs s ! i)) \<and> (\<forall>c<length (clients s). client_db s c < length (dbs s)) \<and> queue_ok False False s"
  using inv_any [OF assms(2,1)] by (simp add: sys_inv_def core_inv_def)

lemma demo_run_reachable:
  "list_all (\<lambda>(c, av). P c av) xs \<Longrightarrow> run cf xs demo = Some s \<Longrightarrow> reachable cf P (initServer 2 (\<lambda>n. 0) False) s"
  by (rule run_reachable [OF _ _ demo_reachable])

lemma the_result: "case x of None \<Rightarrow> False | Some y \<Rightarrow> P y \<Longrightarrow> x = Some (the x) \<and> P (the x)"
  by (cases x) auto

text \<open>A test of the bound on arguments that computes on short ones.\<close>

definition tiny_arg :: "bytes \<Rightarrow> bool" where
  "tiny_arg a \<longleftrightarrow> length a < 100 \<and> (case string_ll a of None \<Rightarrow> True | Some v \<Rightarrow> \<bar>v\<bar> < 2 ^ 32)"

lemma tiny_arg: "tiny_arg a \<Longrightarrow> small_arg a"
  by (auto simp: tiny_arg_def small_arg_def split: option.splits)

lemma demo_run_small:
  assumes "list_all (\<lambda>(c, av). list_all tiny_arg av) xs" "run cf xs demo = Some s"
  shows "reachable cf small_command (initServer 2 (\<lambda>n. 0) False) s"
  using assms(1) by (intro demo_run_reachable [OF _ assms(2)]) (auto simp: list_all_iff tiny_arg dest!: bspec)

text \<open>Client 0 watches a key, starts a transaction and queues a command; the state before the \<open>EXEC\<close>.\<close>

definition demo_queued :: server where
  "demo_queued = the (run default_config [(1, [bstr ''set'', bstr ''k'', bstr ''5'']), (0, [bstr ''watch'', bstr ''k'']), (0, [bstr ''multi'']),
     (0, [bstr ''incr'', bstr ''k''])] demo)"

lemma demo_queued_facts:
  "run default_config [(1, [bstr ''set'', bstr ''k'', bstr ''5'']), (0, [bstr ''watch'', bstr ''k'']), (0, [bstr ''multi'']),
     (0, [bstr ''incr'', bstr ''k''])] demo = Some demo_queued \<and>
   ((watchers demo_queued 0 (bstr ''k'') = [0] \<and> 0 < length (clients demo_queued) \<and> has_flag demo_queued 0 REDIS_MULTI \<and>
     \<not> has_flag demo_queued 0 (REDIS_DIRTY_CAS OR REDIS_DIRTY_EXEC) \<and> length (mstate (clients demo_queued ! 0)) = 1) \<and>
    client_argv demo_queued 0 = [bstr ''incr'', bstr ''k''] \<and> client_db demo_queued 0 = 0 \<and>
    map_of (expires (dbs demo_queued ! 0)) (bstr ''k'') = None \<and> lookupKey 0 (bstr ''k'') demo_queued = Some (IntObj 5))"
  unfolding demo_queued_def by (rule the_result) code_simp

lemmas demo_queued_run = conjunct1 [OF demo_queued_facts]
lemmas demo_queued_client = conjunct1 [OF conjunct2 [OF demo_queued_facts]]
lemmas demo_queued_key = conjunct2 [OF conjunct2 [OF demo_queued_facts]]

lemma demo_queued_reachable:
  "reachable default_config any_command (initServer 2 (\<lambda>n. 0) False) demo_queued"
  "reachable default_config small_command (initServer 2 (\<lambda>n. 0) False) demo_queued"
proof -
  show "reachable default_config any_command (initServer 2 (\<lambda>n. 0) False) demo_queued"
    by (rule demo_run_reachable [OF _ demo_queued_run]) simp
  show "reachable default_config small_command (initServer 2 (\<lambda>n. 0) False) demo_queued"
    by (rule demo_run_small [OF _ demo_queued_run]) code_simp
qed

theorem server_invariant_witness: "watch_ok demo_queued \<and> watchers demo_queued 0 (bstr ''k'') = [0]"
  using server_invariant [OF _ demo_queued_reachable(1)] demo_queued_client by simp



text \<open>
  C5: Every command that is processed sends its client exactly one complete reply, where a multi bulk header counts the replies it
  announces, the ones of the queued commands of an \<open>EXEC\<close> included; no other client is sent anything.
\<close>

theorem one_reply_per_command:
  assumes "0 < dbnum" and "reachable cf any_command (initServer dbnum clk cluster) s"
    and "c < length (clients s)" and "av \<noteq> []" and "handle_command cf c av s = Some s'"
  shows "(\<exists>rs. one_reply rs \<and> replies (clients s' ! c) = replies (clients s ! c) @ rs) \<and>
    (\<forall>x<length (clients s). x \<noteq> c \<longrightarrow> replies (clients s' ! x) = replies (clients s ! x))"
  using command_ok [OF inv_any [OF assms(2,1)] assms(3,4) _ _ assms(5)]
  by (fastforce simp: allowed_def step_ok_def same_session_def)

theorem one_reply_per_command_witness:
  "\<exists>rs. one_reply rs \<and> replies (clients (the (handle_command default_config 0 [bstr ''ping''] demo)) ! 0) = replies (clients demo ! 0) @ rs"
proof (rule one_reply_per_command [OF _ demo_reachable, THEN conjunct1])
  show "handle_command default_config 0 [bstr ''ping''] demo = Some (the (handle_command default_config 0 [bstr ''ping''] demo))"
    by (rule conjunct1 [OF the_result [where P = "\<lambda>_. True"]]) code_simp
qed (simp_all add: demo_clients)

section \<open>Transactions\<close>

lemma step_ok_globals: "step_ok b m free rs c s s' \<Longrightarrow> length (dbs s') = length (dbs s)"
  by (simp add: step_ok_def same_globals_def)


text \<open>Client 0 watches a key and starts a transaction; client 1 then sets the key.\<close>

definition demo_watched :: server where
  "demo_watched = the (run default_config [(0, [bstr ''watch'', bstr ''k''])] demo)"

definition demo_overtaken :: server where
  "demo_overtaken = the (run default_config [(0, [bstr ''multi'']), (1, [bstr ''set'', bstr ''k'', bstr ''5'']), (0, [bstr ''incr'', bstr ''k''])] demo_watched)"

lemma demo_watched_facts:
  "run default_config [(0, [bstr ''watch'', bstr ''k''])] demo = Some demo_watched \<and>
   (0 < length (clients demo_watched) \<and> (bstr ''k'', 0) \<in> set (watching (clients demo_watched ! 0)) \<and>
    map_of (expires (dbs demo_watched ! 0)) (bstr ''k'') = None \<and> map_of (dict (dbs demo_watched ! 0)) (bstr ''k'') = None)"
  unfolding demo_watched_def by (rule the_result) code_simp

lemma demo_overtaken_facts:
  "run default_config [(0, [bstr ''multi'']), (1, [bstr ''set'', bstr ''k'', bstr ''5'']), (0, [bstr ''incr'', bstr ''k''])] demo_watched = Some demo_overtaken \<and>
   (map_of (dict (dbs demo_overtaken ! 0)) (bstr ''k'') \<noteq> None \<and> has_flag demo_overtaken 0 REDIS_MULTI)"
  unfolding demo_overtaken_def by (rule the_result) code_simp

lemma demo_watched_reachable: "reachable default_config move_free (initServer 2 (\<lambda>n. 0) False) demo_watched"
  by (rule demo_run_reachable [OF _ conjunct1 [OF demo_watched_facts]]) code_simp

lemma demo_overtaken_reachable:
  "reachable default_config (\<lambda>c av. command_proc av \<noteq> Some MoveCommand \<and> (c = 0 \<longrightarrow> \<not> frees av)) demo_watched demo_overtaken"
  by (rule run_reachable [OF conjunct1 [OF demo_overtaken_facts] _ reachable.start]) code_simp




text \<open>
  C19: A command that is unknown or has a wrong number of arguments spoils a transaction: it is answered with the error and not queued, and the following
  \<open>EXEC\<close> sends the abort error, executes nothing, leaves all databases as they are and ends the transaction.
\<close>

theorem rejected_command_aborts:
  assumes "0 < dbnum" and "reachable cf any_command (initServer dbnum clk cluster) s" and "c < length (clients s)" and "av \<noteq> []"
    and "has_flag s c REDIS_MULTI" and "\<not> is_quit (hd av)"
    and "case lookupCommand (hd av) of None \<Rightarrow> e = UnknownCommand
         | Some cm \<Rightarrow> e = WrongArity \<and> (arity cm > 0 \<and> arity cm \<noteq> int (length av) \<or> int (length av) < - arity cm)"
  shows "\<exists>s1 s2. handle_command cf c av s = Some s1 \<and> execCommand c s1 = Some s2 \<and>
    mstate (clients s1 ! c) = mstate (clients s ! c) \<and>
    replies (clients s2 ! c) = replies (clients s ! c) @ [Error e, Error ExecAbort] \<and>
    (\<forall>j<length (dbs s). dict (dbs s2 ! j) = dict (dbs s ! j) \<and> expires (dbs s2 ! j) = expires (dbs s ! j)) \<and>
    \<not> has_flag s2 c REDIS_MULTI \<and> mstate (clients s2 ! c) = []"
proof -
  let ?s0 = "upd_client c (\<lambda>cl. cl\<lparr>cmd := lookupCommand (hd av)\<rparr>) (upd_client c (\<lambda>cl. cl\<lparr>argv := av\<rparr>) s)"
  let ?s = "reject c e ?s0"
  have core: "core_inv False s" using inv_any [OF assms(2,1)] by (simp add: sys_inv_def)
  have h: "handle_command cf c av s = Some ?s"
    using assms(3,4,6,7) by (auto simp: handle_command_def processCommand_def arg_def hd_conv_nth split: option.splits)
  have "\<exists>rs. one_reply rs \<and> step_ok False False (frees av) rs c s ?s"
    by (rule command_ok [OF inv_any [OF assms(2,1)] assms(3,4) _ _ h]) (simp_all add: allowed_def)
  then have s1: "core_inv False ?s" using step_okD(1) by blast
  have cl: "clients ?s ! c = (clients s ! c)\<lparr>argv := av, cmd := lookupCommand (hd av), flags := flags (clients s ! c) OR REDIS_DIRTY_EXEC,
      replies := replies (clients s ! c) @ [Error e]\<rparr>" "dbs ?s = dbs s" "c < length (clients ?s)"
    using assms(3,5) by (simp_all add: reject_def flagTransaction_def set_flags_def addReply_def)
  have f: "has_flag ?s c REDIS_MULTI" "has_flag ?s c REDIS_DIRTY_EXEC" "has_flag ?s c (REDIS_DIRTY_CAS OR REDIS_DIRTY_EXEC)"
    using assms(5) by (simp_all add: cl bit_or_iff)
  obtain s2 where s2: "execCommand c ?s = Some s2"
    "replies (clients s2 ! c) = replies (clients ?s ! c) @ [if has_flag ?s c REDIS_DIRTY_EXEC then Error ExecAbort else NullMultiBulk]"
    "\<And>i. i < length (dbs ?s) \<Longrightarrow> dict (dbs s2 ! i) = dict (dbs ?s ! i) \<and> expires (dbs s2 ! i) = expires (dbs ?s ! i)"
    "\<not> has_flag s2 c REDIS_MULTI" "mstate (clients s2 ! c) = []"
    using exec_aborted [OF s1 cl(3) f(1,3)] by metis
  show ?thesis
    using h s2 f(2) by (intro exI [of _ ?s] exI [of _ s2]) (simp add: cl(1,2))
qed

theorem rejected_command_aborts_witness:
  "\<exists>s1 s2. handle_command default_config 0 [bstr ''get''] demo_queued = Some s1 \<and> execCommand 0 s1 = Some s2 \<and>
    replies (clients s2 ! 0) = replies (clients demo_queued ! 0) @ [Error WrongArity, Error ExecAbort]"
proof -
  have "\<not> is_quit (hd [bstr ''get'']) \<and> (case lookupCommand (hd [bstr ''get'']) of None \<Rightarrow> WrongArity = UnknownCommand
         | Some cm \<Rightarrow> WrongArity = WrongArity \<and> (arity cm > 0 \<and> arity cm \<noteq> int (length [bstr ''get'']) \<or> int (length [bstr ''get'']) < - arity cm))"
    by code_simp
  then show ?thesis
    using rejected_command_aborts [OF _ demo_queued_reachable(1), of 0 "[bstr ''get'']" WrongArity] demo_queued_client by auto
qed

section \<open>Single commands\<close>

abbreviation with_argv :: "nat \<Rightarrow> bytes list \<Rightarrow> server \<Rightarrow> server" where
  "with_argv c av s \<equiv> upd_client c (\<lambda>cl. cl\<lparr>argv := av\<rparr>) s"

lemma core_with_argv: "core_inv b s \<Longrightarrow> c < length (clients s) \<Longrightarrow> core_inv b (with_argv c av s)"
  by (rule step_okD(1) [OF step_ok_client]) auto

lemma expireIfNeeded_none: "map_of (expires (dbs s ! i)) key = None \<Longrightarrow> expireIfNeeded i key s = Some (False, s)"
  by (simp add: expireIfNeeded_def getExpire_def)

lemma set_stores:
  assumes s: "core_inv True s" and c: "c < length (clients s)" and av: "client_argv s c = [n, k, v]"
  shows "\<exists>s' val. setCommand c s = Some s' \<and> keeps True {} [Ok] (client_db s c) c s s' \<and>
    lookupKey (client_db s c) k s' = Some val \<and> is_string val \<and> obj_bytes val = v \<and> map_of (expires (dbs s' ! client_db s c)) k = None"
proof -
  let ?D = "client_db s c"
  have k0: "keeps True {} [] ?D c s s" by (rule core_keeps [OF s c])
  obtain val where val: "tryObjectEncoding v = Some val" "val_ok val" "is_string val" "obj_bytes val = v" by (rule tryObjectEncoding_spec)
  have eq: "setCommand c s = do { x \<leftarrow> setKey ?D k val s; Some (addReply c Ok (add_dirty 1 x)) }"
    using av val(1) by (simp add: setCommand_def arg_def setGenericCommand_def set_expire_ms_def set_aborts_def)
  have "hold True (setKey ?D k val s) (\<lambda>x. keeps True {} [] ?D c s x \<and> lookupKey ?D k x = Some val \<and> map_of (expires (dbs x ! ?D)) k = None)"
    by (rule hold_setKey [OF k0 keepsD0(2) [OF k0] val(2)]) simp
  then obtain x where x: "setKey ?D k val s = Some x" "keeps True {} [] ?D c s x" "lookupKey ?D k x = Some val" "map_of (expires (dbs x ! ?D)) k = None"
    by (auto simp: hold_def split: option.splits)
  have "keeps True {} [Ok] ?D c s (addReply c Ok (add_dirty 1 x))"
    using keeps_addReply [of True "{}" "[]" ?D c s "add_dirty 1 x" Ok] x(2) by simp
  then show ?thesis
    using x val eq by (intro exI [of _ "addReply c Ok (add_dirty 1 x)"] exI [of _ val]) (simp add: addReply_def add_dirty_def lookupKey_def)
qed

lemma get_reads:
  assumes "c < length (clients s)" "client_argv s c = [n, k]" "lookupKey (client_db s c) k s = Some val" "is_string val"
    "map_of (expires (dbs s ! client_db s c)) k = None"
  shows "\<exists>s'. getCommand c s = Some s' \<and> replies (clients s' ! c) = replies (clients s ! c) @ [Bulk (obj_bytes val)]"
  using assms
  by (simp add: getCommand_def getGenericCommand_def arg_def lookupKeyReadOrReply_def lookupKeyRead_def expireIfNeeded_none Let_def addReply_def)

text \<open>
  C17: What \<open>SET\<close> stores, \<open>GET\<close> returns: in every reachable state (arguments and clock in the bounds) a \<open>SET\<close> of any
  key to any value is answered with OK, and a \<open>GET\<close> of the key by any client of the same database is then answered with
  the bytes of the value, also where the value was stored as an integer, and where the key existed with another type or an expire time.
\<close>

theorem set_get:
  assumes "0 < dbnum" and "\<forall>n. 0 \<le> clk n \<and> clk n < 2 ^ 61" and "reachable cf small_command (initServer dbnum clk cluster) s"
    and "c < length (clients s)" and "c' < length (clients s)" and "client_db s c' = client_db s c"
  shows "\<exists>s1 s2. setCommand c (with_argv c [n, k, v] s) = Some s1 \<and> replies (clients s1 ! c) = replies (clients s ! c) @ [Ok] \<and>
    getCommand c' (with_argv c' [n', k] s1) = Some s2 \<and> replies (clients s2 ! c') = replies (clients s1 ! c') @ [Bulk v]"
proof -
  let ?s = "with_argv c [n, k, v] s" and ?D = "client_db s c"
  have D: "client_db ?s c = ?D" "client_db ?s c' = ?D" "replies (clients ?s ! c) = replies (clients s ! c)"
    using assms(4-6) by (cases "c' = c"; simp)+
  have "core_inv True ?s" using inv_small [OF assms(3,1,2)] assms(4) by (intro core_with_argv) (auto simp: sys_inv_def)
  from set_stores [OF this, of c n k v] D assms(4) obtain s1 val where s1: "setCommand c ?s = Some s1" "keeps True {} [Ok] ?D c ?s s1"
      "lookupKey ?D k s1 = Some val" "is_string val" "obj_bytes val = v" "map_of (expires (dbs s1 ! ?D)) k = None" by auto
  have r: "replies (clients s1 ! c) = replies (clients s ! c) @ [Ok]" using s1(2) D(3) by (simp add: keeps_defs)
  have c1: "c' < length (clients s1)" "client_db s1 c' = ?D"
    using s1(2) D(2) assms(5) by (cases "c' = c"; auto simp: keeps_defs client_frame_def same_session_def)+
  have "\<exists>s2. getCommand c' (with_argv c' [n', k] s1) = Some s2 \<and>
      replies (clients s2 ! c') = replies (clients (with_argv c' [n', k] s1) ! c') @ [Bulk (obj_bytes val)]"
    by (rule get_reads) (use c1 s1 in \<open>simp_all add: lookupKey_def\<close>)
  then show ?thesis using s1(1,5) r c1(1) by auto
qed

theorem set_get_witness:
  "\<exists>s1 s2. setCommand 0 (with_argv 0 [bstr ''set'', bstr ''k'', bstr ''12''] demo) = Some s1 \<and>
    getCommand 1 (with_argv 1 [bstr ''get'', bstr ''k''] s1) = Some s2 \<and> replies (clients s2 ! 1) = replies (clients s1 ! 1) @ [Bulk (bstr ''12'')]"
  using set_get [OF _ _ demo_reachable, of 0 1 "bstr ''set''" "bstr ''k''" "bstr ''12''" "bstr ''get''"] demo_clients by auto



section \<open>The key space and its hash table\<close>

text \<open>The operations of the key space on one database as operations of a dictionary.\<close>

definition db_add :: "nat \<Rightarrow> server \<Rightarrow> bytes \<Rightarrow> robj \<Rightarrow> (server \<times> bool) option" where
  "db_add i s k v = (if dbExists i k s then Some (s, False) else do { s \<leftarrow> dbAdd i k v s; Some (s, True) })"

definition db_replace :: "nat \<Rightarrow> server \<Rightarrow> bytes \<Rightarrow> robj \<Rightarrow> (server \<times> bool) option" where
  "db_replace i s k v = (if dbExists i k s then do { s \<leftarrow> dbOverwrite i k v s; Some (s, False) } else do { s \<leftarrow> dbAdd i k v s; Some (s, True) })"

definition db_delete :: "nat \<Rightarrow> server \<Rightarrow> bytes \<Rightarrow> (server \<times> bool) option" where
  "db_delete i s k = (let (r, s) = dbDelete i k s in Some (s, r))"

definition db_fetch :: "nat \<Rightarrow> server \<Rightarrow> bytes \<Rightarrow> (server \<times> robj option) option" where
  "db_fetch i s k = Some (s, lookupKey i k s)"

definition db_rep :: "nat \<Rightarrow> server \<Rightarrow> (bytes \<rightharpoonup> robj) \<Rightarrow> nat \<Rightarrow> bool" where
  "db_rep i s m n \<longleftrightarrow> i < length (dbs s) \<and> map_of (dict (dbs s ! i)) = m"

lemma dbDelete_map:
  assumes "i < length (dbs s)"
  shows "fst (dbDelete i k s) \<longleftrightarrow> map_of (dict (dbs s ! i)) k \<noteq> None"
    "map_of (dict (dbs (snd (dbDelete i k s)) ! i)) = (map_of (dict (dbs s ! i)))(k := None)"
    "length (dbs (snd (dbDelete i k s))) = length (dbs s)"
  using assms by (auto simp: dbDelete_def dbExists_def delete_conv' Let_def)

interpretation kmap: map_container "db_rep i" "db_add i" "db_replace i" "db_delete i" "db_fetch i" capacity
  for i capacity
proof
  fix d m n n' k v
  assume rep: "db_rep i d m n"
  then show "db_rep i d m n'" by (simp add: db_rep_def)
  show "\<exists>d'. db_add i d k v = Some (d', m k = None) \<and> db_rep i d' (if m k = None then m(k \<mapsto> v) else m) (Suc n)"
    "\<exists>d'. db_replace i d k v = Some (d', m k = None) \<and> db_rep i d' (m(k \<mapsto> v)) (Suc n)"
    using rep by (auto simp: db_rep_def db_add_def db_replace_def dbExists_def dbAdd_def dbOverwrite_def update_conv' del: exI)
  show "\<exists>d'. db_delete i d k = Some (d', m k \<noteq> None) \<and> db_rep i d' (m(k := None)) n"
    using rep dbDelete_map [of i d k] by (auto simp: db_rep_def db_delete_def split: prod.splits)
  show "\<exists>d'. db_fetch i d k = Some (d', m k) \<and> db_rep i d' m n"
    using rep by (auto simp: db_rep_def db_fetch_def lookupKey_def)
qed

text \<open>
  C12: The dictionary of a database in the server model is an association list, the one of the program a hash table. For the operations of the key
  space this makes no difference: on an empty database and on a new hash table of \<open>dict.c\<close>, whatever its hash function, every
  sequence of additions, replacements, deletions and lookups gets the same replies and leaves the same map.
\<close>

theorem keyspace_hash_table:
  assumes "length ops \<le> dict_capacity" and "i < length (dbs s)" and "dict (dbs s ! i) = []"
  shows "\<exists>d s' rs.
    run_mapops (run_mapop (dict_add hf cr junk) (dictReplace hf cr junk) (dict_del hf) (dictFetchValue hf)) dictCreate ops = Some (d, rs) \<and>
    run_mapops (run_mapop (db_add i) (db_replace i) (db_delete i) (db_fetch i)) s ops = Some (s', rs) \<and>
    dict_map d = map_of (dict (dbs s' ! i))"
proof -
  have "db_rep i s Map.empty 0" using assms(2,3) by (simp add: db_rep_def)
  from kmap.run_mapops_correct [OF this, of ops dict_capacity] assms(1) obtain s' where
    "run_mapops (run_mapop (db_add i) (db_replace i) (db_delete i) (db_fetch i)) s ops = Some (s', snd (abs_mapops Map.empty ops))"
    "map_of (dict (dbs s' ! i)) = fst (abs_mapops Map.empty ops)"
    by (auto simp: db_rep_def)
  moreover obtain d where "dict_map d = fst (abs_mapops Map.empty ops)"
    "run_mapops (run_mapop (dict_add hf cr junk) (dictReplace hf cr junk) (dict_del hf) (dictFetchValue hf)) dictCreate ops = Some (d, snd (abs_mapops Map.empty ops))"
    using dmap.run_mapops_correct [OF dictCreate_rep, of ops hf cr junk] assms(1) by (auto simp: dict_rep_def)
  ultimately show ?thesis by auto
qed

theorem keyspace_hash_table_witness:
  "\<exists>d s' rs.
    run_mapops (run_mapop (dict_add length True (IntObj 0)) (dictReplace length True (IntObj 0)) (dict_del length) (dictFetchValue length)) dictCreate
      [MAdd (bstr ''a'') (IntObj 1), MReplace (bstr ''b'') (IntObj 2), MDelete (bstr ''a''), MFetch (bstr ''b'')] = Some (d, rs) \<and>
    run_mapops (run_mapop (db_add 0) (db_replace 0) (db_delete 0) (db_fetch 0)) demo
      [MAdd (bstr ''a'') (IntObj 1), MReplace (bstr ''b'') (IntObj 2), MDelete (bstr ''a''), MFetch (bstr ''b'')] = Some (s', rs)"
  using keyspace_hash_table [of "[MAdd (bstr ''a'') (IntObj 1), MReplace (bstr ''b'') (IntObj 2), MDelete (bstr ''a''), MFetch (bstr ''b'')]" 0 demo length
      True "IntObj 0"] demo_dbs
  by (auto simp: dict_capacity_def)

section \<open>Limits\<close>


text \<open>
  C38: \<open>GETRANGE\<close> compares the end of the range with the length of the string in 32 bits: an end beyond the string whose lower
  32 bits are less than its length is taken as it is, and bytes after the string are read.
\<close>

theorem getrange_overread:
  assumes "client_argv s c = [n, k, a, b]" and "string_ll a = Some start" and "string_ll b = Some end'"
    and "map_of (expires (dbs s ! client_db s c)) k = None" and "lookupKey (client_db s c) k s = Some (StrObj str)"
    and "0 \<le> start" and "start \<le> end'" and "int (length str) \<le> end'" and "end' mod 2 ^ 32 < int (length str)"
  shows "getrangeCommand c s = None"
proof -
  have "mem_read str (nat start) (nat (end' - start + 1)) = None" using assms(6-8) by (auto simp: mem_read_def)
  moreover have "range_bounds (length str) start end' = (start, end')" using assms(6-9) by (simp add: range_bounds_def)
  ultimately show ?thesis
    using assms
    by (simp add: getrangeCommand_def arg_def getLongLongFromObjectOrReply_def getLongLongFromObject_def lookupKeyReadOrReply_def
        lookupKeyRead_def expireIfNeeded_none Let_def lookupKey_def)
qed

definition demo_abc :: server where
  "demo_abc = the (handle_command default_config 0 [bstr ''set'', bstr ''k'', bstr ''abc''] demo)"

lemma demo_abc_facts:
  "handle_command default_config 0 [bstr ''set'', bstr ''k'', bstr ''abc''] demo = Some demo_abc \<and>
   (length (clients demo_abc) = 2 \<and> client_db demo_abc 0 = 0 \<and> map_of (expires (dbs demo_abc ! 0)) (bstr ''k'') = None \<and>
    lookupKey 0 (bstr ''k'') demo_abc = Some (StrObj (bstr ''abc'')))"
  unfolding demo_abc_def by (rule the_result) code_simp

theorem getrange_overread_witness:
  "getrangeCommand 0 (with_argv 0 [bstr ''getrange'', bstr ''k'', bstr ''0'', bstr ''4294967296''] demo_abc) = None"
proof -
  have "string_ll (bstr ''0'') = Some 0 \<and> string_ll (bstr ''4294967296'') = Some 4294967296"
    by (simp add: string_ll_def c_strtoll_def Let_def isspace_def isdigit_def LLONG_MIN_def LLONG_MAX_def)
  then show ?thesis using demo_abc_facts by (intro getrange_overread [where str = "bstr ''abc''"]) (auto simp: lookupKey_def)
qed

end
