(* ===== verification/Request.thy ===== *)
theory Request
  imports Multi Sds
begin

text \<open>
  Reading requests from a connection, \<open>networking.c\<close>: the query buffer, the two request formats and the loop that processes what has
  arrived. The query buffer is the string it holds; that \<open>sdsrange\<close>, \<open>sdsMakeRoomFor\<close> and \<open>sdsIncrLen\<close> change the string
  as intended is shown in \<open>Sds\<close>. The fields of the client that belong to the connection are the record \<open>conn\<close>; its flags and replies are
  in the state of the server. \<open>args\<close> is the part of \<open>c->argv\<close> that is filled, and \<open>argv_room\<close> the number of pointers that were
  allocated for it. \<open>processCommand\<close> is the argument \<open>pr\<close>, and \<open>paused\<close> tells whether the clients are paused.
  \<open>None\<close> is a failed assertion, a read after the terminator of the buffer, a write after the end of \<open>argv\<close>, or a negative length given to \<open>read\<close>.
\<close>

section \<open>The code\<close>

record conn =
  querybuf :: bytes
  reqtype :: nat
  multibulklen :: nat
  bulklen :: int
  args :: "bytes list"
  argv_room :: nat
  freed :: bool

definition REDIS_REQ_INLINE :: nat where "REDIS_REQ_INLINE = 1"
definition REDIS_REQ_MULTIBULK :: nat where "REDIS_REQ_MULTIBULK = 2"
definition REDIS_INLINE_MAX_SIZE :: nat where "REDIS_INLINE_MAX_SIZE = 1024 * 64"
definition REDIS_MBULK_BIG_ARG :: nat where "REDIS_MBULK_BIG_ARG = 1024 * 32"
definition REDIS_IOBUF_LEN :: nat where "REDIS_IOBUF_LEN = 1024 * 16"
definition REDIS_MAX_QUERYBUF_LEN :: nat where "REDIS_MAX_QUERYBUF_LEN = 1024 * 1024 * 1024"

definition REDIS_SLAVE :: "32 word" where "REDIS_SLAVE = push_bit 0 1"
definition REDIS_BLOCKED :: "32 word" where "REDIS_BLOCKED = push_bit 4 1"
definition REDIS_ASKING :: "32 word" where "REDIS_ASKING = push_bit 9 1"

text \<open>The part of \<open>createClient\<close> that concerns the connection.\<close>

definition new_conn :: conn where
  "new_conn = \<lparr>querybuf = [], reqtype = 0, multibulklen = 0, bulklen = - 1, args = [], argv_room = 0, freed = False\<rparr>"

definition freeClientArgv :: "nat \<Rightarrow> conn \<Rightarrow> server \<Rightarrow> conn \<times> server" where
  "freeClientArgv c q s = (q\<lparr>args := []\<rparr>, upd_client c (\<lambda>cl. cl\<lparr>argv := [], cmd := None\<rparr>) s)"

text \<open>The command \<open>ASKING\<close> is not among the modelled ones, so the previous command is not it.\<close>

definition resetClient :: "nat \<Rightarrow> conn \<Rightarrow> server \<Rightarrow> conn \<times> server" where
  "resetClient c q s =
     (let (q, s) = freeClientArgv c q s;
          q = q\<lparr>reqtype := 0, multibulklen := 0, bulklen := - 1\<rparr>;
          s = (if \<not> has_flag s c REDIS_MULTI then clear_flags c REDIS_ASKING s else s)
      in (q, s))"

text \<open>\<open>strchr\<close> from a position of the buffer: the buffer ends with a NUL.\<close>

definition strchr_from :: "bytes \<Rightarrow> nat \<Rightarrow> byte \<Rightarrow> nat option option" where
  "strchr_from b pos ch = do {
     ensure (pos \<le> length b);
     let i = pos + length (takeWhile (\<lambda>x. x \<noteq> ch \<and> x \<noteq> 0) (drop pos b));
     Some (if i < length b \<and> b ! i = ch then Some i else None)
   }"

definition setProtocolError :: "nat \<Rightarrow> nat \<Rightarrow> conn \<Rightarrow> server \<Rightarrow> conn \<times> server" where
  "setProtocolError c pos q s = (q\<lparr>querybuf := drop pos (querybuf q)\<rparr>, set_flags c REDIS_CLOSE_AFTER_REPLY s)"

abbreviation protocol_error :: "nat \<Rightarrow> nat \<Rightarrow> conn \<Rightarrow> server \<Rightarrow> conn \<times> server" where
  "protocol_error c pos q s \<equiv> setProtocolError c pos q (addReply c (Error ProtocolError) s)"

text \<open>The first component of the result is the return value \<open>REDIS_OK\<close>. The time of the last acknowledgement of a slave is not modelled.\<close>

definition processInlineBuffer :: "fresh_mem \<Rightarrow> nat \<Rightarrow> conn \<Rightarrow> server \<Rightarrow> (bool \<times> conn \<times> server) option" where
  "processInlineBuffer g c q s = do {
     newline \<leftarrow> strchr_from (querybuf q) 0 10;
     (case newline of
        None \<Rightarrow> Some (False, if length (querybuf q) > REDIS_INLINE_MAX_SIZE then protocol_error c 0 q s else (q, s))
      | Some newline \<Rightarrow> do {
          let newline = (if newline \<noteq> 0 \<and> querybuf q ! (newline - 1) = 13 then newline - 1 else newline);
          let querylen = newline;
          r \<leftarrow> sdssplitargs g (take querylen (querybuf q));
          (case r of
             None \<Rightarrow> Some (False, protocol_error c 0 q s)
           | Some v \<Rightarrow>
               Some (True, q\<lparr>querybuf := drop (querylen + 2) (querybuf q), argv_room := length v, args := filter (\<lambda>a. a \<noteq> []) (map sds_str v)\<rparr>, s))
        })
   }"

text \<open>How the parts of \<open>processMultibulkBuffer\<close> end: it goes on from a position, leaves the loop, or returns.\<close>

datatype outcome = Go nat conn server | Break nat conn server | Return bool conn server

definition read_multibulklen :: "nat \<Rightarrow> conn \<Rightarrow> server \<Rightarrow> outcome option" where
  "read_multibulklen c q s = do {
     ensure (args q = []);
     newline \<leftarrow> strchr_from (querybuf q) 0 13;
     (case newline of
        None \<Rightarrow>
          (let (q, s) = (if length (querybuf q) > REDIS_INLINE_MAX_SIZE then protocol_error c 0 q s else (q, s))
           in Some (Return False q s))
      | Some newline \<Rightarrow>
          if int newline > int (length (querybuf q)) - 2 then Some (Return False q s)
          else do {
            ch \<leftarrow> mem_byte (querybuf q @ [0]) 0;
            ensure (ch = 42);
            r \<leftarrow> string2ll (drop 1 (querybuf q) @ [0]) (newline - 1);
            (case r of
               None \<Rightarrow> (let (q, s) = protocol_error c 0 q s in Some (Return False q s))
             | Some v \<Rightarrow>
                 if v > 1024 * 1024 then (let (q, s) = protocol_error c 0 q s in Some (Return False q s))
                 else do {
                   let pos = newline + 2;
                   if v \<le> 0 then Some (Return True (q\<lparr>querybuf := drop pos (querybuf q)\<rparr>) s)
                   else Some (Go pos (q\<lparr>multibulklen := nat v, argv_room := nat v\<rparr>) s)
                 })
          })
   }"

definition read_bulklen :: "nat \<Rightarrow> nat \<Rightarrow> conn \<Rightarrow> server \<Rightarrow> outcome option" where
  "read_bulklen c pos q s =
     (if bulklen q \<noteq> - 1 then Some (Go pos q s)
      else do {
        newline \<leftarrow> strchr_from (querybuf q) pos 13;
        (case newline of
           None \<Rightarrow>
             (let (q, s) = (if length (querybuf q) > REDIS_INLINE_MAX_SIZE then protocol_error c 0 q s else (q, s))
              in Some (Break pos q s))
         | Some newline \<Rightarrow>
             if int newline > int (length (querybuf q)) - 2 then Some (Break pos q s)
             else do {
               ch \<leftarrow> mem_byte (querybuf q @ [0]) pos;
               if ch \<noteq> 36 then (let (q, s) = protocol_error c pos q s in Some (Return False q s))
               else do {
                 r \<leftarrow> string2ll (drop (pos + 1) (querybuf q) @ [0]) (newline - (pos + 1));
                 (case r of
                    None \<Rightarrow> (let (q, s) = protocol_error c pos q s in Some (Return False q s))
                  | Some v \<Rightarrow>
                      if v < 0 \<or> v > 512 * 1024 * 1024 then (let (q, s) = protocol_error c pos q s in Some (Return False q s))
                      else do {
                        let pos = newline + 2;
                        let (pos, q) = (if v \<ge> int REDIS_MBULK_BIG_ARG then (0, q\<lparr>querybuf := drop pos (querybuf q)\<rparr>) else (pos, q));
                        Some (Go pos (q\<lparr>bulklen := v\<rparr>) s)
                      })
               }
             })
      })"

text \<open>The bulk argument itself; the first argument is the number of arguments that are still missing after it.\<close>

definition read_bulk :: "nat \<Rightarrow> nat \<Rightarrow> conn \<Rightarrow> server \<Rightarrow> outcome option" where
  "read_bulk n pos q s =
     (if int (length (querybuf q)) - int pos < bulklen q + 2 then Some (Break pos q s)
      else do {
        ensure (length (args q) < argv_room q);
        let len = nat (bulklen q);
        let (pos, q) =
          (if pos = 0 \<and> len \<ge> REDIS_MBULK_BIG_ARG \<and> length (querybuf q) = len + 2
           then (0, q\<lparr>args := args q @ [take len (querybuf q)], querybuf := []\<rparr>)
           else (pos + len + 2, q\<lparr>args := args q @ [take len (drop pos (querybuf q))]\<rparr>));
        Some (Go pos (q\<lparr>bulklen := - 1, multibulklen := n\<rparr>) s)
      })"

text \<open>The loop; the first argument is \<open>c->multibulklen\<close>.\<close>

fun bulk_loop :: "nat \<Rightarrow> nat \<Rightarrow> nat \<Rightarrow> conn \<Rightarrow> server \<Rightarrow> outcome option" where
  "bulk_loop 0 c pos q s = Some (Break pos q s)"
| "bulk_loop (Suc n) c pos q s = do {
     r \<leftarrow> read_bulklen c pos q s;
     (case r of
        Go pos q s \<Rightarrow> do {
          r \<leftarrow> read_bulk n pos q s;
          (case r of Go pos q s \<Rightarrow> bulk_loop n c pos q s | _ \<Rightarrow> Some r)
        }
      | _ \<Rightarrow> Some r)
   }"

definition processMultibulkBuffer :: "nat \<Rightarrow> conn \<Rightarrow> server \<Rightarrow> (bool \<times> conn \<times> server) option" where
  "processMultibulkBuffer c q s = do {
     r \<leftarrow> (if multibulklen q = 0 then read_multibulklen c q s else Some (Go 0 q s));
     r \<leftarrow> (case r of Go pos q s \<Rightarrow> bulk_loop (multibulklen q) c pos q s | _ \<Rightarrow> Some r);
     (case r of
        Return ok q s \<Rightarrow> Some (ok, q, s)
      | Break pos q s \<Rightarrow> Some (multibulklen q = 0, q\<lparr>querybuf := drop pos (querybuf q)\<rparr>, s)
      | Go pos q s \<Rightarrow> None)
   }"

subsection \<open>The loop over the buffer\<close>

text \<open>A request that is accepted has taken something from the buffer.\<close>

lemma strchr_from_le: "strchr_from b pos ch = Some (Some i) \<Longrightarrow> pos \<le> i \<and> i < length b"
  by (auto simp: strchr_from_def Let_def split: if_splits)

lemma inline_consumes:
  "processInlineBuffer g c q s = Some (True, q', s') \<Longrightarrow> querybuf q \<noteq> [] \<Longrightarrow> length (querybuf q') < length (querybuf q)"
  by (auto simp: processInlineBuffer_def Let_def split: bind_splits option.splits)

definition shrunk :: "bytes \<Rightarrow> nat \<Rightarrow> conn \<Rightarrow> bool" where
  "shrunk b pos q \<longleftrightarrow> length (querybuf q) - pos < length b \<and> length (querybuf q) \<le> length b"

lemma read_bulklen_shrunk:
  assumes "read_bulklen c pos q s = Some (Go pos' q' s')" "length (querybuf q) \<le> length b"
  shows "length (querybuf q') \<le> length b" "shrunk b pos q \<Longrightarrow> shrunk b pos' q'" "multibulklen q' = multibulklen q"
  using assms
  by (auto simp: read_bulklen_def setProtocolError_def Let_def shrunk_def split: if_splits option.splits bind_splits dest!: strchr_from_le)

lemma read_bulklen_break:
  assumes "read_bulklen c pos q s = Some r" "r = Break pos' q' s' \<or> r = Return ok q' s'"
  shows "r = Break pos' q' s' \<Longrightarrow> pos' = pos \<and> querybuf q' = querybuf q \<and> multibulklen q' = multibulklen q" "r = Return ok q' s' \<Longrightarrow> \<not> ok"
  using assms
  by (auto simp: read_bulklen_def setProtocolError_def Let_def split: if_splits option.splits bind_splits prod.splits)

lemma read_bulk_shrunk:
  assumes "read_bulk n pos q s = Some r" "length (querybuf q) \<le> length b" "b \<noteq> []"
  shows "r = Go pos' q' s' \<Longrightarrow> shrunk b pos' q' \<and> multibulklen q' = n" "r = Break pos' q' s' \<Longrightarrow> pos' = pos \<and> q' = q" "r \<noteq> Return ok q' s'"
  using assms by (cases b; auto simp: read_bulk_def shrunk_def Let_def split: if_splits bind_splits)+

lemma bulk_loop_shrunk:
  assumes "bulk_loop n c pos q s = Some r" "length (querybuf q) \<le> length b" "b \<noteq> []" "multibulklen q = n" "n = 0 \<Longrightarrow> shrunk b pos q"
  shows "(\<forall>pos' q' s'. r = Break pos' q' s' \<longrightarrow> multibulklen q' = 0 \<longrightarrow> shrunk b pos' q') \<and> (\<forall>ok q' s'. r = Return ok q' s' \<longrightarrow> \<not> ok)"
  using assms
proof (induction n arbitrary: pos q s)
  case (Suc n)
  obtain r1 where r1: "read_bulklen c pos q s = Some r1" using Suc.prems(1) by (auto split: bind_splits)
  show ?case
  proof (cases r1)
    case (Go pos1 q1 s1)
    note 1 = read_bulklen_shrunk [OF r1 [unfolded Go] Suc.prems(2)]
    obtain r2 where r2: "read_bulk n pos1 q1 s1 = Some r2" using Suc.prems(1) r1 Go by (auto split: bind_splits)
    note 2 = read_bulk_shrunk [OF r2 1(1) Suc.prems(3)]
    show ?thesis
    proof (cases r2)
      case (Go pos2 q2 s2)
      have "bulk_loop n c pos2 q2 s2 = Some r" using Suc.prems(1) r1 r2 \<open>r1 = Go pos1 q1 s1\<close> Go by simp
      moreover have "shrunk b pos2 q2" "multibulklen q2 = n" using 2(1) [OF Go] by auto
      ultimately show ?thesis using Suc.IH [of pos2 q2 s2] Suc.prems(3) by (auto simp: shrunk_def)
    next
      case (Break pos2 q2 s2)
      have "r = r2" using Suc.prems(1) r1 r2 \<open>r1 = Go pos1 q1 s1\<close> Break by simp
      then show ?thesis using 2(2) [OF Break] Break 1(3) Suc.prems(4) by simp
    next
      case (Return ok q2 s2)
      then show ?thesis using 2(3) by blast
    qed
  next
    case (Break pos1 q1 s1)
    have "r = r1" using Suc.prems(1) r1 Break by simp
    then show ?thesis using read_bulklen_break(1) [OF r1 _ Break] Break Suc.prems(4) by auto
  next
    case (Return ok q1 s1)
    have "r = r1" using Suc.prems(1) r1 Return by simp
    then show ?thesis using read_bulklen_break(2) [OF r1 _ Return] Return by auto
  qed
qed auto

lemma multibulk_consumes:
  assumes "processMultibulkBuffer c q s = Some (True, q', s')" "querybuf q \<noteq> []"
  shows "length (querybuf q') < length (querybuf q)"
proof -
  obtain r where r: "(if multibulklen q = 0 then read_multibulklen c q s else Some (Go 0 q s)) = Some r"
    using assms(1) by (auto simp: processMultibulkBuffer_def split: bind_splits)
  show ?thesis
  proof (cases r)
    case (Go pos q1 s1)
    have q1: "querybuf q1 = querybuf q" "multibulklen q1 \<noteq> 0"
      using r Go by (auto simp: read_multibulklen_def Let_def split: if_splits option.splits bind_splits prod.splits)
    obtain r2 where r2: "bulk_loop (multibulklen q1) c pos q1 s1 = Some r2"
      using assms(1) r Go by (auto simp: processMultibulkBuffer_def split: bind_splits)
    note b = bulk_loop_shrunk [OF r2, of "querybuf q"]
    have "(case r2 of Return ok q s \<Rightarrow> Some (ok, q, s)
      | Break pos q s \<Rightarrow> Some (multibulklen q = 0, q\<lparr>querybuf := drop pos (querybuf q)\<rparr>, s)
      | Go pos q s \<Rightarrow> None) = Some (True, q', s')"
      using assms(1) r r2 Go by (simp add: processMultibulkBuffer_def)
    then show ?thesis using b q1 assms(2) by (cases r2) (auto simp: shrunk_def)
  next
    case (Break pos q1 s1)
    then show ?thesis using r by (auto simp: read_multibulklen_def Let_def split: if_splits option.splits bind_splits prod.splits)
  next
    case (Return ok q1 s1)
    then have "ok" "q' = q1" using assms(1) r by (auto simp: processMultibulkBuffer_def)
    then show ?thesis
      using r Return assms(2) by (auto simp: read_multibulklen_def Let_def split: if_splits option.splits bind_splits prod.splits)
  qed
qed

type_synonym handler = "nat \<Rightarrow> server \<Rightarrow> (bool \<times> server) option"

definition process_request :: "fresh_mem \<Rightarrow> nat \<Rightarrow> conn \<Rightarrow> server \<Rightarrow> (bool \<times> conn \<times> server) option" where
  "process_request g c q s =
     (let q = (if reqtype q = 0 then q\<lparr>reqtype := if querybuf q ! 0 = 42 then REDIS_REQ_MULTIBULK else REDIS_REQ_INLINE\<rparr> else q)
      in if reqtype q = REDIS_REQ_INLINE then processInlineBuffer g c q s
         else if reqtype q = REDIS_REQ_MULTIBULK then processMultibulkBuffer c q s
         else None)"

lemma process_request_consumes:
  "process_request g c q s = Some (True, q', s') \<Longrightarrow> querybuf q \<noteq> [] \<Longrightarrow> length (querybuf q') < length (querybuf q)"
  by (auto simp: process_request_def Let_def split: if_splits dest!: inline_consumes multibulk_consumes)

definition may_process :: "(server \<Rightarrow> bool) \<Rightarrow> nat \<Rightarrow> server \<Rightarrow> bool" where
  "may_process paused c s \<longleftrightarrow>
     \<not> (\<not> has_flag s c REDIS_SLAVE \<and> paused s) \<and> \<not> has_flag s c REDIS_BLOCKED \<and> \<not> has_flag s c REDIS_CLOSE_AFTER_REPLY"

function processInputBuffer :: "fresh_mem \<Rightarrow> handler \<Rightarrow> (server \<Rightarrow> bool) \<Rightarrow> nat \<Rightarrow> conn \<Rightarrow> server \<Rightarrow> (conn \<times> server) option" where
  "processInputBuffer g pr paused c q s =
     (if querybuf q = [] \<or> \<not> may_process paused c s then Some (q, s)
      else do {
        (ok, q, s) \<leftarrow> process_request g c q s;
        if \<not> ok then Some (q, s)
        else do {
          (done, s) \<leftarrow> (if args q = [] then Some (True, s) else pr c (upd_client c (\<lambda>cl. cl\<lparr>argv := args q\<rparr>) s));
          let (q, s) = (if done then resetClient c q s else (q, s));
          processInputBuffer g pr paused c q s
        }
      })"
  by pat_completeness auto

termination
  by (relation "measure (\<lambda>(g, pr, paused, c, q, s). length (querybuf q))")
     (auto simp: resetClient_def freeClientArgv_def Let_def split: if_splits dest!: process_request_consumes)

declare processInputBuffer.simps [simp del]

text \<open>\<open>read\<close> returns at most \<open>readlen\<close> bytes; how many of those that are waiting is the argument \<open>n\<close>, and none is the error \<open>EAGAIN\<close>. The
  bytes that are left are returned as well. A read of no bytes because \<open>readlen\<close> is 0 looks like the end of the connection. A negative
  length, which \<open>sdsMakeRoomFor\<close> and \<open>read\<close> would take for a very large one, is a failure. The end of the stream and other errors of \<open>read\<close> free the client
  and are not modelled as events.\<close>

definition remaining :: "conn \<Rightarrow> int" where
  "remaining q =
     (if reqtype q = REDIS_REQ_MULTIBULK \<and> multibulklen q \<noteq> 0 \<and> bulklen q \<noteq> - 1 \<and> bulklen q \<ge> int REDIS_MBULK_BIG_ARG
      then bulklen q + 2 - int (length (querybuf q))
      else int REDIS_IOBUF_LEN)"

definition readlen :: "conn \<Rightarrow> nat" where
  "readlen q = nat (min (int REDIS_IOBUF_LEN) (remaining q))"

definition readQueryFromClient ::
    "fresh_mem \<Rightarrow> handler \<Rightarrow> (server \<Rightarrow> bool) \<Rightarrow> nat \<Rightarrow> nat \<Rightarrow> bytes \<Rightarrow> conn \<Rightarrow> server \<Rightarrow> (bytes \<times> conn \<times> server) option" where
  "readQueryFromClient g pr paused c n inp q s = do {
     ensure (0 \<le> remaining q);
     let nread = min n (min (readlen q) (length inp));
     if readlen q = 0 then Some (inp, q\<lparr>freed := True\<rparr>, s)
     else if nread = 0 then Some (inp, q, s)
     else do {
       let q = q\<lparr>querybuf := querybuf q @ take nread inp\<rparr>;
       if length (querybuf q) > REDIS_MAX_QUERYBUF_LEN then Some (drop nread inp, q\<lparr>freed := True\<rparr>, s)
       else do {
         (q, s) \<leftarrow> processInputBuffer g pr paused c q s;
         Some (drop nread inp, q, s)
       }
     }
   }"

text \<open>A sequence of events on the socket.\<close>

fun receive :: "fresh_mem \<Rightarrow> handler \<Rightarrow> (server \<Rightarrow> bool) \<Rightarrow> nat \<Rightarrow> nat list \<Rightarrow> bytes \<Rightarrow> conn \<Rightarrow> server \<Rightarrow> (bytes \<times> conn \<times> server) option" where
  "receive g pr paused c [] inp q s = Some (inp, q, s)"
| "receive g pr paused c (n # ns) inp q s =
     (if freed q then Some (inp, q, s)
      else do {
        (inp, q, s) \<leftarrow> readQueryFromClient g pr paused c n inp q s;
        receive g pr paused c ns inp q s
      })"

text \<open>\<open>processCommand\<close> with its return value, for a client that exists.\<close>

definition command_handler :: "config \<Rightarrow> handler" where
  "command_handler cf c s = do {
     ensure (c < length (clients s));
     name \<leftarrow> arg s c 0;
     s \<leftarrow> processCommand cf c s;
     Some (\<not> is_quit name, s)
   }"

end
