(* ===== verification/Request_Props.thy ===== *)
theory Request_Props
  imports Request Server_Props
begin

text \<open>
  What is shown of the requests: no input makes the parser fail, and requests in the multi bulk format arrive as they were sent, however the
  stream is cut into reads. Two defects of the code are shown as well.
\<close>

section \<open>The parser does not fail\<close>

abbreviation closed :: "server \<Rightarrow> nat \<Rightarrow> bool" where
  "closed s c \<equiv> c < length (clients s) \<and> has_flag s c REDIS_CLOSE_AFTER_REPLY"

lemma has_flag_close: "has_flag s c REDIS_CLOSE_AFTER_REPLY \<longleftrightarrow> bit (flags (clients s ! c)) 6"
  unfolding has_flag_def REDIS_CLOSE_AFTER_REPLY_def and_bit_iff by (rule refl)

lemma closed_error: "c < length (clients s) \<Longrightarrow> protocol_error c pos q s = (q', s') \<Longrightarrow> closed s' c"
  by (auto simp: setProtocolError_def set_flags_def addReply_def has_flag_close bit_or_iff)

definition loop_inv :: "nat \<Rightarrow> nat \<Rightarrow> conn \<Rightarrow> bool" where
  "loop_inv n pos q \<longleftrightarrow> multibulklen q = n \<and> length (args q) + n \<le> argv_room q \<and> - 1 \<le> bulklen q \<and> pos \<le> length (querybuf q) \<and>
     reqtype q = REDIS_REQ_MULTIBULK"

lemma string2ll_total: "k \<le> length b \<Longrightarrow> \<exists>r. string2ll b k = Some r"
  using string2ll_cases [of "take k b" "drop k b"] by simp

lemma strchr_from_total: "pos \<le> length b \<Longrightarrow> \<exists>r. strchr_from b pos ch = Some r"
  by (simp add: strchr_from_def Let_def)

lemma read_bulklen_safe:
  assumes inv: "loop_inv (Suc n) pos q" and c: "c < length (clients s)"
  shows "\<exists>r. read_bulklen c pos q s = Some r \<and>
    (case r of
       Go pos' q' s' \<Rightarrow> s' = s \<and> loop_inv (Suc n) pos' q' \<and> 0 \<le> bulklen q'
     | Break pos' q' s' \<Rightarrow> closed s' c \<or> s' = s \<and> q' = q \<and> pos' = pos
     | Return ok q' s' \<Rightarrow> \<not> ok \<and> closed s' c)"
proof (cases "bulklen q = - 1")
  case False
  then show ?thesis using inv by (auto simp: read_bulklen_def loop_inv_def)
next
  case True
  let ?b = "querybuf q"
  have pos: "pos \<le> length ?b" using inv by (simp add: loop_inv_def)
  obtain q0 s0 where err0: "protocol_error c 0 q s = (q0, s0)" by fastforce
  obtain q1 s1 where err: "protocol_error c pos q s = (q1, s1)" by fastforce
  have cl: "closed s0 c" "closed s1 c" using closed_error [OF c err0] closed_error [OF c err] by auto
  obtain r where r: "strchr_from ?b pos 13 = Some r" using strchr_from_total [OF pos] by blast
  show ?thesis
  proof (cases r)
    case None
    then show ?thesis using True r cl(1) err0 by (simp add: read_bulklen_def Let_def)
  next
    case (Some newline)
    have nl: "pos \<le> newline" "newline < length ?b" using strchr_from_le r Some by auto
    have ch: "mem_byte (?b @ [0]) pos = Some (?b ! pos)" using nl by (simp add: mem_byte_def nth_append)
    have "newline - (pos + 1) \<le> length (drop (pos + 1) ?b @ [0])" using nl by simp
    then obtain v where v: "string2ll (drop (pos + 1) ?b @ [0]) (newline - (pos + 1)) = Some v" using string2ll_total by blast
    show ?thesis
      using True r Some ch v err cl(2) nl inv
      by (cases v) (auto simp: read_bulklen_def Let_def loop_inv_def split: prod.splits)
  qed
qed

lemma read_bulk_safe:
  assumes "loop_inv (Suc n) pos q" "0 \<le> bulklen q"
  shows "\<exists>r. read_bulk n pos q s = Some r \<and>
    (case r of
       Go pos' q' s' \<Rightarrow> s' = s \<and> loop_inv n pos' q' \<and> bulklen q' = - 1
     | Break pos' q' s' \<Rightarrow> s' = s \<and> q' = q \<and> pos' = pos
     | Return ok q' s' \<Rightarrow> False)"
  using assms by (auto simp: read_bulk_def loop_inv_def Let_def)

lemma bulk_loop_safe:
  assumes "loop_inv n pos q" "c < length (clients s)" "n = 0 \<Longrightarrow> bulklen q = - 1"
  shows "\<exists>r. bulk_loop n c pos q s = Some r \<and>
    (case r of
       Go pos' q' s' \<Rightarrow> False
     | Break pos' q' s' \<Rightarrow> closed s' c \<or> s' = s \<and> loop_inv (multibulklen q') pos' q' \<and> (multibulklen q' = 0 \<longrightarrow> bulklen q' = - 1)
     | Return ok q' s' \<Rightarrow> \<not> ok \<and> closed s' c)"
  using assms
proof (induction n arbitrary: pos q s)
  case 0
  then show ?case by (auto simp: loop_inv_def)
next
  case (Suc n)
  obtain r1 where r1: "read_bulklen c pos q s = Some r1" and 1: "case r1 of
       Go pos' q' s' \<Rightarrow> s' = s \<and> loop_inv (Suc n) pos' q' \<and> 0 \<le> bulklen q'
     | Break pos' q' s' \<Rightarrow> closed s' c \<or> s' = s \<and> q' = q \<and> pos' = pos
     | Return ok q' s' \<Rightarrow> \<not> ok \<and> closed s' c"
    using read_bulklen_safe [OF Suc.prems(1,2)] by blast
  show ?case
  proof (cases r1)
    case (Go pos1 q1 s1)
    then have i1: "s1 = s" "loop_inv (Suc n) pos1 q1" "0 \<le> bulklen q1" using 1 by auto
    obtain r2 where r2: "read_bulk n pos1 q1 s = Some r2" and 2: "case r2 of
       Go pos' q' s' \<Rightarrow> s' = s \<and> loop_inv n pos' q' \<and> bulklen q' = - 1
     | Break pos' q' s' \<Rightarrow> s' = s \<and> q' = q1 \<and> pos' = pos1
     | Return ok q' s' \<Rightarrow> False"
      using read_bulk_safe [OF i1(2,3)] by blast
    show ?thesis
    proof (cases r2)
      case (Go pos2 q2 s2)
      then have "s2 = s" "loop_inv n pos2 q2" "bulklen q2 = - 1" using 2 by auto
      from Suc.IH [OF this(2) Suc.prems(2) this(3)] show ?thesis using r1 r2 \<open>r1 = Go pos1 q1 s1\<close> Go i1(1) \<open>s2 = s\<close> by simp
    next
      case (Break pos2 q2 s2)
      then show ?thesis using r1 r2 \<open>r1 = Go pos1 q1 s1\<close> i1 2 by (simp add: loop_inv_def)
    next
      case (Return ok q2 s2)
      then show ?thesis using 2 by simp
    qed
  next
    case (Break pos1 q1 s1)
    then show ?thesis using r1 1 Suc.prems(1) by (auto simp: loop_inv_def)
  next
    case (Return ok q1 s1)
    then show ?thesis using r1 1 by simp
  qed
qed

text \<open>The state of the parser between two calls.\<close>

definition conn_inv :: "conn \<Rightarrow> bool" where
  "conn_inv q \<longleftrightarrow>
     reqtype q \<in> {0, REDIS_REQ_INLINE, REDIS_REQ_MULTIBULK} \<and> - 1 \<le> bulklen q \<and>
     (multibulklen q = 0 \<longrightarrow> args q = [] \<and> bulklen q = - 1) \<and>
     (multibulklen q \<noteq> 0 \<longrightarrow> reqtype q = REDIS_REQ_MULTIBULK \<and> length (args q) + multibulklen q \<le> argv_room q) \<and>
     (multibulklen q = 0 \<and> reqtype q = REDIS_REQ_MULTIBULK \<longrightarrow> querybuf q \<noteq> [] \<and> querybuf q ! 0 = 42)"

lemma read_multibulklen_safe:
  assumes inv: "conn_inv q" "multibulklen q = 0" "reqtype q = REDIS_REQ_MULTIBULK" and c: "c < length (clients s)"
  shows "\<exists>r. read_multibulklen c q s = Some r \<and>
    (case r of
       Go pos' q' s' \<Rightarrow> s' = s \<and> loop_inv (multibulklen q') pos' q' \<and> multibulklen q' \<noteq> 0
     | Break pos' q' s' \<Rightarrow> False
     | Return ok q' s' \<Rightarrow> closed s' c \<or> s' = s \<and> (if ok then multibulklen q' = 0 else q' = q))"
proof -
  let ?b = "querybuf q"
  have b: "?b \<noteq> []" "?b ! 0 = 42" "args q = []" "bulklen q = - 1" using inv by (auto simp: conn_inv_def)
  obtain q0 s0 where err0: "protocol_error c 0 q s = (q0, s0)" by fastforce
  have cl: "closed s0 c" by (rule closed_error [OF c err0])
  obtain r where r: "strchr_from ?b 0 13 = Some r" using strchr_from_total [of 0 ?b] by auto
  show ?thesis
  proof (cases r)
    case None
    then show ?thesis using r cl err0 b(3) by (simp add: read_multibulklen_def Let_def)
  next
    case (Some newline)
    have nl: "newline < length ?b" using strchr_from_le r Some by auto
    have ch: "mem_byte (?b @ [0]) 0 = Some 42" using b(1,2) by (simp add: mem_byte_def nth_append)
    have "newline - 1 \<le> length (drop 1 ?b @ [0])" using nl by simp
    then obtain v where v: "string2ll (drop 1 ?b @ [0]) (newline - 1) = Some v" using string2ll_total by blast
    show ?thesis
      using r Some ch v err0 cl nl inv b
      by (cases v) (auto simp: read_multibulklen_def Let_def loop_inv_def split: prod.splits)
  qed
qed

lemma processMultibulk_safe:
  assumes inv: "conn_inv q" "reqtype q = REDIS_REQ_MULTIBULK" and c: "c < length (clients s)"
  shows "\<exists>ok q' s'. processMultibulkBuffer c q s = Some (ok, q', s') \<and> (closed s' c \<or> s' = s \<and> (\<not> ok \<longrightarrow> conn_inv q'))"
proof -
  let ?r = "if multibulklen q = 0 then read_multibulklen c q s else Some (Go 0 q s)"
  obtain r where r: "?r = Some r" and 1: "case r of
       Go pos' q' s' \<Rightarrow> s' = s \<and> loop_inv (multibulklen q') pos' q' \<and> multibulklen q' \<noteq> 0
     | Break pos' q' s' \<Rightarrow> False
     | Return ok q' s' \<Rightarrow> closed s' c \<or> s' = s \<and> (if ok then multibulklen q' = 0 else q' = q)"
  proof (cases "multibulklen q = 0")
    case True
    then show ?thesis using that read_multibulklen_safe [OF inv(1) True inv(2) c] by auto
  next
    case False
    then show ?thesis using that [of "Go 0 q s"] inv by (simp add: loop_inv_def conn_inv_def)
  qed
  show ?thesis
  proof (cases r)
    case (Go pos q1 s1)
    then have i: "s1 = s" "loop_inv (multibulklen q1) pos q1" "multibulklen q1 \<noteq> 0" using 1 by auto
    obtain r2 where r2: "bulk_loop (multibulklen q1) c pos q1 s = Some r2" and 2: "case r2 of
       Go pos' q' s' \<Rightarrow> False
     | Break pos' q' s' \<Rightarrow> closed s' c \<or> s' = s \<and> loop_inv (multibulklen q') pos' q' \<and> (multibulklen q' = 0 \<longrightarrow> bulklen q' = - 1)
     | Return ok q' s' \<Rightarrow> \<not> ok \<and> closed s' c"
      using bulk_loop_safe [OF i(2) c] i(3) by blast
    have e: "processMultibulkBuffer c q s = (case r2 of Return ok q s \<Rightarrow> Some (ok, q, s)
      | Break pos q s \<Rightarrow> Some (multibulklen q = 0, q\<lparr>querybuf := drop pos (querybuf q)\<rparr>, s) | Go pos q s \<Rightarrow> None)"
      unfolding processMultibulkBuffer_def r Go using i(1) r2 by simp
    show ?thesis using 2 unfolding e by (cases r2) (auto simp: conn_inv_def loop_inv_def)
  next
    case (Break pos q1 s1)
    then show ?thesis using 1 by simp
  next
    case (Return ok q1 s1)
    then show ?thesis using 1 inv(1) r by (auto simp: processMultibulkBuffer_def split: if_splits)
  qed
qed

lemma processInline_safe:
  assumes inv: "conn_inv q" and c: "c < length (clients s)" and len: "length (querybuf q) \<le> REDIS_MAX_QUERYBUF_LEN"
  shows "\<exists>ok q' s'. processInlineBuffer g c q s = Some (ok, q', s') \<and> (closed s' c \<or> s' = s \<and> (\<not> ok \<longrightarrow> conn_inv q'))"
proof -
  obtain q0 s0 where err0: "protocol_error c 0 q s = (q0, s0)" by fastforce
  have cl: "closed s0 c" by (rule closed_error [OF c err0])
  obtain r where r: "strchr_from (querybuf q) 0 10 = Some r" using strchr_from_total [of 0 "querybuf q"] by auto
  have split: "\<exists>v. sdssplitargs g (take n (querybuf q)) = Some v" for n
  proof -
    have "length (take n (querybuf q)) \<le> SDS_LIMIT" using len by (simp add: SDS_LIMIT_def REDIS_MAX_QUERYBUF_LEN_def min_le_iff_disj)
    then show ?thesis using args_loop_total [of 0 "take n (querybuf q)" "[]" g] by (auto simp: sdssplitargs_def)
  qed
  show ?thesis
  proof (cases r)
    case None
    then show ?thesis using r err0 cl inv by (auto simp: processInlineBuffer_def)
  next
    case (Some newline)
    define n where "n = (if newline \<noteq> 0 \<and> querybuf q ! (newline - 1) = 13 then newline - 1 else newline)"
    obtain v where "sdssplitargs g (take n (querybuf q)) = Some v" using split by blast
    then show ?thesis
      unfolding processInlineBuffer_def r Some bind.bind_lunit option.case Let_def n_def [symmetric] using err0 cl by (cases v) auto
  qed
qed

lemma process_request_safe:
  assumes inv: "conn_inv q" and c: "c < length (clients s)" and len: "length (querybuf q) \<le> REDIS_MAX_QUERYBUF_LEN" and b: "querybuf q \<noteq> []"
  shows "\<exists>ok q' s'. process_request g c q s = Some (ok, q', s') \<and> (closed s' c \<or> s' = s \<and> (\<not> ok \<longrightarrow> conn_inv q'))"
proof -
  let ?q = "if reqtype q = 0 then q\<lparr>reqtype := if querybuf q ! 0 = 42 then REDIS_REQ_MULTIBULK else REDIS_REQ_INLINE\<rparr> else q"
  have i: "conn_inv ?q" using inv b by (auto simp: conn_inv_def REDIS_REQ_INLINE_def REDIS_REQ_MULTIBULK_def)
  have t: "reqtype ?q = REDIS_REQ_INLINE \<or> reqtype ?q = REDIS_REQ_MULTIBULK" using inv by (auto simp: conn_inv_def)
  have l: "length (querybuf ?q) \<le> REDIS_MAX_QUERYBUF_LEN" using len by simp
  show ?thesis
    using t processInline_safe [OF i c l, of g] processMultibulk_safe [OF i _ c] unfolding process_request_def Let_def by auto
qed

text \<open>What is asked of \<open>processCommand\<close>: it returns, the client still exists, and when it does not return \<open>REDIS_OK\<close> the connection is to be closed.\<close>

definition returns :: "handler \<Rightarrow> nat \<Rightarrow> bool" where
  "returns pr c \<longleftrightarrow>
     (\<forall>s. c < length (clients s) \<longrightarrow>
        (\<exists>ok s'. pr c s = Some (ok, s') \<and> c < length (clients s') \<and> (ok \<or> has_flag s' c REDIS_CLOSE_AFTER_REPLY)))"

lemma reset_simps [simp]:
  "fst (resetClient c q s) = q\<lparr>args := [], reqtype := 0, multibulklen := 0, bulklen := - 1\<rparr>"
  "length (clients (snd (resetClient c q s))) = length (clients s)"
  by (simp_all add: resetClient_def freeClientArgv_def clear_flags_def Let_def)

lemma processInputBuffer_safe:
  assumes "returns pr c" "closed s c \<or> conn_inv q" "c < length (clients s)" "length (querybuf q) \<le> REDIS_MAX_QUERYBUF_LEN"
  shows "\<exists>q' s'. processInputBuffer g pr paused c q s = Some (q', s') \<and> c < length (clients s') \<and> (closed s' c \<or> conn_inv q')"
  using assms(2-4)
proof (induction "length (querybuf q)" arbitrary: q s rule: less_induct)
  case less
  show ?case
  proof (cases "querybuf q = [] \<or> \<not> may_process paused c s")
    case True
    then show ?thesis using less.prems by (subst processInputBuffer.simps) simp
  next
    case False
    then have b: "querybuf q \<noteq> []" and inv: "conn_inv q" using less.prems(1) by (auto simp: may_process_def)
    obtain ok q1 s1 where r: "process_request g c q s = Some (ok, q1, s1)" "closed s1 c \<or> s1 = s \<and> (\<not> ok \<longrightarrow> conn_inv q1)"
      using process_request_safe [OF inv less.prems(2,3) b] by blast
    have c1: "c < length (clients s1)" using r(2) less.prems(2) by auto
    show ?thesis
    proof (cases ok)
      case True
      let ?e = "if args q1 = [] then Some (True, s1) else pr c (upd_client c (\<lambda>cl. cl\<lparr>argv := args q1\<rparr>) s1)"
      have "\<exists>dn s2. ?e = Some (dn, s2) \<and> c < length (clients s2) \<and> (dn \<or> has_flag s2 c REDIS_CLOSE_AFTER_REPLY)"
        using assms(1) c1 by (auto simp: returns_def)
      then obtain dn s2 where e: "?e = Some (dn, s2)" "c < length (clients s2)" "dn \<or> has_flag s2 c REDIS_CLOSE_AFTER_REPLY" by blast
      obtain q3 s3 where 3: "(if dn then resetClient c q1 s2 else (q1, s2)) = (q3, s3)" by fastforce
      have q3: "querybuf q3 = querybuf q1" "c < length (clients s3)" "closed s3 c \<or> conn_inv q3"
      proof -
        have "dn \<Longrightarrow> q3 = q1\<lparr>args := [], reqtype := 0, multibulklen := 0, bulklen := - 1\<rparr> \<and> length (clients s3) = length (clients s2)"
          using 3 reset_simps [of c q1 s2] by simp
        then show "querybuf q3 = querybuf q1" "c < length (clients s3)" "closed s3 c \<or> conn_inv q3"
          using 3 e by (cases dn; auto simp: conn_inv_def REDIS_REQ_MULTIBULK_def)+
      qed
      have "length (querybuf q3) < length (querybuf q)" using process_request_consumes [OF _ b] r(1) True q3(1) by simp
      then have "\<exists>q' s'. processInputBuffer g pr paused c q3 s3 = Some (q', s') \<and> c < length (clients s') \<and> (closed s' c \<or> conn_inv q')"
        by (rule less.hyps [OF _ q3(3,2)]) (use less.prems(3) \<open>length (querybuf q3) < length (querybuf q)\<close> in simp)
      moreover have "processInputBuffer g pr paused c q s = processInputBuffer g pr paused c q3 s3"
        using False True r(1) e(1) 3 by (subst processInputBuffer.simps) simp
      ultimately show ?thesis by simp
    next
      case notok: False
      then have "processInputBuffer g pr paused c q s = Some (q1, s1)"
        using False r(1) by (subst processInputBuffer.simps) simp
      then show ?thesis using r(2) c1 notok by auto
    qed
  qed
qed

lemma conn_inv_append: "conn_inv q \<Longrightarrow> conn_inv (q\<lparr>querybuf := querybuf q @ xs\<rparr>)"
  by (auto simp: conn_inv_def nth_append)

text \<open>The length given to \<open>read\<close> is not negative: the buffer never holds more than the large argument that is missing.\<close>

lemma read_bulklen_room:
  "read_bulklen c pos q s = Some r \<Longrightarrow> (\<forall>pos' q' s'. r = Break pos' q' s' \<longrightarrow> bulklen q' = - 1) \<and> (\<forall>ok q' s'. r = Return ok q' s' \<longrightarrow> bulklen q' = - 1)"
  by (auto simp: read_bulklen_def setProtocolError_def Let_def split: if_splits option.splits bind_splits)

lemma bulk_loop_room:
  assumes "bulk_loop n c pos q s = Some r" "multibulklen q = n"
  shows "(\<forall>pos' q' s'. r = Break pos' q' s' \<longrightarrow> multibulklen q' = 0 \<or> bulklen q' = - 1 \<or> int (length (querybuf q')) - int pos' < bulklen q' + 2) \<and>
    (\<forall>ok q' s'. r = Return ok q' s' \<longrightarrow> bulklen q' = - 1)"
  using assms
proof (induction n arbitrary: pos q s)
  case (Suc n)
  obtain r1 where r1: "read_bulklen c pos q s = Some r1" using Suc.prems(1) by (auto split: bind_splits)
  show ?case
  proof (cases r1)
    case (Go pos1 q1 s1)
    obtain r2 where r2: "read_bulk n pos1 q1 s1 = Some r2" using Suc.prems(1) r1 Go by (auto split: bind_splits)
    show ?thesis
    proof (cases r2)
      case (Go pos2 q2 s2)
      have "multibulklen q2 = n" using r2 Go by (auto simp: read_bulk_def Let_def split: if_splits bind_splits)
      then show ?thesis using Suc.IH [of pos2 q2 s2] Suc.prems(1) r1 r2 \<open>r1 = Go pos1 q1 s1\<close> Go by simp
    qed (use r2 Suc.prems(1) r1 Go in \<open>auto simp: read_bulk_def Let_def split: if_splits bind_splits\<close>)
  qed (use r1 read_bulklen_room [OF r1] Suc.prems(1) in auto)
qed auto

lemma processMultibulk_room:
  assumes "processMultibulkBuffer c q s = Some (ok, q', s')"
  shows "0 \<le> remaining q'"
proof -
  let ?m = "\<lambda>q. multibulklen q = 0"
  obtain r where r: "(if ?m q then read_multibulklen c q s else Some (Go 0 q s)) = Some r"
    using assms by (auto simp: processMultibulkBuffer_def split: bind_splits)
  have ret: "?m q1" if "r = Return b q1 s1" for b q1 s1
    using r that by (auto simp: read_multibulklen_def setProtocolError_def Let_def split: if_splits option.splits bind_splits)
  have brk: "r \<noteq> Break pos q1 s1" for pos q1 s1
    using r by (auto simp: read_multibulklen_def setProtocolError_def Let_def split: if_splits option.splits bind_splits)
  show ?thesis
  proof (cases r)
    case (Go pos q1 s1)
    obtain r2 where r2: "bulk_loop (multibulklen q1) c pos q1 s1 = Some r2"
      using assms r Go by (auto simp: processMultibulkBuffer_def split: bind_splits)
    have "(case r2 of Return ok q s \<Rightarrow> Some (ok, q, s)
      | Break pos q s \<Rightarrow> Some (?m q, q\<lparr>querybuf := drop pos (querybuf q)\<rparr>, s)
      | Go pos q s \<Rightarrow> None) = Some (ok, q', s')"
      using assms r r2 Go by (simp add: processMultibulkBuffer_def)
    then show ?thesis using bulk_loop_room [OF r2 refl] by (cases r2) (auto simp: remaining_def)
  next
    case (Return b q1 s1)
    then have "q' = q1" using assms r by (auto simp: processMultibulkBuffer_def)
    then show ?thesis using ret [OF Return] by (simp add: remaining_def)
  qed (use brk in simp)
qed

lemma processInline_reqtype: "processInlineBuffer g c q s = Some (ok, q', s') \<Longrightarrow> reqtype q' = reqtype q"
  by (auto simp: processInlineBuffer_def setProtocolError_def Let_def split: if_splits bind_splits option.splits)

lemma process_request_room:
  assumes "process_request g c q s = Some (ok, q', s')"
  shows "0 \<le> remaining q'"
proof -
  let ?q = "if reqtype q = 0 then q\<lparr>reqtype := if querybuf q ! 0 = 42 then REDIS_REQ_MULTIBULK else REDIS_REQ_INLINE\<rparr> else q"
  consider "reqtype ?q = REDIS_REQ_INLINE" "processInlineBuffer g c ?q s = Some (ok, q', s')" | "processMultibulkBuffer c ?q s = Some (ok, q', s')"
    using assms unfolding process_request_def Let_def by (metis option.distinct(1))
  then show ?thesis
  proof cases
    case 1
    then have "reqtype q' = REDIS_REQ_INLINE" using processInline_reqtype [OF 1(2)] by simp
    then show ?thesis by (simp add: remaining_def REDIS_REQ_INLINE_def REDIS_REQ_MULTIBULK_def)
  qed (rule processMultibulk_room)
qed

lemma remaining_reset: "fst (resetClient c q s) = q' \<Longrightarrow> 0 \<le> remaining q'"
  by (auto simp: remaining_def)

lemma processInputBuffer_room:
  "processInputBuffer g pr paused c q s = Some (q', s') \<Longrightarrow> 0 \<le> remaining q \<Longrightarrow> 0 \<le> remaining q'"
proof (induction g pr paused c q s rule: processInputBuffer.induct)
  case (1 g pr paused c q s)
  show ?case
  proof (cases "querybuf q = [] \<or> \<not> may_process paused c s")
    case True
    then show ?thesis using 1(2,3) by (subst (asm) processInputBuffer.simps) simp
  next
    case False
    obtain ok q1 s1 where r: "process_request g c q s = Some (ok, q1, s1)"
      using 1(2) False by (subst (asm) processInputBuffer.simps) (auto split: bind_splits)
    note p = process_request_room [OF r]
    show ?thesis
    proof (cases ok)
      case True
      let ?e = "if args q1 = [] then Some (True, s1) else pr c (upd_client c (\<lambda>cl. cl\<lparr>argv := args q1\<rparr>) s1)"
      obtain dn s2 where e: "?e = Some (dn, s2)"
        using 1(2) False r True by (subst (asm) processInputBuffer.simps) (auto split: bind_splits)
      obtain q3 s3 where 3: "(q3, s3) = (if dn then resetClient c q1 s2 else (q1, s2))" by (metis surj_pair)
      have "0 \<le> remaining q3" using 3 p remaining_reset [of c q1 s2 q3] by (metis fst_conv)
      moreover have "processInputBuffer g pr paused c q3 s3 = Some (q', s')"
        using 1(2) False r True e 3 [symmetric] by (subst (asm) processInputBuffer.simps) simp
      ultimately show ?thesis using 1(1) [OF False r refl refl _ e refl 3 refl] True by simp
    next
      case notok: False
      then have "q' = q1" using 1(2) False r by (subst (asm) processInputBuffer.simps) simp
      then show ?thesis using p by simp
    qed
  qed
qed

lemma readlen_pos: "0 < readlen q \<Longrightarrow> 0 \<le> remaining q"
  by (simp add: readlen_def)

lemma remaining_read: "0 \<le> remaining q \<Longrightarrow> length xs \<le> readlen q \<Longrightarrow> 0 \<le> remaining (q\<lparr>querybuf := querybuf q @ xs\<rparr>)"
  by (auto simp: remaining_def readlen_def split: if_splits)

lemma read_room:
  assumes "readQueryFromClient g pr paused c n inp q s = Some (inp', q', s')"
  shows "0 \<le> remaining q'"
proof -
  let ?m = "min n (min (readlen q) (length inp))"
  have r: "0 \<le> remaining q" using assms by (auto simp: readQueryFromClient_def split: if_splits)
  have fr: "remaining (p\<lparr>freed := True\<rparr>) = remaining p" for p by (simp add: remaining_def)
  have i: "0 \<le> remaining (q\<lparr>querybuf := querybuf q @ take ?m inp\<rparr>)" by (rule remaining_read [OF r]) simp
  then show ?thesis
    using assms r unfolding readQueryFromClient_def Let_def
    by (auto simp: fr simp del: min_less_iff_conj length_append split: if_splits bind_splits dest: processInputBuffer_room)
qed

lemma receive_safe:
  assumes "returns pr c" "closed s c \<or> conn_inv q" "c < length (clients s)" "0 \<le> remaining q"
  shows "\<exists>r. receive g pr paused c ns inp q s = Some r"
  using assms(2-4)
proof (induction ns arbitrary: inp q s)
  case (Cons n ns)
  show ?case
  proof (cases "freed q")
    case False
    have "\<exists>inp' q' s'. readQueryFromClient g pr paused c n inp q s = Some (inp', q', s') \<and> (closed s' c \<or> conn_inv q') \<and> c < length (clients s')"
    proof -
      let ?m = "min n (min (readlen q) (length inp))"
      let ?q = "q\<lparr>querybuf := querybuf q @ take ?m inp\<rparr>"
      have fr: "conn_inv (p\<lparr>freed := True\<rparr>) = conn_inv p" for p by (simp add: conn_inv_def)
      have i: "closed s c \<or> conn_inv ?q" using Cons.prems(1) conn_inv_append by blast
      consider "readlen q = 0" | "readlen q \<noteq> 0" "?m = 0" | "readlen q \<noteq> 0" "?m \<noteq> 0" "length (querybuf ?q) > REDIS_MAX_QUERYBUF_LEN"
        | "readlen q \<noteq> 0" "?m \<noteq> 0" "length (querybuf ?q) \<le> REDIS_MAX_QUERYBUF_LEN" by linarith
      then show ?thesis
      proof cases
        case 4
        have "\<not> length (querybuf ?q) > REDIS_MAX_QUERYBUF_LEN" using 4(3) by simp
        then have "readQueryFromClient g pr paused c n inp q s = do {
            (q, s) \<leftarrow> processInputBuffer g pr paused c ?q s; Some (drop ?m inp, q, s) }"
          using 4(1,2) Cons.prems(3) unfolding readQueryFromClient_def Let_def by (simp only: ensure_bind if_False if_True)
        then show ?thesis using processInputBuffer_safe [OF assms(1) i Cons.prems(2) 4(3), of g paused] by auto
      qed (use Cons.prems i in \<open>auto simp: readQueryFromClient_def Let_def fr\<close>)
    qed
    then show ?thesis using Cons.IH False read_room by fastforce
  qed simp
qed simp

text \<open>
  C13: No input makes the parser fail. Whatever bytes a client sends, and however they are cut into reads, the requests are read
  without a failed assertion, a read after the terminator of the query buffer or a write after the end of the argument vector, \<open>read\<close> is
  never given a negative length, and the loop over the buffer ends; the commands themselves are assumed to return.
\<close>

theorem request_parser_safe:
  assumes "returns pr c" and "c < length (clients s)"
  shows "\<exists>inp' q' s'. receive g pr paused c ns inp new_conn s = Some (inp', q', s')"
proof -
  have "conn_inv new_conn" by (simp add: conn_inv_def new_conn_def REDIS_REQ_MULTIBULK_def)
  moreover have "0 \<le> remaining new_conn" by (simp add: remaining_def new_conn_def)
  ultimately show ?thesis using receive_safe [OF assms(1) _ assms(2), of new_conn g paused ns inp] by auto
qed

theorem request_parser_safe_witness:
  "\<exists>inp' q' s'. receive (\<lambda>i. 0) (\<lambda>c s. Some (True, s)) (\<lambda>s. False) 0 [3, 4, 100] (bstr ''*1'' @ [13, 10] @ bstr ''$x'' @ [13, 10]) new_conn
     (createClient (initServer 1 (\<lambda>n. 0) False)) = Some (inp', q', s')"
  by (rule request_parser_safe) (auto simp: returns_def createClient_def)

section \<open>Requests in the multi bulk format\<close>

text \<open>How a client sends a command.\<close>

definition bulk :: "bytes \<Rightarrow> bytes" where
  "bulk a = 36 # nat_dec (length a) @ [13, 10] @ a @ [13, 10]"

definition request :: "bytes list \<Rightarrow> bytes" where
  "request av = 42 # nat_dec (length av) @ [13, 10] @ concat (map bulk av)"

definition sendable :: "bytes list \<Rightarrow> bool" where
  "sendable av \<longleftrightarrow> av \<noteq> [] \<and> length av \<le> 1024 * 1024 \<and> (\<forall>a\<in>set av. length a \<le> 512 * 1024 * 1024)"

text \<open>The commands one after the other, until the client is closed, blocked or paused.\<close>

fun serve :: "handler \<Rightarrow> (server \<Rightarrow> bool) \<Rightarrow> nat \<Rightarrow> bytes list list \<Rightarrow> server \<Rightarrow> server option" where
  "serve pr paused c [] s = Some s"
| "serve pr paused c (av # cs) s =
     (if \<not> may_process paused c s then Some s
      else do {
        (done, s) \<leftarrow> pr c (upd_client c (\<lambda>cl. cl\<lparr>argv := av\<rparr>) s);
        serve pr paused c cs (if done then snd (resetClient c new_conn s) else s)
      })"

lemma serve_stopped: "\<not> may_process paused c s \<Longrightarrow> serve pr paused c cs s = Some s"
  by (cases cs) simp_all

lemma snd_reset: "snd (resetClient c q s) = snd (resetClient c q' s)"
  by (simp add: resetClient_def freeClientArgv_def Let_def)

lemma strchr_from_found:
  assumes "drop pos b = xs @ ch # ys" "\<forall>x\<in>set xs. x \<noteq> ch \<and> x \<noteq> 0" "pos \<le> length b"
  shows "strchr_from b pos ch = Some (Some (pos + length xs))"
proof -
  have b: "b = take pos b @ xs @ ch # ys" using assms(1) by (metis append_take_drop_id)
  have "takeWhile (\<lambda>x. x \<noteq> ch \<and> x \<noteq> 0) (drop pos b) = xs" unfolding assms(1) using assms(2) by (simp add: takeWhile_append takeWhile_eq_all_conv)
  moreover have "length b = pos + length xs + Suc (length ys)" using arg_cong [OF b, of length] assms(3) by simp
  moreover have "b ! (pos + length xs) = ch" using arg_cong [OF assms(1), of "\<lambda>l. l ! length xs"] assms(3) calculation(2) by (simp add: nth_append)
  ultimately show ?thesis using assms(3) by (simp add: strchr_from_def Let_def)
qed

lemma strchr_from_none:
  assumes "\<forall>x\<in>set (drop pos b). x \<noteq> ch \<and> x \<noteq> 0" "pos \<le> length b"
  shows "strchr_from b pos ch = Some None"
proof -
  have tw: "takeWhile (\<lambda>x. x \<noteq> ch \<and> x \<noteq> 0) (drop pos b) = drop pos b" unfolding takeWhile_eq_all_conv by (rule assms(1))
  show ?thesis using assms(2) unfolding strchr_from_def Let_def tw by simp
qed

lemma digit_bytes: "x \<in> set (nat_dec n) \<Longrightarrow> x \<noteq> 0 \<and> x \<noteq> 13 \<and> x \<noteq> 10"
  using nat_dec_digits [of n] by (auto simp: isdigit_def)

text \<open>A line with a number is in the buffer as a whole, or the end of the line is not.\<close>

lemma line_cases:
  assumes "drop pos b @ inp = (p # nat_dec n @ [13, 10]) @ tail" "pos \<le> length b" "p \<noteq> 0" "p \<noteq> 13"
  obtains (whole) b' where "drop pos b = p # nat_dec n @ 13 # 10 # b'" "b' @ inp = tail" "strchr_from b pos 13 = Some (Some (pos + 1 + length (nat_dec n)))"
  | (cut) r where "length b - pos < 3 + length (nat_dec n)" "strchr_from b pos 13 = Some r" "r = None \<or> r = Some (length b - 1) \<and> b \<noteq> []"
proof -
  consider us where "drop pos b = (p # nat_dec n @ [13, 10]) @ us" "us @ inp = tail"
    | us where "drop pos b @ us = p # nat_dec n @ [13, 10]" "us \<noteq> []" "inp = us @ tail"
  proof -
    obtain us where "drop pos b = (p # nat_dec n @ [13, 10]) @ us \<and> us @ inp = tail \<or> drop pos b @ us = p # nat_dec n @ [13, 10] \<and> inp = us @ tail"
      using assms(1) unfolding append_eq_append_conv2 by blast
    then show ?thesis using that by (cases "us = []") auto
  qed
  then show ?thesis
  proof cases
    case 1
    have "strchr_from b pos 13 = Some (Some (pos + length (p # nat_dec n)))"
      by (rule strchr_from_found [OF _ _ assms(2)]) (use 1(1) assms(3,4) digit_bytes in auto)
    then show ?thesis using whole [of us] 1 by simp
  next
    case 2
    have l: "length b - pos < 3 + length (nat_dec n)" using arg_cong [OF 2(1), of length] 2(2) by (cases us) auto
    obtain us' x where us: "us = us' @ [x]" using 2(2) by (cases us rule: rev_cases) auto
    then have d: "drop pos b @ us' = p # nat_dec n @ [13]" using 2(1) by simp
    show ?thesis
    proof (cases us' rule: rev_cases)
      case Nil
      then have d': "drop pos b = (p # nat_dec n) @ 13 # []" using d by simp
      have "strchr_from b pos 13 = Some (Some (pos + length (p # nat_dec n)))"
        by (rule strchr_from_found [OF d' _ assms(2)]) (use assms(3,4) digit_bytes in auto)
      moreover have "length b = pos + length (p # nat_dec n) + 1" using arg_cong [OF d', of length] assms(2) by auto
      moreover then have "b \<noteq> []" by auto
      ultimately show ?thesis using cut [OF l, of "Some (length b - 1)"] by simp
    next
      case (snoc vs y)
      then have "drop pos b @ vs = p # nat_dec n" using d by simp
      then have "set (drop pos b) \<subseteq> set (p # nat_dec n)" by (metis set_append Un_upper1)
      then have "strchr_from b pos 13 = Some None"
        using assms(3,4) digit_bytes by (intro strchr_from_none [OF _ assms(2)]) auto
      then show ?thesis using cut [OF l] by blast
    qed
  qed
qed

lemma line_drop: "drop (length xs + 3) (p # xs @ x # y # ys) = ys"
  by (simp add: eval_nat_numeral)

lemma string2ll_nat_dec: "n < 2 ^ 63 \<Longrightarrow> string2ll (nat_dec n @ xs) (length (nat_dec n)) = Some (Some (int n))"
  using string2ll_iff [of "nat_dec n" xs "int n"] by (simp add: int_dec_def LLONG_MIN_def LLONG_MAX_def)

text \<open>Reading the length of an argument, the argument, and the number of arguments.\<close>

lemma read_bulklen_parses:
  assumes d: "drop pos (querybuf q) @ inp = bulk a @ tail" and pos: "pos \<le> length (querybuf q)" and q: "bulklen q = - 1"
    and small: "length (querybuf q) \<le> REDIS_INLINE_MAX_SIZE" and a: "length a \<le> 512 * 1024 * 1024"
  obtains (length) pos' b where "read_bulklen c pos q s = Some (Go pos' (q\<lparr>querybuf := b, bulklen := int (length a)\<rparr>) s)"
      "drop pos' b @ inp = a @ [13, 10] @ tail" "pos' \<le> length b" "length b \<le> length (querybuf q)"
  | (cut) "read_bulklen c pos q s = Some (Break pos q s)" "length (querybuf q) - pos < 3 + length (nat_dec (length a))"
proof -
  let ?b = "querybuf q" and ?n = "length (nat_dec (length a))"
  have "drop pos ?b @ inp = (36 # nat_dec (length a) @ [13, 10]) @ a @ [13, 10] @ tail" using d by (simp add: bulk_def)
  then show ?thesis
  proof (rule line_cases [OF _ pos])
    fix b' assume b': "drop pos ?b = 36 # nat_dec (length a) @ 13 # 10 # b'" "b' @ inp = a @ [13, 10] @ tail"
      and nl: "strchr_from ?b pos 13 = Some (Some (pos + 1 + ?n))"
    have l: "length ?b = pos + 3 + ?n + length b'" using arg_cong [OF b'(1), of length] pos by simp
    have ch: "mem_byte (?b @ [0]) pos = Some 36"
      using arg_cong [OF b'(1), of "\<lambda>l. l ! 0"] l by (simp add: mem_byte_def nth_append)
    have d1: "drop (pos + 1) ?b = nat_dec (length a) @ 13 # 10 # b'" using arg_cong [OF b'(1), of tl] by (simp add: drop_Suc tl_drop)
    have "string2ll (drop (pos + 1) ?b @ [0]) ?n = Some (Some (int (length a)))"
      unfolding d1 append_assoc by (rule string2ll_nat_dec) (use a in simp)
    moreover have "drop (pos + 1 + ?n + 2) ?b = b'"
      using arg_cong [OF b'(1), of "drop (?n + 3)"] unfolding line_drop drop_drop by (simp add: add.commute add.left_commute eval_nat_numeral)
    ultimately show thesis
      using nl ch l q a b'(2)
        length [of "pos + 1 + ?n + 2" ?b] length [of 0 b']
      by (cases "length a \<ge> REDIS_MBULK_BIG_ARG") (simp_all add: read_bulklen_def Let_def)
  next
    fix r assume "length ?b - pos < 3 + ?n" "strchr_from ?b pos 13 = Some r" "r = None \<or> r = Some (length ?b - 1) \<and> ?b \<noteq> []"
    then show thesis using cut q small by (cases ?b) (auto simp: read_bulklen_def Let_def)
  qed simp_all
qed

lemma read_bulk_parses:
  assumes d: "drop pos (querybuf q) @ inp = a @ [13, 10] @ tail" and pos: "pos \<le> length (querybuf q)"
    and q: "bulklen q = int (length a)" "length (args q) < argv_room q"
    and fits: "length (querybuf q) \<le> REDIS_INLINE_MAX_SIZE \<or> pos = 0 \<and> length a \<ge> REDIS_MBULK_BIG_ARG \<and> length (querybuf q) \<le> length a + 2"
  obtains (arg) pos' b where "read_bulk n pos q s = Some (Go pos' (q\<lparr>querybuf := b, args := args q @ [a], bulklen := - 1, multibulklen := n\<rparr>) s)"
      "drop pos' b @ inp = tail" "pos' \<le> length b" "length b \<le> REDIS_INLINE_MAX_SIZE"
  | (cut) "read_bulk n pos q s = Some (Break pos q s)" "length (querybuf q) - pos < length a + 2"
proof (cases "length (querybuf q) - pos < length a + 2")
  case True
  then have "int (length (querybuf q)) - int pos < bulklen q + 2" using pos q(1) by linarith
  then show thesis using cut True by (simp add: read_bulk_def)
next
  case False
  let ?b = "querybuf q"
  have "\<exists>us. drop pos ?b = (a @ [13, 10]) @ us \<and> us @ inp = tail"
  proof -
    obtain us where "drop pos ?b = (a @ [13, 10]) @ us \<and> us @ inp = tail \<or> drop pos ?b @ us = a @ [13, 10] \<and> inp = us @ tail"
      using d unfolding append_assoc [symmetric] append_eq_append_conv2 by blast
    moreover have "us = []" if "drop pos ?b @ us = a @ [13, 10]"
    proof -
      have "length (drop pos ?b) + length us = length a + 2" using arg_cong [OF that, of length] by (simp del: length_drop)
      then have "length us = 0" using False pos unfolding length_drop by linarith
      then show ?thesis by simp
    qed
    ultimately show ?thesis by (cases "us = []") auto
  qed
  then obtain us where us: "drop pos ?b = a @ 13 # 10 # us" "us @ inp = tail" by auto
  have l: "length ?b = pos + length a + 2 + length us" using arg_cong [OF us(1), of length] pos by simp
  have go: "\<not> int (length ?b) - int pos < bulklen q + 2" using q(1) l by simp
  have tk: "take (length a) (drop pos ?b) = a" using us(1) by simp
  have dr: "drop (pos + length a + 2) ?b = us" using arg_cong [OF us(1), of "drop (length a + 2)"] by (simp add: add.commute add.left_commute)
  show thesis
  proof (cases "pos = 0 \<and> length a \<ge> REDIS_MBULK_BIG_ARG \<and> length ?b = length a + 2")
    case True
    then have "us = []" using l by simp
    then show thesis using arg [of 0 "[]"] True go q us tk by (simp add: read_bulk_def Let_def)
  next
    case F: False
    have "length ?b \<le> REDIS_INLINE_MAX_SIZE" using fits F l by auto
    moreover have "read_bulk n pos q s = Some (Go (pos + length a + 2) (q\<lparr>querybuf := ?b, args := args q @ [a], bulklen := - 1, multibulklen := n\<rparr>) s)"
      using F go q tk unfolding read_bulk_def by (simp add: Let_def)
    ultimately show thesis using arg [of "pos + length a + 2" ?b] dr us(2) l by simp
  qed
qed

lemma read_multibulklen_parses:
  assumes d: "querybuf q @ inp = request av @ tail" and q: "args q = []" and small: "length (querybuf q) \<le> REDIS_INLINE_MAX_SIZE" and av: "sendable av"
  obtains (count) pos where "read_multibulklen c q s = Some (Go pos (q\<lparr>multibulklen := length av, argv_room := length av\<rparr>) s)"
      "drop pos (querybuf q) @ inp = concat (map bulk av) @ tail" "pos \<le> length (querybuf q)"
  | (cut) "read_multibulklen c q s = Some (Return False q s)" "length (querybuf q) < 3 + length (nat_dec (length av))"
proof -
  let ?b = "querybuf q" and ?n = "length (nat_dec (length av))"
  have "drop 0 ?b @ inp = (42 # nat_dec (length av) @ [13, 10]) @ concat (map bulk av) @ tail" using d by (simp add: request_def)
  then show ?thesis
  proof (rule line_cases)
    fix b' assume b': "drop 0 ?b = 42 # nat_dec (length av) @ 13 # 10 # b'" "b' @ inp = concat (map bulk av) @ tail"
      and nl: "strchr_from ?b 0 13 = Some (Some (0 + 1 + ?n))"
    have b: "?b = 42 # nat_dec (length av) @ 13 # 10 # b'" using b'(1) by simp
    have "string2ll (drop 1 ?b @ [0]) ?n = Some (Some (int (length av)))"
      unfolding b by (simp, rule string2ll_nat_dec) (use av in \<open>simp add: sendable_def\<close>)
    moreover have "mem_byte (?b @ [0]) 0 = Some 42" by (simp add: b mem_byte_def)
    moreover have "drop (?n + 3) ?b = b'" "length ?b = ?n + 3 + length b'" unfolding b by (rule line_drop) simp
    ultimately show thesis
      using count [of "?n + 3"] nl q b'(2) av by (simp add: read_multibulklen_def Let_def sendable_def)
  next
    fix r assume "length ?b - 0 < 3 + ?n" "strchr_from ?b 0 13 = Some r" "r = None \<or> r = Some (length ?b - 1) \<and> ?b \<noteq> []"
    then show thesis using cut q small by (cases ?b) (auto simp: read_multibulklen_def Let_def)
  qed simp_all
qed

text \<open>The bytes that the arguments still to be read take, and what the loop over them does.\<close>

definition encoded :: "conn \<Rightarrow> bytes list \<Rightarrow> bytes" where
  "encoded q rest = (if bulklen q = - 1 then concat (map bulk rest) else hd rest @ [13, 10] @ concat (map bulk (tl rest)))"

definition arg_needs :: "conn \<Rightarrow> bytes list \<Rightarrow> nat" where
  "arg_needs q rest = (if bulklen q = - 1 then 3 + length (nat_dec (length (hd rest))) else length (hd rest) + 2)"

definition waits :: "conn \<Rightarrow> bytes list \<Rightarrow> bool" where
  "waits q rest \<longleftrightarrow> multibulklen q = length rest \<and> argv_room q = length (args q) + length rest \<and> reqtype q = REDIS_REQ_MULTIBULK \<and> \<not> freed q \<and>
     (bulklen q = - 1 \<or> rest \<noteq> [] \<and> bulklen q = int (length (hd rest))) \<and> (\<forall>a\<in>set rest. length a \<le> 512 * 1024 * 1024)"

definition big_fits :: "nat \<Rightarrow> conn \<Rightarrow> bool" where
  "big_fits pos q \<longleftrightarrow> length (querybuf q) \<le> REDIS_INLINE_MAX_SIZE \<or>
     pos = 0 \<and> bulklen q \<ge> int REDIS_MBULK_BIG_ARG \<and> int (length (querybuf q)) \<le> bulklen q + 2"

lemma bulk_loop_parses:
  assumes "waits q rest" "drop pos (querybuf q) @ inp = encoded q rest @ tail" "pos \<le> length (querybuf q)" "big_fits pos q"
  shows "\<exists>pos' q' rest1 rest2. bulk_loop (length rest) c pos q s = Some (Break pos' q' s) \<and> rest = rest1 @ rest2 \<and> args q' = args q @ rest1 \<and>
    waits q' rest2 \<and> drop pos' (querybuf q') @ inp = encoded q' rest2 @ tail \<and>
    (rest2 \<noteq> [] \<longrightarrow> length (querybuf q') - pos' < arg_needs q' rest2) \<and> (rest2 = [] \<longrightarrow> length (querybuf q') \<le> REDIS_INLINE_MAX_SIZE)"
  using assms
proof (induction rest arbitrary: pos q)
  case Nil
  have "bulklen q = - 1" using Nil(1) by (simp add: waits_def)
  then show ?case using Nil by (intro exI [of _ pos] exI [of _ q] exI [of _ "[]"]) (simp add: big_fits_def)
next
  case (Cons a rest)
  let ?tail = "concat (map bulk rest) @ tail"
  have a: "length a \<le> 512 * 1024 * 1024" using Cons.prems(1) by (simp add: waits_def)
  have stuck: "\<exists>pos' q' rest1 rest2. bulk_loop (length (a # rest)) c pos q s = Some (Break pos' q' s) \<and> a # rest = rest1 @ rest2 \<and> args q' = args q @ rest1 \<and>
      waits q' rest2 \<and> drop pos' (querybuf q') @ inp = encoded q' rest2 @ tail \<and>
      (rest2 \<noteq> [] \<longrightarrow> length (querybuf q') - pos' < arg_needs q' rest2) \<and> (rest2 = [] \<longrightarrow> length (querybuf q') \<le> REDIS_INLINE_MAX_SIZE)"
    if "bulk_loop (length (a # rest)) c pos q s = Some (Break pos1 q1 s)" "args q1 = args q" "waits q1 (a # rest)"
      "drop pos1 (querybuf q1) @ inp = encoded q1 (a # rest) @ tail" "length (querybuf q1) - pos1 < arg_needs q1 (a # rest)" for pos1 q1
    using that by (intro exI [of _ pos1] exI [of _ q1] exI [of _ "[]"] exI [of _ "a # rest"]) simp
  have body: ?case
    if r: "read_bulklen c pos q s = Some (Go pos1 q1 s)" and q1: "waits q1 (a # rest)" "args q1 = args q" "bulklen q1 = int (length a)"
      and d: "drop pos1 (querybuf q1) @ inp = a @ [13, 10] @ ?tail" and pos1: "pos1 \<le> length (querybuf q1)" and f: "big_fits pos1 q1" for pos1 q1
  proof (rule read_bulk_parses [OF d pos1 q1(3), of "length rest" s])
    show "length (args q1) < argv_room q1" using q1(1) by (simp add: waits_def)
    show "length (querybuf q1) \<le> REDIS_INLINE_MAX_SIZE \<or> pos1 = 0 \<and> length a \<ge> REDIS_MBULK_BIG_ARG \<and> length (querybuf q1) \<le> length a + 2"
      using f q1(3) by (auto simp: big_fits_def)
  next
    fix pos2 b
    let ?q = "q1\<lparr>querybuf := b, args := args q1 @ [a], bulklen := - 1, multibulklen := length rest\<rparr>"
    assume r2: "read_bulk (length rest) pos1 q1 s = Some (Go pos2 ?q s)" and b: "drop pos2 b @ inp = ?tail" "pos2 \<le> length b" "length b \<le> REDIS_INLINE_MAX_SIZE"
    have "waits ?q rest" using q1(1) by (simp add: waits_def)
    then have "\<exists>pos' q' rest1 rest2. bulk_loop (length rest) c pos2 ?q s = Some (Break pos' q' s) \<and> rest = rest1 @ rest2 \<and> args q' = args ?q @ rest1 \<and>
      waits q' rest2 \<and> drop pos' (querybuf q') @ inp = encoded q' rest2 @ tail \<and>
      (rest2 \<noteq> [] \<longrightarrow> length (querybuf q') - pos' < arg_needs q' rest2) \<and> (rest2 = [] \<longrightarrow> length (querybuf q') \<le> REDIS_INLINE_MAX_SIZE)"
      by (rule Cons.IH) (use b in \<open>simp_all add: encoded_def big_fits_def\<close>)
    then obtain pos' q' rest1 rest2 where "bulk_loop (length rest) c pos2 ?q s = Some (Break pos' q' s)" "rest = rest1 @ rest2" "args q' = args ?q @ rest1"
      "waits q' rest2" "drop pos' (querybuf q') @ inp = encoded q' rest2 @ tail"
      "rest2 \<noteq> [] \<longrightarrow> length (querybuf q') - pos' < arg_needs q' rest2" "rest2 = [] \<longrightarrow> length (querybuf q') \<le> REDIS_INLINE_MAX_SIZE" by blast
    then show ?case
      using r r2 q1(2) by (intro exI [of _ pos'] exI [of _ q'] exI [of _ "a # rest1"] exI [of _ rest2]) simp
  next
    assume cut: "read_bulk (length rest) pos1 q1 s = Some (Break pos1 q1 s)" "length (querybuf q1) - pos1 < length a + 2"
    show ?case
      by (rule stuck [of pos1 q1]) (use r cut q1 d in \<open>simp_all add: encoded_def arg_needs_def\<close>)
  qed
  show ?case
  proof (cases "bulklen q = - 1")
    case True
    have small: "length (querybuf q) \<le> REDIS_INLINE_MAX_SIZE" using Cons.prems(4) True by (simp add: big_fits_def)
    have d: "drop pos (querybuf q) @ inp = bulk a @ ?tail" using Cons.prems(2) True by (simp add: encoded_def)
    show ?thesis
    proof (rule read_bulklen_parses [OF d Cons.prems(3) True small a, of c s])
      fix pos1 b
      let ?q = "q\<lparr>querybuf := b, bulklen := int (length a)\<rparr>"
      assume r: "read_bulklen c pos q s = Some (Go pos1 ?q s)" and b: "drop pos1 b @ inp = a @ [13, 10] @ ?tail" "pos1 \<le> length b" "length b \<le> length (querybuf q)"
      show ?thesis
        by (rule body [OF r]) (use b small Cons.prems(1) in \<open>simp_all add: waits_def big_fits_def\<close>)
    next
      assume cut: "read_bulklen c pos q s = Some (Break pos q s)" "length (querybuf q) - pos < 3 + length (nat_dec (length a))"
      show ?thesis by (rule stuck [of pos q]) (use cut True Cons.prems in \<open>simp_all add: arg_needs_def\<close>)
    qed
  next
    case False
    then have bl: "bulklen q = int (length a)" using Cons.prems(1) by (simp add: waits_def)
    have "read_bulklen c pos q s = Some (Go pos q s)" using False by (simp add: read_bulklen_def)
    then show ?thesis
      by (rule body) (use Cons.prems bl False in \<open>simp_all add: encoded_def\<close>)
  qed
qed

text \<open>The connection has \<open>data\<close> before it, which are the requests \<open>cs\<close> but for what has been read of the first one. It waits for the rest of
  an element when the buffer holds less than the element needs.\<close>

definition parsing :: "conn \<Rightarrow> bytes \<Rightarrow> bytes list list \<Rightarrow> bool" where
  "parsing q data cs \<longleftrightarrow>
     multibulklen q = 0 \<and> args q = [] \<and> bulklen q = - 1 \<and> reqtype q \<in> {0, REDIS_REQ_MULTIBULK} \<and> \<not> freed q \<and> data = concat (map request cs) \<or>
     (\<exists>rest cs'. rest \<noteq> [] \<and> waits q rest \<and> cs = (args q @ rest) # cs' \<and> data = encoded q rest @ concat (map request cs'))"

definition needs :: "conn \<Rightarrow> bytes list list \<Rightarrow> nat" where
  "needs q cs =
     (if multibulklen q = 0 then (case cs of [] \<Rightarrow> 1 | av # _ \<Rightarrow> 3 + length (nat_dec (length av)))
      else arg_needs q (drop (length (args q)) (hd cs)))"

lemma needs_pos: "0 < needs q cs"
  by (auto simp: needs_def arg_needs_def split: list.splits)

lemma processMultibulk_parses:
  assumes par: "parsing q (querybuf q @ inp) (av # cs)" and q: "reqtype q = REDIS_REQ_MULTIBULK" and f: "big_fits 0 q" and av: "sendable av"
  obtains (whole) q' where "processMultibulkBuffer c q s = Some (True, q', s)" "args q' = av" "querybuf q' @ inp = concat (map request cs)"
      "length (querybuf q') \<le> REDIS_INLINE_MAX_SIZE" "\<not> freed q'"
  | (cut) q' where "processMultibulkBuffer c q s = Some (False, q', s)" "parsing q' (querybuf q' @ inp) (av # cs)" "length (querybuf q') < needs q' (av # cs)"
proof -
  let ?tail = "concat (map request cs)"
  have loop: thesis
    if r: "(if multibulklen q = 0 then read_multibulklen c q s else Some (Go 0 q s)) = Some (Go pos q1 s)"
      and w: "waits q1 rest" "rest \<noteq> []" "args q1 @ rest = av" and d: "drop pos (querybuf q1) @ inp = encoded q1 rest @ ?tail"
      and p: "pos \<le> length (querybuf q1)" "big_fits pos q1" for pos q1 rest
  proof -
    obtain pos' q' rest1 rest2 where b: "bulk_loop (length rest) c pos q1 s = Some (Break pos' q' s)" "rest = rest1 @ rest2" "args q' = args q1 @ rest1"
        "waits q' rest2" "drop pos' (querybuf q') @ inp = encoded q' rest2 @ ?tail"
        "rest2 \<noteq> [] \<longrightarrow> length (querybuf q') - pos' < arg_needs q' rest2" "rest2 = [] \<longrightarrow> length (querybuf q') \<le> REDIS_INLINE_MAX_SIZE"
      using bulk_loop_parses [OF w(1) d p, of c s] by blast
    let ?q = "q'\<lparr>querybuf := drop pos' (querybuf q')\<rparr>"
    have n: "multibulklen q1 = length rest" "multibulklen q' = length rest2" using w(1) b(4) by (simp_all add: waits_def)
    have e: "processMultibulkBuffer c q s = Some (rest2 = [], ?q, s)"
      unfolding processMultibulkBuffer_def r using n b(1) by simp
    show thesis
    proof (cases "rest2 = []")
      case True
      have "bulklen q' = - 1" "\<not> freed q'" using b(4) True by (simp_all add: waits_def)
      then show thesis using whole [of ?q] e b w(3) True by (simp add: encoded_def)
    next
      case False
      have a: "args ?q @ rest2 = av" using b(2,3) w(3) by simp
      have w2: "waits ?q rest2" using b(4) by (simp add: waits_def)
      have d2: "querybuf ?q @ inp = encoded ?q rest2 @ ?tail" using b(5) by (simp add: encoded_def)
      have "parsing ?q (querybuf ?q @ inp) (av # cs)" unfolding parsing_def using w2 False a d2 by blast
      moreover have "needs ?q (av # cs) = arg_needs q' rest2"
        using n(2) False a [symmetric] by (simp add: needs_def arg_needs_def)
      ultimately show thesis using cut [of ?q] e False b(6) by simp
    qed
  qed
  show thesis
  proof (cases "multibulklen q = 0")
    case True
    have h: "args q = []" "bulklen q = - 1" "\<not> freed q" "querybuf q @ inp = request av @ ?tail"
      using par True by (auto simp: parsing_def waits_def)
    have small: "length (querybuf q) \<le> REDIS_INLINE_MAX_SIZE" using f h(2) by (simp add: big_fits_def)
    show thesis
    proof (rule read_multibulklen_parses [OF h(4,1) small av, of c s])
      fix pos
      let ?q = "q\<lparr>multibulklen := length av, argv_room := length av\<rparr>"
      assume r: "read_multibulklen c q s = Some (Go pos ?q s)" and d: "drop pos (querybuf q) @ inp = concat (map bulk av) @ ?tail" and p: "pos \<le> length (querybuf q)"
      show thesis
        by (rule loop [of pos ?q av]) (use r True h d p av q small in \<open>simp_all add: waits_def sendable_def encoded_def big_fits_def\<close>)
    next
      assume r: "read_multibulklen c q s = Some (Return False q s)" and l: "length (querybuf q) < 3 + length (nat_dec (length av))"
      show thesis
        by (rule cut [of q]) (use r True par l in \<open>simp_all add: processMultibulkBuffer_def needs_def\<close>)
    qed
  next
    case False
    then obtain rest where "rest \<noteq> []" "waits q rest" "av = args q @ rest" "querybuf q @ inp = encoded q rest @ ?tail"
      using par by (auto simp: parsing_def)
    then show thesis by (intro loop [of 0 q rest]) (use False f in simp_all)
  qed
qed

lemma parsing_start:
  assumes "parsing q (querybuf q @ inp) cs" "querybuf q \<noteq> []"
  obtains av cs' where "cs = av # cs'" "reqtype q = 0 \<Longrightarrow> querybuf q ! 0 = 42"
proof -
  consider "reqtype q = 0" "querybuf q @ inp = concat (map request cs)" | "reqtype q \<noteq> 0" "querybuf q @ inp = concat (map request cs)" | rest cs' where "cs = (args q @ rest) # cs'" "reqtype q \<noteq> 0"
    using assms(1) by (auto simp: parsing_def waits_def REDIS_REQ_MULTIBULK_def)
  then show thesis
  proof cases
    case 1
    then obtain av cs' where c: "cs = av # cs'" using assms(2) by (cases cs) auto
    then have "querybuf q ! 0 = 42" using 1(2) assms(2) by (cases "querybuf q") (auto simp: request_def)
    then show thesis using that [OF c] by simp
  next
    case 2
    then show thesis using that assms(2) by (cases cs) auto
  next
    case 3
    then show thesis using that [of "args q @ rest" cs'] by simp
  qed
qed

lemma process_request_multibulk:
  assumes "parsing q (querybuf q @ inp) cs" "querybuf q \<noteq> []"
  shows "process_request g c q s = processMultibulkBuffer c (q\<lparr>reqtype := REDIS_REQ_MULTIBULK\<rparr>) s"
proof -
  have "reqtype q = 0 \<longrightarrow> querybuf q ! 0 = 42" using parsing_start [OF assms] by blast
  moreover have "reqtype q = 0 \<or> reqtype q = REDIS_REQ_MULTIBULK" using assms(1) by (auto simp: parsing_def waits_def)
  moreover have "reqtype q = REDIS_REQ_MULTIBULK \<Longrightarrow> processMultibulkBuffer c (q\<lparr>reqtype := REDIS_REQ_MULTIBULK\<rparr>) s = processMultibulkBuffer c q s"
    by (cases q) simp
  ultimately show ?thesis by (cases "reqtype q = 0") (simp_all add: process_request_def REDIS_REQ_INLINE_def REDIS_REQ_MULTIBULK_def Let_def)
qed

text \<open>How far the commands \<open>cs\<close> have come in the state \<open>s\<close>: to the end, because the connection has stopped, or up to \<open>cs'\<close>.\<close>

definition progress :: "handler \<Rightarrow> (server \<Rightarrow> bool) \<Rightarrow> nat \<Rightarrow> server option \<Rightarrow> bytes \<Rightarrow> conn \<Rightarrow> server \<Rightarrow> bool" where
  "progress pr paused c goal inp q s \<longleftrightarrow>
     \<not> may_process paused c s \<and> goal = Some s \<or>
     (\<exists>cs. (\<forall>av\<in>set cs. sendable av) \<and> parsing q (querybuf q @ inp) cs \<and> length (querybuf q) < needs q cs \<and> goal = serve pr paused c cs s)"

lemma processInputBuffer_parses:
  assumes close: "\<And>s s'. pr c s = Some (False, s') \<Longrightarrow> has_flag s' c REDIS_CLOSE_AFTER_REPLY"
    and "parsing q (querybuf q @ inp) cs" "big_fits 0 q" "\<forall>av\<in>set cs. sendable av"
  shows "case processInputBuffer g pr paused c q s of
     None \<Rightarrow> serve pr paused c cs s = None
   | Some (q', s') \<Rightarrow> progress pr paused c (serve pr paused c cs s) inp q' s'"
  using assms(2-4)
proof (induction "length (querybuf q)" arbitrary: q s cs rule: less_induct)
  case less
  consider "\<not> may_process paused c s" | "may_process paused c s" "querybuf q = []" | "may_process paused c s" "querybuf q \<noteq> []" by blast
  then show ?case
  proof cases
    case 1
    then show ?thesis by (subst processInputBuffer.simps) (simp add: progress_def serve_stopped)
  next
    case 2
    then show ?thesis
      using less.prems needs_pos [of q cs] by (subst processInputBuffer.simps) (auto simp: progress_def)
  next
    case 3
    obtain av cs' where cs: "cs = av # cs'" by (rule parsing_start [OF less.prems(1) 3(2)])
    let ?q = "q\<lparr>reqtype := REDIS_REQ_MULTIBULK\<rparr>"
    have par: "parsing ?q (querybuf ?q @ inp) (av # cs')"
      using less.prems(1) cs by (auto simp: parsing_def waits_def encoded_def)
    have av: "sendable av" using less.prems(3) cs by simp
    have pr: "process_request g c q s = processMultibulkBuffer c ?q s" by (rule process_request_multibulk [OF less.prems(1) 3(2)])
    show ?thesis
    proof (rule processMultibulk_parses [OF par _ _ av, of c s])
      show "big_fits 0 ?q" using less.prems(2) by (simp add: big_fits_def)
    next
      fix q1
      assume r: "processMultibulkBuffer c ?q s = Some (True, q1, s)"
        and q1: "args q1 = av" "querybuf q1 @ inp = concat (map request cs')" "length (querybuf q1) \<le> REDIS_INLINE_MAX_SIZE" "\<not> freed q1"
      let ?e = "pr c (upd_client c (\<lambda>cl. cl\<lparr>argv := av\<rparr>) s)"
      have ne: "args q1 \<noteq> []" using av q1(1) by (simp add: sendable_def)
      show ?thesis
      proof (cases ?e)
        case None
        then show ?thesis
          using 3 ne q1(1) r pr cs by (subst processInputBuffer.simps) simp
      next
        case (Some x)
        obtain dn s2 where x: "x = (dn, s2)" by (cases x)
        show ?thesis
        proof (cases dn)
          case True
          obtain q3 s3 where 3: "resetClient c q1 s2 = (q3, s3)" by fastforce
          have q3: "q3 = q1\<lparr>args := [], reqtype := 0, multibulklen := 0, bulklen := - 1\<rparr>" using reset_simps(1) [of c q1 s2] 3 by simp
          have s3: "s3 = snd (resetClient c new_conn s2)" using 3 snd_reset [of c q1 s2 new_conn] by simp
          have e: "processInputBuffer g pr paused c q s = processInputBuffer g pr paused c q3 s3"
            using \<open>may_process paused c s\<close> \<open>querybuf q \<noteq> []\<close> ne q1(1) r pr Some x True 3 by (subst processInputBuffer.simps) simp
          have sv: "serve pr paused c cs s = serve pr paused c cs' s3"
            using \<open>may_process paused c s\<close> Some x True cs s3 by simp
          have "length (querybuf q3) < length (querybuf q)"
            using process_request_consumes [of g c q s q1 s] r pr \<open>querybuf q \<noteq> []\<close> q3 by simp
          then show ?thesis
            unfolding e sv by (rule less.hyps) (use q1 q3 less.prems(3) cs in \<open>simp_all add: parsing_def big_fits_def\<close>)
        next
          case False
          then have st: "\<not> may_process paused c s2" using close [of _ s2] Some x by (auto simp: may_process_def)
          have "processInputBuffer g pr paused c q1 s2 = Some (q1, s2)" using st by (subst processInputBuffer.simps) simp
          then have "processInputBuffer g pr paused c q s = Some (q1, s2)"
            using 3 ne q1(1) r pr Some x False by (subst processInputBuffer.simps) simp
          then show ?thesis using 3 Some x False cs st by (simp add: progress_def serve_stopped)
        qed
      qed
    next
      fix q1
      assume r: "processMultibulkBuffer c ?q s = Some (False, q1, s)" "parsing q1 (querybuf q1 @ inp) (av # cs')" "length (querybuf q1) < needs q1 (av # cs')"
      then have "processInputBuffer g pr paused c q s = Some (q1, s)"
        using 3 pr by (subst processInputBuffer.simps) simp
      moreover have "progress pr paused c (serve pr paused c cs s) inp q1 s"
        unfolding progress_def using r(2,3) less.prems(3) cs by blast
      ultimately show ?thesis by simp
    qed simp
  qed
qed

text \<open>A read does not overfill the buffer of a connection that waits.\<close>

lemma read_fits:
  assumes par: "parsing q data cs" and stuck: "length (querybuf q) < needs q cs" and cs: "\<forall>av\<in>set cs. sendable av"
    and m: "length xs \<le> readlen q"
  shows "big_fits 0 (q\<lparr>querybuf := querybuf q @ xs\<rparr>)" "length (querybuf q @ xs) \<le> REDIS_MAX_QUERYBUF_LEN" "0 < readlen q"
proof -
  note cdefs = REDIS_IOBUF_LEN_def REDIS_INLINE_MAX_SIZE_def REDIS_MBULK_BIG_ARG_def REDIS_MAX_QUERYBUF_LEN_def
  have dec: "length (nat_dec n) \<le> 20" if "n \<le> 512 * 1024 * 1024" for n using nat_dec_length [of n 20] that by simp
  have "big_fits 0 (q\<lparr>querybuf := querybuf q @ xs\<rparr>) \<and> length (querybuf q @ xs) \<le> REDIS_MAX_QUERYBUF_LEN \<and> 0 < readlen q"
  proof (cases "multibulklen q \<noteq> 0 \<and> bulklen q \<noteq> - 1")
    case False
    have "needs q cs \<le> 23"
    proof (cases "multibulklen q = 0")
      case True
      then show ?thesis using cs dec by (auto simp: needs_def sendable_def split: list.splits)
    next
      case nz: False
      then obtain rest cs' where r: "rest \<noteq> []" "waits q rest" "cs = (args q @ rest) # cs'" using par by (auto simp: parsing_def)
      have "length (hd rest) \<le> 512 * 1024 * 1024" using r(1,2) by (cases rest) (auto simp: waits_def)
      then show ?thesis using False nz r(3) dec by (simp add: needs_def arg_needs_def)
    qed
    moreover have "readlen q = REDIS_IOBUF_LEN" using False by (auto simp: readlen_def remaining_def)
    ultimately show ?thesis using stuck m by (simp add: big_fits_def cdefs)
  next
    case True
    then obtain rest cs' where r: "rest \<noteq> []" "waits q rest" "cs = (args q @ rest) # cs'" using par by (auto simp: parsing_def)
    have b: "bulklen q = int (length (hd rest))" "reqtype q = REDIS_REQ_MULTIBULK" using r(2) True by (auto simp: waits_def)
    have l: "length (hd rest) \<le> 512 * 1024 * 1024" using r(1,2) by (cases rest) (auto simp: waits_def)
    have n: "length (querybuf q) < length (hd rest) + 2" using stuck True r(3) b(1) by (simp add: needs_def arg_needs_def)
    show ?thesis
    proof (cases "length (hd rest) \<ge> REDIS_MBULK_BIG_ARG")
      case big: True
      have "readlen q = min REDIS_IOBUF_LEN (length (hd rest) + 2 - length (querybuf q))" using True b big by (auto simp: readlen_def remaining_def min_def)
      then have "length (querybuf q) + length xs \<le> length (hd rest) + 2" "0 < readlen q" using m n by (auto simp: cdefs)
      then show ?thesis using l b(1) big by (simp add: big_fits_def cdefs)
    next
      case small: False
      have "readlen q = REDIS_IOBUF_LEN" using b(1) small by (simp add: readlen_def remaining_def)
      then show ?thesis using m n small by (simp add: big_fits_def cdefs)
    qed
  qed
  then show "big_fits 0 (q\<lparr>querybuf := querybuf q @ xs\<rparr>)" "length (querybuf q @ xs) \<le> REDIS_MAX_QUERYBUF_LEN" "0 < readlen q" by auto
qed

lemma read_parses:
  assumes close: "\<And>s s'. pr c s = Some (False, s') \<Longrightarrow> has_flag s' c REDIS_CLOSE_AFTER_REPLY"
    and par: "parsing q (querybuf q @ inp) cs" and stuck: "length (querybuf q) < needs q cs" and cs: "\<forall>av\<in>set cs. sendable av" and n: "0 < n"
  shows "case readQueryFromClient g pr paused c n inp q s of
     None \<Rightarrow> serve pr paused c cs s = None
   | Some (inp', q', s') \<Rightarrow> progress pr paused c (serve pr paused c cs s) inp' q' s' \<and> (inp \<noteq> [] \<longrightarrow> length inp' < length inp)"
proof (cases "inp = []")
  case True
  have "0 < readlen q" using read_fits(3) [OF par stuck cs, of "[]"] by simp
  then have "readQueryFromClient g pr paused c n inp q s = Some (inp, q, s)" using True readlen_pos by (simp add: readQueryFromClient_def)
  then show ?thesis using par stuck cs True by (auto simp: progress_def)
next
  case False
  let ?m = "min n (min (readlen q) (length inp))"
  let ?q = "q\<lparr>querybuf := querybuf q @ take ?m inp\<rparr>"
  have "length (take ?m inp) \<le> readlen q" by simp
  note f = read_fits [OF par stuck cs this]
  have m: "0 < readlen q" "0 < ?m" using f(3) n False by auto
  have e: "readQueryFromClient g pr paused c n inp q s = do { (q, s) \<leftarrow> processInputBuffer g pr paused c ?q s; Some (drop ?m inp, q, s) }"
  proof -
    have "\<not> length (querybuf ?q) > REDIS_MAX_QUERYBUF_LEN" "readlen q \<noteq> 0" "?m \<noteq> 0" using f(2) m by auto
    moreover have "0 \<le> remaining q" by (rule readlen_pos [OF m(1)])
    ultimately show ?thesis unfolding readQueryFromClient_def Let_def by (simp only: ensure_bind if_False if_True)
  qed
  have d: "parsing ?q (querybuf ?q @ drop ?m inp) cs" using par by (auto simp: parsing_def waits_def encoded_def)
  note p = processInputBuffer_parses [where pr = pr and c = c and g = g and paused = paused and s = s, OF close d f(1) cs]
  show ?thesis unfolding e using p m(2) False by (auto split: option.splits bind_splits)
qed

lemma receive_stopped: "\<not> may_process paused c s \<Longrightarrow> 0 \<le> remaining q \<Longrightarrow> \<exists>inp' q'. receive g pr paused c ns inp q s = Some (inp', q', s)"
proof (induction ns arbitrary: inp q)
  case (Cons n ns)
  have "processInputBuffer g pr paused c q s = Some (q, s)" for q using Cons.prems by (subst processInputBuffer.simps) simp
  then have "\<exists>inp' q'. readQueryFromClient g pr paused c n inp q s = Some (inp', q', s)" using Cons.prems(2) by (auto simp: readQueryFromClient_def Let_def)
  then obtain inp' q' where "readQueryFromClient g pr paused c n inp q s = Some (inp', q', s)" by blast
  then show ?case using Cons.IH [OF Cons.prems(1) read_room] by auto
qed simp

lemma progress_freed: "progress pr paused c goal inp q s \<Longrightarrow> may_process paused c s \<Longrightarrow> \<not> freed q"
  by (auto simp: progress_def parsing_def waits_def)

lemma receive_parses:
  assumes close: "\<And>s s'. pr c s = Some (False, s') \<Longrightarrow> has_flag s' c REDIS_CLOSE_AFTER_REPLY"
    and "progress pr paused c goal inp q s" "0 \<le> remaining q" "\<forall>n\<in>set ns. 0 < n"
  shows "case receive g pr paused c ns inp q s of
     None \<Rightarrow> goal = None
   | Some (inp', q', s') \<Rightarrow> progress pr paused c goal inp' q' s' \<and> (\<not> may_process paused c s' \<or> inp' = [] \<or> length inp' + length ns \<le> length inp)"
  using assms(2-4)
proof (induction ns arbitrary: inp q s)
  case (Cons n ns)
  show ?case
  proof (cases "may_process paused c s")
    case False
    then have g: "goal = Some s" using Cons.prems(1) by (auto simp: progress_def serve_stopped)
    obtain inp' q' where "receive g pr paused c (n # ns) inp q s = Some (inp', q', s)" using receive_stopped [OF False Cons.prems(2)] by metis
    then show ?thesis using False g by (simp add: progress_def del: receive.simps)
  next
    case True
    have fr: "\<not> freed q" by (rule progress_freed [OF Cons.prems(1) True])
    obtain cs where cs: "\<forall>av\<in>set cs. sendable av" "parsing q (querybuf q @ inp) cs" "length (querybuf q) < needs q cs" "goal = serve pr paused c cs s"
      using Cons.prems(1) True by (auto simp: progress_def)
    have n: "0 < n" using Cons.prems(3) by simp
    note r = read_parses [where pr = pr and c = c and g = g and paused = paused and s = s, OF close cs(2,3,1) n]
    show ?thesis
    proof (cases "readQueryFromClient g pr paused c n inp q s")
      case None
      then show ?thesis using r cs(4) fr by simp
    next
      case (Some x)
      obtain inp1 q1 s1 where x: "x = (inp1, q1, s1)" by (cases x)
      have p: "progress pr paused c goal inp1 q1 s1" "inp \<noteq> [] \<longrightarrow> length inp1 < length inp" using r Some x cs(4) by auto
      have nil: "inp1 = []" if "inp = []" using Some x that by (auto simp: readQueryFromClient_def split: if_splits)
      have e: "receive g pr paused c (n # ns) inp q s = receive g pr paused c ns inp1 q1 s1" using Some x fr by simp
      show ?thesis
        using Cons.IH [OF p(1) read_room [OF Some [unfolded x]]] Cons.prems(3) p(2) nil unfolding e by (cases "inp = []") (auto split: option.splits)
    qed
  qed
qed simp

lemma parsing_complete:
  assumes "parsing q (querybuf q) cs" "length (querybuf q) < needs q cs"
  shows "cs = []"
proof (cases "multibulklen q = 0")
  case True
  then have "querybuf q = concat (map request cs)" using assms(1) by (auto simp: parsing_def waits_def)
  then show ?thesis using assms(2) True by (cases cs) (auto simp: needs_def request_def)
next
  case False
  then obtain rest cs' where r: "rest \<noteq> []" "cs = (args q @ rest) # cs'" "querybuf q = encoded q rest @ concat (map request cs')" "waits q rest"
    using assms(1) by (auto simp: parsing_def)
  then have "arg_needs q rest \<le> length (querybuf q)" by (cases rest) (auto simp: arg_needs_def encoded_def bulk_def)
  then show ?thesis using assms(2) False r(2) by (simp add: needs_def)
qed

lemma command_handler_close:
  assumes "command_handler cf c s = Some (False, s')"
  shows "has_flag s' c REDIS_CLOSE_AFTER_REPLY"
proof -
  obtain name where n: "c < length (clients s)" "arg s c 0 = Some name" "is_quit name" "processCommand cf c s = Some s'"
    using assms by (auto simp: command_handler_def split: bind_splits if_splits)
  then have "s' = set_flags c REDIS_CLOSE_AFTER_REPLY (addReply c Ok s)" by (simp add: processCommand_def)
  then show ?thesis using n(1) by (simp add: has_flag_close set_flags_def addReply_def bit_or_iff)
qed

text \<open>
  C6: Requests arrive as they were sent. A client sends commands, one after the other, in the multi bulk format. However the kernel cuts the
  stream into reads, the server executes exactly these commands with exactly these arguments, in order, up to the first one
  after which the client is closed, blocked or paused; arguments may hold any bytes and be as long as the protocol allows.
\<close>

theorem requests_any_reads:
  assumes "\<forall>av\<in>set cs. sendable av" and "\<forall>n\<in>set ns. 0 < n" and "length (concat (map request cs)) \<le> length ns"
  shows "map_option (\<lambda>(inp, q, s'). s') (receive g (command_handler cf) paused c ns (concat (map request cs)) new_conn s) =
    serve (command_handler cf) paused c cs s"
proof -
  let ?pr = "command_handler cf" and ?inp = "concat (map request cs)"
  have "parsing new_conn (querybuf new_conn @ ?inp) cs" by (simp add: parsing_def new_conn_def)
  then have p: "progress ?pr paused c (serve ?pr paused c cs s) ?inp new_conn s"
    unfolding progress_def using assms(1) needs_pos [of new_conn cs] by (auto simp: new_conn_def)
  have r: "case receive g ?pr paused c ns ?inp new_conn s of
     None \<Rightarrow> serve ?pr paused c cs s = None
   | Some (inp', q', s') \<Rightarrow> progress ?pr paused c (serve ?pr paused c cs s) inp' q' s' \<and>
       (\<not> may_process paused c s' \<or> inp' = [] \<or> length inp' + length ns \<le> length ?inp)"
    by (rule receive_parses [OF _ p _ assms(2)]) (use command_handler_close in \<open>auto simp: remaining_def new_conn_def\<close>)
  show ?thesis
  proof (cases "receive g ?pr paused c ns ?inp new_conn s")
    case None
    then show ?thesis using r by simp
  next
    case (Some x)
    obtain inp' q' s' where x: "x = (inp', q', s')" by (cases x)
    have "serve ?pr paused c cs s = Some s'"
    proof (cases "may_process paused c s'")
      case True
      then have "inp' = [] \<or> length inp' + length ns \<le> length ?inp" using r Some x by simp
      then have "inp' = []" using assms(3) by (metis add_le_same_cancel2 le_trans le_zero_eq length_0_conv)
      then obtain cs' where "parsing q' (querybuf q') cs'" "length (querybuf q') < needs q' cs'" "serve ?pr paused c cs s = serve ?pr paused c cs' s'"
        using r Some x True by (auto simp: progress_def)
      then show ?thesis using parsing_complete by fastforce
    next
      case False
      then show ?thesis using r Some x by (auto simp: progress_def serve_stopped)
    qed
    then show ?thesis using Some x by simp
  qed
qed

theorem requests_any_reads_witness:
  "map_option (\<lambda>(inp, q, s'). replies (clients s' ! 0)) (receive (\<lambda>i. 0) (command_handler default_config) (\<lambda>s. False) 0 (replicate 100 7)
     (concat (map request [[bstr ''ping''], [bstr ''echo'', bstr ''a b'']])) new_conn demo) = Some [Pong, Bulk (bstr ''a b'')]"
proof -
  let ?cs = "[[bstr ''ping''], [bstr ''echo'', bstr ''a b'']]"
  have "length (concat (map request ?cs)) \<le> length (replicate 100 (7 :: nat))" by code_simp
  from requests_any_reads [OF _ _ this, of "\<lambda>i. 0" default_config "\<lambda>s. False" 0 demo]
  have "map_option (\<lambda>(inp, q, s'). s') (receive (\<lambda>i. 0) (command_handler default_config) (\<lambda>s. False) 0 (replicate 100 7) (concat (map request ?cs)) new_conn demo) =
      serve (command_handler default_config) (\<lambda>s. False) 0 ?cs demo" by (simp add: sendable_def del: replicate.simps)
  from arg_cong [OF this, of "map_option (\<lambda>s. replies (clients s ! 0))"]
  have "map_option (\<lambda>(inp, q, s'). replies (clients s' ! 0)) (receive (\<lambda>i. 0) (command_handler default_config) (\<lambda>s. False) 0 (replicate 100 7) (concat (map request ?cs)) new_conn demo) =
      map_option (\<lambda>s. replies (clients s ! 0)) (serve (command_handler default_config) (\<lambda>s. False) 0 ?cs demo)"
    unfolding option.map_comp comp_def by (simp only: prod.case_distrib [of "\<lambda>s. replies (clients s ! 0)"] split_def)
  also have "\<dots> = Some [Pong, Bulk (bstr ''a b'')]" by code_simp
  finally show ?thesis .
qed

text \<open>
  C39: Where an inline command ends matters. A line of an inline command may end in a line feed without a carriage return, but two bytes are removed after
  the line in either case, so that the byte after the line feed, the first one of the next command, is lost.
\<close>

theorem inline_newline_drops_byte:
  assumes "querybuf q = line @ 10 # x # rest" "10 \<notin> set line" "0 \<notin> set line" "line = [] \<or> last line \<noteq> 13" "sdssplitargs g line = Some (Some v)"
  shows "\<exists>q'. processInlineBuffer g c q s = Some (True, q', s) \<and> querybuf q' = rest"
proof -
  have r: "strchr_from (querybuf q) 0 10 = Some (Some (length line))" 
    using strchr_from_found [of 0 "querybuf q" line 10 "x # rest"] assms(1-3) by fastforce
  have l: "\<not> (length line \<noteq> 0 \<and> querybuf q ! (length line - 1) = 13)" using assms(1,4) by (auto simp: nth_append last_conv_nth)
  have t: "take (length line) (querybuf q) = line" "drop (length line + 2) (querybuf q) = rest" using assms(1) by simp_all
  show ?thesis unfolding processInlineBuffer_def r bind.bind_lunit option.case Let_def if_not_P [OF l] t(1) assms(5) using t(2) by simp
qed

lemma sdssplitargs_empty: "sdssplitargs g [] = Some (Some [])"
  unfolding sdssplitargs_def by (subst args_loop.simps) (simp add: skip_blanks.simps cget_def)

theorem inline_newline_drops_byte_witness:
  "\<exists>q'. processInlineBuffer (\<lambda>i. 0) 0 (new_conn\<lparr>querybuf := 10 # bstr ''PING'' @ [13, 10]\<rparr>) demo = Some (True, q', demo) \<and>
     querybuf q' = bstr ''ING'' @ [13, 10]"
  by (rule inline_newline_drops_byte [where line = "[]" and x = 80 and v = "[]"]) (simp_all add: sdssplitargs_empty del: sdssplitargs_def)


lemma demo_paused: "\<not> may_process (\<lambda>s. True) 0 demo"
  by code_simp


end
