(* ===== verification/Spec2Isabelle.thy ===== *)
theory Spec2Isabelle
  imports Intset Dict Dict_Scan Dict_Iter Dict_Hash Numconv Glob Sds Adlist Crc Ziplist_Seq Server_Props Request_Props
begin

text \<open>
  A verification library for Redis 3.0.0-beta2 (\<open>src/redis-3.0.0-beta2/src\<close>), a server that keeps a data set in memory and
  changes it by commands of its clients. The repository holds other programs beside it, which are not modelled.

  \<^bold>\<open>The program.\<close> At the bottom are data structures: dynamic strings (\<open>sds.c\<close>), linked lists (\<open>adlist.c\<close>), hash tables that
  are rehashed step by step (\<open>dict.c\<close>), and the compact encodings of small collections (\<open>intset.c\<close>, \<open>ziplist.c\<close>), with
  helpers for byte order, numbers, patterns and checksums. A database (\<open>db.c\<close>) has a hash table from keys to objects and one
  from keys to expire times; commands such as those of \<open>t_string.c\<close> read and change it. The bytes that a client sends are collected in its query
  buffer and split into commands with their arguments (\<open>networking.c\<close>). \<open>processCommand\<close> of \<open>redis.c\<close> looks a command up,
  checks whether it may run now, and calls it or, in a transaction (\<open>multi.c\<close>), queues it. A client may watch keys; every change of a key
  marks its watchers, and \<open>EXEC\<close> of a marked client does nothing.

  \<^bold>\<open>Conventions.\<close> Memory is a list of bytes (\<open>8 word\<close>); what a fresh allocation holds is a parameter, so no result depends on it.
  An access outside the allocated bytes, a NULL dereference, a failed \<open>assert\<close>, a signed overflow and a loop that does not
  end are the value \<open>None\<close> of the option monad: a theorem that an operation is \<open>Some\<close> is a theorem of memory safety and
  termination. The platform is the 64-bit one of the Makefile's default target; both byte orders are covered. A name that
  starts with an underscore in C starts with \<open>us_\<close> here.

  \<^bold>\<open>Theories, and the code they model.\<close>
  \<^item> \<open>Prelude\<close>: bytes, checked memory accesses, fixed-width integers, and lemmas on lists, options and words. \<open>Ctype\<close>:
    the character classes of C.
  \<^item> \<open>Set_Spec\<close>, \<open>Map_Spec\<close>, \<open>Seq_Spec\<close>, \<open>Buffer_Spec\<close>: the contracts of containers as locales, each with the lemma that any
    sequence of operations behaves as on the abstract value. They are interpreted by \<open>intset.c\<close>; by \<open>dict.c\<close> and the key space of
    \<open>db.c\<close>; by \<open>adlist.c\<close> and \<open>ziplist.c\<close>; and by \<open>sds.c\<close>.
  \<^item> \<open>Endianconv\<close> (\<open>endianconv.c\<close>): the serialised form is little endian on either host.
  \<^item> \<open>Intset\<close> (\<open>intset.c\<close>): the block byte by byte; refinement of finite sets, with the in-place upgrade.
  \<^item> \<open>Dict\<close>, \<open>Dict_Scan\<close>, \<open>Dict_Iter\<close>, \<open>Dict_Hash\<close> (\<open>dict.c\<close>): two tables of chains; refinement of finite maps for every hash function,
    however the rehashing steps interleave; rehashing ends; the cursor of \<open>dictScan\<close> returns every key that stays, and the case in which it
    misses one; iterators visit each entry once; release frees each entry once; properties of the hash functions.
  \<^item> \<open>Numconv\<close>, \<open>Glob\<close> (\<open>util.c\<close>): number conversions are exact and inverse to each other; the matcher decides a reference relation.
  \<^item> \<open>Sds\<close> (\<open>sds.c\<close>): refinement of byte strings within the block, quoting and splitting as inverses.
  \<^item> \<open>Adlist\<close> (\<open>adlist.c\<close>): nodes in an explicit heap; refinement of lists, with nothing else in the heap changed.
  \<^item> \<open>Crc\<close> (\<open>crc16.c\<close>, \<open>crc64.c\<close>, \<open>keyHashSlot\<close> of \<open>cluster.c\<close>): the table-driven checksums are polynomial division.
  \<^item> \<open>Ziplist\<close>, \<open>Ziplist_Layout\<close>, \<open>Ziplist_Ops\<close>, \<open>Ziplist_Seq\<close> (\<open>ziplist.c\<close>): the block byte by byte with the cascading update of
    stored lengths; refinement of lists of strings, and an insertion that reads after the block.
  \<^item> \<open>Server\<close> (\<open>db.c\<close>, parts of \<open>object.c\<close>), \<open>Strings\<close> (\<open>t_string.c\<close>), \<open>Multi\<close> (\<open>multi.c\<close>, \<open>call\<close>, \<open>processCommand\<close> and
    \<open>freeMemoryIfNeeded\<close> of \<open>redis.c\<close>, \<open>createClient\<close> of \<open>networking.c\<close>): the record \<open>server\<close> with databases, clients, clock and
    the list of what is propagated; a definition for each command; \<open>handle_command\<close> processes the arguments of one request.
  \<^item> \<open>Server_Frame\<close>, \<open>Server_Cmds\<close>, \<open>Server_Keys\<close>: weakest preconditions and the relation that each command keeps.
    \<open>Server_Inv\<close>, \<open>Server_Step\<close>: the invariant of the server, the step relation \<open>server_step\<close> (a connection, or a command of any
    client) and its reachable states. \<open>Server_Props\<close>: the properties of the server, and concrete runs.
  \<^item> \<open>Request\<close> (\<open>networking.c\<close>): the record \<open>conn\<close> with the query buffer and the fields of the client that the parser uses, the parsers of inline and
    multi bulk requests, \<open>processInputBuffer\<close> and \<open>readQueryFromClient\<close>, and \<open>receive\<close> for a sequence of reads. \<open>Request_Props\<close>: its properties.

  \<^bold>\<open>What is shown of the server.\<close> In every reachable state the watch tables and the clients agree, the databases are well formed and queues
  hold only what may be queued. Every command that ends has sent one complete reply. A transaction whose watched keys have changed
  is not executed, one with a rejected command is aborted, and any other is executed as a whole. \<open>GET\<close> returns what \<open>SET\<close>
  stored, and \<open>INCR\<close> is exact. Within bounds on the arguments no command fails.
  No bytes make the parser of requests fail, and commands sent in the multi bulk format arrive as they were sent however the stream is cut into
  reads; shown as well are the byte that is lost after an inline command without carriage return, and the client that is freed when it completes
  a large argument during a pause.

  \<^bold>\<open>Bounds.\<close> The refinement of containers holds up to a capacity that is part of each contract: below it no counter of the
  header overflows. That no command fails needs arguments shorter than \<open>2 ^ 30\<close> bytes and numbers below \<open>2 ^ 32\<close>, and a clock within \<open>2 ^ 61\<close>
  milliseconds: beyond, the source has signed overflows and \<open>GETRANGE\<close> reads after the string. Loops are structural
  recursions or have a termination proof; where fuel is used (\<open>dictRehashMilliseconds\<close>, \<open>dictScan\<close> runs) the theorems state that
  it is enough. Eviction ends because each round removes a key.

  \<^bold>\<open>Parameters.\<close> The hash function of a table, the addresses of new nodes, the clock, the node of the cluster that serves a query, the readings
  of the allocator, random choices and the idle times of objects are arguments or fields of the record \<open>config\<close>.

  \<^bold>\<open>Not modelled.\<close> Sockets, the event loop, files, threads and child processes (\<open>ae.c\<close>, \<open>anet.c\<close>, the output buffers
  and the administration of clients of \<open>networking.c\<close>, \<open>bio.c\<close>, \<open>rdb.c\<close>, \<open>aof.c\<close>, \<open>replication.c\<close>, the bus of \<open>cluster.c\<close>, \<open>sentinel.c\<close>) are I/O; disconnection is not a step. The
  commands on lists, sets, hashes and sorted sets, publishing, blocking, scripts (a binding of Lua), monitors, the slow log, statistics and keyspace
  notifications are left out, so the command table is restricted to the modelled commands. Floating point numbers (\<open>d2string\<close>,
  \<open>INCRBYFLOAT\<close>, \<open>long double\<close>) are left out. Reference counts and the sharing of objects are not visible in the model, where values are immutable.
\<close>

end
